(* ===== verification/KsPrelude.thy ===== *)
theory KsPrelude
  imports Main "HOL-Library.Word" "HOL-Library.Multiset"
begin

text \<open>
  Shared vocabulary of the ACPLT/KS development: the machine types (a \<open>long\<close> has 32 bits, as the XDR
  routines require, which move a \<open>long\<close> through a four-byte unit; pointers and \<open>size_t\<close> have 64), the
  hint collections the component theories use, and the list lemmas they share.

  \<^item> \<open>byte\<close> is an octet of an XDR stream, \<open>u32\<close> an XDR unit, \<open>ulong\<close> an address or a
    \<open>uintptr_t\<close>;
  \<^item> \<open>size_sub\<close> and \<open>size_add\<close> are subtraction and addition on \<open>size_t\<close>: they wrap
    below zero and above \<open>SIZE_MAX\<close>, which the sources rely on nowhere but run into in several places.
\<close>

type_synonym byte = "8 word"
type_synonym u32 = "32 word"
type_synonym ulong = "64 word"

named_theorems time_simps "conversions of time stamps to microseconds"
named_theorems chain_simps "pointer chains"
named_theorems xdr_simps "XDR codecs"

subsection \<open>Arithmetic on sizes\<close>

definition size_mod :: nat where
  "size_mod = 18446744073709551616"

definition size_max :: nat where
  "size_max = size_mod - 1"

definition size_sub :: "nat \<Rightarrow> nat \<Rightarrow> nat" where
  "size_sub a b = (if b \<le> a then a - b else size_mod + a - b)"

definition size_add :: "nat \<Rightarrow> nat \<Rightarrow> nat" where
  "size_add a b = (a + b) mod size_mod"

lemma size_sub_le: "b \<le> a \<Longrightarrow> size_sub a b = a - b"
  by (simp add: size_sub_def)

lemma size_add_small: "a + b < size_mod \<Longrightarrow> size_add a b = a + b"
  by (simp add: size_add_def)

lemma unat_of_nat_u32: "n < 2 ^ 32 \<Longrightarrow> unat (of_nat n :: u32) = n"
  by (simp add: unat_of_nat take_bit_nat_eq_self)

lemma unat_of_nat_u64: "n < 2 ^ 64 \<Longrightarrow> unat (of_nat n :: ulong) = n"
  by (simp add: unat_of_nat take_bit_nat_eq_self)

lemma unat_u32_less: "unat (w :: u32) < 2 ^ 32"
  by (rule order_less_le_trans [OF unsigned_less]) simp

subsection \<open>Octets and their nibbles\<close>

lemma byte_split:
  obtains h l where "(c :: byte) = of_nat (16 * h + l)" "h < 16" "l < 16" "unat c = 16 * h + l"
proof -
  have "unat c < 256" using unsigned_less [of c, where 'a = nat] by simp
  moreover have "c = of_nat (16 * (unat c div 16) + unat c mod 16)" by simp
  ultimately show thesis by (intro that [of "unat c div 16" "unat c mod 16"]) auto
qed

lemma ucast_byte: "n < 256 \<Longrightarrow> ucast (of_nat n :: byte) = (of_nat n :: u32)"
  by (rule word_unat_eq_iff [THEN iffD2]) (simp add: unsigned_ucast_eq unat_of_nat take_bit_nat_eq_self)

lemma scast_byte_neg: "128 \<le> n \<Longrightarrow> n < 256 \<Longrightarrow> scast (of_nat n :: byte) = (of_nat (n + 0xFFFFFF00) :: u32)"
proof -
  assume n: "128 \<le> n" "n < 256"
  have u: "uint (of_nat n :: byte) = int n" using n by (simp add: uint_nat unat_of_nat take_bit_nat_eq_self)
  have "int n div 128 = 1" using n by auto
  then have b: "bit (int n) 7" by (simp add: bit_iff_odd)
  have "sint (of_nat n :: byte) = int n - 256"
    using u b n by (simp add: signed_take_bit_eq_take_bit_minus sint_uint take_bit_int_eq_self)
  then have "scast (of_nat n :: byte) = (word_of_int (int n - 256) :: u32)" by (metis scast_eq)
  also have "\<dots> = of_nat (n + 0xFFFFFF00)" by simp
  finally show ?thesis .
qed

lemma scast_byte_pos: "n < 128 \<Longrightarrow> scast (of_nat n :: byte) = (of_nat n :: u32)"
proof -
  assume n: "n < 128"
  have u: "uint (of_nat n :: byte) = int n" using n by (simp add: uint_nat unat_of_nat take_bit_nat_eq_self)
  have "int n div 128 = 0" using n by auto
  then have b: "\<not> bit (int n) 7" by (simp add: bit_iff_odd)
  have "sint (of_nat n :: byte) = int n"
    using u b n by (simp add: signed_take_bit_eq_take_bit_minus sint_uint take_bit_int_eq_self)
  then show ?thesis by (metis scast_eq of_int_of_nat_eq)
qed

lemma drop_bit_4_of_nat: "n < 2 ^ 32 \<Longrightarrow> drop_bit 4 (of_nat n :: u32) = of_nat (n div 16)"
  by (rule word_unat_eq_iff [THEN iffD2]) (simp add: unat_of_nat take_bit_nat_eq_self drop_bit_eq_div unat_div_distrib)

lemma mod_16_of_nat: "n < 2 ^ 32 \<Longrightarrow> (of_nat n :: u32) mod 16 = of_nat (n mod 16)"
  by (rule word_unat_eq_iff [THEN iffD2]) (simp add: unat_of_nat take_bit_nat_eq_self unat_mod_distrib)

lemma less_16_all: "(\<forall>i\<in>set [0..<16]. P i) \<Longrightarrow> n < 16 \<Longrightarrow> P (n::nat)"
  by (simp add: Ball_def)

subsection \<open>Lists and options\<close>

lemma take_Suc_conv_snoc: "i < length xs \<Longrightarrow> take (Suc i) xs = take i xs @ [xs ! i]"
  by (rule take_Suc_conv_app_nth)

lemma drop_eq_nth_Cons: "i < length xs \<Longrightarrow> drop i xs = xs ! i # drop (Suc i) xs"
  by (rule Cons_nth_drop_Suc [symmetric])

lemma mset_update_add:
  assumes "i < length xs"
  shows "add_mset (xs ! i) (mset (xs[i := x])) = add_mset x (mset xs)"
proof -
  have "xs ! i \<in># mset xs" using assms by (simp add: nth_mem_mset)
  then show ?thesis
    by (simp add: mset_update [OF assms])
qed

lemma nth_append_here [simp]: "(xs @ x # ys) ! length xs = x"
  by simp

lemma takeWhile_neq_append:
  "c \<notin> set xs \<Longrightarrow> takeWhile (\<lambda>x. x \<noteq> c) (xs @ c # ys) = xs"
  by (induction xs) auto

lemma takeWhile_neq_id: "c \<notin> set xs \<Longrightarrow> takeWhile (\<lambda>x. x \<noteq> c) xs = xs"
  by (induction xs) auto

lemma not_mem_takeWhile_neq: "c \<notin> set (takeWhile (\<lambda>x. x \<noteq> c) xs)"
  by (induction xs) auto

lemma map_of_insert_middle:
  "k \<notin> fst ` set ys \<Longrightarrow> map_of (ys @ (k, v) # zs) = (map_of (ys @ zs))(k \<mapsto> v)"
  by (induction ys) (auto simp: fun_upd_twist)

lemma map_of_remove_middle:
  "k \<notin> fst ` set ys \<Longrightarrow> k \<notin> fst ` set zs \<Longrightarrow> map_of (ys @ zs) = (map_of (ys @ (k, v) # zs))(k := None)"
proof -
  assume k: "k \<notin> fst ` set ys" "k \<notin> fst ` set zs"
  then have "map_of (ys @ zs) k = None" by (auto simp: map_of_eq_None_iff simp del: map_of_append)
  then have "(map_of (ys @ zs))(k := None) = map_of (ys @ zs)" by (rule fun_upd_idem)
  then show ?thesis using map_of_insert_middle [OF k(1), of v zs] by simp
qed

text \<open>Signed reading of the words that stand for \<open>int\<close> and \<open>long\<close>.\<close>

lemma sint_of_int_u32: "- (2 ^ 31) \<le> i \<Longrightarrow> i < 2 ^ 31 \<Longrightarrow> sint (word_of_int i :: u32) = i"
  by (simp add: signed_of_int signed_take_bit_int_eq_self)

lemma sint_positive:
  assumes "unat w < 2 ^ 31"
  shows "sint (w :: u32) = int (unat w)"
proof -
  define k where "k = unat w"
  have "k < 2147483648" using assms by (simp add: k_def)
  then have "- (2 ^ 31) \<le> int k" "int k < 2 ^ 31" by simp_all
  from sint_of_int_u32 [OF this] show ?thesis by (simp add: k_def)
qed

end
