(* ===== verification/PltTime.thy ===== *)
theory PltTime
  imports KsPrelude
begin

text \<open>
  Time stamps and time spans: \<open>plt/include/plt/time.h\<close>. Both classes hold seconds and
  microseconds in \<open>long\<close> fields; \<open>normalize\<close> brings the microseconds into the range
  0 to 999999 with two loops, which are the recursive functions here. The fields are
  \<open>int\<close>: here overflow of a \<open>long\<close>, undefined in the source, is not modelled. Where the code adds a number that comes over the
  network to the clock, \<open>time_now\<close> of \<open>KsManager\<close> wraps around at 32 bits.

  The specification is \<open>us_of\<close>, the number of microseconds a stamp stands for: every
  operation is the expected one on that number, every result is in canonical form and
  the comparison operators are the order of these numbers.
\<close>

record timeval =
  tv_sec :: int
  tv_usec :: int

definition us_of :: "timeval \<Rightarrow> int" where
  "us_of t = tv_sec t * 1000000 + tv_usec t"

subsection \<open>normalize\<close>

text \<open>The two loops, \<open>while (tv_usec >= 1000000)\<close> and \<open>while (tv_usec < 0)\<close>.\<close>

function norm_down :: "timeval \<Rightarrow> timeval" where
  "norm_down t =
     (if tv_usec t \<ge> 1000000
      then norm_down (t\<lparr>tv_usec := tv_usec t - 1000000, tv_sec := tv_sec t + 1\<rparr>) else t)"
  by pat_completeness auto
termination
  by (relation "measure (\<lambda>t. nat (tv_usec t))") auto

function norm_up :: "timeval \<Rightarrow> timeval" where
  "norm_up t =
     (if tv_usec t < 0
      then norm_up (t\<lparr>tv_usec := tv_usec t + 1000000, tv_sec := tv_sec t - 1\<rparr>) else t)"
  by pat_completeness auto
termination
  by (relation "measure (\<lambda>t. nat (- tv_usec t))") auto

declare norm_down.simps [simp del] norm_up.simps [simp del]

text \<open>\<open>PltTimeSpan::normalize\<close> reduces first, \<open>PltTime::normalize\<close> borrows first.\<close>

definition span_normalize :: "timeval \<Rightarrow> timeval" where
  "span_normalize t = norm_up (norm_down t)"

definition time_normalize :: "timeval \<Rightarrow> timeval" where
  "time_normalize t = norm_down (norm_up t)"

text \<open>\<open>invariant()\<close> of both classes.\<close>

definition span_invariant :: "timeval \<Rightarrow> bool" where
  "span_invariant t \<longleftrightarrow> 0 \<le> tv_usec t \<and> tv_usec t < 1000000"

definition time_invariant :: "timeval \<Rightarrow> bool" where
  "time_invariant t \<longleftrightarrow> 0 \<le> tv_usec t \<and> tv_usec t < 1000000"

subsection \<open>Constructors and operators\<close>

definition mk_span :: "int \<Rightarrow> int \<Rightarrow> timeval" where
  "mk_span s u = span_normalize \<lparr>tv_sec = s, tv_usec = u\<rparr>"

definition mk_time :: "int \<Rightarrow> int \<Rightarrow> timeval" where
  "mk_time s u = time_normalize \<lparr>tv_sec = s, tv_usec = u\<rparr>"

definition span_add :: "timeval \<Rightarrow> timeval \<Rightarrow> timeval" where
  "span_add t ts = span_normalize (t\<lparr>tv_sec := tv_sec t + tv_sec ts, tv_usec := tv_usec t + tv_usec ts\<rparr>)"

definition span_sub :: "timeval \<Rightarrow> timeval \<Rightarrow> timeval" where
  "span_sub t ts = span_normalize (t\<lparr>tv_sec := tv_sec t - tv_sec ts, tv_usec := tv_usec t - tv_usec ts\<rparr>)"

definition time_add :: "timeval \<Rightarrow> timeval \<Rightarrow> timeval" where
  "time_add t u = time_normalize (t\<lparr>tv_usec := tv_usec t + tv_usec u, tv_sec := tv_sec t + tv_sec u\<rparr>)"

definition time_add_span :: "timeval \<Rightarrow> timeval \<Rightarrow> timeval" where
  "time_add_span t ts = time_normalize (t\<lparr>tv_usec := tv_usec t + tv_usec ts, tv_sec := tv_sec t + tv_sec ts\<rparr>)"

definition borrow :: "timeval \<Rightarrow> timeval \<Rightarrow> timeval" where
  "borrow t u =
     (if tv_usec t < tv_usec u
      then t\<lparr>tv_usec := tv_usec t + 1000000, tv_sec := tv_sec t - 1\<rparr> else t)"

definition time_sub :: "timeval \<Rightarrow> timeval \<Rightarrow> timeval" where
  "time_sub t u =
     (let t' = borrow t u
      in time_normalize (t'\<lparr>tv_usec := tv_usec t' - tv_usec u, tv_sec := tv_sec t' - tv_sec u\<rparr>))"

definition time_sub_span :: "timeval \<Rightarrow> timeval \<Rightarrow> timeval" where
  "time_sub_span t ts =
     (let t' = borrow t ts
      in time_normalize (t'\<lparr>tv_usec := tv_usec t' - tv_usec ts, tv_sec := tv_sec t' - tv_sec ts\<rparr>))"

text \<open>The free operators on a stamp and a span, in either order of the operands.\<close>

definition plus_time_span :: "timeval \<Rightarrow> timeval \<Rightarrow> timeval" where
  "plus_time_span t ts = mk_time (tv_sec t + tv_sec ts) (tv_usec t + tv_usec ts)"

definition plus_span_time :: "timeval \<Rightarrow> timeval \<Rightarrow> timeval" where
  "plus_span_time ts t = mk_time (tv_sec t + tv_sec ts) (tv_usec t + tv_usec ts)"

definition minus_time_span :: "timeval \<Rightarrow> timeval \<Rightarrow> timeval" where
  "minus_time_span t ts = mk_time (tv_sec t - tv_sec ts) (tv_usec t - tv_usec ts)"

definition minus_span_time :: "timeval \<Rightarrow> timeval \<Rightarrow> timeval" where
  "minus_span_time ts t = mk_time (tv_sec t - tv_sec ts) (tv_usec t - tv_usec ts)"

definition time_is_zero :: "timeval \<Rightarrow> bool" where
  "time_is_zero t \<longleftrightarrow> tv_usec t = 0 \<and> tv_sec t = 0"

subsection \<open>Comparison\<close>

definition time_le :: "timeval \<Rightarrow> timeval \<Rightarrow> bool" where
  "time_le a b \<longleftrightarrow> tv_sec a < tv_sec b \<or> (tv_sec a = tv_sec b \<and> tv_usec a \<le> tv_usec b)"

definition time_eq :: "timeval \<Rightarrow> timeval \<Rightarrow> bool" where
  "time_eq a b \<longleftrightarrow> tv_usec a = tv_usec b \<and> tv_sec a = tv_sec b"

definition time_ne :: "timeval \<Rightarrow> timeval \<Rightarrow> bool" where
  "time_ne a b \<longleftrightarrow> \<not> time_eq a b"

definition time_ge :: "timeval \<Rightarrow> timeval \<Rightarrow> bool" where
  "time_ge a b \<longleftrightarrow> time_le b a"

definition time_gt :: "timeval \<Rightarrow> timeval \<Rightarrow> bool" where
  "time_gt a b \<longleftrightarrow> \<not> time_le a b"

definition time_lt :: "timeval \<Rightarrow> timeval \<Rightarrow> bool" where
  "time_lt a b \<longleftrightarrow> \<not> time_le b a"

definition span_eq :: "timeval \<Rightarrow> timeval \<Rightarrow> bool" where
  "span_eq a b \<longleftrightarrow> tv_sec a = tv_sec b \<and> tv_usec a = tv_usec b"

definition span_ne :: "timeval \<Rightarrow> timeval \<Rightarrow> bool" where
  "span_ne a b \<longleftrightarrow> \<not> span_eq a b"

definition span_lt :: "timeval \<Rightarrow> timeval \<Rightarrow> bool" where
  "span_lt a b \<longleftrightarrow> tv_sec a < tv_sec b \<or> (tv_sec a = tv_sec b \<and> tv_usec a < tv_usec b)"

definition span_gt :: "timeval \<Rightarrow> timeval \<Rightarrow> bool" where
  "span_gt a b \<longleftrightarrow> tv_sec a > tv_sec b \<or> (tv_sec a = tv_sec b \<and> tv_usec a > tv_usec b)"

definition span_le :: "timeval \<Rightarrow> timeval \<Rightarrow> bool" where
  "span_le a b \<longleftrightarrow> tv_sec a < tv_sec b \<or> (tv_sec a = tv_sec b \<and> tv_usec a \<le> tv_usec b)"

definition span_ge :: "timeval \<Rightarrow> timeval \<Rightarrow> bool" where
  "span_ge a b \<longleftrightarrow> tv_sec a > tv_sec b \<or> (tv_sec a = tv_sec b \<and> tv_usec a \<ge> tv_usec b)"

subsection \<open>Every operation is the operation on microseconds, in canonical form\<close>

lemma us_of_norm_down [time_simps]: "us_of (norm_down t) = us_of t"
proof (induction t rule: norm_down.induct)
  case (1 t)
  then show ?case by (subst norm_down.simps) (simp add: us_of_def)
qed

lemma us_of_norm_up [time_simps]: "us_of (norm_up t) = us_of t"
proof (induction t rule: norm_up.induct)
  case (1 t)
  then show ?case by (subst norm_up.simps) (simp add: us_of_def)
qed

lemma norm_down_lt: "tv_usec (norm_down t) < 1000000"
proof (induction t rule: norm_down.induct)
  case (1 t)
  then show ?case by (subst norm_down.simps) simp
qed

lemma norm_down_nonneg: "0 \<le> tv_usec t \<Longrightarrow> 0 \<le> tv_usec (norm_down t)"
proof (induction t rule: norm_down.induct)
  case (1 t)
  then show ?case by (subst norm_down.simps) simp
qed

lemma norm_up_nonneg: "0 \<le> tv_usec (norm_up t)"
proof (induction t rule: norm_up.induct)
  case (1 t)
  then show ?case by (subst norm_up.simps) simp
qed

lemma norm_up_lt: "tv_usec t < 1000000 \<Longrightarrow> tv_usec (norm_up t) < 1000000"
proof (induction t rule: norm_up.induct)
  case (1 t)
  then show ?case by (subst norm_up.simps) simp
qed

lemma us_of_normalize [time_simps]:
  "us_of (span_normalize t) = us_of t" "us_of (time_normalize t) = us_of t"
  by (simp_all add: span_normalize_def time_normalize_def time_simps)

lemma normalize_invariant [simp]:
  "span_invariant (span_normalize t)" "time_invariant (time_normalize t)"
  by (simp_all add: span_invariant_def time_invariant_def span_normalize_def time_normalize_def
      norm_down_lt norm_down_nonneg norm_up_nonneg norm_up_lt)

text \<open>A canonical stamp is determined by its number of microseconds.\<close>

lemma canonical_div_mod:
  assumes "time_invariant t"
  shows "tv_sec t = us_of t div 1000000" "tv_usec t = us_of t mod 1000000"
  using assms by (simp_all add: us_of_def time_invariant_def)

lemma canonical_eqI:
  fixes a b :: timeval
  assumes "time_invariant a" "time_invariant b" "us_of a = us_of b"
  shows "a = b"
  using canonical_div_mod [OF assms(1)] canonical_div_mod [OF assms(2)] assms(3) by simp

lemma span_time_invariant: "span_invariant = time_invariant"
  by (rule ext) (simp add: span_invariant_def time_invariant_def)

lemma normalize_unique: "span_normalize t = time_normalize t"
  using canonical_eqI [of "span_normalize t" "time_normalize t"] normalize_invariant
  by (simp add: time_simps span_time_invariant)

text \<open>The order of canonical stamps is the order of their microseconds.\<close>

lemma time_le_us: "time_invariant a \<Longrightarrow> time_invariant b \<Longrightarrow> time_le a b \<longleftrightarrow> us_of a \<le> us_of b"
  unfolding time_le_def us_of_def time_invariant_def by linarith

lemma time_eq_iff: "time_eq a b \<longleftrightarrow> (a::timeval) = b"
  by (auto simp: time_eq_def)

lemma time_eq_us: "time_invariant a \<Longrightarrow> time_invariant b \<Longrightarrow> time_eq a b \<longleftrightarrow> us_of a = us_of b"
  by (auto simp: time_eq_iff intro: canonical_eqI)

lemma span_cmp: "span_eq = time_eq" "span_le = time_le"
  by (auto simp: fun_eq_iff span_eq_def time_eq_def span_le_def time_le_def)

lemma us_of_borrow [time_simps]: "us_of (borrow t u) = us_of t"
  by (simp add: borrow_def us_of_def)

lemmas time_op_defs = mk_span_def mk_time_def span_add_def span_sub_def time_add_def
  time_add_span_def time_sub_def time_sub_span_def plus_time_span_def plus_span_time_def
  minus_time_span_def minus_span_time_def Let_def

lemma us_of_shift [time_simps]:
  "us_of (t\<lparr>tv_usec := tv_usec t + b, tv_sec := tv_sec t + a\<rparr>) = us_of t + (a * 1000000 + b)"
  "us_of (t\<lparr>tv_usec := tv_usec t - b, tv_sec := tv_sec t - a\<rparr>) = us_of t - (a * 1000000 + b)"
  by (simp_all add: us_of_def)

text \<open>
  Adding and subtracting stamps and spans, with the carry and borrow loops of
  \<open>normalize\<close> and the explicit borrow of \<open>operator -=\<close>, is addition and subtraction of
  microseconds, and every result is canonical, whatever the fields of the operands were.
\<close>

theorem time_arithmetic:
  "us_of (time_add t u) = us_of t + us_of u \<and> time_invariant (time_add t u)
   \<and> us_of (time_sub t u) = us_of t - us_of u \<and> time_invariant (time_sub t u)
   \<and> us_of (time_add_span t u) = us_of t + us_of u \<and> time_invariant (time_add_span t u)
   \<and> us_of (time_sub_span t u) = us_of t - us_of u \<and> time_invariant (time_sub_span t u)
   \<and> us_of (plus_time_span t u) = us_of t + us_of u \<and> time_invariant (plus_time_span t u)
   \<and> us_of (minus_time_span t u) = us_of t - us_of u \<and> time_invariant (minus_time_span t u)
   \<and> us_of (span_add t u) = us_of t + us_of u \<and> span_invariant (span_add t u)
   \<and> us_of (span_sub t u) = us_of t - us_of u \<and> span_invariant (span_sub t u)"
  by (simp add: time_op_defs us_of_normalize us_of_shift us_of_borrow)
     (simp add: us_of_def)

text \<open>
  On canonical stamps, as every operation returns them, the six comparison
  operators are the order of the instants: in particular \<open>time_lt\<close>, which is defined as the
  negation of the converse \<open>time_le\<close>, is the strict order also within one second.
\<close>

theorem time_comparison:
  assumes "time_invariant a" and "time_invariant b"
  shows "time_le a b = (us_of a \<le> us_of b) \<and> time_lt a b = (us_of a < us_of b)
    \<and> time_ge a b = (us_of a \<ge> us_of b) \<and> time_gt a b = (us_of a > us_of b)
    \<and> time_eq a b = (us_of a = us_of b) \<and> time_ne a b = (us_of a \<noteq> us_of b)"
  using time_le_us [OF assms] time_le_us [OF assms(2) assms(1)] time_eq_us [OF assms]
  by (auto simp: time_lt_def time_ge_def time_gt_def time_ne_def)

theorem time_comparison_witness:
  "time_lt \<lparr>tv_sec = 5, tv_usec = 10\<rparr> \<lparr>tv_sec = 5, tv_usec = 20\<rparr>"
  using time_comparison [of "\<lparr>tv_sec = 5, tv_usec = 10\<rparr>" "\<lparr>tv_sec = 5, tv_usec = 20\<rparr>"]
  by (simp add: time_invariant_def us_of_def)

text \<open>
  \<open>operator - (const PltTimeSpan &, const PltTime &)\<close> has its operands exchanged: it
  returns the stamp minus the span.
\<close>

lemma minus_span_time_exchanged: "minus_span_time ts t = minus_time_span t ts"
  by (simp add: minus_span_time_def minus_time_span_def)

end
