(* ===== verification/PltPriorityQueue.thy ===== *)
theory PltPriorityQueue
  imports KsPrelude
begin

text \<open>
  The priority queue \<open>PltPriorityQueue<T>\<close> of \<open>plt/include/plt/priorityqueue.h\<close> and
  \<open>plt/include/plt/priorityqueue_impl.h\<close>, a binary heap in an array that only grows. The server's timer
  queue (\<open>ks/src/svrbase.cpp\<close>) is an instance of it: its elements are event pointers that compare by
  trigger time, so two different events may be equal. Here an element has any type
  and compares by \<open>key\<close>, a parameter of every operation that compares.

  A cell of the array is \<open>None\<close> until an element is stored in it (a default-constructed
  \<open>PltPtrComparable\<close>, a null pointer, which a comparison dereferences); a cell keeps its
  element when the queue shrinks below it. An operation that compares a \<open>None\<close> cell, or reads or
  writes past the array, faults: its result is \<open>None\<close>.
\<close>

record 'e pq =
  pq_growsize :: nat
  pq_capacity :: nat
  pq_size :: nat
  pq_elems :: "'e option list"

definition cell :: "'e option list \<Rightarrow> nat \<Rightarrow> 'e option" where
  "cell es i = (if i < length es then es ! i else None)"

subsection \<open>Operations\<close>

definition leftChild :: "nat \<Rightarrow> nat" where
  "leftChild i = 2 * i + 1"

definition rightChild :: "nat \<Rightarrow> nat" where
  "rightChild i = 2 * i + 2"

definition parent :: "nat \<Rightarrow> nat" where
  "parent i = size_sub i 1 div 2"

text \<open>\<open>grow\<close>; \<open>mem\<close> says whether \<open>new\<close> delivers.\<close>

definition pq_grow :: "bool \<Rightarrow> nat \<Rightarrow> 'e pq \<Rightarrow> bool \<times> 'e pq" where
  "pq_grow mem cap q =
     (if \<not> mem then (False, q)
      else (True, q\<lparr>pq_capacity := cap,
                    pq_elems := take (pq_size q) (pq_elems q) @ replicate (cap - pq_size q) None\<rparr>))"

definition pq_new :: "bool \<Rightarrow> nat \<Rightarrow> 'e pq" where
  "pq_new mem growsize =
     snd (pq_grow mem growsize
       \<lparr>pq_growsize = growsize, pq_capacity = 0, pq_size = 0, pq_elems = []\<rparr>)"

definition pq_isEmpty :: "'e pq \<Rightarrow> bool" where
  "pq_isEmpty q \<longleftrightarrow> pq_size q = 0"

definition pq_peek :: "'e pq \<Rightarrow> 'e option" where
  "pq_peek q = (if pq_isEmpty q then None else cell (pq_elems q) 0)"

text \<open>The smaller child of \<open>k\<close>, and the loop and the final store of \<open>downheap\<close>.\<close>

definition smaller_child :: "('e \<Rightarrow> 'k::linorder) \<Rightarrow> nat \<Rightarrow> 'e option list \<Rightarrow> nat \<Rightarrow> nat option" where
  "smaller_child key n es k =
     (let lc = leftChild k; rc = lc + 1
      in if rc < n
         then (case (cell es rc, cell es lc) of
                 (Some r, Some l) \<Rightarrow> Some (if key r < key l then rc else lc)
               | _ \<Rightarrow> None)
         else Some lc)"

function downheap_loop ::
  "('e \<Rightarrow> 'k::linorder) \<Rightarrow> nat \<Rightarrow> nat \<Rightarrow> 'e option list \<Rightarrow> nat \<Rightarrow> 'e \<Rightarrow> ('e option list \<times> nat) option" where
  "downheap_loop key n last_parent es k v =
     (if k \<le> last_parent
      then (case smaller_child key n es k of
              None \<Rightarrow> None
            | Some j \<Rightarrow>
                (case cell es j of
                   None \<Rightarrow> None
                 | Some e \<Rightarrow>
                     if key v \<le> key e then Some (es, k)
                     else downheap_loop key n last_parent (es[k := Some e]) j v))
      else Some (es, k))"
  by pat_completeness auto
termination
  by (relation "measure (\<lambda>(key, n, lp, es, k, v). length es - k)")
     (auto simp: smaller_child_def cell_def leftChild_def Let_def split: if_splits option.splits)

declare downheap_loop.simps [simp del]

definition downheap :: "('e \<Rightarrow> 'k::linorder) \<Rightarrow> nat \<Rightarrow> 'e \<Rightarrow> 'e pq \<Rightarrow> 'e pq option" where
  "downheap key k v q =
     (case downheap_loop key (pq_size q) (parent (size_sub (pq_size q) 1)) (pq_elems q) k v of
        None \<Rightarrow> None
      | Some (es, k') \<Rightarrow>
          if k' < length es then Some (q\<lparr>pq_elems := es[k' := Some v]\<rparr>) else None)"

text \<open>The loop of \<open>add\<close> that moves the free place up to the insertion point.\<close>

fun upheap_loop ::
  "('e \<Rightarrow> 'k::linorder) \<Rightarrow> 'e option list \<Rightarrow> nat \<Rightarrow> 'e \<Rightarrow> ('e option list \<times> nat) option" where
  "upheap_loop key es 0 x = Some (es, 0)"
| "upheap_loop key es (Suc n) x =
     (let i = Suc n; j = n div 2
      in case cell es j of
           None \<Rightarrow> None
         | Some e \<Rightarrow> if key x < key e then upheap_loop key (es[i := Some e]) j x else Some (es, i))"

definition pq_add :: "('e \<Rightarrow> 'k::linorder) \<Rightarrow> bool \<Rightarrow> 'e \<Rightarrow> 'e pq \<Rightarrow> (bool \<times> 'e pq) option" where
  "pq_add key mem x q =
     (let (ok, q1) = (if pq_size q = pq_capacity q
                      then pq_grow mem (pq_capacity q + pq_growsize q) q else (True, q))
      in if \<not> ok then Some (False, q1)
         else (case upheap_loop key (pq_elems q1) (pq_size q1) x of
                 None \<Rightarrow> None
               | Some (es, i) \<Rightarrow>
                   if i < length es
                   then Some (True, q1\<lparr>pq_size := pq_size q1 + 1, pq_elems := es[i := Some x]\<rparr>)
                   else None))"

definition pq_removeFirst :: "('e \<Rightarrow> 'k::linorder) \<Rightarrow> 'e pq \<Rightarrow> ('e \<times> 'e pq) option" where
  "pq_removeFirst key q =
     (if pq_isEmpty q then None
      else (case cell (pq_elems q) 0 of
              None \<Rightarrow> None
            | Some x \<Rightarrow>
                let q1 = q\<lparr>pq_size := pq_size q - 1\<rparr>
                in if 0 < pq_size q1
                   then (case cell (pq_elems q1) (pq_size q1) of
                           None \<Rightarrow> None
                         | Some v \<Rightarrow>
                             (case downheap key 0 v q1 of None \<Rightarrow> None | Some q2 \<Rightarrow> Some (x, q2)))
                   else Some (x, q1)))"

text \<open>
  \<open>locate\<close> descends into a subtree only when its root does not exceed the element; not
  found is \<open>a_size\<close>. The recursion is on the distance to the end of the heap.
\<close>

function pq_locate :: "('e \<Rightarrow> 'k::linorder) \<Rightarrow> nat \<Rightarrow> 'e option list \<Rightarrow> nat \<Rightarrow> 'e \<Rightarrow> nat option" where
  "pq_locate key n es node elem =
     (case cell es node of
        None \<Rightarrow> None
      | Some e \<Rightarrow>
          if key elem = key e then Some node
          else if leftChild node < n
          then (case cell es (leftChild node) of
                  None \<Rightarrow> None
                | Some l \<Rightarrow>
                    (case (if key l \<le> key elem then pq_locate key n es (leftChild node) elem
                           else Some n) of
                       None \<Rightarrow> None
                     | Some lfound \<Rightarrow>
                         if lfound < n then Some lfound
                         else if rightChild node < n
                         then (case cell es (rightChild node) of
                                 None \<Rightarrow> None
                               | Some r \<Rightarrow>
                                   if key r \<le> key elem
                                   then (case pq_locate key n es (rightChild node) elem of
                                           None \<Rightarrow> None
                                         | Some rfound \<Rightarrow>
                                             if rfound \<noteq> 0 then Some rfound else Some n)
                                   else Some n)
                         else Some n))
          else Some n)"
  by pat_completeness auto
termination
  by (relation "measure (\<lambda>(key, n, es, node, elem). n - node)")
     (auto simp: leftChild_def rightChild_def)

declare pq_locate.simps [simp del]

definition pq_remove :: "('e \<Rightarrow> 'k::linorder) \<Rightarrow> 'e \<Rightarrow> 'e pq \<Rightarrow> (bool \<times> 'e pq) option" where
  "pq_remove key elem q =
     (case pq_locate key (pq_size q) (pq_elems q) 0 elem of
        None \<Rightarrow> None
      | Some loc \<Rightarrow>
          if loc < pq_size q
          then (let q1 = q\<lparr>pq_size := pq_size q - 1\<rparr>
                in if 0 < pq_size q1 \<and> loc < pq_size q1
                   then (case cell (pq_elems q1) (pq_size q1) of
                           None \<Rightarrow> None
                         | Some v \<Rightarrow>
                             (case downheap key loc v q1 of
                                None \<Rightarrow> None
                              | Some q2 \<Rightarrow> Some (True, q2)))
                   else Some (True, q1))
          else Some (False, q))"

text \<open>\<open>invariant()\<close>: the order check compares every node with its children.\<close>

definition pq_ordered :: "('e \<Rightarrow> 'k::linorder) \<Rightarrow> nat \<Rightarrow> 'e option list \<Rightarrow> bool" where
  "pq_ordered key n es \<longleftrightarrow>
     (\<forall>i < (n + 1) div 2.
        (leftChild i < n \<longrightarrow> key (the (es ! i)) \<le> key (the (es ! leftChild i))) \<and>
        (rightChild i < n \<longrightarrow> key (the (es ! i)) \<le> key (the (es ! rightChild i))))"

definition pq_invariant :: "('e \<Rightarrow> 'k::linorder) \<Rightarrow> 'e pq \<Rightarrow> bool" where
  "pq_invariant key q \<longleftrightarrow>
     pq_size q \<le> pq_capacity q \<and> length (pq_elems q) = pq_capacity q \<and> 0 < pq_growsize q \<and>
     (\<forall>i < pq_size q. pq_elems q ! i \<noteq> None) \<and>
     pq_ordered key (pq_size q) (pq_elems q)"

text \<open>The elements the queue holds, and the iteration over them by \<open>PltPQIterator\<close>.\<close>

definition pq_list :: "'e pq \<Rightarrow> 'e list" where
  "pq_list q = map the (take (pq_size q) (pq_elems q))"

definition pq_mset :: "'e pq \<Rightarrow> 'e multiset" where
  "pq_mset q = mset (pq_list q)"

subsection \<open>Heap order around a free place\<close>

definition filled :: "nat \<Rightarrow> 'e option list \<Rightarrow> bool" where
  "filled n es \<longleftrightarrow> n \<le> length es \<and> (\<forall>i < n. es ! i \<noteq> None)"

abbreviation (input) K :: "('e \<Rightarrow> 'k) \<Rightarrow> 'e option list \<Rightarrow> nat \<Rightarrow> 'k" where
  "K key es i \<equiv> key (the (es ! i))"

text \<open>
  While an operation moves the free place \<open>k\<close>, the order holds between all other nodes,
  and across the place between its parent and its children.
\<close>

definition hole :: "('e \<Rightarrow> 'k::linorder) \<Rightarrow> nat \<Rightarrow> 'e option list \<Rightarrow> nat \<Rightarrow> bool" where
  "hole key n es k \<longleftrightarrow>
     (\<forall>i. 0 < i \<and> i < n \<and> i \<noteq> k \<and> (i - 1) div 2 \<noteq> k \<longrightarrow> K key es ((i - 1) div 2) \<le> K key es i) \<and>
     (\<forall>i. 0 < i \<and> i < n \<and> (i - 1) div 2 = k \<and> 0 < k \<longrightarrow> K key es ((k - 1) div 2) \<le> K key es i)"

lemma pq_ordered_parent:
  "pq_ordered key n es \<longleftrightarrow> (\<forall>i. 0 < i \<and> i < n \<longrightarrow> K key es ((i - 1) div 2) \<le> K key es i)"
proof
  assume o: "pq_ordered key n es"
  show "\<forall>i. 0 < i \<and> i < n \<longrightarrow> K key es ((i - 1) div 2) \<le> K key es i"
  proof (intro allI impI)
    fix i assume i: "0 < i \<and> i < n"
    let ?p = "(i - 1) div 2"
    from i have "?p < (n + 1) div 2" and "i = leftChild ?p \<or> i = rightChild ?p"
      by (auto simp: leftChild_def rightChild_def)
    with o i show "K key es ?p \<le> K key es i"
      unfolding pq_ordered_def by metis
  qed
next
  assume h: "\<forall>i. 0 < i \<and> i < n \<longrightarrow> K key es ((i - 1) div 2) \<le> K key es i"
  have "(leftChild i - 1) div 2 = i" "(rightChild i - 1) div 2 = i" for i
    by (simp_all add: leftChild_def rightChild_def)
  with h show "pq_ordered key n es"
    unfolding pq_ordered_def by (metis leftChild_def rightChild_def add_gr_0 zero_less_numeral zero_less_one)
qed

lemma filled_update: "filled n es \<Longrightarrow> filled n (es[k := Some x])"
  by (cases "k < length es") (auto simp: filled_def nth_list_update)

lemma cell_filled: "filled n es \<Longrightarrow> i < n \<Longrightarrow> cell es i = Some (the (es ! i))"
  by (auto simp: filled_def cell_def)

lemma mset_move_hole:
  assumes "j < n" "k < n" "n \<le> length es" "j \<noteq> k"
  shows "mset (take n (es[k := es ! j, j := x])) = mset (take n (es[k := x]))"
proof -
  let ?xs = "take n (es[k := x])"
  have "take n (es[k := es ! j, j := x]) = ?xs[k := ?xs ! j, j := ?xs ! k]"
    using assms by (simp add: take_update_swap list_update_swap)
  also have "mset \<dots> = mset ?xs"
    using assms by (intro mset_swap) simp_all
  finally show ?thesis .
qed

lemma child_parent:
  "smaller_child key n es k = Some j \<Longrightarrow> 0 < j \<and> (j - 1) div 2 = k \<and> j \<noteq> k"
  by (auto simp: smaller_child_def leftChild_def Let_def split: if_splits option.splits)

lemma smaller_child_filled:
  assumes "filled n es" and "leftChild k < n"
  obtains j where "smaller_child key n es k = Some j" "j < n"
    "\<And>i. 0 < i \<Longrightarrow> i < n \<Longrightarrow> (i - 1) div 2 = k \<Longrightarrow> K key es j \<le> K key es i"
proof -
  let ?j = "if leftChild k + 1 < n \<and> K key es (leftChild k + 1) < K key es (leftChild k)
            then leftChild k + 1 else leftChild k"
  have kids: "i = leftChild k \<or> i = leftChild k + 1" if "0 < i" "(i - 1) div 2 = k" for i
    using that by (simp add: leftChild_def) presburger
  have "smaller_child key n es k = Some ?j"
    using assms by (simp add: smaller_child_def Let_def cell_filled)
  moreover have "K key es ?j \<le> K key es i" if "0 < i" "i < n" "(i - 1) div 2 = k" for i
    using kids [OF that(1,3)] that(2) by auto
  ultimately show ?thesis using assms(2) that [of ?j] by (simp split: if_splits)
qed

lemma hole_move_down:
  assumes h: "hole key n es k" and f: "filled n es" and k: "k < n" and j: "j < n"
    and p: "0 < j" "(j - 1) div 2 = k" "j \<noteq> k"
    and m: "\<And>i. 0 < i \<Longrightarrow> i < n \<Longrightarrow> (i - 1) div 2 = k \<Longrightarrow> K key es j \<le> K key es i"
  shows "hole key n (es[k := es ! j]) j"
proof -
  let ?es = "es[k := es ! j]"
  have len: "n \<le> length es" using f by (simp add: filled_def)
  have nth: "?es ! i = (if i = k then es ! j else es ! i)" if "i < n" for i
    using that len by (simp add: nth_list_update)
  have pl: "(i - 1) div 2 < n" if "i < n" for i :: nat
    using that by linarith
  have par_ne: "(i - 1) div 2 \<noteq> i" if "0 < i" for i :: nat
    using that by linarith
  show ?thesis
    unfolding hole_def
  proof (intro conjI allI impI)
    fix i assume i: "0 < i \<and> i < n \<and> i \<noteq> j \<and> (i - 1) div 2 \<noteq> j"
    show "K key ?es ((i - 1) div 2) \<le> K key ?es i"
    proof (cases "(i - 1) div 2 = k")
      case True
      then show ?thesis using i m [of i] par_ne [of i] by (simp add: nth k)
    next
      case False
      show ?thesis
      proof (cases "i = k")
        case True
        then show ?thesis using h i j p False nth [OF pl [OF k]] nth [OF k]
          unfolding hole_def by auto
      next
        case False
        with i \<open>(i - 1) div 2 \<noteq> k\<close> h show ?thesis
          unfolding hole_def by (simp add: nth pl)
      qed
    qed
  next
    fix i assume i: "0 < i \<and> i < n \<and> (i - 1) div 2 = j \<and> 0 < j"
    then have "i \<noteq> k" using p by linarith
    with i h p(3) have "K key es j \<le> K key es i" unfolding hole_def by auto
    with i p \<open>i \<noteq> k\<close> show "K key ?es ((j - 1) div 2) \<le> K key ?es i"
      by (simp add: nth k)
  qed
qed

lemma hole_filled_in:
  assumes "hole key n es k" and f: "filled n es" and k: "k < n"
    and up: "0 < k \<Longrightarrow> K key es ((k - 1) div 2) \<le> key v"
    and down: "\<And>i. 0 < i \<Longrightarrow> i < n \<Longrightarrow> (i - 1) div 2 = k \<Longrightarrow> key v \<le> K key es i"
  shows "pq_ordered key n (es[k := Some v])"
  unfolding pq_ordered_parent
proof (intro allI impI)
  fix i assume i: "0 < i \<and> i < n"
  have nth: "es[k := Some v] ! j = (if j = k then Some v else es ! j)" if "j < n" for j
    using that f by (simp add: nth_list_update filled_def)
  have "(i - 1) div 2 < n" "(i - 1) div 2 \<noteq> i" using i by linarith+
  with i assms show "K key (es[k := Some v]) ((i - 1) div 2) \<le> K key (es[k := Some v]) i"
    unfolding hole_def by (auto simp: nth)
qed

subsection \<open>downheap and upheap\<close>

lemma parent_pred: "2 \<le> n \<Longrightarrow> k \<le> parent (size_sub n 1) \<longleftrightarrow> leftChild k < n"
  by (auto simp: parent_def size_sub_def leftChild_def)

lemma downheap_loop_heap:
  assumes "2 \<le> n" and "lp = parent (size_sub n 1)"
    and "filled n es" and "k < n" and "hole key n es k"
    and "0 < k \<Longrightarrow> K key es ((k - 1) div 2) \<le> key v"
  shows "\<exists>es' k'. downheap_loop key n lp es k v = Some (es', k') \<and> k' < n \<and> filled n es' \<and>
           length es' = length es \<and> pq_ordered key n (es'[k' := Some v]) \<and>
           mset (take n (es'[k' := Some v])) = mset (take n (es[k := Some v]))"
  using assms
proof (induction key n lp es k v rule: downheap_loop.induct)
  case (1 key n lp es k v)
  note prems = "1.prems"
  show ?case
  proof (cases "k \<le> lp")
    case False
    then have "\<not> leftChild k < n" using parent_pred [OF prems(1), of k] prems(2) by simp
    then have "pq_ordered key n (es[k := Some v])"
      using prems by (intro hole_filled_in) (auto simp: leftChild_def)
    with False prems show ?thesis by (simp add: downheap_loop.simps [of key n])
  next
    case True
    then have lc: "leftChild k < n" using parent_pred [OF prems(1), of k] prems(2) by simp
    from smaller_child_filled [OF prems(3) lc, of key] obtain j
      where sc: "smaller_child key n es k = Some j" and j: "j < n"
        and m: "\<And>i. 0 < i \<Longrightarrow> i < n \<Longrightarrow> (i - 1) div 2 = k \<Longrightarrow> K key es j \<le> K key es i"
      by metis
    note jk = child_parent [OF sc]
    note cj = cell_filled [OF prems(3) j]
    show ?thesis
    proof (cases "key v \<le> K key es j")
      case True
      then have "pq_ordered key n (es[k := Some v])"
        using prems m by (intro hole_filled_in) (auto intro: order.trans)
      with True \<open>k \<le> lp\<close> sc cj prems show ?thesis
        by (simp add: downheap_loop.simps [of key n])
    next
      case False
      let ?es = "es[k := Some (the (es ! j))]"
      have esj: "Some (the (es ! j)) = es ! j" using prems(3) j by (auto simp: filled_def)
      have len: "n \<le> length es" using prems(3) by (simp add: filled_def)
      have h: "hole key n ?es j"
        unfolding esj using prems jk j m by (intro hole_move_down) auto
      have up: "0 < j \<Longrightarrow> K key ?es ((j - 1) div 2) \<le> key v"
        unfolding conjunct1 [OF conjunct2 [OF jk]] using False prems(4) len by simp
      have "\<exists>es' k'. downheap_loop key n lp ?es j v = Some (es', k') \<and> k' < n \<and> filled n es' \<and>
              length es' = length ?es \<and> pq_ordered key n (es'[k' := Some v]) \<and>
              mset (take n (es'[k' := Some v])) = mset (take n (?es[j := Some v]))"
        by (rule "1.IH" [OF True sc cj False prems(1,2) filled_update [OF prems(3)] j h up])
      moreover have "mset (take n (?es[j := Some v])) = mset (take n (es[k := Some v]))"
        unfolding esj using mset_move_hole [OF j prems(4) len] jk by blast
      moreover have "downheap_loop key n lp es k v = downheap_loop key n lp ?es j v"
        using True sc cj False by (simp add: downheap_loop.simps [of key n lp es])
      ultimately show ?thesis using prems(4) by simp
    qed
  qed
qed

lemma upheap_loop_heap:
  assumes "filled n es" and "i \<le> n" and "n < length es" and "hole key (Suc n) es i"
    and "\<And>c. 0 < c \<Longrightarrow> c \<le> n \<Longrightarrow> (c - 1) div 2 = i \<Longrightarrow> key x \<le> K key es c"
    and "i = n \<or> es ! n \<noteq> None"
  shows "\<exists>es' i'. upheap_loop key es i x = Some (es', i') \<and> i' \<le> n \<and> length es' = length es \<and>
           filled (Suc n) (es'[i' := Some x]) \<and> pq_ordered key (Suc n) (es'[i' := Some x]) \<and>
           mset (take (Suc n) (es'[i' := Some x])) = mset (take (Suc n) (es[i := Some x]))"
  using assms
proof (induction key es i x rule: upheap_loop.induct)
  case (1 key es x)
  have f: "filled (Suc n) (es[0 := Some x])"
    using 1 order.strict_trans1 [OF le0 1(3)] by (auto simp: filled_def nth_list_update less_Suc_eq)
  have "pq_ordered key (Suc n) (es[0 := Some x, 0 := Some x])"
    using 1 f by (intro hole_filled_in) (auto simp: hole_def nth_list_update filled_def)
  with f 1 show ?case by simp
next
  case (2 key es p x)
  note prems = "2.prems"
  let ?i = "Suc p" and ?j = "p div 2"
  have j: "?j < n" "?j \<noteq> ?i" using prems(2) by linarith+
  note cj = cell_filled [OF prems(1) j(1)]
  have esj: "Some (the (es ! ?j)) = es ! ?j" using prems(1) j(1) by (auto simp: filled_def)
  show ?case
  proof (cases "key x < K key es ?j")
    case True
    let ?es = "es[?i := Some (the (es ! ?j))]"
    have nth: "?es ! c = (if c = ?i then es ! ?j else es ! c)" if "c \<le> n" for c
      using that prems(3) esj by (simp add: nth_list_update)
    have pn: "(c - 1) div 2 \<le> n" if "c \<le> n" for c :: nat using that by linarith
    have h: "hole key (Suc n) ?es ?j"
      unfolding hole_def
    proof (intro conjI allI impI)
      fix c assume c: "0 < c \<and> c < Suc n \<and> c \<noteq> ?j \<and> (c - 1) div 2 \<noteq> ?j"
      then have "c \<noteq> ?i" by auto
      with c prems(4) show "K key ?es ((c - 1) div 2) \<le> K key ?es c"
        unfolding hole_def using nth [of c] nth [OF pn, of c] by (auto simp: less_Suc_eq_le)
    next
      fix c assume c: "0 < c \<and> c < Suc n \<and> (c - 1) div 2 = ?j \<and> 0 < ?j"
      have ne: "(?j - 1) div 2 \<noteq> ?i" "(?j - 1) div 2 \<noteq> ?j" "(?j - 1) div 2 \<le> n" "?j \<le> n"
        using c j by linarith+
      have jj: "K key es ((?j - 1) div 2) \<le> K key es ?j"
        using prems(4) ne j c unfolding hole_def by auto
      moreover have "K key es ?j \<le> K key es c" if "c \<noteq> ?i"
        using prems(4) that c j unfolding hole_def by auto
      ultimately show "K key ?es ((?j - 1) div 2) \<le> K key ?es c"
        using c nth [OF ne(3)] nth [of c] ne by (auto intro: order.trans)
    qed
    have kids: "key x \<le> K key ?es c" if "0 < c" "c \<le> n" "(c - 1) div 2 = ?j" for c
    proof (cases "c = ?i")
      case False
      then have "K key es ?j \<le> K key es c"
        using prems(4) that j unfolding hole_def by auto
      with False True that show ?thesis by (simp add: nth)
    qed (use True that in \<open>simp add: nth\<close>)
    have lp: "?es ! n \<noteq> None" using nth [of n] prems(1,6) j(1) by (auto simp: filled_def)
    have "\<exists>es' i'. upheap_loop key ?es ?j x = Some (es', i') \<and> i' \<le> n \<and> length es' = length ?es \<and>
            filled (Suc n) (es'[i' := Some x]) \<and> pq_ordered key (Suc n) (es'[i' := Some x]) \<and>
            mset (take (Suc n) (es'[i' := Some x])) = mset (take (Suc n) (?es[?j := Some x]))"
      using prems j cj True h kids lp by (intro "2.IH") (auto intro: filled_update)
    moreover have "mset (take (Suc n) (?es[?j := Some x])) = mset (take (Suc n) (es[?i := Some x]))"
      unfolding esj using mset_move_hole [of ?j "Suc n" ?i es "Some x"] j prems(2,3) by simp
    ultimately show ?thesis using cj True by (simp add: Let_def)
  next
    case False
    have f: "filled (Suc n) (es[?i := Some x])"
      using prems by (auto simp: filled_def nth_list_update less_Suc_eq)
    have "pq_ordered key (Suc n) (es[?i := Some x, ?i := Some x])"
    proof (intro hole_filled_in f)
      show "hole key (Suc n) (es[?i := Some x]) ?i"
        using prems(4) by (auto simp: hole_def nth_list_update)
      show "K key (es[?i := Some x]) ((?i - 1) div 2) \<le> key x"
        using False j by simp
      show "key x \<le> K key (es[?i := Some x]) c" if "0 < c" "c < Suc n" "(c - 1) div 2 = ?i" for c
      proof -
        have "c \<noteq> ?i" using that by linarith
        with that prems(5) [of c] show ?thesis by simp
      qed
    qed (use prems in simp)
    with f False cj prems show ?thesis by simp
  qed
qed

subsection \<open>The operations\<close>

lemma pq_invariantD:
  assumes "pq_invariant key q"
  shows "filled (pq_size q) (pq_elems q)" "pq_size q \<le> pq_capacity q"
    "length (pq_elems q) = pq_capacity q" "0 < pq_growsize q"
    "pq_ordered key (pq_size q) (pq_elems q)"
  using assms by (auto simp: pq_invariant_def filled_def)

lemma hole_anywhere: "pq_ordered key n es \<Longrightarrow> n \<le> length es \<Longrightarrow> hole key n es k"
  unfolding pq_ordered_parent hole_def
proof (intro conjI allI impI)
  fix i assume o: "\<forall>i. 0 < i \<and> i < n \<longrightarrow> K key es ((i - 1) div 2) \<le> K key es i"
    and i: "0 < i \<and> i < n \<and> (i - 1) div 2 = k \<and> 0 < k"
  then have "K key es k \<le> K key es i" "k < n" by auto
  with o i show "K key es ((k - 1) div 2) \<le> K key es i" by (blast intro: order.trans)
qed auto

lemma pq_ordered_le: "pq_ordered key n es \<Longrightarrow> m \<le> n \<Longrightarrow> pq_ordered key m es"
  by (simp add: pq_ordered_parent)

lemma filled_le: "filled n es \<Longrightarrow> m \<le> n \<Longrightarrow> filled m es"
  by (simp add: filled_def)

lemma ordered_root:
  assumes "pq_ordered key n es" and "i < n"
  shows "K key es 0 \<le> K key es i"
  using assms(2)
proof (induction i rule: less_induct)
  case (less i)
  show ?case
  proof (cases "i = 0")
    case False
    then have "(i - 1) div 2 < i" by linarith
    with less False have "K key es 0 \<le> K key es ((i - 1) div 2)" by simp
    also have "\<dots> \<le> K key es i" using assms(1) less.prems False unfolding pq_ordered_parent by simp
    finally show ?thesis .
  qed simp
qed

lemma pq_mset_take: "pq_mset q = image_mset the (mset (take (pq_size q) (pq_elems q)))"
  by (simp add: pq_mset_def pq_list_def)

lemma pq_new_invariant:
  assumes "0 < g"
  shows "pq_invariant key (pq_new mem g)" "pq_mset (pq_new mem g) = {#}"
  using assms by (auto simp: pq_new_def pq_grow_def pq_invariant_def pq_ordered_def pq_mset_def pq_list_def)

lemma grow_invariant:
  assumes "pq_invariant key q" and "pq_grow mem (pq_capacity q + g) q = (ok, q')"
  shows "pq_invariant key q'" "pq_mset q' = pq_mset q" "pq_size q' = pq_size q"
    "mem \<Longrightarrow> pq_capacity q' = pq_capacity q + g \<and> ok" "\<not> mem \<Longrightarrow> \<not> ok \<and> q' = q"
  using assms
  by (auto simp: pq_grow_def pq_invariant_def pq_mset_def pq_list_def pq_ordered_def nth_append
      leftChild_def rightChild_def split: if_splits)

lemma pq_add_ok:
  assumes inv: "pq_invariant key q" and room: "mem \<or> pq_size q < pq_capacity q"
  shows "\<exists>q'. pq_add key mem x q = Some (True, q') \<and> pq_invariant key q' \<and>
           pq_mset q' = add_mset x (pq_mset q)"
proof -
  obtain ok q1 where q1: "(if pq_size q = pq_capacity q
      then pq_grow mem (pq_capacity q + pq_growsize q) q else (True, q)) = (ok, q1)"
    by fastforce
  have 1: "pq_invariant key q1" "pq_mset q1 = pq_mset q" "pq_size q1 < pq_capacity q1" "ok"
    using q1 room inv grow_invariant [OF inv, of mem "pq_growsize q" ok q1] pq_invariantD [OF inv]
    by (auto split: if_splits)
  note d = pq_invariantD [OF 1(1)]
  let ?n = "pq_size q1" and ?es = "pq_elems q1"
  have h: "hole key (Suc ?n) ?es ?n"
    using d(5) unfolding hole_def pq_ordered_parent by (auto simp: less_Suc_eq)
  have nokids: "False" if "0 < c" "c \<le> ?n" "(c - 1) div 2 = ?n" for c using that by linarith
  obtain es' i' where up: "upheap_loop key ?es ?n x = Some (es', i')" "i' \<le> ?n"
      "length es' = length ?es" "filled (Suc ?n) (es'[i' := Some x])"
      "pq_ordered key (Suc ?n) (es'[i' := Some x])"
      "mset (take (Suc ?n) (es'[i' := Some x])) = mset (take (Suc ?n) (?es[?n := Some x]))"
    using upheap_loop_heap [of ?n ?es ?n key x] d 1(3) h nokids by auto
  let ?q = "q1\<lparr>pq_size := ?n + 1, pq_elems := es'[i' := Some x]\<rparr>"
  have "pq_add key mem x q = Some (True, ?q)"
    using q1 1(3,4) up d(3) by (simp add: pq_add_def)
  moreover have "pq_invariant key ?q"
    using up d 1(3) by (simp add: pq_invariant_def filled_def)
  moreover have "mset (take (Suc ?n) (?es[?n := Some x])) = add_mset (Some x) (mset (take ?n ?es))"
    using 1(3) d(3) by (simp add: take_Suc_conv_snoc)
  then have "pq_mset ?q = add_mset x (pq_mset q)"
    using up(6) 1(2) by (simp add: pq_mset_take)
  ultimately show ?thesis by blast
qed

lemma downheap_loop_mset:
  assumes "2 \<le> n" and "lp = parent (size_sub n 1)" and "filled n es" and "k < n"
  shows "\<exists>es' k'. downheap_loop key n lp es k v = Some (es', k') \<and> k' < n \<and> filled n es' \<and>
           length es' = length es \<and>
           mset (take n (es'[k' := Some v])) = mset (take n (es[k := Some v]))"
  using assms
proof (induction key n lp es k v rule: downheap_loop.induct)
  case (1 key n lp es k v)
  note prems = "1.prems"
  show ?case
  proof (cases "k \<le> lp")
    case False
    with prems show ?thesis by (simp add: downheap_loop.simps [of key n])
  next
    case True
    then have "leftChild k < n" using parent_pred [OF prems(1), of k] prems(2) by simp
    from smaller_child_filled [OF prems(3) this, of key] obtain j
      where sc: "smaller_child key n es k = Some j" and j: "j < n" by metis
    note cj = cell_filled [OF prems(3) j]
    note eq = downheap_loop.simps [of key n lp es k v]
    show ?thesis
    proof (cases "key v \<le> key (the (es ! j))")
      case True
      then have "downheap_loop key n lp es k v = Some (es, k)"
        using \<open>k \<le> lp\<close> sc cj by (simp add: eq)
      with prems show ?thesis by blast
    next
      case False
      let ?es = "es[k := Some (the (es ! j))]"
      have esj: "Some (the (es ! j)) = es ! j" using prems(3) j by (auto simp: filled_def)
      have len: "n \<le> length es" using prems(3) by (simp add: filled_def)
      have "mset (take n (?es[j := Some v])) = mset (take n (es[k := Some v]))"
        unfolding esj using mset_move_hole [OF j prems(4) len] child_parent [OF sc] by blast
      moreover note "1.IH" [OF True sc cj False prems(1,2) filled_update [OF prems(3)] j]
      moreover have "downheap_loop key n lp es k v = downheap_loop key n lp ?es j v"
        using True sc cj False by (simp add: eq)
      ultimately show ?thesis using prems(4) by simp
    qed
  qed
qed

text \<open>
  A heap of one element is compared with the cell behind it: \<open>parent\<close> of \<open>a_size - 1\<close>
  wraps around when the size is at most one, so the loop does not stop at once.
\<close>

lemma downheap_loop_single:
  assumes "n \<le> 1"
  shows "downheap_loop key n (parent (size_sub n 1)) es 0 v =
    (case cell es 1 of None \<Rightarrow> None
     | Some e \<Rightarrow> if key v \<le> key e then Some (es, 0)
               else downheap_loop key n (parent (size_sub n 1)) (es[0 := Some e]) 1 v)"
  using assms
  by (subst downheap_loop.simps) (simp add: smaller_child_def leftChild_def del: One_nat_def)

definition sift_ready :: "('e \<Rightarrow> 'k::linorder) \<Rightarrow> nat \<Rightarrow> 'e option list \<Rightarrow> nat \<Rightarrow> 'e \<Rightarrow> bool" where
  "sift_ready key n es k v \<longleftrightarrow>
     filled n es \<and> k < n \<and> (n = 1 \<longrightarrow> (\<exists>e. cell es 1 = Some e \<and> key v \<le> key e))"

lemma downheap_ok:
  assumes "sift_ready key (pq_size q) (pq_elems q) k v"
  shows "\<exists>es. downheap key k v q = Some (q\<lparr>pq_elems := es\<rparr>) \<and> filled (pq_size q) es \<and>
    length es = length (pq_elems q) \<and>
    mset (take (pq_size q) es) = mset (take (pq_size q) ((pq_elems q)[k := Some v])) \<and>
    (pq_ordered key (pq_size q) (pq_elems q) \<and>
       (0 < k \<longrightarrow> key (the (pq_elems q ! ((k - 1) div 2))) \<le> key v) \<longrightarrow>
     pq_ordered key (pq_size q) es)"
proof -
  let ?n = "pq_size q" and ?es = "pq_elems q"
  have f: "filled ?n ?es" "k < ?n" "?n \<le> length ?es"
    using assms by (auto simp: sift_ready_def filled_def)
  show ?thesis
  proof (cases "?n = 1")
    case True
    then obtain e where e: "k = 0" "cell ?es 1 = Some e" "key v \<le> key e"
      using assms by (auto simp: sift_ready_def)
    then have "downheap_loop key ?n (parent (size_sub ?n 1)) ?es 0 v = Some (?es, 0)"
      using True downheap_loop_single [of ?n key ?es v] by simp
    then show ?thesis using e f True filled_update [OF f(1), of 0 v]
      by (intro exI [of _ "?es[0 := Some v]"]) (auto simp: downheap_def pq_ordered_parent)
  next
    case False
    with f have n: "2 \<le> ?n" by linarith
    show ?thesis
    proof (cases "pq_ordered key ?n ?es \<and> (0 < k \<longrightarrow> key (the (?es ! ((k - 1) div 2))) \<le> key v)")
      case True
      then have "hole key ?n ?es k" using f(3) by (auto intro: hole_anywhere)
      then obtain es' k' where "downheap_loop key ?n (parent (size_sub ?n 1)) ?es k v = Some (es', k')"
          "k' < ?n" "filled ?n es'" "length es' = length ?es" "pq_ordered key ?n (es'[k' := Some v])"
          "mset (take ?n (es'[k' := Some v])) = mset (take ?n (?es[k := Some v]))"
        using downheap_loop_heap [OF n refl f(1,2), of key v] True by blast
      then show ?thesis using f(3)
        by (intro exI [of _ "es'[k' := Some v]"]) (simp add: downheap_def filled_update)
    next
      case False
      obtain es' k' where "downheap_loop key ?n (parent (size_sub ?n 1)) ?es k v = Some (es', k')"
          "k' < ?n" "filled ?n es'" "length es' = length ?es"
          "mset (take ?n (es'[k' := Some v])) = mset (take ?n (?es[k := Some v]))"
        using downheap_loop_mset [OF n refl f(1,2), of key v] by blast
      then show ?thesis using f(3) False
        by (intro exI [of _ "es'[k' := Some v]"]) (auto simp: downheap_def filled_update)
    qed
  qed
qed

lemma mset_take_replace:
  assumes "filled (Suc m) es" and "k < m"
  shows "add_mset (the (es ! k)) (image_mset the (mset (take m (es[k := es ! m])))) =
         image_mset the (mset (take (Suc m) es))"
proof -
  have len: "m < length es" using assms by (simp add: filled_def)
  have "add_mset (take m es ! k) (mset ((take m es)[k := es ! m])) = add_mset (es ! m) (mset (take m es))"
    using assms(2) len by (intro mset_update_add) simp
  then have "image_mset the (add_mset (es ! k) (mset (take m (es[k := es ! m])))) =
      image_mset the (add_mset (es ! m) (mset (take m es)))"
    using assms(2) len by (simp add: take_update_swap)
  then show ?thesis using len by (simp add: take_Suc_conv_snoc)
qed

lemma pq_removeFirst_ok:
  assumes inv: "pq_invariant key q" and n: "2 \<le> pq_size q"
  shows "\<exists>x q'. pq_removeFirst key q = Some (x, q') \<and> pq_invariant key q' \<and>
           pq_mset q = add_mset x (pq_mset q') \<and> (\<forall>y \<in># pq_mset q. key x \<le> key y)"
proof -
  let ?es = "pq_elems q"
  obtain m where m: "pq_size q = Suc m" "1 \<le> m" using n by (cases "pq_size q") auto
  note d = pq_invariantD [OF inv]
  let ?q = "q\<lparr>pq_size := m\<rparr>"
  obtain x v where v: "?es ! m = Some v" "?es ! 0 = Some x"
    using d(1) m by (fastforce simp: filled_def)
  then have c: "cell ?es m = Some v" "cell ?es 0 = Some x"
    using cell_filled [OF d(1)] m by simp_all
  have "sift_ready key m ?es 0 v"
    using d(1) m v c by (auto simp: sift_ready_def intro: filled_le)
  from downheap_ok [of key ?q, simplified, OF this] obtain es
    where es: "downheap key 0 v ?q = Some (?q\<lparr>pq_elems := es\<rparr>)" "filled m es"
      "length es = length ?es" "mset (take m es) = mset (take m (?es[0 := Some v]))"
      "pq_ordered key m es"
    using pq_ordered_le [OF d(5), of m] m by auto
  have "pq_removeFirst key q = Some (x, ?q\<lparr>pq_elems := es\<rparr>)"
    using m c es(1) by (simp add: pq_removeFirst_def pq_isEmpty_def Let_def)
  moreover have "pq_invariant key (?q\<lparr>pq_elems := es\<rparr>)"
    using es d m by (auto simp: pq_invariant_def filled_def)
  moreover have "pq_mset q = add_mset x (pq_mset (?q\<lparr>pq_elems := es\<rparr>))"
    using mset_take_replace [of m ?es 0] d(1) m v es(4) by (simp add: pq_mset_take)
  moreover have "\<forall>y \<in># pq_mset q. key x \<le> key y"
    using ordered_root [OF d(5)] d(1) v
    by (fastforce simp: pq_mset_def pq_list_def filled_def in_set_conv_nth)
  ultimately show ?thesis by blast
qed

subsection \<open>locate finds every element of an ordered heap\<close>

text \<open>\<open>i\<close> is in the subtree of node \<open>a\<close>.\<close>

function below :: "nat \<Rightarrow> nat \<Rightarrow> bool" where
  "below a i = (if i = a then True else if i = 0 then False else below a ((i - 1) div 2))"
  by pat_completeness auto
termination
  by (relation "measure snd") auto

declare below.simps [simp del]

lemma below_refl [simp]: "below a a"
  by (subst below.simps) simp

lemma below_root: "below 0 i"
proof (induction i rule: less_induct)
  case (less i)
  show ?case
  proof (cases "i = 0")
    case False
    then have "(i - 1) div 2 < i" by linarith
    with less have "below 0 ((i - 1) div 2)" by blast
    with False show ?thesis by (subst below.simps) simp
  qed simp
qed

lemma below_child: "below a i \<Longrightarrow> i = a \<or> below (leftChild a) i \<or> below (rightChild a) i"
proof (induction a i rule: below.induct)
  case (1 a i)
  show ?case
  proof (cases "i = a")
    case False
    then have i: "i \<noteq> 0" "below a ((i - 1) div 2)"
      using "1.prems" by (auto simp: below.simps [of a i] split: if_splits)
    from "1.IH" [OF False _ i(2)] i(1)
    consider "(i - 1) div 2 = a" | "below (leftChild a) ((i - 1) div 2)"
      | "below (rightChild a) ((i - 1) div 2)" by blast
    then show ?thesis
    proof cases
      case 1
      then have "i = leftChild a \<or> i = rightChild a"
        using i(1) by (simp add: leftChild_def rightChild_def) presburger
      then show ?thesis by auto
    qed (use i(1) below.simps [of _ i] in \<open>metis+\<close>)
  qed simp
qed

lemma below_le: "below a i \<Longrightarrow> a \<le> i"
proof (induction a i rule: below.induct)
  case (1 a i)
  then show ?case using below.simps [of a i] by (cases "i = a") (force split: if_splits)+
qed

lemma below_ordered:
  assumes "pq_ordered key n es" and "below a i" and "i < n"
  shows "K key es a \<le> K key es i"
  using assms(2,3)
proof (induction a i rule: below.induct)
  case (1 a i)
  show ?case
  proof (cases "i = a")
    case False
    then have i: "i \<noteq> 0" "below a ((i - 1) div 2)"
      using "1.prems" by (auto simp: below.simps [of a i] split: if_splits)
    have "K key es a \<le> K key es ((i - 1) div 2)"
      using "1.IH" [OF False i] "1.prems"(2) i(1) by simp
    also have "\<dots> \<le> K key es i"
      using assms(1) i(1) "1.prems"(2) by (simp add: pq_ordered_parent)
    finally show ?thesis .
  qed simp
qed

definition absent :: "('e \<Rightarrow> 'k::linorder) \<Rightarrow> nat \<Rightarrow> 'e option list \<Rightarrow> nat \<Rightarrow> 'e \<Rightarrow> bool" where
  "absent key n es a elem \<longleftrightarrow> (\<forall>i < n. below a i \<longrightarrow> K key es i \<noteq> key elem)"

lemma absent_above:
  "pq_ordered key n es \<Longrightarrow> \<not> K key es a \<le> key elem \<Longrightarrow> absent key n es a elem"
  unfolding absent_def using below_ordered by fastforce

lemma absent_beyond: "n \<le> a \<Longrightarrow> absent key n es a elem"
  unfolding absent_def using below_le by fastforce

lemma absent_node:
  "K key es a \<noteq> key elem \<Longrightarrow> absent key n es (leftChild a) elem \<Longrightarrow>
   absent key n es (rightChild a) elem \<Longrightarrow> absent key n es a elem"
  unfolding absent_def using below_child by blast

lemma pq_locate_spec:
  assumes "pq_ordered key n es" and "filled n es" and "a < n"
  shows "\<exists>r. pq_locate key n es a elem = Some r \<and> a \<le> r \<and> r \<le> n \<and>
    (if r < n then K key es r = key elem else absent key n es a elem)"
  using assms
proof (induction key n es a elem rule: pq_locate.induct)
  case (1 key n es a elem)
  note eq = pq_locate.simps [of key n es a elem]
  note c = cell_filled [OF "1.prems"(2)]
  note o = "1.prems"(1)
  let ?l = "leftChild a" and ?r = "rightChild a"
  show ?case
  proof (cases "key elem = K key es a \<or> \<not> ?l < n")
    case True
    then have "?l < n \<or> absent key n es ?l elem \<and> absent key n es ?r elem"
      by (auto intro!: absent_beyond simp: leftChild_def rightChild_def)
    with True c [of a] "1.prems"(3) show ?thesis by (auto simp: eq intro!: absent_node)
  next
    case False
    then have l: "?l < n" and ne: "K key es a \<noteq> key elem" by auto
    have ca: "cell es a = Some (the (es ! a))" and cl: "cell es ?l = Some (the (es ! ?l))"
      using c "1.prems"(3) l by auto
    have left: "\<exists>r. (if K key es ?l \<le> key elem then pq_locate key n es ?l elem else Some n) = Some r \<and>
        ?l \<le> r \<and> r \<le> n \<and> (if r < n then K key es r = key elem else absent key n es ?l elem)"
      using "1.IH"(1) [OF ca _ l cl _ o "1.prems"(2) l] False absent_above [OF o, of ?l elem] l by auto
    then obtain lf where lf: "(if K key es ?l \<le> key elem then pq_locate key n es ?l elem else Some n) = Some lf"
        "?l \<le> lf" "lf \<le> n" "if lf < n then K key es lf = key elem else absent key n es ?l elem" by blast
    show ?thesis
    proof (cases "lf < n \<or> \<not> ?r < n")
      case True
      then have "lf < n \<or> absent key n es ?l elem \<and> absent key n es ?r elem"
        using lf(4) absent_beyond [of n ?r] by auto
      then show ?thesis using True False l ca cl lf
        by (intro exI [of _ "if lf < n then lf else n"]) (auto simp: eq leftChild_def intro!: absent_node [OF ne])
    next
      case r: False
      then have al: "absent key n es ?l elem" and rn: "?r < n" using lf(4) by auto
      have cr: "cell es ?r = Some (the (es ! ?r))" using c rn by auto
      show ?thesis
      proof (cases "K key es ?r \<le> key elem")
        case True
        obtain rf where rf: "pq_locate key n es ?r elem = Some rf" "?r \<le> rf" "rf \<le> n"
            "if rf < n then K key es rf = key elem else absent key n es ?r elem"
          using "1.IH"(2) [OF ca _ l cl lf(1) _ rn cr True o "1.prems"(2) rn] False r by auto
        have "a < rf" "a < n" using rf(2) rn by (auto simp: rightChild_def)
        then show ?thesis using True False r l ca cl cr lf rf al
          by (intro exI [of _ rf]) (auto simp: eq intro!: absent_node [OF ne])
      next
        case False
        with r ne l ca cl cr lf absent_above [OF o False] al "1.prems"(3) show ?thesis
          by (intro exI [of _ n]) (auto simp: eq intro!: absent_node [OF ne])
      qed
    qed
  qed
qed

subsection \<open>remove\<close>

lemma pq_remove_ok:
  assumes inv: "pq_invariant key q" and ne: "0 < pq_size q"
  shows "(\<exists>q' y. pq_remove key elem q = Some (True, q') \<and> key y = key elem \<and>
            pq_mset q = add_mset y (pq_mset q') \<and> pq_size q' = pq_size q - 1 \<and>
            filled (pq_size q') (pq_elems q')) \<or>
         (pq_remove key elem q = Some (False, q) \<and> (\<forall>y \<in># pq_mset q. key y \<noteq> key elem))"
proof -
  let ?es = "pq_elems q"
  obtain m where m: "pq_size q = Suc m" using ne by (cases "pq_size q") auto
  note d = pq_invariantD [OF inv]
  obtain r where r: "pq_locate key (Suc m) ?es 0 elem = Some r" "r \<le> Suc m"
      "if r < Suc m then K key ?es r = key elem else absent key (Suc m) ?es 0 elem"
    using pq_locate_spec [OF d(5,1), of 0 elem] unfolding m by blast
  show ?thesis
  proof (cases "r < Suc m")
    case False
    then have "pq_remove key elem q = Some (False, q)"
      using r m by (simp add: pq_remove_def)
    moreover have "\<forall>y \<in># pq_mset q. key y \<noteq> key elem"
      using r(3) False d(1) m below_root
      by (auto simp: absent_def pq_mset_def pq_list_def in_set_conv_nth filled_def)
    ultimately show ?thesis by blast
  next
    case True
    let ?q = "q\<lparr>pq_size := m\<rparr>"
    have f: "filled m ?es" "m < length ?es" using d(1) m by (auto simp: filled_def)
    show ?thesis
    proof (cases "r < m")
      case False
      then have rm: "r = m" using True by simp
      then have "pq_remove key elem q = Some (True, ?q)"
        using r m by (simp add: pq_remove_def Let_def)
      moreover have "pq_mset q = add_mset (the (?es ! m)) (pq_mset ?q)"
        using m f(2) by (simp add: pq_mset_take take_Suc_conv_snoc)
      ultimately show ?thesis using r(3) True rm f(1) m by auto
    next
      case rm: True
      obtain v where v: "?es ! m = Some v" "cell ?es m = Some v"
        using d(1) m f(2) by (auto simp: filled_def cell_def)
      have "sift_ready key m ?es r v"
        using f rm v by (auto simp: sift_ready_def)
      from downheap_ok [of key ?q, simplified, OF this] obtain es
        where es: "downheap key r v ?q = Some (?q\<lparr>pq_elems := es\<rparr>)" "filled m es"
          "mset (take m es) = mset (take m (?es[r := Some v]))" by auto
      have "pq_remove key elem q = Some (True, ?q\<lparr>pq_elems := es\<rparr>)"
        using r m rm v(2) es(1) by (simp add: pq_remove_def Let_def)
      moreover have "pq_mset q = add_mset (the (?es ! r)) (pq_mset (?q\<lparr>pq_elems := es\<rparr>))"
        using mset_take_replace [of m ?es r] d(1) m rm v(1) es(3) by (simp add: pq_mset_take)
      ultimately show ?thesis using r(3) True es(2) m by fastforce
    qed
  qed
qed

subsection \<open>The first element\<close>

lemma pq_size_contents: "pq_invariant key q \<Longrightarrow> size (pq_mset q) = pq_size q"
  using pq_invariantD(1) [of key q] by (simp add: pq_mset_def pq_list_def filled_def)

lemma pq_removeFirst_min_ok:
  assumes inv: "pq_invariant key q" and ne: "0 < pq_size q"
  shows "\<exists>x q'. pq_removeFirst key q = Some (x, q') \<and> pq_invariant key q' \<and>
           pq_mset q = add_mset x (pq_mset q') \<and> (\<forall>y \<in># pq_mset q. key x \<le> key y)"
proof (cases "pq_size q = 1")
  case True
  note d = pq_invariantD [OF inv]
  let ?q = "q\<lparr>pq_size := 0\<rparr>" and ?x = "the (pq_elems q ! 0)"
  have "cell (pq_elems q) 0 = Some ?x" using cell_filled [OF d(1), of 0] True by simp
  then have "pq_removeFirst key q = Some (?x, ?q)"
    using True by (simp add: pq_removeFirst_def pq_isEmpty_def)
  moreover have "take 1 (pq_elems q) = [pq_elems q ! 0]"
    using d(1) True by (cases "pq_elems q") (auto simp: filled_def)
  then have "pq_mset q = {#?x#}" "pq_mset ?q = {#}"
    using True by (simp_all add: pq_mset_take)
  moreover have "pq_invariant key ?q" using d by (simp add: pq_invariant_def pq_ordered_def)
  ultimately show ?thesis by auto
next
  case False
  with ne show ?thesis using pq_removeFirst_ok [OF inv] by auto
qed

subsection \<open>The interface the timer queue uses\<close>

text \<open>
  \<open>KsServerBase\<close> adds timer events, takes the next one when it is due and, in \<open>cleanup\<close>,
  takes them all (\<open>while (!isEmpty()) removeFirst()\<close>). The contract below is all it relies on;
  a queue that cannot deliver its minimum returns \<open>None\<close>.
\<close>

locale min_queue =
  fixes key :: "'e \<Rightarrow> 'k::linorder"
    and contents :: "'q \<Rightarrow> 'e multiset"
    and inv :: "'q \<Rightarrow> bool"
    and is_empty :: "'q \<Rightarrow> bool"
    and take_first :: "'q \<Rightarrow> ('e \<times> 'q) option"
  assumes empty_iff: "inv q \<Longrightarrow> is_empty q \<longleftrightarrow> contents q = {#}"
    and take_min: "inv q \<Longrightarrow> \<not> is_empty q \<Longrightarrow>
      \<exists>x q'. take_first q = Some (x, q') \<and> inv q' \<and> contents q = add_mset x (contents q') \<and>
             (\<forall>y \<in># contents q. key x \<le> key y)"
begin

lemma take_first_step:
  assumes "inv q" and "\<not> is_empty q"
  obtains x q' where "take_first q = Some (x, q')" "inv q'" "contents q = add_mset x (contents q')"
    "\<forall>y \<in># contents q'. key x \<le> key y"
  using take_min [OF assms] by fastforce

end

text \<open>A client that takes elements until the queue is empty, at most \<open>n\<close> of them.\<close>

locale drained_queue = min_queue key contents inv is_empty take_first
  for key :: "'e \<Rightarrow> 'k::linorder" and contents :: "'q \<Rightarrow> 'e multiset" and inv is_empty take_first +
  fixes drain :: "nat \<Rightarrow> 'q \<Rightarrow> 'e list option"
  assumes drain_zero: "drain 0 q = (if is_empty q then Some [] else None)"
    and drain_Suc: "drain (Suc n) q =
      (if is_empty q then Some []
       else (case take_first q of None \<Rightarrow> None | Some (x, q') \<Rightarrow> map_option ((#) x) (drain n q')))"
begin

lemma drain_sorted:
  assumes "inv q" and "size (contents q) \<le> n"
  shows "\<exists>xs. drain n q = Some xs \<and> mset xs = contents q \<and> sorted (map key xs)"
  using assms
proof (induction n arbitrary: q)
  case 0
  then show ?case using empty_iff [of q] by (simp add: drain_zero)
next
  case (Suc n)
  show ?case
  proof (cases "is_empty q")
    case True
    with Suc.prems show ?thesis using empty_iff [of q] by (simp add: drain_Suc)
  next
    case False
    obtain x q' where q': "take_first q = Some (x, q')" "inv q'"
        "contents q = add_mset x (contents q')" "\<forall>y \<in># contents q'. key x \<le> key y"
      using take_first_step [OF Suc.prems(1) False] by blast
    moreover have "size (contents q') \<le> n" using q'(3) Suc.prems(2) by simp
    ultimately obtain xs where "drain n q' = Some xs" "mset xs = contents q'" "sorted (map key xs)"
      using Suc.IH by blast
    with q' False show ?thesis
      by (intro exI [of _ "x # xs"]) (auto simp: drain_Suc simp flip: set_mset_mset)
  qed
qed

end

text \<open>The loop of \<open>cleanup\<close>; the fuel is the number of events, and it is enough.\<close>

fun cleanup_loop :: "('e \<Rightarrow> 'k::linorder) \<Rightarrow> nat \<Rightarrow> 'e pq \<Rightarrow> 'e list option" where
  "cleanup_loop key 0 q = (if pq_isEmpty q then Some [] else None)"
| "cleanup_loop key (Suc fuel) q =
     (if pq_isEmpty q then Some []
      else (case pq_removeFirst key q of
              None \<Rightarrow> None
            | Some (x, q') \<Rightarrow> map_option ((#) x) (cleanup_loop key fuel q')))"

definition cleanup_timers :: "('e \<Rightarrow> 'k::linorder) \<Rightarrow> 'e pq \<Rightarrow> 'e list option" where
  "cleanup_timers key q = cleanup_loop key (pq_size q) q"

interpretation tq: min_queue key pq_mset "pq_invariant key" pq_isEmpty "pq_removeFirst key"
  for key :: "'e \<Rightarrow> 'k::linorder"
proof
  fix q :: "'e pq"
  assume inv: "pq_invariant key q"
  then show e: "pq_isEmpty q \<longleftrightarrow> pq_mset q = {#}"
    using pq_size_contents [OF inv] by (auto simp: pq_isEmpty_def)
  show "\<exists>x q'. pq_removeFirst key q = Some (x, q') \<and> pq_invariant key q' \<and>
      pq_mset q = add_mset x (pq_mset q') \<and> (\<forall>y \<in># pq_mset q. key x \<le> key y)"
    if "\<not> pq_isEmpty q"
    using pq_removeFirst_min_ok [OF inv] that by (auto simp: pq_isEmpty_def)
qed

interpretation tqd: drained_queue key pq_mset "pq_invariant key" pq_isEmpty "pq_removeFirst key"
    "cleanup_loop key" for key :: "'e \<Rightarrow> 'k::linorder"
  by unfold_locales simp_all

subsection \<open>Properties\<close>

text \<open>
  \<open>add\<close> keeps the heap invariant and adds exactly its argument, whether or not the array
  has to grow; only a failed allocation makes it return false.
\<close>

theorem pq_add_correct:
  assumes "pq_invariant key q" and "mem \<or> pq_size q < pq_capacity q"
  shows "\<exists>q'. pq_add key mem x q = Some (True, q') \<and> pq_invariant key q' \<and>
           pq_mset q' = add_mset x (pq_mset q)"
  using assms by (rule pq_add_ok)

theorem pq_add_correct_witness:
  "\<exists>q'. pq_add id True (7::int) (pq_new True 2) = Some (True, q') \<and> pq_invariant id q' \<and>
        pq_mset q' = add_mset 7 (pq_mset (pq_new True 2))"
  by (rule pq_add_correct) (simp_all add: pq_new_invariant)

text \<open>
  C35. Taking the first element of a non-empty queue returns a least element by key and leaves exactly the
  others, in heap order.
\<close>

theorem pq_removeFirst_min:
  assumes "pq_invariant key q" and "\<not> pq_isEmpty q"
  shows "\<exists>x q'. pq_removeFirst key q = Some (x, q') \<and> pq_invariant key q' \<and>
           pq_mset q = add_mset x (pq_mset q') \<and> (\<forall>y \<in># pq_mset q. key x \<le> key y)"
  using assms by (rule tq.take_min)

definition sample_queue :: "int pq" where
  "sample_queue = \<lparr>pq_growsize = 16, pq_capacity = 7, pq_size = 7,
     pq_elems = map Some [1, 10, 2, 11, 12, 3, 4]\<rparr>"

lemma less_7_cases: "(\<forall>i < (7::nat). P i) \<longleftrightarrow> P 0 \<and> P 1 \<and> P 2 \<and> P 3 \<and> P 4 \<and> P 5 \<and> P 6"
  by (simp add: eval_nat_numeral All_less_Suc) blast

lemma less_4_cases: "(\<forall>i < (4::nat). P i) \<longleftrightarrow> P 0 \<and> P 1 \<and> P 2 \<and> P 3"
  by (simp add: eval_nat_numeral All_less_Suc) blast

lemma sample_queue_invariant: "pq_invariant id sample_queue"
  by (simp add: sample_queue_def pq_invariant_def pq_ordered_def less_7_cases less_4_cases
      leftChild_def rightChild_def)

theorem pq_removeFirst_min_witness:
  "\<exists>x q'. pq_removeFirst id sample_queue = Some (x, q') \<and> pq_invariant id q' \<and>
     pq_mset sample_queue = add_mset x (pq_mset q') \<and> (\<forall>y \<in># pq_mset sample_queue. id x \<le> id y)"
  by (rule pq_removeFirst_min [OF sample_queue_invariant]) (simp add: sample_queue_def pq_isEmpty_def)

text \<open>
  \<open>remove\<close> on a non-empty queue never faults: it removes one element with the key asked for
  and no other, and returns false exactly when there is none. (Which of several elements with that key
  goes is left open: \<open>removeTimerEvent\<close> may drop another event due at the same time.)
\<close>

theorem pq_remove_contents:
  assumes "pq_invariant key q" and "0 < pq_size q"
  shows "(\<exists>q' y. pq_remove key elem q = Some (True, q') \<and> key y = key elem \<and>
            pq_mset q = add_mset y (pq_mset q') \<and> pq_size q' = pq_size q - 1 \<and>
            filled (pq_size q') (pq_elems q')) \<or>
         (pq_remove key elem q = Some (False, q) \<and> (\<forall>y \<in># pq_mset q. key y \<noteq> key elem))"
  using assms by (rule pq_remove_ok)

theorem pq_remove_contents_witness:
  "(\<exists>q' y. pq_remove id 11 sample_queue = Some (True, q') \<and> id y = id 11 \<and>
       pq_mset sample_queue = add_mset y (pq_mset q') \<and> pq_size q' = pq_size sample_queue - 1 \<and>
       filled (pq_size q') (pq_elems q')) \<or>
   (pq_remove id 11 sample_queue = Some (False, sample_queue) \<and>
       (\<forall>y \<in># pq_mset sample_queue. id y \<noteq> id 11))"
  by (rule pq_remove_contents [OF sample_queue_invariant]) (simp add: sample_queue_def)

text \<open>
  Emptying the queue as \<open>KsServerBase::cleanup\<close> does delivers every event once, in the order of the
  trigger times.
\<close>

theorem cleanup_timers_sorted:
  assumes "pq_invariant key q"
  shows "\<exists>xs. cleanup_timers key q = Some xs \<and> mset xs = pq_mset q \<and> sorted (map key xs)"
  unfolding cleanup_timers_def using assms
  by (intro tqd.drain_sorted) (simp_all add: pq_size_contents)

theorem cleanup_timers_sorted_witness:
  "\<exists>xs. cleanup_timers id sample_queue = Some xs \<and> mset xs = pq_mset sample_queue \<and>
        sorted (map id xs)"
  by (rule cleanup_timers_sorted [OF sample_queue_invariant])

text \<open>
  Two defects. \<open>remove\<close> only sifts the replacement down, so the heap order is lost when the
  replacement is smaller than the parent of the free place. And \<open>remove\<close> on an empty queue compares the cell at
  the root, a null pointer in a queue of event pointers that has never been used.
\<close>

lemma remove_loses_order:
  "\<exists>q'. pq_remove id 11 sample_queue = Some (True, q') \<and> \<not> pq_invariant id q'"
proof -
  have "pq_remove id 11 sample_queue = Some (True, sample_queue\<lparr>pq_size := 6,
      pq_elems := map Some [1, 10, 2, 4, 12, 3, 4]\<rparr>)"
    by (simp add: pq_remove_def sample_queue_def pq_locate.simps cell_def
        leftChild_def rightChild_def downheap_def downheap_loop.simps smaller_child_def parent_def
        size_sub_def Let_def)
  moreover have "\<not> pq_ordered id 6 (map Some [1, 10, 2, 4, 12, 3, 4 :: int])"
    unfolding pq_ordered_def
    by (rule notI, drule spec [where x = 1]) (simp add: leftChild_def)
  ultimately show ?thesis by (simp add: pq_invariant_def)
qed

lemma remove_from_new_queue_faults: "0 < g \<Longrightarrow> pq_remove key x (pq_new True g) = None"
  by (simp add: pq_remove_def pq_new_def pq_grow_def pq_locate.simps cell_def)

end
