(* ===== verification/Float32.thy ===== *)
theory Float32
  imports Complex_Main
begin

text \<open>
  The part of IEEE-754 single precision arithmetic the hash table's water marks use: results
  of operations on non-negative \<open>float\<close> values, rounded to nearest with ties to even. A float is the
  rational number it stands for; \<open>f32\<close> is the rounding, for exponents from -126 to 127. The
  values here (sizes below \<open>2^64\<close> and ratios of them) never leave that range, so
  infinities and NaNs do not occur.
\<close>

definition round_half_even :: "rat \<Rightarrow> int" where
  "round_half_even q =
     (let n = \<lfloor>q\<rfloor>; r = q - of_int n
      in if r < 1/2 then n else if 1/2 < r then n + 1 else if even n then n else n + 1)"

definition f32_exp :: "rat \<Rightarrow> int option" where
  "f32_exp q = find (\<lambda>e. q < 2 powi (e + 1)) [-126..127]"

definition f32 :: "rat \<Rightarrow> rat" where
  "f32 q = (case f32_exp q of
              None \<Rightarrow> q
            | Some e \<Rightarrow> of_int (round_half_even (q / 2 powi (e - 23))) * 2 powi (e - 23))"

text \<open>Conversion from \<open>size_t\<close>, multiplication, division, and truncation to \<open>size_t\<close>.\<close>

definition f32_of_nat :: "nat \<Rightarrow> rat" where
  "f32_of_nat n = f32 (of_nat n)"

definition f32_mult :: "rat \<Rightarrow> rat \<Rightarrow> rat" where
  "f32_mult x y = f32 (x * y)"

definition f32_div :: "rat \<Rightarrow> rat \<Rightarrow> rat" where
  "f32_div x y = f32 (x / y)"

definition f32_add :: "rat \<Rightarrow> rat \<Rightarrow> rat" where
  "f32_add x y = f32 (x + y)"

definition f32_trunc :: "rat \<Rightarrow> nat" where
  "f32_trunc x = nat \<lfloor>x\<rfloor>"

lemma round_half_even_error: "\<bar>of_int (round_half_even q) - q\<bar> \<le> 1/2"
proof -
  obtain r where r: "q = of_int \<lfloor>q\<rfloor> + r" "0 \<le> r" "r < 1"
    using of_int_floor_le [of q] real_of_int_floor_add_one_gt floor_correct [of q]
    by (metis add.commute add_diff_cancel_left' diff_add_cancel diff_ge_0_iff_ge less_diff_eq of_int_1 of_int_add)
  then show ?thesis by (auto simp: round_half_even_def Let_def abs_if)
qed

lemma f32_0 [simp]: "f32 0 = 0"
  by (simp add: f32_def round_half_even_def split: option.splits)

text \<open>Normal numbers are rounded with a relative error of at most \<open>2^-24\<close>.\<close>

lemma f32_abs_error:
  assumes "1/4 \<le> q"
  shows "\<bar>f32 q - q\<bar> \<le> q / 2 ^ 24"
proof (cases "f32_exp q")
  case None
  then show ?thesis using assms by (simp add: f32_def field_simps)
next
  case (Some e)
  have lower: "2 powi e \<le> q"
  proof (cases "e = -126")
    case True
    have "(2::rat) powi -126 \<le> 1/4" by (simp add: power_int_minus)
    with assms True show ?thesis by simp
  next
    case False
    from Some obtain i where i: "i < length [-126..127::int]" "e = [-126..127] ! i"
      "\<And>j. j < i \<Longrightarrow> \<not> q < 2 powi ([-126..127] ! j + 1)"
      unfolding f32_exp_def find_Some_iff by auto
    have nth: "[-126..127::int] ! j = -126 + int j" if "j < length [-126..127::int]" for j
      using that by (intro nth_upto) simp
    have "0 < i" using False i nth [of i] by (cases i) auto
    then have "\<not> q < 2 powi ([-126..127] ! (i - 1) + 1)" using i(3) by simp
    moreover have "[-126..127::int] ! (i - 1) + 1 = e"
      using i(1,2) nth [of i] nth [of "i - 1"] \<open>0 < i\<close> by simp
    ultimately show ?thesis by simp
  qed
  let ?u = "(2::rat) powi (e - 23)"
  have u: "0 < ?u" "?u / 2 \<le> q / 2 ^ 24"
  proof -
    show "0 < ?u" by simp
    have "?u = 2 powi e / 2 ^ 23" by (simp add: power_int_diff)
    with lower show "?u / 2 \<le> q / 2 ^ 24" by (simp add: field_simps)
  qed
  have "\<bar>of_int (round_half_even (q / ?u)) - q / ?u\<bar> \<le> 1/2" by (rule round_half_even_error)
  then have "\<bar>of_int (round_half_even (q / ?u)) - q / ?u\<bar> * ?u \<le> 1/2 * ?u"
    using u(1) by (intro mult_right_mono) simp_all
  moreover have "\<bar>of_int (round_half_even (q / ?u)) - q / ?u\<bar> * ?u =
      \<bar>of_int (round_half_even (q / ?u)) * ?u - q\<bar>"
  proof -
    have "(of_int (round_half_even (q / ?u)) - q / ?u) * ?u = of_int (round_half_even (q / ?u)) * ?u - q"
      using u(1) by (simp add: left_diff_distrib)
    then show ?thesis using u(1) by (metis abs_mult abs_of_pos)
  qed
  ultimately have "\<bar>f32 q - q\<bar> \<le> ?u / 2" using Some by (simp add: f32_def)
  with u(2) show ?thesis by linarith
qed

lemma f32_relative_error: "1/4 \<le> q \<Longrightarrow> q * (1 - 1 / 2 ^ 24) \<le> f32 q"
  using f32_abs_error [of q] unfolding abs_le_iff by (simp add: algebra_simps)

lemma f32_relative_error_up: "1/4 \<le> q \<Longrightarrow> f32 q \<le> q * (1 + 1 / 2 ^ 24)"
  using f32_abs_error [of q] unfolding abs_le_iff by (simp add: algebra_simps)

text \<open>Dividing a count by a mark of at most \<open>4/5\<close> makes it larger, for counts from 7 on.\<close>

lemma f32_shrink_grows:
  assumes "7 \<le> n" and "0 < m" and "m \<le> 4/5"
  shows "n < f32_trunc (f32_div (f32_of_nat n) m)"
proof -
  let ?d = "1 - 1 / 2 ^ 24 :: rat"
  have n: "1 \<le> (of_nat n :: rat)" "7 \<le> (of_nat n :: rat)" using assms(1) by simp_all
  have a: "of_nat n * ?d \<le> f32_of_nat n"
    unfolding f32_of_nat_def using n(1) by (intro f32_relative_error) simp
  have "of_nat n * ?d * (5/4) \<le> f32_of_nat n / m"
  proof -
    have "of_nat n * ?d * (5/4) \<le> of_nat n * ?d / m"
      using n assms(2,3) by (simp add: field_simps)
    also have "\<dots> \<le> f32_of_nat n / m" using a assms(2) by (rule divide_right_mono [OF _ less_imp_le])
    finally show ?thesis .
  qed
  note q1 = this
  have "1 \<le> of_nat n * ?d * (5/4)" using n(2) by simp
  note q = q1 order.trans [OF this q1]
  have "of_nat n * ?d * (5/4) * ?d \<le> f32_of_nat n / m * ?d"
    using q(1) by (intro mult_right_mono) simp_all
  also have "\<dots> \<le> f32_div (f32_of_nat n) m"
    unfolding f32_div_def using q(2) by (intro f32_relative_error) linarith
  finally have "of_nat n * ?d * (5/4) * ?d \<le> f32_div (f32_of_nat n) m" .
  moreover have "of_nat n + 1 \<le> of_nat n * ?d * (5/4) * ?d" using n(2) by simp
  ultimately have "of_nat (n + 1) \<le> f32_div (f32_of_nat n) m" by simp
  then have "int (n + 1) \<le> \<lfloor>f32_div (f32_of_nat n) m\<rfloor>" by (simp add: le_floor_iff)
  then show ?thesis by (simp add: f32_trunc_def)
qed

text \<open>The default water marks, 0.8 and 0.4 as floats, and the mark between them.\<close>

lemma default_marks:
  "0 < f32_div (f32_add (f32 (4/5)) (f32 (2/5))) 2 \<and> f32_div (f32_add (f32 (4/5)) (f32 (2/5))) 2 \<le> 4/5"
proof -
  let ?h = "f32 (4/5)" and ?l = "f32 (2/5)"
  have h: "79/100 \<le> ?h" "?h \<le> 81/100"
    using f32_relative_error [of "4/5"] f32_relative_error_up [of "4/5"] by simp_all
  have l: "39/100 \<le> ?l" "?l \<le> 41/100"
    using f32_relative_error [of "2/5"] f32_relative_error_up [of "2/5"] by simp_all
  have s: "117/100 \<le> f32_add ?h ?l" "f32_add ?h ?l \<le> 123/100"
    using f32_relative_error [of "?h + ?l"] f32_relative_error_up [of "?h + ?l"] h l
    by (simp_all add: f32_add_def)
  show ?thesis
    using f32_relative_error [of "f32_add ?h ?l / 2"] f32_relative_error_up [of "f32_add ?h ?l / 2"] s
    by (simp add: f32_div_def)
qed

end
