(* ===== verification/PltHashTable.thy ===== *)
theory PltHashTable
  imports KsPrelude Float32
begin

text \<open>
  The hash table of \<open>plt/include/plt/hashtable.h\<close>, \<open>plt/include/plt/hashtable_impl.h\<close> and
  \<open>plt/src/hashtable.cpp\<close>: open addressing in an array of prime size, a few quadratic probes
  followed by linear ones, deletion marks, and rehashing at the water marks.

  The hash function of the keys is a parameter of every operation that probes; keys are
  compared with equality. A slot is a null pointer (\<open>Free\<close>), \<open>deletedAssoc\<close> (\<open>Deleted\<close>) or an
  association. The probing loops have no bound in the source, so they are
  \<^theory_text>\<open>partial_function\<close>s: \<open>None\<close> is a loop that does not end. The outcome of an allocation
  (\<open>new\<close>) is the boolean argument \<open>mem\<close>.
\<close>

datatype ('k, 'v) slot = Free | Deleted | Used 'k 'v

record ('k, 'v) htab =
  ht_table :: "('k, 'v) slot list"
  ht_capacity :: nat
  ht_minCapacity :: nat
  ht_lowwater :: rat
  ht_highwater :: rat
  ht_medwater :: rat
  ht_used :: nat
  ht_deleted :: nat

definition primes :: "nat list" where
  "primes =
   [7, 11, 13, 17, 19, 23, 29,
    31, 41, 47, 59, 67, 79, 97, 127, 137, 167, 197, 239, 293, 347, 419,
    499, 593, 709, 853, 1021, 1229, 1471, 1777, 2129, 2539, 3049, 3659,
    4391, 5273, 6323, 7583, 9103, 10937, 13109, 15727, 18899, 22651,
    27179, 32609, 39133, 46957, 56359, 67619, 81157, 97369, 116849,
    140221, 168253, 201907, 242309, 290761, 348889, 418667, 502409,
    602887, 723467, 868151, 1041779, 1250141, 1500181, 1800191, 2160233,
    2592277, 3110741, 3732887, 4479463, 5375371, 6450413, 7740517,
    9288589, 11146307, 13375573, 16050689, 19260817, 23112977, 27735583,
    33282701, 39939233, 47927081, 57512503, 69014987, 82818011, 99381577,
    119257883, 143109469, 171731387, 206077643, 247293161, 296751781,
    356102141, 427322587, 512787097, 615344489, 738413383, 886096061,
    1063315271, 1275978331, 1531174013, 1837408799]"

definition usedSlot :: "('k, 'v) slot \<Rightarrow> bool" where
  "usedSlot s \<longleftrightarrow> s \<noteq> Free \<and> s \<noteq> Deleted"

definition ht_size :: "('k, 'v) htab \<Rightarrow> nat" where
  "ht_size t = ht_used t - ht_deleted t"

definition collidx :: "nat \<Rightarrow> nat \<Rightarrow> nat \<Rightarrow> nat" where
  "collidx cap i j = (if j < 12 then i + j else i + 1) mod cap"

subsection \<open>Probing\<close>

text \<open>\<open>locate\<close>: \<open>i\<close> runs over the probes until a free slot or the key; not found is the capacity.\<close>

partial_function (option) locate_loop ::
  "nat \<Rightarrow> ('k, 'v) slot list \<Rightarrow> 'k \<Rightarrow> nat \<Rightarrow> nat \<Rightarrow> nat option" where
  "locate_loop cap tab key i j =
     (case tab ! i of
        Free \<Rightarrow> Some cap
      | Deleted \<Rightarrow> locate_loop cap tab key (collidx cap i j) (j + 2)
      | Used k v \<Rightarrow> if k = key then Some i else locate_loop cap tab key (collidx cap i j) (j + 2))"

definition locate :: "('k \<Rightarrow> nat) \<Rightarrow> ('k, 'v) htab \<Rightarrow> 'k \<Rightarrow> nat option" where
  "locate hash t key =
     locate_loop (ht_capacity t) (ht_table t) key (collidx (ht_capacity t) (hash key) 0) 1"

text \<open>
  The loop of \<open>insert\<close> returns whether the key was met, the place where it stopped and the last
  deleted slot it passed (the capacity if none).
\<close>

partial_function (option) insert_loop ::
  "nat \<Rightarrow> ('k, 'v) slot list \<Rightarrow> 'k \<Rightarrow> nat \<Rightarrow> nat \<Rightarrow> nat \<Rightarrow> (bool \<times> nat \<times> nat) option" where
  "insert_loop cap tab key i j deleted =
     (case tab ! i of
        Free \<Rightarrow> Some (False, i, deleted)
      | Deleted \<Rightarrow> insert_loop cap tab key (collidx cap i j) (j + 2) i
      | Used k v \<Rightarrow>
          if k = key then Some (True, collidx cap i j, deleted)
          else insert_loop cap tab key (collidx cap i j) (j + 2) deleted)"

definition ht_insert :: "('k \<Rightarrow> nat) \<Rightarrow> 'k \<Rightarrow> 'v \<Rightarrow> ('k, 'v) htab \<Rightarrow> (bool \<times> ('k, 'v) htab) option" where
  "ht_insert hash key v t =
     (case insert_loop (ht_capacity t) (ht_table t) key
             (collidx (ht_capacity t) (hash key) 0) 1 (ht_capacity t) of
        None \<Rightarrow> None
      | Some (dupe, i, deleted) \<Rightarrow>
          if dupe then Some (False, t)
          else if deleted < ht_capacity t
          then Some (True, t\<lparr>ht_deleted := ht_deleted t - 1,
                             ht_table := (ht_table t)[deleted := Used key v]\<rparr>)
          else Some (True, t\<lparr>ht_used := ht_used t + 1,
                             ht_table := (ht_table t)[i := Used key v]\<rparr>))"

subsection \<open>Growing and shrinking\<close>

fun rehash :: "('k \<Rightarrow> nat) \<Rightarrow> ('k, 'v) slot list \<Rightarrow> ('k, 'v) htab \<Rightarrow> ('k, 'v) htab option" where
  "rehash hash [] t = Some t"
| "rehash hash (s # ss) t =
     (case s of
        Used k v \<Rightarrow>
          (case ht_insert hash k v t of None \<Rightarrow> None | Some (b, t') \<Rightarrow> rehash hash ss t')
      | _ \<Rightarrow> rehash hash ss t)"

definition changeCapacity ::
  "('k \<Rightarrow> nat) \<Rightarrow> bool \<Rightarrow> nat \<Rightarrow> ('k, 'v) htab \<Rightarrow> (bool \<times> ('k, 'v) htab) option" where
  "changeCapacity hash mem cap t =
     (let minCap = (if cap < ht_minCapacity t then ht_minCapacity t else cap)
      in case find (\<lambda>p. \<not> p < minCap) primes of
           None \<Rightarrow> Some (False, t)
         | Some newCap \<Rightarrow>
             if newCap = ht_capacity t then Some (True, t)
             else if \<not> mem then Some (False, t)
             else map_option (Pair True)
                    (rehash hash (ht_table t)
                       (t\<lparr>ht_table := replicate newCap Free, ht_used := 0, ht_deleted := 0,
                          ht_capacity := newCap\<rparr>)))"

text \<open>The constructor and \<open>reset\<close>.\<close>

definition ht_new :: "('k \<Rightarrow> nat) \<Rightarrow> bool \<Rightarrow> nat \<Rightarrow> rat \<Rightarrow> rat \<Rightarrow> ('k, 'v) htab option" where
  "ht_new hash mem mincap highwater lowwater =
     map_option snd (changeCapacity hash mem mincap
       \<lparr>ht_table = [], ht_capacity = 0, ht_minCapacity = mincap, ht_lowwater = lowwater,
        ht_highwater = highwater, ht_medwater = f32_div (f32_add highwater lowwater) 2,
        ht_used = 0, ht_deleted = 0\<rparr>)"

definition ht_reset :: "('k \<Rightarrow> nat) \<Rightarrow> bool \<Rightarrow> nat \<Rightarrow> ('k, 'v) htab \<Rightarrow> (bool \<times> ('k, 'v) htab) option" where
  "ht_reset hash mem mincap t =
     changeCapacity hash mem mincap
       (t\<lparr>ht_table := [], ht_capacity := 0, ht_minCapacity := mincap, ht_used := 0, ht_deleted := 0\<rparr>)"

subsection \<open>Associations\<close>

definition over_highwater :: "('k, 'v) htab \<Rightarrow> bool" where
  "over_highwater t \<longleftrightarrow>
     f32_of_nat (ht_size t + 1) > f32_mult (f32_of_nat (ht_capacity t)) (ht_highwater t)"

definition under_lowwater :: "('k, 'v) htab \<Rightarrow> bool" where
  "under_lowwater t \<longleftrightarrow>
     f32_of_nat (ht_size t) < f32_mult (f32_of_nat (ht_capacity t)) (ht_lowwater t)"

definition medium_capacity :: "('k, 'v) htab \<Rightarrow> nat" where
  "medium_capacity t = f32_trunc (f32_div (f32_of_nat (ht_size t)) (ht_medwater t))"

definition addAssoc ::
  "('k \<Rightarrow> nat) \<Rightarrow> bool \<Rightarrow> 'k \<Rightarrow> 'v \<Rightarrow> ('k, 'v) htab \<Rightarrow> (bool \<times> ('k, 'v) htab) option" where
  "addAssoc hash mem key v t =
     (let minCap = ht_used t + 1 + 1
      in if ht_capacity t < minCap \<or> over_highwater t
         then (let tmp = medium_capacity t; prefCap = (if tmp < minCap then minCap else tmp)
               in case changeCapacity hash mem prefCap t of
                    None \<Rightarrow> None
                  | Some (ok, t') \<Rightarrow> if \<not> ok then Some (False, t') else ht_insert hash key v t')
         else ht_insert hash key v t)"

definition removeAssoc ::
  "('k \<Rightarrow> nat) \<Rightarrow> bool \<Rightarrow> 'k \<Rightarrow> ('k, 'v) htab \<Rightarrow> ('v option \<times> ('k, 'v) htab) option" where
  "removeAssoc hash mem key t =
     (case locate hash t key of
        None \<Rightarrow> None
      | Some i \<Rightarrow>
          if i < ht_capacity t
          then (case ht_table t ! i of
                  Used k v \<Rightarrow>
                    (let t' = t\<lparr>ht_table := (ht_table t)[i := Deleted], ht_deleted := ht_deleted t + 1\<rparr>
                     in if under_lowwater t'
                        then map_option (\<lambda>(_, t''). (Some v, t''))
                               (changeCapacity hash mem (medium_capacity t') t')
                        else Some (Some v, t'))
                | _ \<Rightarrow> None)
          else Some (None, t))"

definition lookupAssoc :: "('k \<Rightarrow> nat) \<Rightarrow> 'k \<Rightarrow> ('k, 'v) htab \<Rightarrow> ('k \<times> 'v) option option" where
  "lookupAssoc hash key t =
     (case locate hash t key of
        None \<Rightarrow> None
      | Some i \<Rightarrow>
          if i < ht_capacity t
          then (case ht_table t ! i of Used k v \<Rightarrow> Some (Some (k, v)) | _ \<Rightarrow> None)
          else Some None)"

subsection \<open>The dictionary operations of \<open>PltHashTable_\<close>\<close>

definition ht_query :: "('k \<Rightarrow> nat) \<Rightarrow> 'k \<Rightarrow> ('k, 'v) htab \<Rightarrow> 'v option option" where
  "ht_query hash key t = map_option (map_option snd) (lookupAssoc hash key t)"

text \<open>\<open>add\<close> allocates the association first (\<open>mem0\<close>), then may grow the table (\<open>mem\<close>).\<close>

definition ht_add ::
  "('k \<Rightarrow> nat) \<Rightarrow> bool \<Rightarrow> bool \<Rightarrow> 'k \<Rightarrow> 'v \<Rightarrow> ('k, 'v) htab \<Rightarrow> (bool \<times> ('k, 'v) htab) option" where
  "ht_add hash mem0 mem key v t =
     (if mem0 then addAssoc hash mem key v t else Some (False, t))"

text \<open>\<open>update\<close> returns its result, the old value if valid, and the table.\<close>

definition ht_update ::
  "('k \<Rightarrow> nat) \<Rightarrow> bool \<Rightarrow> bool \<Rightarrow> 'k \<Rightarrow> 'v \<Rightarrow> ('k, 'v) htab \<Rightarrow>
   (bool \<times> 'v option \<times> ('k, 'v) htab) option" where
  "ht_update hash mem0 mem key newv t =
     (case locate hash t key of
        None \<Rightarrow> None
      | Some i \<Rightarrow>
          if i < ht_capacity t
          then (case ht_table t ! i of
                  Used k old \<Rightarrow> Some (True, Some old, t\<lparr>ht_table := (ht_table t)[i := Used k newv]\<rparr>)
                | _ \<Rightarrow> None)
          else map_option (\<lambda>(ok, t'). (ok, None, t')) (ht_add hash mem0 mem key newv t))"

definition ht_remove ::
  "('k \<Rightarrow> nat) \<Rightarrow> bool \<Rightarrow> 'k \<Rightarrow> ('k, 'v) htab \<Rightarrow> ('v option \<times> ('k, 'v) htab) option" where
  "ht_remove hash mem key t = removeAssoc hash mem key t"

subsection \<open>The iterator\<close>

text \<open>\<open>PltHashIterator_base\<close>: an index that skips the slots without an association.\<close>

function ht_advance :: "('k, 'v) htab \<Rightarrow> nat \<Rightarrow> nat" where
  "ht_advance t i =
     (let i' = i + 1
      in if i' < ht_capacity t \<and> \<not> usedSlot (ht_table t ! i') then ht_advance t i' else i')"
  by pat_completeness auto
termination
  by (relation "measure (\<lambda>(t, i). ht_capacity t - i)") auto

declare ht_advance.simps [simp del]

definition ht_toStart :: "('k, 'v) htab \<Rightarrow> nat" where
  "ht_toStart t =
     (if 0 < ht_capacity t \<and> \<not> usedSlot (ht_table t ! 0) then ht_advance t 0 else 0)"

text \<open>The associations a whole iteration delivers.\<close>

function ht_iterate :: "('k, 'v) htab \<Rightarrow> nat \<Rightarrow> ('k, 'v) slot list" where
  "ht_iterate t i =
     (if i < ht_capacity t then ht_table t ! i # ht_iterate t (ht_advance t i) else [])"
  by pat_completeness auto
termination
proof (relation "measure (\<lambda>(t, i). ht_capacity t - i)", simp)
  have adv: "i < ht_advance t i" for t :: "('k, 'v) htab" and i
    by (induction t i rule: ht_advance.induct) (subst ht_advance.simps, auto simp: Let_def)
  then show "((t, ht_advance t i), (t, i)) \<in> measure (\<lambda>(t, i). ht_capacity t - i)"
    if "i < ht_capacity t" for t :: "('k, 'v) htab" and i
    using that diff_less_mono2 [OF that] adv [of i t]
    by (metis diff_less_mono2 in_measure split_conv)
qed

declare ht_iterate.simps [simp del]

subsection \<open>The probe sequence\<close>

primrec probe :: "nat \<Rightarrow> nat \<Rightarrow> nat \<Rightarrow> nat" where
  "probe cap h 0 = collidx cap h 0"
| "probe cap h (Suc n) = collidx cap (probe cap h n) (2 * n + 1)"

lemma probe_less [simp]: "0 < cap \<Longrightarrow> probe cap h n < cap"
  by (cases n) (simp_all add: collidx_def)

lemma probe_linear: "probe cap h (6 + d) = (probe cap h 6 + d) mod cap"
proof (induction d)
  case 0
  show ?case by (simp add: eval_nat_numeral collidx_def)
next
  case (Suc d)
  have "probe cap h (6 + Suc d) = collidx cap (probe cap h (6 + d)) (2 * (6 + d) + 1)"
    unfolding add_Suc_right by (rule probe.simps)
  also have "\<dots> = (probe cap h 6 + Suc d) mod cap"
    unfolding Suc by (simp add: collidx_def mod_Suc_eq)
  finally show ?case .
qed

text \<open>After the quadratic steps the probes are consecutive, so every slot is reached.\<close>

lemma probe_reaches:
  assumes "p < cap"
  shows "\<exists>n. probe cap h n = p"
proof -
  let ?b = "probe cap h 6"
  have b: "?b < cap" using assms by (intro probe_less) simp
  have "probe cap h (6 + (p + cap - ?b)) = (?b + (p + cap - ?b)) mod cap"
    by (rule probe_linear)
  also have "?b + (p + cap - ?b) = p + cap" using b by linarith
  also have "(p + cap) mod cap = p" using assms by simp
  finally show ?thesis by blast
qed

definition stops :: "'k \<Rightarrow> ('k, 'v) slot \<Rightarrow> bool" where
  "stops key s \<longleftrightarrow> (case s of Free \<Rightarrow> True | Deleted \<Rightarrow> False | Used k v \<Rightarrow> k = key)"

lemma first_stop:
  assumes "p < cap" and "tab ! p = Free"
  obtains n where "stops key (tab ! probe cap h n)" "\<And>m. m < n \<Longrightarrow> \<not> stops key (tab ! probe cap h m)"
proof -
  obtain n where "probe cap h n = p" using probe_reaches [OF assms(1)] by blast
  then have "stops key (tab ! probe cap h n)" using assms(2) by (simp add: stops_def)
  then show ?thesis
    using that [of "LEAST n. stops key (tab ! probe cap h n)"] not_less_Least
    by (metis (no_types, lifting) LeastI)
qed

lemma locate_loop_skip:
  assumes "\<And>m. m < n \<Longrightarrow> \<not> stops key (tab ! probe cap h m)" and "m \<le> n"
  shows "locate_loop cap tab key (probe cap h m) (2 * m + 1) =
         locate_loop cap tab key (probe cap h n) (2 * n + 1)"
  using assms(2)
proof (induction rule: inc_induct)
  case (step m)
  have "locate_loop cap tab key (probe cap h m) (2 * m + 1) =
        locate_loop cap tab key (probe cap h (Suc m)) (2 * Suc m + 1)"
    using assms(1) [OF step(2)]
    by (subst locate_loop.simps) (auto simp: stops_def split: slot.splits)
  with step show ?case by simp
qed simp

lemma locate_loop_result:
  assumes "\<And>m. m < n \<Longrightarrow> \<not> stops key (tab ! probe cap h m)" and "stops key (tab ! probe cap h n)"
  shows "locate_loop cap tab key (collidx cap h 0) 1 =
         Some (if tab ! probe cap h n = Free then cap else probe cap h n)"
proof -
  have "locate_loop cap tab key (collidx cap h 0) 1 =
        locate_loop cap tab key (probe cap h n) (2 * n + 1)"
    using locate_loop_skip [OF assms(1), of n 0] by simp
  also have "\<dots> = Some (if tab ! probe cap h n = Free then cap else probe cap h n)"
    using assms(2) by (subst locate_loop.simps) (auto simp: stops_def split: slot.splits)
  finally show ?thesis .
qed

lemma insert_loop_result:
  assumes run: "\<And>m. m < n \<Longrightarrow> \<not> stops key (tab ! probe cap h m)"
    and stop: "stops key (tab ! probe cap h n)"
    and m: "m \<le> n" and del: "d = cap \<or> (\<exists>l < n. d = probe cap h l \<and> tab ! d = Deleted)"
  shows "\<exists>i d'. insert_loop cap tab key (probe cap h m) (2 * m + 1) d =
           Some (tab ! probe cap h n \<noteq> Free, i, d') \<and>
           (tab ! probe cap h n = Free \<longrightarrow> i = probe cap h n) \<and>
           (d' = cap \<or> (\<exists>l < n. d' = probe cap h l \<and> tab ! d' = Deleted))"
  using m del
proof (induction arbitrary: d rule: inc_induct)
  case base
  with stop show ?case by (subst insert_loop.simps) (auto simp: stops_def split: slot.splits)
next
  case (step m)
  let ?d = "if tab ! probe cap h m = Deleted then probe cap h m else d"
  have "insert_loop cap tab key (probe cap h m) (2 * m + 1) d =
        insert_loop cap tab key (probe cap h (Suc m)) (2 * Suc m + 1) ?d"
    using run [OF step(2)]
    by (subst insert_loop.simps) (auto simp: stops_def split: slot.splits)
  moreover have "?d = cap \<or> (\<exists>l < n. ?d = probe cap h l \<and> tab ! ?d = Deleted)"
    using step by auto
  ultimately show ?case using step.IH [of ?d] by presburger
qed

subsection \<open>Abstraction and well-formed tables\<close>

definition assoc_of :: "('k, 'v) slot \<Rightarrow> ('k \<times> 'v) list" where
  "assoc_of s = (case s of Used k v \<Rightarrow> [(k, v)] | _ \<Rightarrow> [])"

definition assocs :: "('k, 'v) slot list \<Rightarrow> ('k \<times> 'v) list" where
  "assocs tab = concat (map assoc_of tab)"

definition ht_map :: "('k, 'v) htab \<Rightarrow> 'k \<rightharpoonup> 'v" where
  "ht_map t = map_of (assocs (ht_table t))"

definition reachable_slot :: "('k \<Rightarrow> nat) \<Rightarrow> nat \<Rightarrow> ('k, 'v) slot list \<Rightarrow> 'k \<Rightarrow> nat \<Rightarrow> bool" where
  "reachable_slot hash cap tab k q \<longleftrightarrow>
     (\<exists>n. probe cap (hash k) n = q \<and> (\<forall>m < n. tab ! probe cap (hash k) m \<noteq> Free))"

definition ht_wf :: "('k \<Rightarrow> nat) \<Rightarrow> ('k, 'v) htab \<Rightarrow> bool" where
  "ht_wf hash t \<longleftrightarrow>
     length (ht_table t) = ht_capacity t \<and>
     ht_used t = length (filter (\<lambda>s. s \<noteq> Free) (ht_table t)) \<and>
     ht_deleted t = length (filter (\<lambda>s. s = Deleted) (ht_table t)) \<and>
     ht_used t < ht_capacity t \<and>
     distinct (map fst (assocs (ht_table t))) \<and>
     (\<forall>q k v. q < ht_capacity t \<longrightarrow> ht_table t ! q = Used k v \<longrightarrow>
        reachable_slot hash (ht_capacity t) (ht_table t) k q)"

text \<open>The invariant between operations; the medium mark must leave room when the table shrinks.\<close>

definition ht_inv :: "('k \<Rightarrow> nat) \<Rightarrow> ('k, 'v) htab \<Rightarrow> bool" where
  "ht_inv hash t \<longleftrightarrow>
     ht_wf hash t \<and> ht_minCapacity t \<le> ht_capacity t \<and> ht_capacity t \<in> set primes \<and>
     0 < ht_medwater t \<and> ht_medwater t \<le> 4/5"

lemma assocs_simps [simp]:
  "assocs [] = []" "assocs (s # ss) = assoc_of s @ assocs ss" "assocs (xs @ ys) = assocs xs @ assocs ys"
  "assoc_of Free = []" "assoc_of Deleted = []" "assoc_of (Used k v) = [(k, v)]"
  by (simp_all add: assocs_def assoc_of_def)

lemma assocs_replicate_Free [simp]: "assocs (replicate n Free) = []"
  by (induction n) auto

lemma in_assocs: "(k, v) \<in> set (assocs tab) \<longleftrightarrow> Used k v \<in> set tab"
  by (induction tab) (auto simp: assoc_of_def split: slot.splits)

lemma split_at:
  assumes "i < length xs"
  obtains ys zs where "xs = ys @ xs ! i # zs" "\<And>x. xs[i := x] = ys @ x # zs" "length ys = i"
  using assms that [of "take i xs" "drop (Suc i) xs"]
  by (auto simp: id_take_nth_drop upd_conv_take_nth_drop)

lemma ht_wf_size: "ht_wf hash t \<Longrightarrow> ht_size t = length (assocs (ht_table t))"
proof -
  have "length (filter (\<lambda>s. s \<noteq> Free) tab) - length (filter (\<lambda>s. s = Deleted) tab) = length (assocs tab)
     \<and> length (filter (\<lambda>s. s = Deleted) tab) \<le> length (filter (\<lambda>s. s \<noteq> Free) tab)"
    for tab :: "('a, 'b) slot list"
    by (induction tab) (auto simp: assoc_of_def split: slot.splits)
  then show "ht_wf hash t \<Longrightarrow> ht_size t = length (assocs (ht_table t))"
    by (simp add: ht_wf_def ht_size_def)
qed

lemma ht_wf_free:
  assumes "ht_wf hash t"
  obtains p where "p < ht_capacity t" "ht_table t ! p = Free"
proof -
  have "length (filter (\<lambda>s. s \<noteq> Free) (ht_table t)) \<noteq> length (ht_table t)"
    using assms by (simp add: ht_wf_def)
  then have "Free \<in> set (ht_table t)"
  proof (rule contrapos_np)
    assume "Free \<notin> set (ht_table t)"
    then have "filter (\<lambda>s. s \<noteq> Free) (ht_table t) = ht_table t" by (intro filter_True) auto
    then show "length (filter (\<lambda>s. s \<noteq> Free) (ht_table t)) = length (ht_table t)" by simp
  qed
  then obtain p where "p < length (ht_table t)" "ht_table t ! p = Free"
    by (auto simp: in_set_conv_nth)
  then show ?thesis using assms by (intro that [of p]) (simp_all add: ht_wf_def)
qed

lemma ht_map_Some:
  "ht_wf hash t \<Longrightarrow> ht_map t k = Some v \<longleftrightarrow> Used k v \<in> set (ht_table t)"
  unfolding ht_map_def ht_wf_def by (metis in_assocs map_of_SomeD map_of_is_SomeI)

lemma ht_map_None:
  "ht_wf hash t \<Longrightarrow> ht_map t k = None \<longleftrightarrow> k \<notin> fst ` set (assocs (ht_table t))"
  unfolding ht_map_def by (rule map_of_eq_None_iff)

lemma reachable_before_free:
  assumes "reachable_slot hash cap tab k q" and "tab ! q = Used k v"
    and "\<And>m. m < n \<Longrightarrow> \<not> stops k (tab ! probe cap (hash k) m)"
  shows "tab ! probe cap (hash k) n \<noteq> Free"
proof -
  obtain n0 where n0: "probe cap (hash k) n0 = q" "\<And>m. m < n0 \<Longrightarrow> tab ! probe cap (hash k) m \<noteq> Free"
    using assms(1) unfolding reachable_slot_def by blast
  then have "\<not> n0 < n" using assms(2) assms(3) [of n0] by (auto simp: stops_def)
  then show ?thesis using n0 assms(2) by (cases "n = n0") auto
qed

lemma locate_ok:
  assumes wf: "ht_wf hash t"
  shows "\<exists>i. locate hash t key = Some i \<and>
    (case ht_map t key of None \<Rightarrow> i = ht_capacity t
     | Some v \<Rightarrow> i < ht_capacity t \<and> ht_table t ! i = Used key v)"
proof -
  let ?tab = "ht_table t" and ?cap = "ht_capacity t"
  obtain p where p: "p < ?cap" "?tab ! p = Free" using ht_wf_free [OF wf] .
  obtain n where n: "stops key (?tab ! probe ?cap (hash key) n)"
      "\<And>m. m < n \<Longrightarrow> \<not> stops key (?tab ! probe ?cap (hash key) m)"
    using first_stop [OF p, of key] by blast
  let ?i = "probe ?cap (hash key) n"
  have i: "?i < ?cap" using p by (intro probe_less) simp
  have loc: "locate hash t key = Some (if ?tab ! ?i = Free then ?cap else ?i)"
    unfolding locate_def by (rule locate_loop_result [OF n(2,1)])
  show ?thesis
  proof (cases "?tab ! ?i")
    case Free
    have "ht_map t key = None"
    proof (rule ccontr)
      assume "ht_map t key \<noteq> None"
      then obtain v where "Used key v \<in> set ?tab" using ht_map_Some [OF wf] by blast
      then obtain q where "q < ?cap" "?tab ! q = Used key v"
        using wf by (auto simp: in_set_conv_nth ht_wf_def)
      then show False
        using reachable_before_free [of hash ?cap ?tab key q v n] n(2) wf Free
        by (auto simp: ht_wf_def)
    qed
    with loc Free show ?thesis by simp
  next
    case Deleted
    with n(1) show ?thesis by (simp add: stops_def)
  next
    case (Used k v)
    with n(1) have u: "?tab ! ?i = Used key v" by (simp add: stops_def)
    then have "ht_map t key = Some v"
      using i wf ht_map_Some [OF wf] by (metis ht_wf_def nth_mem)
    with loc u i show ?thesis by simp
  qed
qed

definition same_config :: "('k, 'v) htab \<Rightarrow> ('k, 'v) htab \<Rightarrow> bool" where
  "same_config t t' \<longleftrightarrow>
     ht_minCapacity t' = ht_minCapacity t \<and> ht_lowwater t' = ht_lowwater t \<and>
     ht_highwater t' = ht_highwater t \<and> ht_medwater t' = ht_medwater t"

lemma same_config_refl [simp]: "same_config t t"
  by (simp add: same_config_def)

lemma ht_store_wf:
  assumes wf: "ht_wf hash t" and abs: "ht_map t key = None"
    and ins: "ins < ht_capacity t" "\<not> usedSlot (ht_table t ! ins)"
    and reach: "reachable_slot hash (ht_capacity t) (ht_table t) key ins"
    and t': "t' = (if ht_table t ! ins = Deleted
                   then t\<lparr>ht_deleted := ht_deleted t - 1, ht_table := (ht_table t)[ins := Used key v]\<rparr>
                   else t\<lparr>ht_used := ht_used t + 1, ht_table := (ht_table t)[ins := Used key v]\<rparr>)"
    and room: "ht_used t + 1 < ht_capacity t"
  shows "ht_wf hash t' \<and> ht_map t' = (ht_map t)(key \<mapsto> v) \<and> ht_size t' = ht_size t + 1"
proof -
  let ?tab = "ht_table t" and ?tab' = "(ht_table t)[ins := Used key v]"
  have len: "ins < length ?tab" using wf ins(1) by (simp add: ht_wf_def)
  obtain ys zs where s: "?tab = ys @ ?tab ! ins # zs" "\<And>x. ?tab[ins := x] = ys @ x # zs"
    using split_at [OF len] by metis
  have emp: "assoc_of (?tab ! ins) = []" using ins(2) by (cases "?tab ! ins") (auto simp: usedSlot_def)
  have as: "assocs ?tab = assocs ys @ assocs zs" using emp by (subst s(1)) simp
  have as': "assocs ?tab' = assocs ys @ (key, v) # assocs zs" by (simp add: s(2))
  have key: "key \<notin> fst ` set (assocs ys @ assocs zs)"
    using abs ht_map_None [OF wf, of key] unfolding as by simp
  have cnt: "length (filter (\<lambda>s. s \<noteq> Free) ?tab') =
      length (filter (\<lambda>s. s \<noteq> Free) ?tab) + (if ?tab ! ins = Free then 1 else 0)"
    "length (filter (\<lambda>s. s = Deleted) ?tab') =
      length (filter (\<lambda>s. s = Deleted) ?tab) - (if ?tab ! ins = Deleted then 1 else 0)"
    by (subst (2) s(1), simp add: s(2))+
  have cases: "?tab ! ins = Free \<or> ?tab ! ins = Deleted" using ins(2) by (auto simp: usedSlot_def)
  have tt: "ht_table t' = ?tab'" "ht_capacity t' = ht_capacity t" by (simp_all add: t')
  have nonfree: "?tab ! p \<noteq> Free \<Longrightarrow> ?tab' ! p \<noteq> Free" for p
    using len by (cases "p = ins") simp_all
  have "reachable_slot hash (ht_capacity t) ?tab' k q"
    if q: "q < ht_capacity t" "?tab' ! q = Used k w" for q k w
  proof (cases "q = ins")
    case True
    then have "k = key" using q(2) len by simp
    with True reach nonfree show ?thesis unfolding reachable_slot_def by blast
  next
    case False
    then have "?tab ! q = Used k w" using q(2) by simp
    then have "reachable_slot hash (ht_capacity t) ?tab k q" using wf q(1) by (auto simp: ht_wf_def)
    with nonfree show ?thesis unfolding reachable_slot_def by blast
  qed
  moreover have "distinct (map fst (assocs ?tab'))"
    using wf key unfolding as' by (auto simp: ht_wf_def as image_Un)
  ultimately have wf': "ht_wf hash t'"
    using wf cnt cases room tt by (auto simp: ht_wf_def t')
  moreover have "ht_map t' = (ht_map t)(key \<mapsto> v)"
    using key unfolding ht_map_def tt as as' by (intro map_of_insert_middle) auto
  moreover have "ht_size t' = ht_size t + 1"
    using ht_wf_size [OF wf] ht_wf_size [OF wf'] by (simp add: tt as as')
  ultimately show ?thesis by blast
qed

lemma ht_insert_new:
  assumes wf: "ht_wf hash t" and abs: "ht_map t key = None" and room: "ht_used t + 1 < ht_capacity t"
  shows "\<exists>t'. ht_insert hash key v t = Some (True, t') \<and> ht_wf hash t' \<and>
    ht_map t' = (ht_map t)(key \<mapsto> v) \<and> ht_capacity t' = ht_capacity t \<and> same_config t t' \<and>
    ht_used t' \<le> ht_used t + 1"
proof -
  let ?tab = "ht_table t" and ?cap = "ht_capacity t" and ?h = "hash key"
  obtain p where p: "p < ?cap" "?tab ! p = Free" using ht_wf_free [OF wf] .
  obtain n where n: "stops key (?tab ! probe ?cap ?h n)"
      "\<And>m. m < n \<Longrightarrow> \<not> stops key (?tab ! probe ?cap ?h m)"
    using first_stop [OF p, of key] by blast
  let ?i = "probe ?cap ?h n"
  have lt: "probe ?cap ?h m < ?cap" for m using p by (intro probe_less) simp
  have free: "?tab ! ?i = Free"
  proof (cases "?tab ! ?i")
    case (Used k w)
    with n(1) have "?tab ! ?i = Used key w" by (simp add: stops_def)
    then have "Used key w \<in> set ?tab" using lt [of n] wf by (metis ht_wf_def nth_mem)
    then show ?thesis using abs ht_map_Some [OF wf, of key w] by simp
  qed (use n(1) in \<open>simp_all add: stops_def\<close>)
  obtain i d where ins: "insert_loop ?cap ?tab key (collidx ?cap ?h 0) 1 ?cap = Some (False, i, d)"
      "i = ?i" "d = ?cap \<or> (\<exists>l < n. d = probe ?cap ?h l \<and> ?tab ! d = Deleted)"
    using insert_loop_result [OF n(2,1), of 0 ?cap] free by auto
  have nf: "?tab ! probe ?cap ?h m \<noteq> Free" if "m < n" for m
    using n(2) [OF that] by (auto simp: stops_def)
  define q where "q = (if d < ?cap then d else ?i)"
  define t' where "t' = (if ?tab ! q = Deleted
                   then t\<lparr>ht_deleted := ht_deleted t - 1, ht_table := ?tab[q := Used key v]\<rparr>
                   else t\<lparr>ht_used := ht_used t + 1, ht_table := ?tab[q := Used key v]\<rparr>)"
  have q: "q < ?cap" "\<not> usedSlot (?tab ! q)" "reachable_slot hash ?cap ?tab key q"
    "d < ?cap \<longleftrightarrow> ?tab ! q = Deleted"
    using ins(3) lt free nf unfolding q_def reachable_slot_def
    by (auto simp: usedSlot_def dest: less_trans)
  have "ht_insert hash key v t = Some (True, t')"
    using ins q(4) by (auto simp: ht_insert_def t'_def q_def)
  with ht_store_wf [OF wf abs q(1-3) t'_def room] show ?thesis
    by (auto simp: t'_def same_config_def)
qed

lemma ht_insert_dup:
  assumes wf: "ht_wf hash t" and pres: "ht_map t key = Some w"
  shows "ht_insert hash key v t = Some (False, t)"
proof -
  let ?tab = "ht_table t" and ?cap = "ht_capacity t" and ?h = "hash key"
  obtain p where p: "p < ?cap" "?tab ! p = Free" using ht_wf_free [OF wf] .
  obtain n where n: "stops key (?tab ! probe ?cap ?h n)"
      "\<And>m. m < n \<Longrightarrow> \<not> stops key (?tab ! probe ?cap ?h m)"
    using first_stop [OF p, of key] by blast
  obtain q where "q < ?cap" "?tab ! q = Used key w"
    using pres wf ht_map_Some [OF wf] by (auto simp: in_set_conv_nth ht_wf_def)
  then have "?tab ! probe ?cap ?h n \<noteq> Free"
    using reachable_before_free [of hash ?cap ?tab key q w n] n(2) wf by (auto simp: ht_wf_def)
  then show ?thesis
    using insert_loop_result [OF n(2,1), of 0 ?cap] by (auto simp: ht_insert_def)
qed

subsection \<open>Rehashing\<close>

lemma rehash_ok:
  assumes "ht_wf hash t" and "distinct (map fst (assocs ss))"
    and "\<And>k. k \<in> fst ` set (assocs ss) \<Longrightarrow> ht_map t k = None"
    and "ht_used t + length (assocs ss) < ht_capacity t"
  shows "\<exists>t'. rehash hash ss t = Some t' \<and> ht_wf hash t' \<and>
    ht_map t' = ht_map t ++ map_of (assocs ss) \<and> ht_capacity t' = ht_capacity t \<and>
    same_config t t' \<and> ht_used t' \<le> ht_used t + length (assocs ss)"
  using assms
proof (induction ss arbitrary: t)
  case Nil
  then show ?case by simp
next
  case (Cons s ss)
  show ?case
  proof (cases s)
    case (Used k v)
    have new: "ht_map t k = None" "ht_used t + 1 < ht_capacity t"
      using Cons.prems(3) [of k] Cons.prems(4) Used by auto
    obtain t1 where t1: "ht_insert hash k v t = Some (True, t1)" "ht_wf hash t1"
        "ht_map t1 = (ht_map t)(k \<mapsto> v)" "ht_capacity t1 = ht_capacity t" "same_config t t1"
        "ht_used t1 \<le> ht_used t + 1"
      using ht_insert_new [OF Cons.prems(1) new] by blast
    have k: "k \<notin> fst ` set (assocs ss)" using Cons.prems(2) Used by auto
    obtain t' where t': "rehash hash ss t1 = Some t'" "ht_wf hash t'"
        "ht_map t' = ht_map t1 ++ map_of (assocs ss)" "ht_capacity t' = ht_capacity t1"
        "same_config t1 t'" "ht_used t' \<le> ht_used t1 + length (assocs ss)"
    proof -
      have "ht_map t1 k' = None" if "k' \<in> fst ` set (assocs ss)" for k'
        using that k Cons.prems(3) [of k'] Used t1(3) by auto
      moreover have "distinct (map fst (assocs ss))" "ht_used t1 + length (assocs ss) < ht_capacity t1"
        using Cons.prems(2,4) Used t1(4,6) by auto
      ultimately show ?thesis using that Cons.IH [OF t1(2)] by blast
    qed
    have "ht_map t ++ map_of (assocs (s # ss)) = ht_map t1 ++ map_of (assocs ss)"
      using Used k t1(3) by (simp add: map_add_upd_left dom_map_of_conv_image_fst)
    with t'(3) have m: "ht_map t' = ht_map t ++ map_of (assocs (s # ss))" by simp
    have "rehash hash (s # ss) t = Some t'" using t1(1) t'(1) Used by simp
    moreover have "same_config t t'" using t1(5) t'(5) by (simp add: same_config_def)
    moreover have "ht_used t' \<le> ht_used t + length (assocs (s # ss))" using t1(6) t'(6) Used by simp
    ultimately show ?thesis using m t1(4) t'(2,4) by metis
  next
    case Free
    with Cons show ?thesis by auto
  next
    case Deleted
    with Cons show ?thesis by auto
  qed
qed

definition fits :: "nat \<Rightarrow> ('k, 'v) htab \<Rightarrow> nat \<Rightarrow> bool" where
  "fits cap t c \<longleftrightarrow> c \<in> set primes \<and> cap \<le> c \<and> ht_minCapacity t \<le> c"

lemma empty_table_wf:
  "0 < c \<Longrightarrow> ht_wf hash (t\<lparr>ht_table := replicate c Free, ht_used := 0, ht_deleted := 0, ht_capacity := c\<rparr>)"
  by (simp add: ht_wf_def)

lemma primes_ge_7: "p \<in> set primes \<Longrightarrow> 7 \<le> p"
  by (auto simp: primes_def)

definition resized :: "('k \<Rightarrow> nat) \<Rightarrow> nat \<Rightarrow> ('k, 'v) htab \<Rightarrow> ('k, 'v) htab \<Rightarrow> bool" where
  "resized hash cap t t' \<longleftrightarrow>
     ht_wf hash t' \<and> ht_map t' = ht_map t \<and> fits cap t (ht_capacity t') \<and> same_config t t' \<and>
     ht_used t' \<le> length (assocs (ht_table t))"

lemma changeCapacity_cases:
  assumes dist: "distinct (map fst (assocs (ht_table t)))"
    and room: "\<And>c. fits cap t c \<Longrightarrow> length (assocs (ht_table t)) < c"
  obtains (unchanged) "changeCapacity hash mem cap t = Some (True, t)" "fits cap t (ht_capacity t)"
  | (failed) "changeCapacity hash mem cap t = Some (False, t)" "\<not> mem \<or> (\<forall>c. \<not> fits cap t c)"
  | (resized) t' where "changeCapacity hash mem cap t = Some (True, t')" "resized hash cap t t'"
proof (cases "find (\<lambda>p. \<not> p < (if cap < ht_minCapacity t then ht_minCapacity t else cap)) primes")
  case None
  then have "\<not> fits cap t c" for c
    unfolding find_None_iff fits_def by (auto split: if_splits)
  with None show ?thesis by (intro failed) (simp_all add: changeCapacity_def Let_def)
next
  case (Some c)
  then have "c \<in> set primes" "\<not> c < (if cap < ht_minCapacity t then ht_minCapacity t else cap)"
    by (auto simp: find_Some_iff in_set_conv_nth)
  then have c: "fits cap t c" by (auto simp: fits_def split: if_splits)
  let ?t0 = "t\<lparr>ht_table := replicate c Free, ht_used := 0, ht_deleted := 0, ht_capacity := c\<rparr>"
  have "0 < c" using c primes_ge_7 [of c] by (simp add: fits_def)
  then have "ht_wf hash ?t0" by (rule empty_table_wf)
  then obtain t' where t': "rehash hash (ht_table t) ?t0 = Some t'" "ht_wf hash t'"
      "ht_map t' = ht_map ?t0 ++ map_of (assocs (ht_table t))" "ht_capacity t' = c" "same_config ?t0 t'"
      "ht_used t' \<le> length (assocs (ht_table t))"
    using rehash_ok [of hash ?t0 "ht_table t"] dist room [OF c] by (auto simp: ht_map_def)
  have r: "resized hash cap t t'" using t' c by (simp add: resized_def same_config_def ht_map_def)
  have eq: "changeCapacity hash mem cap t =
      (if c = ht_capacity t then Some (True, t) else if \<not> mem then Some (False, t) else Some (True, t'))"
    by (simp add: changeCapacity_def Let_def Some t'(1))
  consider "c = ht_capacity t" | "c \<noteq> ht_capacity t" "\<not> mem" | "c \<noteq> ht_capacity t" "mem" by blast
  then show ?thesis
  proof cases
    case 1
    with c eq show ?thesis by (intro unchanged) simp_all
  next
    case 2
    with eq show ?thesis by (intro failed) simp_all
  next
    case 3
    with eq r show ?thesis by (intro resized) simp_all
  qed
qed

lemma ht_invD:
  assumes "ht_inv hash t"
  shows "ht_wf hash t" "distinct (map fst (assocs (ht_table t)))" "ht_used t < ht_capacity t"
    "ht_size t = length (assocs (ht_table t))" "ht_size t \<le> ht_used t"
  using assms ht_wf_size [of hash t] by (auto simp: ht_inv_def ht_wf_def ht_size_def)

lemma fits_inv:
  "ht_wf hash t' \<Longrightarrow> fits cap t (ht_capacity t') \<Longrightarrow> same_config t t' \<Longrightarrow>
   0 < ht_medwater t \<Longrightarrow> ht_medwater t \<le> 4/5 \<Longrightarrow> ht_inv hash t'"
  by (simp add: ht_inv_def fits_def same_config_def)

lemma medium_capacity_room:
  assumes "0 < ht_medwater t" "ht_medwater t \<le> 4/5" and "fits (medium_capacity t) t c"
  shows "ht_size t < c"
proof (cases "7 \<le> ht_size t")
  case True
  with assms show ?thesis
    using f32_shrink_grows [of "ht_size t" "ht_medwater t"] by (auto simp: fits_def medium_capacity_def)
next
  case False
  with assms(3) primes_ge_7 [of c] show ?thesis by (auto simp: fits_def)
qed

subsection \<open>The operations implement a finite map\<close>

lemma ht_query_ok: "ht_inv hash t \<Longrightarrow> ht_query hash key t = Some (ht_map t key)"
  using locate_ok [OF ht_invD(1), of hash t key]
  by (auto simp: ht_query_def lookupAssoc_def split: option.splits)

lemma ht_new_ok:
  assumes "\<exists>c \<in> set primes. mincap \<le> c" and "mem"
    and "0 < f32_div (f32_add hw lw) 2" and "f32_div (f32_add hw lw) 2 \<le> 4/5"
  shows "\<exists>t. ht_new hash mem mincap hw lw = Some t \<and> ht_inv hash t \<and> ht_map t = Map.empty \<and>
           ht_used t = 0 \<and> ht_minCapacity t = mincap"
proof -
  define t0 :: "('a, 'b) htab" where
    "t0 = \<lparr>ht_table = [], ht_capacity = 0, ht_minCapacity = mincap, ht_lowwater = lw,
        ht_highwater = hw, ht_medwater = f32_div (f32_add hw lw) 2, ht_used = 0, ht_deleted = 0\<rparr>"
  have t0: "assocs (ht_table t0) = []" "ht_map t0 = Map.empty" "ht_capacity t0 = 0"
      "ht_medwater t0 = f32_div (f32_add hw lw) 2" "\<And>c. fits mincap t0 c \<longleftrightarrow> c \<in> set primes \<and> mincap \<le> c"
      "ht_minCapacity t0 = mincap"
    by (auto simp: t0_def ht_map_def fits_def)
  have room: "length (assocs (ht_table t0)) < c" if "fits mincap t0 c" for c
    using that primes_ge_7 [of c] by (simp add: t0)
  have dist: "distinct (map fst (assocs (ht_table t0)))" by (simp add: t0)
  have no0: "\<not> fits mincap t0 (ht_capacity t0)" using primes_ge_7 [of 0] by (auto simp: t0)
  have "\<exists>c. fits mincap t0 c" using assms(1) t0(5) by blast
  with no0 assms(2) obtain t where t: "changeCapacity hash mem mincap t0 = Some (True, t)"
      "resized hash mincap t0 t"
    using changeCapacity_cases [OF dist room] by metis
  have "ht_inv hash t" using t(2) fits_inv [of hash t mincap t0] assms(3,4) by (simp add: t0 resized_def)
  then show ?thesis using t by (simp add: ht_new_def t0_def [symmetric] t0 resized_def same_config_def)
qed

lemma addAssoc_ok:
  assumes inv: "ht_inv hash t"
  shows "\<exists>ok t'. addAssoc hash mem key v t = Some (ok, t') \<and> ht_inv hash t' \<and>
    (ok \<longrightarrow> ht_map t key = None \<and> ht_map t' = (ht_map t)(key \<mapsto> v)) \<and>
    (\<not> ok \<longrightarrow> ht_map t' = ht_map t) \<and>
    (ht_map t key = None \<and> mem \<and> (\<exists>c. fits (max (ht_used t + 2) (medium_capacity t)) t c) \<longrightarrow> ok)"
proof -
  note d = ht_invD [OF inv]
  have med: "0 < ht_medwater t" "ht_medwater t \<le> 4/5" using inv by (simp_all add: ht_inv_def)
  have ins: "\<exists>ok t'. ht_insert hash key v t1 = Some (ok, t') \<and> ht_inv hash t' \<and>
      (ok \<longleftrightarrow> ht_map t1 key = None) \<and> ht_map t' = (if ok then (ht_map t1)(key \<mapsto> v) else ht_map t1)"
    if i1: "ht_inv hash t1" and r1: "ht_used t1 + 1 < ht_capacity t1" for t1
  proof (cases "ht_map t1 key")
    case None
    obtain t' where "ht_insert hash key v t1 = Some (True, t')" "ht_wf hash t'"
        "ht_map t' = (ht_map t1)(key \<mapsto> v)" "ht_capacity t' = ht_capacity t1" "same_config t1 t'"
      using ht_insert_new [OF ht_invD(1) [OF i1] None r1] by blast
    moreover from this have "ht_inv hash t'" using i1 by (simp add: ht_inv_def same_config_def)
    ultimately show ?thesis using None by (intro exI [of _ True] exI [of _ t']) simp
  next
    case (Some w)
    with i1 show ?thesis using ht_insert_dup [OF ht_invD(1) [OF i1] Some, of v] by auto
  qed
  have fin: ?thesis if eq: "addAssoc hash mem key v t = ht_insert hash key v t1"
      and t1: "ht_inv hash t1" "ht_map t1 = ht_map t" "ht_used t1 + 1 < ht_capacity t1" for t1
  proof -
    obtain ok t' where "ht_insert hash key v t1 = Some (ok, t')" "ht_inv hash t'"
      "ok \<longleftrightarrow> ht_map t1 key = None" "ht_map t' = (if ok then (ht_map t1)(key \<mapsto> v) else ht_map t1)"
      using ins [OF t1(1,3)] by blast
    with eq t1(2) show ?thesis by (intro exI [of _ ok] exI [of _ t']) simp
  qed
  show ?thesis
  proof (cases "ht_capacity t < ht_used t + 1 + 1 \<or> over_highwater t")
    case False
    then show ?thesis by (intro fin [of t] inv refl) (simp_all add: addAssoc_def Let_def)
  next
    case True
    let ?pref = "if medium_capacity t < ht_used t + 1 + 1 then ht_used t + 1 + 1 else medium_capacity t"
    have pref: "?pref = max (ht_used t + 2) (medium_capacity t)" by (simp add: max_def)
    have "length (assocs (ht_table t)) < c" if "fits ?pref t c" for c
      using that d(4,5) by (auto simp: fits_def split: if_splits)
    note room = this
    have eq: "addAssoc hash mem key v t = (case changeCapacity hash mem ?pref t of None \<Rightarrow> None
        | Some (ok, t') \<Rightarrow> if \<not> ok then Some (False, t') else ht_insert hash key v t')"
      unfolding addAssoc_def Let_def if_P [OF True] by (rule refl)
    show ?thesis
    proof -
      consider (unchanged) "changeCapacity hash mem ?pref t = Some (True, t)" "fits ?pref t (ht_capacity t)"
        | (failed) "changeCapacity hash mem ?pref t = Some (False, t)" "\<not> mem \<or> (\<forall>c. \<not> fits ?pref t c)"
        | (resized) t1 where "changeCapacity hash mem ?pref t = Some (True, t1)" "resized hash ?pref t t1"
        by (rule changeCapacity_cases [where hash = hash and mem = mem, OF d(2) room])
      then show ?thesis
      proof cases
        case unchanged
        have "ht_used t + 1 < ht_capacity t"
          using unchanged(2) unfolding fits_def pref by simp
        moreover have "addAssoc hash mem key v t = ht_insert hash key v t"
          unfolding eq unchanged(1) by simp
        ultimately show ?thesis by (intro fin [of t] inv refl)
      next
        case failed
        have "addAssoc hash mem key v t = Some (False, t)" unfolding eq failed(1) by simp
        then show ?thesis using failed(2) inv unfolding pref
          by (intro exI [of _ False] exI [of _ t]) simp
      next
        case resized
        note r = resized(2) [unfolded resized_def]
        have "ht_inv hash t1" "ht_map t1 = ht_map t"
          using r fits_inv [of hash t1 ?pref t] med by blast+
        moreover have "ht_used t1 + 1 < ht_capacity t1"
          using r d(4,5) unfolding fits_def pref by simp
        moreover have "addAssoc hash mem key v t = ht_insert hash key v t1"
          unfolding eq resized(1) by simp
        ultimately show ?thesis by (intro fin [of t1])
      qed
    qed
  qed
qed

lemma ht_add_ok:
  assumes inv: "ht_inv hash t"
  shows "\<exists>ok t'. ht_add hash mem0 mem key v t = Some (ok, t') \<and> ht_inv hash t' \<and>
    (ok \<longrightarrow> ht_map t key = None \<and> ht_map t' = (ht_map t)(key \<mapsto> v)) \<and>
    (\<not> ok \<longrightarrow> ht_map t' = ht_map t) \<and>
    (ht_map t key = None \<and> mem0 \<and> mem \<and>
       (\<exists>c. fits (max (ht_used t + 2) (medium_capacity t)) t c) \<longrightarrow> ok)"
proof (cases mem0)
  case True
  then show ?thesis using addAssoc_ok [OF inv, of mem key v] by (simp add: ht_add_def)
next
  case False
  then show ?thesis using inv by (intro exI [of _ False] exI [of _ t]) (simp add: ht_add_def)
qed

lemma delete_wf:
  assumes wf: "ht_wf hash t" and i: "i < ht_capacity t" "ht_table t ! i = Used key v"
    and t': "t' = t\<lparr>ht_table := (ht_table t)[i := Deleted], ht_deleted := ht_deleted t + 1\<rparr>"
  shows "ht_wf hash t' \<and> ht_map t' = (ht_map t)(key := None)"
proof -
  let ?tab = "ht_table t" and ?tab' = "(ht_table t)[i := Deleted]"
  have len: "i < length ?tab" using wf i(1) by (simp add: ht_wf_def)
  obtain ys zs where s: "?tab = ys @ Used key v # zs" "\<And>x. ?tab[i := x] = ys @ x # zs"
    using split_at [OF len] i(2) by metis
  have as: "assocs ?tab = assocs ys @ (key, v) # assocs zs" "assocs ?tab' = assocs ys @ assocs zs"
    by (subst s(1), simp) (simp add: s(2))
  have dist: "distinct (map fst (assocs ys @ (key, v) # assocs zs))"
    using wf as(1) by (simp add: ht_wf_def)
  have cnt: "length (filter (\<lambda>s. s \<noteq> Free) ?tab') = length (filter (\<lambda>s. s \<noteq> Free) ?tab)"
    "length (filter (\<lambda>s. s = Deleted) ?tab') = length (filter (\<lambda>s. s = Deleted) ?tab) + 1"
    by (subst (2) s(1), simp add: s(2))+
  have nonfree: "?tab ! p \<noteq> Free \<Longrightarrow> ?tab' ! p \<noteq> Free" for p
    using len by (cases "p = i") simp_all
  have "reachable_slot hash (ht_capacity t) ?tab' k q"
    if q: "q < ht_capacity t" "?tab' ! q = Used k w" for q k w
  proof -
    have "q \<noteq> i" using q(2) len by auto
    then have "reachable_slot hash (ht_capacity t) ?tab k q" using wf q by (auto simp: ht_wf_def)
    with nonfree show ?thesis unfolding reachable_slot_def by blast
  qed
  then have "ht_wf hash t'" using wf cnt dist as(2) by (simp add: ht_wf_def t')
  moreover have "ht_map t' = (ht_map t)(key := None)"
    using dist unfolding ht_map_def t' by (simp add: as map_of_remove_middle del: map_of_append)
  ultimately show ?thesis by blast
qed

lemma ht_remove_ok:
  assumes inv: "ht_inv hash t"
  shows "\<exists>t'. ht_remove hash mem key t = Some (ht_map t key, t') \<and> ht_inv hash t' \<and>
    ht_map t' = (ht_map t)(key := None)"
proof -
  note d = ht_invD [OF inv]
  have med: "0 < ht_medwater t" "ht_medwater t \<le> 4/5" using inv by (simp_all add: ht_inv_def)
  obtain i where i: "locate hash t key = Some i"
      "case ht_map t key of None \<Rightarrow> i = ht_capacity t
       | Some v \<Rightarrow> i < ht_capacity t \<and> ht_table t ! i = Used key v"
    using locate_ok [OF d(1)] by blast
  show ?thesis
  proof (cases "ht_map t key")
    case None
    with i inv show ?thesis by (auto simp: ht_remove_def removeAssoc_def)
  next
    case (Some v)
    with i have u: "i < ht_capacity t" "ht_table t ! i = Used key v" by auto
    define t1 where "t1 = t\<lparr>ht_table := (ht_table t)[i := Deleted], ht_deleted := ht_deleted t + 1\<rparr>"
    from delete_wf [OF d(1) u t1_def] have wf: "ht_wf hash t1" and m: "ht_map t1 = (ht_map t)(key := None)"
      by auto
    have i1: "ht_inv hash t1" using wf inv by (simp add: ht_inv_def t1_def)
    have med1: "0 < ht_medwater t1" "ht_medwater t1 \<le> 4/5" using med by (simp_all add: t1_def)
    have eq: "ht_remove hash mem key t = (if under_lowwater t1
        then map_option (\<lambda>(_, t''). (Some v, t'')) (changeCapacity hash mem (medium_capacity t1) t1)
        else Some (Some v, t1))"
      using i u by (simp add: ht_remove_def removeAssoc_def t1_def Let_def)
    have room: "length (assocs (ht_table t1)) < c" if "fits (medium_capacity t1) t1 c" for c
      using medium_capacity_room [OF med1 that] ht_wf_size [OF wf] by simp
    show ?thesis
    proof (cases "under_lowwater t1")
      case False
      with eq i1 m Some show ?thesis by auto
    next
      case True
      show ?thesis
      proof -
        consider (same) ok where "changeCapacity hash mem (medium_capacity t1) t1 = Some (ok, t1)"
          | (new) t2 where "changeCapacity hash mem (medium_capacity t1) t1 = Some (True, t2)"
              "resized hash (medium_capacity t1) t1 t2"
          using changeCapacity_cases [where hash = hash and mem = mem, OF ht_invD(2) [OF i1] room]
          by metis
        then show ?thesis
        proof cases
          case same
          then show ?thesis using eq True i1 m Some by simp
        next
          case new
          then have "ht_inv hash t2" "ht_map t2 = ht_map t1"
            using fits_inv [of hash t2 "medium_capacity t1" t1] med1 by (simp_all add: resized_def)
          with new(1) eq True m Some show ?thesis by simp
        qed
      qed
    qed
  qed
qed

lemma ht_update_present:
  assumes inv: "ht_inv hash t" and old: "ht_map t key = Some old"
  shows "\<exists>t'. ht_update hash mem0 mem key v t = Some (True, Some old, t') \<and> ht_inv hash t' \<and>
    ht_map t' = (ht_map t)(key \<mapsto> v)"
proof -
  note wf = ht_invD(1) [OF inv]
  obtain i where i: "locate hash t key = Some i" "i < ht_capacity t" "ht_table t ! i = Used key old"
    using locate_ok [OF wf, of key] old by auto
  let ?tab = "ht_table t" and ?t = "t\<lparr>ht_table := (ht_table t)[i := Used key v]\<rparr>"
  have len: "i < length ?tab" using wf i(2) by (simp add: ht_wf_def)
  obtain ys zs where s: "?tab = ys @ Used key old # zs" "\<And>x. ?tab[i := x] = ys @ x # zs"
    using split_at [OF len] i(3) by metis
  have as: "assocs ?tab = assocs ys @ (key, old) # assocs zs"
      "assocs (?tab[i := Used key v]) = assocs ys @ (key, v) # assocs zs"
    by (subst s(1), simp) (simp add: s(2))
  have dist: "distinct (map fst (assocs ys @ (key, old) # assocs zs))"
    using wf as(1) by (simp add: ht_wf_def)
  have nonfree: "?tab ! p \<noteq> Free \<Longrightarrow> ?tab[i := Used key v] ! p \<noteq> Free" for p
    using len by (cases "p = i") simp_all
  have "reachable_slot hash (ht_capacity t) (?tab[i := Used key v]) k q"
    if q: "q < ht_capacity t" "?tab[i := Used key v] ! q = Used k w" for q k w
  proof -
    have "\<exists>w'. ?tab ! q = Used k w'" using q i(3) len by (cases "q = i") auto
    then have "reachable_slot hash (ht_capacity t) ?tab k q" using wf q(1) by (auto simp: ht_wf_def)
    with nonfree show ?thesis unfolding reachable_slot_def by blast
  qed
  moreover have "length (filter (\<lambda>s. s \<noteq> Free) (?tab[i := Used key v])) = length (filter (\<lambda>s. s \<noteq> Free) ?tab)"
    "length (filter (\<lambda>s. s = Deleted) (?tab[i := Used key v])) = length (filter (\<lambda>s. s = Deleted) ?tab)"
    by (subst (2) s(1), simp add: s(2))+
  ultimately have "ht_inv hash ?t" using inv dist as(2) by (simp add: ht_inv_def ht_wf_def)
  moreover have "ht_map ?t = (ht_map t)(key \<mapsto> v)"
    using dist by (simp add: ht_map_def as map_of_insert_middle fun_upd_upd del: map_of_append)
  ultimately show ?thesis using i by (simp add: ht_update_def)
qed

subsection \<open>The dictionary interface\<close>

text \<open>
  The contract \<open>PltDictionary\<close> promises its clients (the children of a domain, the server table
  of the manager): every operation returns, and acts on the abstract map as its name says.
\<close>

locale dictionary =
  fixes abs :: "'d \<Rightarrow> 'k \<rightharpoonup> 'v"
    and inv :: "'d \<Rightarrow> bool"
    and query :: "'k \<Rightarrow> 'd \<Rightarrow> 'v option option"
    and add :: "'k \<Rightarrow> 'v \<Rightarrow> 'd \<Rightarrow> (bool \<times> 'd) option"
    and remove :: "'k \<Rightarrow> 'd \<Rightarrow> ('v option \<times> 'd) option"
  assumes query_abs: "inv d \<Longrightarrow> query k d = Some (abs d k)"
    and add_abs: "inv d \<Longrightarrow> \<exists>ok d'. add k v d = Some (ok, d') \<and> inv d' \<and>
      (ok \<longrightarrow> abs d k = None \<and> abs d' = (abs d)(k \<mapsto> v)) \<and> (\<not> ok \<longrightarrow> abs d' = abs d)"
    and remove_abs: "inv d \<Longrightarrow> \<exists>d'. remove k d = Some (abs d k, d') \<and> inv d' \<and> abs d' = (abs d)(k := None)"
begin

lemma query_after_add:
  assumes "inv d" and "add k v d = Some (True, d')"
  shows "query k' d' = (if k' = k then Some (Some v) else query k' d)"
  using add_abs [OF assms(1), of k v] assms query_abs [of d k'] query_abs [of d' k'] by auto

lemma query_after_remove:
  assumes "inv d" and "remove k d = Some (r, d')"
  shows "query k' d' = (if k' = k then Some None else query k' d)"
  using remove_abs [OF assms(1), of k] assms query_abs [of d k'] query_abs [of d' k'] by auto

lemma add_existing:
  assumes "inv d" and "abs d k = Some w"
  obtains d' where "add k v d = Some (False, d')" "inv d'" "abs d' = abs d"
  using add_abs [OF assms(1), of k v] assms(2) by auto

end

interpretation htd: dictionary ht_map "ht_inv hash" "ht_query hash" "ht_add hash mem0 mem" "ht_remove hash mem"
  for hash :: "'k \<Rightarrow> nat" and mem0 mem :: bool
proof
  fix t :: "('k, 'v) htab" and key v
  assume inv: "ht_inv hash t"
  show "ht_query hash key t = Some (ht_map t key)" by (rule ht_query_ok [OF inv])
  show "\<exists>ok t'. ht_add hash mem0 mem key v t = Some (ok, t') \<and> ht_inv hash t' \<and>
      (ok \<longrightarrow> ht_map t key = None \<and> ht_map t' = (ht_map t)(key \<mapsto> v)) \<and> (\<not> ok \<longrightarrow> ht_map t' = ht_map t)"
    using ht_add_ok [OF inv, of mem0 mem key v] by metis
  show "\<exists>t'. ht_remove hash mem key t = Some (ht_map t key, t') \<and> ht_inv hash t' \<and>
      ht_map t' = (ht_map t)(key := None)"
    by (rule ht_remove_ok [OF inv])
qed

subsection \<open>Iteration\<close>

lemma ht_advance_next:
  "ht_advance t i = (if i + 1 < ht_capacity t \<and> \<not> usedSlot (ht_table t ! (i + 1))
                     then ht_advance t (i + 1) else i + 1)"
  by (subst ht_advance.simps) (simp add: Let_def)

lemma ht_advance_drop:
  assumes "length (ht_table t) = ht_capacity t"
  shows "filter usedSlot (drop (ht_advance t i) (ht_table t)) = filter usedSlot (drop (Suc i) (ht_table t)) \<and>
    (ht_advance t i < ht_capacity t \<longrightarrow> usedSlot (ht_table t ! ht_advance t i)) \<and> i < ht_advance t i"
  using assms
proof (induction t i rule: ht_advance.induct)
  case (1 t i)
  note eq = ht_advance_next [of t i]
  show ?case
  proof (cases "i + 1 < ht_capacity t \<and> \<not> usedSlot (ht_table t ! (i + 1))")
    case True
    then have "drop (Suc i) (ht_table t) = ht_table t ! (i + 1) # drop (Suc (i + 1)) (ht_table t)"
      using drop_eq_nth_Cons [of "Suc i" "ht_table t"] "1.prems" by simp
    then show ?thesis using "1.IH" [OF refl True "1.prems"] True unfolding eq by auto
  next
    case False
    then show ?thesis unfolding eq by auto
  qed
qed

lemma ht_iterate_used:
  assumes "length (ht_table t) = ht_capacity t" and "i < ht_capacity t \<longrightarrow> usedSlot (ht_table t ! i)"
  shows "ht_iterate t i = filter usedSlot (drop i (ht_table t))"
  using assms
proof (induction t i rule: ht_iterate.induct)
  case (1 t i)
  show ?case
  proof (cases "i < ht_capacity t")
    case True
    note adv = ht_advance_drop [OF "1.prems"(1), of i]
    have "ht_iterate t (ht_advance t i) = filter usedSlot (drop (ht_advance t i) (ht_table t))"
      using adv by (intro "1.IH" True "1.prems"(1)) blast
    then show ?thesis
      using True adv "1.prems" drop_eq_nth_Cons [of i "ht_table t"]
      by (simp add: ht_iterate.simps [of t i])
  next
    case False
    with "1.prems" show ?thesis by (simp add: ht_iterate.simps [of t i])
  qed
qed

lemma ht_iterate_start:
  assumes "length (ht_table t) = ht_capacity t"
  shows "ht_iterate t (ht_toStart t) = filter usedSlot (ht_table t)"
proof (cases "0 < ht_capacity t \<and> \<not> usedSlot (ht_table t ! 0)")
  case True
  note adv = ht_advance_drop [OF assms, of 0]
  have "filter usedSlot (ht_table t) = filter usedSlot (drop (Suc 0) (ht_table t))"
    using True assms drop_eq_nth_Cons [of 0 "ht_table t"] by (metis drop0 filter.simps(2))
  moreover have "ht_iterate t (ht_advance t 0) = filter usedSlot (drop (ht_advance t 0) (ht_table t))"
    using adv by (intro ht_iterate_used assms) blast
  ultimately show ?thesis using True adv by (simp add: ht_toStart_def)
next
  case False
  then show ?thesis using ht_iterate_used [OF assms, of 0] by (auto simp: ht_toStart_def)
qed

subsection \<open>Properties\<close>

text \<open>
  C33. A table made with the default water marks is well formed and empty, and \<open>query\<close> on a well-formed table
  always returns, with the value stored under the key, or none: the probing loop ends for every key.
\<close>

theorem ht_query_correct:
  assumes "ht_inv hash t"
  shows "ht_query hash key t = Some (ht_map t key)"
  using assms by (rule htd.query_abs)

lemma ht_new_default:
  "\<exists>t. ht_new hash True 11 (f32 (4/5)) (f32 (2/5)) = Some t \<and> ht_inv hash t \<and> ht_map t = Map.empty \<and>
    ht_used t = 0 \<and> ht_minCapacity t = 11"
  using default_marks by (intro ht_new_ok) (auto simp: primes_def)

lemma sample_table:
  obtains t :: "(nat, int) htab" where "ht_inv id t" "ht_map t = [5 \<mapsto> 7]"
proof -
  obtain t :: "(nat, int) htab" where t: "ht_inv id t" "ht_map t = Map.empty" "ht_used t = 0" "ht_minCapacity t = 11"
    using ht_new_default [of id] by blast
  have "medium_capacity t = 0"
    using t(3) by (simp add: medium_capacity_def ht_size_def f32_of_nat_def f32_div_def f32_trunc_def)
  then have "fits (max (ht_used t + 2) (medium_capacity t)) t 11"
    using t by (simp add: fits_def primes_def)
  then show thesis using ht_add_ok [OF t(1), of True True 5 7] t(2) that by auto
qed

theorem ht_query_correct_witness:
  "\<exists>t :: (nat, int) htab. ht_query id 5 t = Some (Some 7) \<and> ht_query id 16 t = Some None"
proof -
  obtain t :: "(nat, int) htab" where t: "ht_inv id t" "ht_map t = [5 \<mapsto> 7]" by (rule sample_table)
  have "ht_query id 5 t = Some (Some 7)" "ht_query id 16 t = Some None"
    using ht_query_correct [OF t(1), of 5] ht_query_correct [OF t(1), of 16] t(2) by simp_all
  then show ?thesis by blast
qed

text \<open>
  C32. \<open>add\<close> on a well-formed table, with any hash function and with growing, rehashing and the reuse of
  deleted slots inside: it returns, refuses a key that is present, otherwise enters the pair and touches nothing else;
  it succeeds for a new key unless memory or the list of primes runs out.
\<close>

theorem ht_add_correct:
  assumes "ht_inv hash t"
  shows "\<exists>ok t'. ht_add hash mem0 mem key v t = Some (ok, t') \<and> ht_inv hash t' \<and>
    (ok \<longrightarrow> ht_map t key = None \<and> ht_map t' = (ht_map t)(key \<mapsto> v)) \<and>
    (\<not> ok \<longrightarrow> ht_map t' = ht_map t) \<and>
    (ht_map t key = None \<and> mem0 \<and> mem \<and>
       (\<exists>c. fits (max (ht_used t + 2) (medium_capacity t)) t c) \<longrightarrow> ok)"
  using assms by (rule ht_add_ok)

theorem ht_add_correct_witness:
  "\<exists>t t' :: (nat, int) htab. ht_add id True True 5 7 t = Some (True, t') \<and> ht_query id 5 t' = Some (Some 7)"
proof -
  obtain t :: "(nat, int) htab" where t: "ht_inv id t" "ht_map t = Map.empty" "ht_used t = 0"
      "ht_minCapacity t = 11"
    using ht_new_default [of id] by blast
  have "medium_capacity t = 0"
    using t(3) by (simp add: medium_capacity_def ht_size_def f32_of_nat_def f32_div_def f32_trunc_def)
  then have "fits (max (ht_used t + 2) (medium_capacity t)) t 11"
    using t by (simp add: fits_def primes_def)
  then obtain t' where "ht_add id True True 5 7 t = Some (True, t')" "ht_inv id t'" "ht_map t' = (ht_map t)(5 \<mapsto> 7)"
    using ht_add_correct [OF t(1), of True True 5 7] t(2) by auto
  then show ?thesis using htd.query_abs [of id t' 5] by auto
qed

text \<open>
  C34. \<open>remove\<close> on a well-formed table returns the value stored under the key, or none, and leaves the
  table without that key and otherwise unchanged, also when it shrinks and rehashes.
\<close>

theorem ht_remove_correct:
  assumes "ht_inv hash t"
  shows "\<exists>t'. ht_remove hash mem key t = Some (ht_map t key, t') \<and> ht_inv hash t' \<and>
    ht_map t' = (ht_map t)(key := None)"
  using assms by (rule htd.remove_abs)

theorem ht_remove_correct_witness:
  "\<exists>t t' :: (nat, int) htab. ht_query id 5 t = Some (Some 7) \<and> ht_remove id True 5 t = Some (Some 7, t') \<and> ht_query id 5 t' = Some None"
proof -
  obtain t :: "(nat, int) htab" where t: "ht_inv id t" "ht_map t = [5 \<mapsto> 7]" by (rule sample_table)
  then obtain t' where "ht_remove id True 5 t = Some (Some 7, t')" "ht_inv id t'" "ht_map t' 5 = None"
    using ht_remove_correct [OF t(1), of True 5] by auto
  moreover have "ht_query id 5 t = Some (Some 7)" using htd.query_abs [OF t(1), of 5] t(2) by simp
  moreover have "ht_query id 5 t' = Some None" using htd.query_abs [of id t' 5] calculation by simp
  ultimately show ?thesis by blast
qed

text \<open>
  An iteration over a well-formed table delivers exactly the slots in use, each once, in the order of the array,
  so the associations it visits are those of the abstract map.
\<close>

theorem ht_iterate_complete:
  assumes "ht_inv hash t"
  shows "ht_iterate t (ht_toStart t) = filter usedSlot (ht_table t) \<and>
    (ht_map t k = Some v \<longleftrightarrow> Used k v \<in> set (ht_iterate t (ht_toStart t)))"
  using ht_iterate_start [of t] ht_map_Some [OF ht_invD(1) [OF assms], of k v] assms
  by (auto simp: ht_inv_def ht_wf_def usedSlot_def)

theorem ht_iterate_complete_witness:
  "\<exists>t :: (nat, int) htab. Used 5 7 \<notin> set (ht_iterate t (ht_toStart t))"
proof -
  obtain t :: "(nat, int) htab" where t: "ht_inv id t" "ht_map t = Map.empty"
    using ht_new_default [of id] by blast
  then show ?thesis using ht_iterate_complete [OF t(1), of 5 7] by auto
qed

end
