(* ===== verification/XdrStream.thy ===== *)
theory XdrStream
  imports KsPrelude "HOL-Library.Monad_Syntax"
begin

text \<open>
  The interface of an XDR stream (oncrpc/rpc/xdr.h) and the contract its users rely on.

  \<^item> \<open>xdr_ops\<close> is the table of operations behind \<open>XDR_GETLONG\<close>, \<open>XDR_PUTLONG\<close>,
    \<open>XDR_GETBYTES\<close> and \<open>XDR_PUTBYTES\<close>, over the private state \<open>'s\<close> of a stream. An operation
    that reads or writes outside the objects it owns has no result: it returns \<open>None\<close>.
    An \<open>XDR_GETLONG\<close> that returns FALSE delivers no value. The byte operations are given the caller's
    buffer and return its contents afterwards, since the callee may write to it.
  \<^item> \<open>long_sink\<close>, \<open>long_source\<close> are the contract of a stream that encodes and decodes XDR units,
    \<open>byte_sink\<close> and \<open>byte_source\<close> add the opaque bytes.
\<close>

unbundle bit_operations_syntax

datatype xdr_op = XDR_ENCODE | XDR_DECODE | XDR_FREE

record 's xdr_ops =
  x_getlong :: "'s \<Rightarrow> (u32 option \<times> 's) option"
  x_putlong :: "u32 \<Rightarrow> 's \<Rightarrow> (bool \<times> 's) option"
  x_getbytes :: "byte list \<Rightarrow> 's \<Rightarrow> (bool \<times> byte list \<times> 's) option"
  x_putbytes :: "byte list \<Rightarrow> 's \<Rightarrow> (bool \<times> byte list \<times> 's) option"

subsection \<open>Network byte order\<close>

text \<open>The bytes of \<open>htonl v\<close> in memory, and \<open>ntohl\<close> of four bytes.\<close>

definition be32 :: "u32 \<Rightarrow> byte list" where
  "be32 v = [ucast (drop_bit 24 v), ucast (drop_bit 16 v), ucast (drop_bit 8 v), ucast v]"

fun un_be32 :: "byte list \<Rightarrow> u32" where
  "un_be32 [a, b, c, d] = push_bit 24 (ucast a) OR push_bit 16 (ucast b) OR push_bit 8 (ucast c) OR ucast d"
| "un_be32 _ = 0"

lemma length_be32 [simp]: "length (be32 v) = 4"
  by (simp add: be32_def)

lemma be32_not_Nil [simp]: "be32 v \<noteq> []"
  by (simp add: be32_def)

lemma un_be32_be32 [simp]: "un_be32 (be32 v) = v"
proof (rule bit_word_eqI)
  fix n
  assume n: "n < LENGTH(32)"
  consider "n < 8" | "8 \<le> n" "n < 16" | "16 \<le> n" "n < 24" | "24 \<le> n" by linarith
  then show "bit (un_be32 (be32 v)) n = bit v n"
    using n by cases (auto simp: be32_def bit_simps)
qed

lemma be32_un_be32:
  assumes "length bs = 4"
  shows "be32 (un_be32 bs) = bs"
proof -
  obtain a b c d where "bs = [a, b, c, d]"
    using assms by (auto simp: length_Suc_conv numeral_eq_Suc)
  then show ?thesis
    by (auto simp: be32_def intro!: bit_word_eqI) (auto simp: bit_simps dest: bit_imp_le_length)
qed

lemma be32_inject [simp]: "be32 v = be32 w \<longleftrightarrow> v = w"
  by (metis un_be32_be32)

lemma be32_append_inject [simp]: "be32 v @ r = be32 w @ r' \<longleftrightarrow> v = w \<and> r = r'"
  by simp

text \<open>The number of zero bytes that fill \<open>n\<close> bytes up to whole XDR units.\<close>

definition pad_len :: "nat \<Rightarrow> nat" where
  "pad_len n = (4 - n mod 4) mod 4"

definition padded :: "byte list \<Rightarrow> byte list" where
  "padded bs = bs @ replicate (pad_len (length bs)) 0"

lemma length_padded [simp]: "length (padded bs) = length bs + pad_len (length bs)"
  by (simp add: padded_def)

lemma pad_len_less: "pad_len n < 4"
  by (simp add: pad_len_def)

lemma pad_len_aligned: "4 dvd n + pad_len n"
proof -
  have "(n + (4 - n mod 4)) mod 4 = 0"
    by presburger
  then show ?thesis
    by (simp add: pad_len_def mod_add_right_eq dvd_eq_mod_eq_0)
qed

lemma pad_len_0 [simp]: "pad_len 0 = 0"
  by (simp add: pad_len_def)

subsection \<open>The contract of a stream\<close>

text \<open>
  What writing did to a sink: \<open>bs\<close> was appended to what is \<open>written\<close>, and at most that much of
  the \<open>room\<close> was used up. An \<open>'a filter\<close> is an XDR routine for one object: it gets
  the operation, the object and the stream, and returns its result code, the object afterwards and the
  stream. \<open>encodes\<close> and \<open>decodes\<close> state that a filter writes, or reads, exactly the external
  representation \<open>bs\<close> of an object.
\<close>

type_synonym ('s, 'a) filter = "xdr_op \<Rightarrow> 'a \<Rightarrow> 's \<Rightarrow> (bool \<times> 'a \<times> 's) option"

definition emits ::
  "('s \<Rightarrow> bool) \<Rightarrow> ('s \<Rightarrow> nat) \<Rightarrow> ('s \<Rightarrow> byte list) \<Rightarrow> 's \<Rightarrow> byte list \<Rightarrow> 's \<Rightarrow> bool" where
  "emits good room written s bs s' \<longleftrightarrow>
     good s' \<and> written s' = written s @ bs \<and> room s \<le> room s' + length bs"

text \<open>
  A stream is at the boundary of a unit when the number of bytes before it, or behind it, is a multiple of four. XDR units are
  read and written at such boundaries only, and the representation of every object has a length that is a multiple of four.
\<close>

definition encodes ::
  "('s \<Rightarrow> bool) \<Rightarrow> ('s \<Rightarrow> nat) \<Rightarrow> ('s \<Rightarrow> byte list) \<Rightarrow> ('s, 'a) filter \<Rightarrow> 'a \<Rightarrow> byte list \<Rightarrow> bool" where
  "encodes good room written f v bs \<longleftrightarrow> 4 dvd length bs \<and>
     (\<forall>s. good s \<and> 4 dvd length (written s) \<and> length bs \<le> room s \<longrightarrow>
        (\<exists>s'. f XDR_ENCODE v s = Some (True, v, s') \<and> emits good room written s bs s'))"

definition decodes ::
  "('s \<Rightarrow> bool) \<Rightarrow> ('s \<Rightarrow> byte list) \<Rightarrow> ('s, 'a) filter \<Rightarrow> 'a \<Rightarrow> 'a \<Rightarrow> byte list \<Rightarrow> bool" where
  "decodes good rest f old v bs \<longleftrightarrow> 4 dvd length bs \<and>
     (\<forall>s r. good s \<and> rest s = bs @ r \<and> 4 dvd length r \<longrightarrow>
        (\<exists>s'. f XDR_DECODE old s = Some (True, v, s') \<and> good s' \<and> rest s' = r))"

lemma encodesI:
  assumes "4 dvd length bs"
    and "\<And>s. good s \<Longrightarrow> 4 dvd length (written s) \<Longrightarrow> length bs \<le> room s \<Longrightarrow>
      \<exists>s'. f XDR_ENCODE v s = Some (True, v, s') \<and> emits good room written s bs s'"
  shows "encodes good room written f v bs"
  using assms by (simp add: encodes_def)

lemma encodesD:
  "encodes good room written f v bs \<Longrightarrow> good s \<Longrightarrow> 4 dvd length (written s) \<Longrightarrow> length bs \<le> room s \<Longrightarrow>
   \<exists>s'. f XDR_ENCODE v s = Some (True, v, s') \<and> emits good room written s bs s'"
  by (simp add: encodes_def)

lemma encodes_unit: "encodes good room written f v bs \<Longrightarrow> 4 dvd length bs"
  by (simp add: encodes_def)

lemma decodesI:
  assumes "4 dvd length bs"
    and "\<And>s r. good s \<Longrightarrow> rest s = bs @ r \<Longrightarrow> 4 dvd length r \<Longrightarrow>
      \<exists>s'. f XDR_DECODE old s = Some (True, v, s') \<and> good s' \<and> rest s' = r"
  shows "decodes good rest f old v bs"
  using assms by (simp add: decodes_def)

lemma decodesD:
  "decodes good rest f old v bs \<Longrightarrow> good s \<Longrightarrow> rest s = bs @ r \<Longrightarrow> 4 dvd length r \<Longrightarrow>
   \<exists>s'. f XDR_DECODE old s = Some (True, v, s') \<and> good s' \<and> rest s' = r"
  by (simp add: decodes_def)

lemma decodes_unit: "decodes good rest f old v bs \<Longrightarrow> 4 dvd length bs"
  by (simp add: decodes_def)

lemma emits_Nil: "good s \<Longrightarrow> emits good room written s [] s"
  by (simp add: emits_def)

lemma emits_append:
  "emits good room written s bs s' \<Longrightarrow> emits good room written s' cs s'' \<Longrightarrow>
   emits good room written s (bs @ cs) s''"
  by (auto simp: emits_def)

text \<open>What the next step needs, after \<open>bs\<close> has been written and \<open>cs\<close> is to follow.\<close>

lemma emits_next:
  assumes "emits good room written s bs s'" "length (bs @ cs) \<le> room s"
  shows "good s'" "length cs \<le> room s'"
    "4 dvd length (written s) \<Longrightarrow> 4 dvd length bs \<Longrightarrow> 4 dvd length (written s')"
  using assms by (auto simp: emits_def)

lemma padded_unit [simp]: "4 dvd length bs + pad_len (length bs)"
  by (rule pad_len_aligned)

locale long_sink =
  fixes ops :: "'s xdr_ops" and good :: "'s \<Rightarrow> bool" and room :: "'s \<Rightarrow> nat" and written :: "'s \<Rightarrow> byte list"
  assumes put_long:
    "good s \<Longrightarrow> 4 dvd length (written s) \<Longrightarrow> 4 \<le> room s \<Longrightarrow>
     \<exists>s'. x_putlong ops v s = Some (True, s') \<and> emits good room written s (be32 v) s'"

locale byte_sink = long_sink +
  assumes put_bytes:
    "good s \<Longrightarrow> length bs \<le> room s \<Longrightarrow>
     \<exists>s'. x_putbytes ops bs s = Some (True, bs, s') \<and> emits good room written s bs s'"

locale long_source =
  fixes ops :: "'s xdr_ops" and good :: "'s \<Rightarrow> bool" and rest :: "'s \<Rightarrow> byte list"
  assumes get_long:
    "good s \<Longrightarrow> rest s = be32 v @ r \<Longrightarrow> 4 dvd length r \<Longrightarrow>
     \<exists>s'. x_getlong ops s = Some (Some v, s') \<and> good s' \<and> rest s' = r"

locale byte_source = long_source +
  assumes get_bytes:
    "good s \<Longrightarrow> rest s = bs @ r \<Longrightarrow> length buf = length bs \<Longrightarrow>
     \<exists>s'. x_getbytes ops buf s = Some (True, bs, s') \<and> good s' \<and> rest s' = r"

end
