(* ===== verification/XdrFilters.thy ===== *)
theory XdrFilters
  imports XdrStream
begin

text \<open>
  The XDR routines of oncrpc/librpc: xdr.c, xdr_arra.c, xdr_refe.c and xdr_floa.c, for the platforms
  with 32-bit \<open>long\<close> this RPC library is written for (Windows, and the C types \<open>int\<close>, \<open>enum_t\<close>,
  \<open>bool_t\<close> and \<open>long\<close> are all one XDR unit). Every routine is a filter: what it does depends on \<open>x_op\<close>.

  A pointer is an \<open>option\<close> (\<open>None\<close> is NULL), a buffer the list of bytes it owns; an access outside of it has
  no result. \<open>malloc n\<close> is the storage the C library returns for \<open>n\<close> bytes, or \<open>None\<close>. The two static pad buffers of
  \<open>xdr_opaque\<close> are taken as zero, which they stay as long as the stream keeps the contract of \<open>XdrStream\<close>.
\<close>

subsection \<open>Numbers\<close>

definition xdr_void :: "('s, unit) filter" where
  "xdr_void op v s = Some (True, v, s)"

definition xdr_long :: "'s xdr_ops \<Rightarrow> ('s, u32) filter" where
  "xdr_long ops op lp s = (case op of
     XDR_ENCODE \<Rightarrow> do { (ok, s) \<leftarrow> x_putlong ops lp s; Some (ok, lp, s) }
   | XDR_DECODE \<Rightarrow> do { (r, s) \<leftarrow> x_getlong ops s;
                      Some (case r of None \<Rightarrow> (False, lp, s) | Some v \<Rightarrow> (True, v, s)) }
   | XDR_FREE \<Rightarrow> Some (True, lp, s))"

definition xdr_u_long :: "'s xdr_ops \<Rightarrow> ('s, u32) filter" where
  "xdr_u_long ops op ulp s = (case op of
     XDR_DECODE \<Rightarrow> do { (r, s) \<leftarrow> x_getlong ops s;
                      Some (case r of None \<Rightarrow> (False, ulp, s) | Some v \<Rightarrow> (True, v, s)) }
   | XDR_ENCODE \<Rightarrow> do { (ok, s) \<leftarrow> x_putlong ops ulp s; Some (ok, ulp, s) }
   | XDR_FREE \<Rightarrow> Some (True, ulp, s))"

text \<open>\<open>sizeof (int) == sizeof (long)\<close>.\<close>

definition xdr_int :: "'s xdr_ops \<Rightarrow> ('s, u32) filter" where
  "xdr_int ops = xdr_long ops"

definition xdr_u_int :: "'s xdr_ops \<Rightarrow> ('s, u32) filter" where
  "xdr_u_int ops = xdr_u_long ops"

definition xdr_enum :: "'s xdr_ops \<Rightarrow> ('s, u32) filter" where
  "xdr_enum ops = xdr_long ops"

definition xdr_short :: "'s xdr_ops \<Rightarrow> ('s, 16 word) filter" where
  "xdr_short ops op sp s = (case op of
     XDR_ENCODE \<Rightarrow> do { (ok, s) \<leftarrow> x_putlong ops (scast sp) s; Some (ok, sp, s) }
   | XDR_DECODE \<Rightarrow> do { (r, s) \<leftarrow> x_getlong ops s;
                      Some (case r of None \<Rightarrow> (False, sp, s) | Some l \<Rightarrow> (True, ucast l, s)) }
   | XDR_FREE \<Rightarrow> Some (True, sp, s))"

definition xdr_u_short :: "'s xdr_ops \<Rightarrow> ('s, 16 word) filter" where
  "xdr_u_short ops op usp s = (case op of
     XDR_ENCODE \<Rightarrow> do { (ok, s) \<leftarrow> x_putlong ops (ucast usp) s; Some (ok, usp, s) }
   | XDR_DECODE \<Rightarrow> do { (r, s) \<leftarrow> x_getlong ops s;
                      Some (case r of None \<Rightarrow> (False, usp, s) | Some l \<Rightarrow> (True, ucast l, s)) }
   | XDR_FREE \<Rightarrow> Some (True, usp, s))"

text \<open>
  \<open>char\<close> is signed here. \<open>xdr_u_char\<close> takes a \<open>char *\<close> too, so that the assignment to an \<open>unsigned\<close> variable extends the sign.
\<close>

definition xdr_char :: "'s xdr_ops \<Rightarrow> ('s, byte) filter" where
  "xdr_char ops op cp s =
     do { (ok, i, s) \<leftarrow> xdr_int ops op (scast cp) s;
          Some (if \<not> ok then (False, cp, s) else (True, ucast i, s)) }"

definition xdr_u_char :: "'s xdr_ops \<Rightarrow> ('s, byte) filter" where
  "xdr_u_char ops op cp s =
     do { (ok, u, s) \<leftarrow> xdr_u_int ops op (scast cp) s;
          Some (if \<not> ok then (False, cp, s) else (True, ucast u, s)) }"

definition xdr_bool :: "'s xdr_ops \<Rightarrow> ('s, u32) filter" where
  "xdr_bool ops op bp s = (case op of
     XDR_ENCODE \<Rightarrow> do { (ok, s) \<leftarrow> x_putlong ops (if bp \<noteq> 0 then 1 else 0) s; Some (ok, bp, s) }
   | XDR_DECODE \<Rightarrow> do { (r, s) \<leftarrow> x_getlong ops s;
                      Some (case r of None \<Rightarrow> (False, bp, s) | Some lb \<Rightarrow> (True, if lb = 0 then 0 else 1, s)) }
   | XDR_FREE \<Rightarrow> Some (True, bp, s))"

subsection \<open>Floating point numbers\<close>

text \<open>
  The routines of the processors with IEEE numbers: a \<open>float\<close> is the \<open>long\<close> in its place, a \<open>double\<close> the
  pair of the \<open>long\<close>s at its address and behind it. \<open>X86\<close> and \<open>X64\<close> are \<open>_X86_\<close> and \<open>_M_X64\<close>;
  \<open>Big_endian\<close> stands for mc68000, sparc, mips and mmax.
\<close>

datatype arch = X86 | X64 | Big_endian

definition xdr_float :: "'s xdr_ops \<Rightarrow> ('s, u32) filter" where
  "xdr_float ops op fp s = (case op of
     XDR_ENCODE \<Rightarrow> do { (ok, s) \<leftarrow> x_putlong ops fp s; Some (ok, fp, s) }
   | XDR_DECODE \<Rightarrow> do { (r, s) \<leftarrow> x_getlong ops s;
                      Some (case r of None \<Rightarrow> (False, fp, s) | Some v \<Rightarrow> (True, v, s)) }
   | XDR_FREE \<Rightarrow> Some (True, fp, s))"

definition put_two :: "'s xdr_ops \<Rightarrow> u32 \<Rightarrow> u32 \<Rightarrow> 's \<Rightarrow> (bool \<times> 's) option" where
  "put_two ops a b s = do { (ok, s) \<leftarrow> x_putlong ops a s; if ok then x_putlong ops b s else Some (False, s) }"

definition get_hi_lo :: "'s xdr_ops \<Rightarrow> u32 \<times> u32 \<Rightarrow> 's \<Rightarrow> (bool \<times> (u32 \<times> u32) \<times> 's) option" where
  "get_hi_lo ops dp s = do { (r, s) \<leftarrow> x_getlong ops s;
     case r of None \<Rightarrow> Some (False, dp, s)
     | Some w1 \<Rightarrow> do { (r, s) \<leftarrow> x_getlong ops s;
         Some (case r of None \<Rightarrow> (False, (fst dp, w1), s) | Some w0 \<Rightarrow> (True, (w0, w1), s)) } }"

definition get_lo_hi :: "'s xdr_ops \<Rightarrow> u32 \<times> u32 \<Rightarrow> 's \<Rightarrow> (bool \<times> (u32 \<times> u32) \<times> 's) option" where
  "get_lo_hi ops dp s = do { (r, s) \<leftarrow> x_getlong ops s;
     case r of None \<Rightarrow> Some (False, dp, s)
     | Some w0 \<Rightarrow> do { (r, s) \<leftarrow> x_getlong ops s;
         Some (case r of None \<Rightarrow> (False, (w0, snd dp), s) | Some w1 \<Rightarrow> (True, (w0, w1), s)) } }"

definition xdr_double :: "arch \<Rightarrow> 's xdr_ops \<Rightarrow> ('s, u32 \<times> u32) filter" where
  "xdr_double arch ops op dp s = (case op of
     XDR_ENCODE \<Rightarrow> do { (ok, s) \<leftarrow> (if arch = X86 then put_two ops (snd dp) (fst dp) s
                                  else put_two ops (fst dp) (snd dp) s); Some (ok, dp, s) }
   | XDR_DECODE \<Rightarrow> if arch = X86 \<or> arch = X64 then get_hi_lo ops dp s else get_lo_hi ops dp s
   | XDR_FREE \<Rightarrow> Some (True, dp, s))"

text \<open>
  The representation of a \<open>double\<close> each processor writes, and the number it makes of that when it reads it: \<open>X64\<close> exchanges the halves.
\<close>

definition bytes_double :: "arch \<Rightarrow> u32 \<times> u32 \<Rightarrow> byte list" where
  "bytes_double arch d = (if arch = X86 then be32 (snd d) @ be32 (fst d) else be32 (fst d) @ be32 (snd d))"

definition heard_double :: "arch \<Rightarrow> u32 \<times> u32 \<Rightarrow> u32 \<times> u32" where
  "heard_double arch d = (if arch = X64 then (snd d, fst d) else d)"

subsection \<open>Opaque data and strings\<close>

text \<open>The number of pad bytes as the code computes it.\<close>

definition rndup :: "u32 \<Rightarrow> u32" where
  "rndup cnt = (let r = cnt mod 4 in if 0 < r then 4 - r else r)"

definition xdr_opaque :: "'s xdr_ops \<Rightarrow> u32 \<Rightarrow> ('s, byte list) filter" where
  "xdr_opaque ops cnt op cp s =
     (if cnt = 0 then Some (True, cp, s)
      else let n = unat cnt; p = unat (rndup cnt) in
      case op of
        XDR_DECODE \<Rightarrow>
          if length cp < n then None
          else do { (ok, b, s) \<leftarrow> x_getbytes ops (take n cp) s;
                    let cp = b @ drop n cp;
                    if \<not> ok then Some (False, cp, s)
                    else if p = 0 then Some (True, cp, s)
                    else do { (ok, _, s) \<leftarrow> x_getbytes ops (replicate p 0) s; Some (ok, cp, s) } }
      | XDR_ENCODE \<Rightarrow>
          if length cp < n then None
          else do { (ok, b, s) \<leftarrow> x_putbytes ops (take n cp) s;
                    let cp = b @ drop n cp;
                    if \<not> ok then Some (False, cp, s)
                    else if p = 0 then Some (True, cp, s)
                    else do { (ok, _, s) \<leftarrow> x_putbytes ops (replicate p 0) s; Some (ok, cp, s) } }
      | XDR_FREE \<Rightarrow> Some (True, cp, s))"

text \<open>
  The routines for counted data get the pointer and the count together. A NULL pointer handed on to \<open>xdr_opaque\<close>
  owns no bytes.
\<close>

definition bytes_at :: "byte list option \<Rightarrow> byte list" where
  "bytes_at p = (case p of None \<Rightarrow> [] | Some b \<Rightarrow> b)"

definition opaque_at :: "'s xdr_ops \<Rightarrow> u32 \<Rightarrow> xdr_op \<Rightarrow> byte list option \<Rightarrow> 's \<Rightarrow> (bool \<times> byte list option \<times> 's) option" where
  "opaque_at ops cnt op p s =
     do { (ok, b, s) \<leftarrow> xdr_opaque ops cnt op (bytes_at p) s; Some (ok, map_option (\<lambda>_. b) p, s) }"

definition xdr_bytes ::
  "(nat \<Rightarrow> byte list option) \<Rightarrow> 's xdr_ops \<Rightarrow> u32 \<Rightarrow> ('s, byte list option \<times> u32) filter" where
  "xdr_bytes malloc ops maxsize op obj s =
     (let sp = fst obj in
      do { (ok, nodesize, s) \<leftarrow> xdr_u_int ops op (snd obj) s;
           if \<not> ok then Some (False, (sp, nodesize), s)
           else if maxsize < nodesize \<and> op \<noteq> XDR_FREE then Some (False, (sp, nodesize), s)
           else case op of
             XDR_DECODE \<Rightarrow>
               if nodesize = 0 then Some (True, (sp, nodesize), s)
               else (case (case sp of None \<Rightarrow> malloc (unat nodesize) | Some b \<Rightarrow> Some b) of
                   None \<Rightarrow> Some (False, (None, nodesize), s)
                 | Some b \<Rightarrow> do { (ok, p, s) \<leftarrow> opaque_at ops nodesize op (Some b) s; Some (ok, (p, nodesize), s) })
           | XDR_ENCODE \<Rightarrow> do { (ok, p, s) \<leftarrow> opaque_at ops nodesize op sp s; Some (ok, (p, nodesize), s) }
           | XDR_FREE \<Rightarrow> Some (True, (None, nodesize), s) })"

definition max_netobj_sz :: u32 where
  "max_netobj_sz = 1024"

definition xdr_netobj :: "(nat \<Rightarrow> byte list option) \<Rightarrow> 's xdr_ops \<Rightarrow> ('s, byte list option \<times> u32) filter" where
  "xdr_netobj malloc ops = xdr_bytes malloc ops max_netobj_sz"

text \<open>C strings: \<open>strlen\<close> needs a terminating zero byte inside the buffer.\<close>

definition c_strlen :: "byte list \<Rightarrow> nat option" where
  "c_strlen b = (if 0 \<in> set b then Some (length (takeWhile (\<lambda>c. c \<noteq> 0) b)) else None)"

definition xdr_string ::
  "(nat \<Rightarrow> byte list option) \<Rightarrow> 's xdr_ops \<Rightarrow> u32 \<Rightarrow> ('s, byte list option) filter" where
  "xdr_string malloc ops maxsize op sp s =
     (if op = XDR_FREE \<and> sp = None then Some (True, None, s)
      else do { sz \<leftarrow> (if op = XDR_DECODE then Some 0 else do { b \<leftarrow> sp; c_strlen b });
                (ok, size, s) \<leftarrow> xdr_u_int ops op (of_nat sz) s;
                if \<not> ok then Some (False, sp, s)
                else if maxsize < size then Some (False, sp, s)
                else let nodesize = size + 1 in
                case op of
                  XDR_DECODE \<Rightarrow>
                    if nodesize = 0 then Some (True, sp, s)
                    else (case (case sp of None \<Rightarrow> malloc (unat nodesize) | Some b \<Rightarrow> Some b) of
                        None \<Rightarrow> Some (False, None, s)
                      | Some b \<Rightarrow> if length b \<le> unat size then None
                                  else opaque_at ops size op (Some (b[unat size := 0])) s)
                | XDR_ENCODE \<Rightarrow> opaque_at ops size op sp s
                | XDR_FREE \<Rightarrow> Some (True, None, s) })"

definition lastunsigned :: u32 where
  "lastunsigned = 0 - 1"

definition xdr_wrapstring :: "(nat \<Rightarrow> byte list option) \<Rightarrow> 's xdr_ops \<Rightarrow> ('s, byte list option) filter" where
  "xdr_wrapstring malloc ops op sp s =
     do { (ok, sp, s) \<leftarrow> xdr_string malloc ops lastunsigned op sp s; Some (if ok then True else False, sp, s) }"

subsection \<open>Unions, arrays and pointers\<close>

text \<open>The table of arms ends at the first entry without a routine.\<close>

fun find_choice :: "u32 \<Rightarrow> (u32 \<times> 'f option) list \<Rightarrow> 'f option" where
  "find_choice d [] = None"
| "find_choice d ((v, f) # cs) =
     (case f of None \<Rightarrow> None | Some f \<Rightarrow> if v = d then Some f else find_choice d cs)"

definition xdr_union ::
  "'s xdr_ops \<Rightarrow> (u32 \<times> ('s, 'a) filter option) list \<Rightarrow> ('s, 'a) filter option \<Rightarrow> ('s, u32 \<times> 'a) filter" where
  "xdr_union ops choices dfault op obj s =
     do { (ok, dscm, s) \<leftarrow> xdr_enum ops op (fst obj) s;
          if \<not> ok then Some (False, (dscm, snd obj), s)
          else case find_choice dscm choices of
            Some f \<Rightarrow> do { (ok, u, s) \<leftarrow> f op (snd obj) s; Some (ok, (dscm, u), s) }
          | None \<Rightarrow> (case dfault of
                None \<Rightarrow> Some (False, (dscm, snd obj), s)
              | Some f \<Rightarrow> do { (ok, u, s) \<leftarrow> f op (snd obj) s; Some (ok, (dscm, u), s) }) }"

text \<open>
  The loop over the elements of an array: \<open>xs\<close> are the elements the array has room for from the current one on; \<open>n\<close>
  elements are still to be processed.
\<close>

fun xdr_elems :: "('s, 'a) filter \<Rightarrow> xdr_op \<Rightarrow> nat \<Rightarrow> 'a list \<Rightarrow> 's \<Rightarrow> (bool \<times> 'a list \<times> 's) option" where
  "xdr_elems f op 0 xs s = Some (True, xs, s)"
| "xdr_elems f op (Suc n) [] s = None"
| "xdr_elems f op (Suc n) (x # xs) s =
     do { (ok, x, s) \<leftarrow> f op x s;
          if \<not> ok then Some (False, x # xs, s)
          else do { (ok, xs, s) \<leftarrow> xdr_elems f op n xs s; Some (ok, x # xs, s) } }"

text \<open>
  \<open>nodesize = c * elsize\<close> is computed in 32 bits; memory for \<open>nodesize\<close> bytes has room for \<open>nodesize div elsize\<close>
  elements. \<open>zero\<close> is an element of zero bytes, as \<open>bzero\<close> leaves it.
\<close>

definition xdr_array ::
  "(nat \<Rightarrow> byte list option) \<Rightarrow> 'a \<Rightarrow> u32 \<Rightarrow> u32 \<Rightarrow> ('s, 'a) filter \<Rightarrow> 's xdr_ops \<Rightarrow> ('s, 'a list option \<times> u32) filter" where
  "xdr_array malloc zero maxsize elsize elproc ops op obj s =
     do { (ok, c, s) \<leftarrow> xdr_u_int ops op (snd obj) s;
          if \<not> ok then Some (False, (fst obj, c), s)
          else if maxsize < c \<and> op \<noteq> XDR_FREE then Some (False, (fst obj, c), s)
          else let nodesize = c * elsize in
          case fst obj of
            Some xs \<Rightarrow> do { (stat, xs, s) \<leftarrow> xdr_elems elproc op (unat c) xs s;
                            Some (stat, (if op = XDR_FREE then None else Some xs, c), s) }
          | None \<Rightarrow>
             if op = XDR_FREE then Some (True, (None, c), s)
             else if op = XDR_DECODE then
               (if c = 0 then Some (True, (None, c), s)
                else case malloc (unat nodesize) of
                  None \<Rightarrow> Some (False, (None, c), s)
                | Some _ \<Rightarrow> do { (stat, xs, s) \<leftarrow> xdr_elems elproc op (unat c) (replicate (unat nodesize div unat elsize) zero) s;
                                 Some (stat, (Some xs, c), s) })
             else do { (stat, _, s) \<leftarrow> xdr_elems elproc op (unat c) [] s; Some (stat, (None, c), s) } }"

definition xdr_vector :: "u32 \<Rightarrow> ('s, 'a) filter \<Rightarrow> ('s, 'a list) filter" where
  "xdr_vector nelem xdr_elem op xs s = xdr_elems xdr_elem op (unat nelem) xs s"

definition xdr_reference ::
  "(nat \<Rightarrow> byte list option) \<Rightarrow> 'a \<Rightarrow> u32 \<Rightarrow> ('s, 'a) filter \<Rightarrow> ('s, 'a option) filter" where
  "xdr_reference malloc zero obj_size proc op pp s = (case pp of
     Some loc \<Rightarrow> do { (stat, loc, s) \<leftarrow> proc op loc s;
                      Some (stat, if op = XDR_FREE then None else Some loc, s) }
   | None \<Rightarrow> (case op of
       XDR_FREE \<Rightarrow> Some (True, None, s)
     | XDR_DECODE \<Rightarrow> (case malloc (unat obj_size) of
           None \<Rightarrow> Some (False, None, s)
         | Some _ \<Rightarrow> do { (stat, loc, s) \<leftarrow> proc op zero s; Some (stat, Some loc, s) })
     | XDR_ENCODE \<Rightarrow> None))"

definition xdr_pointer ::
  "(nat \<Rightarrow> byte list option) \<Rightarrow> 'a \<Rightarrow> u32 \<Rightarrow> ('s, 'a) filter \<Rightarrow> 's xdr_ops \<Rightarrow> ('s, 'a option) filter" where
  "xdr_pointer malloc zero obj_size xdr_obj ops op objpp s =
     do { (ok, more_data, s) \<leftarrow> xdr_bool ops op (if objpp \<noteq> None then 1 else 0) s;
          if \<not> ok then Some (False, objpp, s)
          else if more_data = 0 then Some (True, None, s)
          else xdr_reference malloc zero obj_size xdr_obj op objpp s }"

definition xdr_free :: "('s, 'a) filter \<Rightarrow> 'a \<Rightarrow> 's \<Rightarrow> 'a option" where
  "xdr_free proc objp x = map_option (\<lambda>(_, v, _). v) (proc XDR_FREE objp x)"

subsection \<open>What the routines write and read on a stream that keeps the contract\<close>

lemma unat_rndup: "unat (rndup cnt) = pad_len (unat cnt)"
proof -
  have "unat (cnt mod 4) = unat cnt mod 4" by (simp add: unat_mod_distrib)
  moreover have "unat (cnt mod 4) < 4" unfolding calculation by simp
  moreover have "0 < cnt mod 4 \<Longrightarrow> unat (4 - cnt mod 4) = 4 - unat (cnt mod 4)"
    using calculation by (subst unat_sub) (auto simp: word_le_nat_alt)
  ultimately show ?thesis
    by (auto simp: rndup_def pad_len_def Let_def word_less_nat_alt mod_less)
qed

context long_sink
begin

lemma encodes_putI:
  assumes "\<And>s. f XDR_ENCODE v s = do { (ok, s) \<leftarrow> x_putlong ops w s; Some (ok, v, s) }"
  shows "encodes good room written f v (be32 w)"
proof (rule encodesI)
  fix s
  assume "good s" "4 dvd length (written s)" "length (be32 w) \<le> room s"
  then obtain s' where "x_putlong ops w s = Some (True, s')" "emits good room written s (be32 w) s'"
    using put_long [of s w] by auto
  then show "\<exists>s'. f XDR_ENCODE v s = Some (True, v, s') \<and> emits good room written s (be32 w) s'"
    by (simp add: assms)
qed simp

lemma encodes_u_long [xdr_simps]: "encodes good room written (xdr_u_long ops) v (be32 v)"
  by (rule encodes_putI) (simp add: xdr_u_long_def)

lemma encodes_long [xdr_simps]: "encodes good room written (xdr_long ops) v (be32 v)"
  by (rule encodes_putI) (simp add: xdr_long_def)

lemma encodes_int [xdr_simps]: "encodes good room written (xdr_int ops) v (be32 v)"
  unfolding xdr_int_def by (rule encodes_long)

lemma encodes_u_int [xdr_simps]: "encodes good room written (xdr_u_int ops) v (be32 v)"
  unfolding xdr_u_int_def by (rule encodes_u_long)

lemma encodes_enum [xdr_simps]: "encodes good room written (xdr_enum ops) v (be32 v)"
  unfolding xdr_enum_def by (rule encodes_long)

lemma encodes_short: "encodes good room written (xdr_short ops) v (be32 (scast v))"
  by (rule encodes_putI) (simp add: xdr_short_def)

lemma encodes_u_short: "encodes good room written (xdr_u_short ops) v (be32 (ucast v))"
  by (rule encodes_putI) (simp add: xdr_u_short_def)

lemma encodes_bool: "encodes good room written (xdr_bool ops) v (be32 (if v \<noteq> 0 then 1 else 0))"
  by (rule encodes_putI) (simp add: xdr_bool_def)

lemma encodes_float: "encodes good room written (xdr_float ops) v (be32 v)"
  by (rule encodes_putI) (simp add: xdr_float_def)

lemma put_two_emits:
  assumes "good s" "4 dvd length (written s)" "8 \<le> room s"
  shows "\<exists>s'. put_two ops a b s = Some (True, s') \<and> emits good room written s (be32 a @ be32 b) s'"
proof -
  obtain t where t: "x_putlong ops a s = Some (True, t)" "emits good room written s (be32 a) t"
    using put_long [of s a] assms by auto
  then have "good t" "4 dvd length (written t)" "4 \<le> room t"
    using emits_next [OF t(2), of "be32 b"] assms by auto
  then obtain u where "x_putlong ops b t = Some (True, u)" "emits good room written t (be32 b) u"
    using put_long [of t b] by auto
  with t show ?thesis by (auto simp: put_two_def intro: emits_append)
qed

lemma encodes_double_x86: "encodes good room written (xdr_double X86 ops) (lo, hi) (be32 hi @ be32 lo)"
  by (rule encodesI, simp) (drule put_two_emits [where a = hi and b = lo], auto simp: xdr_double_def)

lemma encodes_double_plain: "arch \<noteq> X86 \<Longrightarrow> encodes good room written (xdr_double arch ops) (lo, hi) (be32 lo @ be32 hi)"
  by (rule encodesI, simp) (drule put_two_emits [where a = lo and b = hi], auto simp: xdr_double_def)

lemmas encodes_double_x64 = encodes_double_plain [of X64, simplified]

lemma encodes_double: "encodes good room written (xdr_double arch ops) d (bytes_double arch d)"
  by (cases d) (simp add: bytes_double_def encodes_double_x86 encodes_double_plain)

end

context long_source
begin

lemma decodes_getI:
  assumes "\<And>s. f XDR_DECODE old s = do { (r, s) \<leftarrow> x_getlong ops s;
      Some (case r of None \<Rightarrow> (False, old, s) | Some l \<Rightarrow> (True, g l, s)) }"
  shows "decodes good rest f old (g v) (be32 v)"
proof (rule decodesI)
  fix s r
  assume "good s" "rest s = be32 v @ r" "4 dvd length r"
  then obtain s' where "x_getlong ops s = Some (Some v, s')" "good s'" "rest s' = r"
    using get_long by blast
  then show "\<exists>s'. f XDR_DECODE old s = Some (True, g v, s') \<and> good s' \<and> rest s' = r"
    by (simp add: assms)
qed simp

lemma decodes_u_long [xdr_simps]: "decodes good rest (xdr_u_long ops) old v (be32 v)"
  by (rule decodes_getI) (simp add: xdr_u_long_def)

lemma decodes_long [xdr_simps]: "decodes good rest (xdr_long ops) old v (be32 v)"
  by (rule decodes_getI) (simp add: xdr_long_def)

lemma decodes_int [xdr_simps]: "decodes good rest (xdr_int ops) old v (be32 v)"
  unfolding xdr_int_def by (rule decodes_long)

lemma decodes_u_int [xdr_simps]: "decodes good rest (xdr_u_int ops) old v (be32 v)"
  unfolding xdr_u_int_def by (rule decodes_u_long)

lemma decodes_enum [xdr_simps]: "decodes good rest (xdr_enum ops) old v (be32 v)"
  unfolding xdr_enum_def by (rule decodes_long)

lemma decodes_short: "decodes good rest (xdr_short ops) old (ucast v) (be32 v)"
  by (rule decodes_getI) (simp add: xdr_short_def)

lemma decodes_u_short: "decodes good rest (xdr_u_short ops) old (ucast v) (be32 v)"
  by (rule decodes_getI) (simp add: xdr_u_short_def)

lemma decodes_bool: "decodes good rest (xdr_bool ops) old (if v = 0 then 0 else 1) (be32 v)"
  by (rule decodes_getI) (simp add: xdr_bool_def)

lemma decodes_float: "decodes good rest (xdr_float ops) old v (be32 v)"
  by (rule decodes_getI) (simp add: xdr_float_def)

lemma get_hi_lo_reads:
  assumes "good s" "rest s = be32 hi @ be32 lo @ r" "4 dvd length r"
  shows "\<exists>s'. get_hi_lo ops old s = Some (True, (lo, hi), s') \<and> good s' \<and> rest s' = r"
proof -
  obtain t where t: "x_getlong ops s = Some (Some hi, t)" "good t" "rest t = be32 lo @ r"
    using get_long [OF assms(1,2)] assms(3) by auto
  then obtain u where "x_getlong ops t = Some (Some lo, u)" "good u" "rest u = r"
    using get_long [of t lo r] assms(3) by auto
  with t show ?thesis by (auto simp: get_hi_lo_def)
qed

lemma decodes_double_intel:
  "arch = X86 \<or> arch = X64 \<Longrightarrow> decodes good rest (xdr_double arch ops) old (lo, hi) (be32 hi @ be32 lo)"
  by (rule decodesI, simp) (drule get_hi_lo_reads [where old = old], auto simp: xdr_double_def)

lemma get_lo_hi_reads:
  assumes "good s" "rest s = be32 lo @ be32 hi @ r" "4 dvd length r"
  shows "\<exists>s'. get_lo_hi ops old s = Some (True, (lo, hi), s') \<and> good s' \<and> rest s' = r"
proof -
  obtain t where t: "x_getlong ops s = Some (Some lo, t)" "good t" "rest t = be32 hi @ r"
    using get_long [OF assms(1,2)] assms(3) by auto
  then obtain u where "x_getlong ops t = Some (Some hi, u)" "good u" "rest u = r"
    using get_long [of t hi r] assms(3) by auto
  with t show ?thesis by (auto simp: get_lo_hi_def)
qed

lemma decodes_double_big: "decodes good rest (xdr_double Big_endian ops) old (lo, hi) (be32 lo @ be32 hi)"
  by (rule decodesI, simp) (drule get_lo_hi_reads [where old = old], auto simp: xdr_double_def)

lemma decodes_double: "decodes good rest (xdr_double arch ops) old (heard_double arch d) (bytes_double arch d)"
  by (cases d; cases arch) (simp_all add: bytes_double_def heard_double_def decodes_double_intel decodes_double_big)

end

text \<open>Sequencing: a filter that runs after the length of a counted object.\<close>

lemma encodes_after:
  assumes f: "encodes good room written f v bs" and cs: "4 dvd length cs"
    and g: "\<And>s. good s \<Longrightarrow> 4 dvd length (written s) \<Longrightarrow> length cs \<le> room s \<Longrightarrow>
      \<exists>s'. k s = Some (True, w, s') \<and> emits good room written s cs s'"
    and h: "\<And>s s'. f XDR_ENCODE v s = Some (True, v, s') \<Longrightarrow> h XDR_ENCODE w s = k s'"
  shows "encodes good room written h w (bs @ cs)"
proof (rule encodesI)
  show "4 dvd length (bs @ cs)" using encodes_unit [OF f] cs by simp
  fix s
  assume s: "good s" "4 dvd length (written s)" "length (bs @ cs) \<le> room s"
  then obtain t where t: "f XDR_ENCODE v s = Some (True, v, t)" "emits good room written s bs t"
    using encodesD [OF f, of s] by auto
  have "good t" "4 dvd length (written t)" "length cs \<le> room t"
    using emits_next [OF t(2) s(3)] s(2) encodes_unit [OF f] by auto
  from g [OF this] t
  show "\<exists>s'. h XDR_ENCODE w s = Some (True, w, s') \<and> emits good room written s (bs @ cs) s'"
    by (auto simp: h [OF t(1)] intro: emits_append)
qed

lemma decodes_after:
  assumes f: "decodes good rest f old v bs" and cs: "4 dvd length cs"
    and g: "\<And>s r. good s \<Longrightarrow> rest s = cs @ r \<Longrightarrow> 4 dvd length r \<Longrightarrow>
      \<exists>s'. k s = Some (True, w, s') \<and> good s' \<and> rest s' = r"
    and h: "\<And>s s'. f XDR_DECODE old s = Some (True, v, s') \<Longrightarrow> h XDR_DECODE old' s = k s'"
  shows "decodes good rest h old' w (bs @ cs)"
proof (rule decodesI)
  show "4 dvd length (bs @ cs)" using decodes_unit [OF f] cs by simp
  fix s r
  assume s: "good s" "rest s = (bs @ cs) @ r" "4 dvd length r"
  then obtain t where t: "f XDR_DECODE old s = Some (True, v, t)" "good t" "rest t = cs @ r"
    using decodesD [OF f, of s "cs @ r"] cs by auto
  from g [OF t(2,3) s(3)] show "\<exists>s'. h XDR_DECODE old' s = Some (True, w, s') \<and> good s' \<and> rest s' = r"
    by (simp add: h [OF t(1)])
qed

context byte_sink
begin

lemma encodes_opaque [xdr_simps]:
  assumes n: "unat cnt \<le> length cp"
  shows "encodes good room written (xdr_opaque ops cnt) cp (padded (take (unat cnt) cp))"
proof (cases "cnt = 0")
  case True
  then show ?thesis by (auto simp: encodes_def xdr_opaque_def padded_def emits_Nil)
next
  case False
  let ?n = "unat cnt" and ?p = "pad_len (unat cnt)"
  have len: "length (take ?n cp) = ?n" using n by simp
  show ?thesis
  proof (rule encodesI)
    show "4 dvd length (padded (take ?n cp))" by (simp only: length_padded pad_len_aligned)
    fix s
    assume s: "good s" "length (padded (take ?n cp)) \<le> room s"
    then obtain t where t: "x_putbytes ops (take ?n cp) s = Some (True, take ?n cp, t)"
        "emits good room written s (take ?n cp) t"
      using put_bytes [of s "take ?n cp"] by auto
    then have "good t" "?p \<le> room t" using s len by (auto simp: emits_def)
    then obtain u where u: "x_putbytes ops (replicate ?p 0) t = Some (True, replicate ?p 0, u)"
        "emits good room written t (replicate ?p 0) u"
      using put_bytes [of t "replicate ?p 0"] by auto
    have "emits good room written s (padded (take ?n cp)) u"
      using emits_append [OF t(2) u(2)] len by (simp add: padded_def)
    with t u n False show "\<exists>s'. xdr_opaque ops cnt XDR_ENCODE cp s = Some (True, cp, s') \<and>
        emits good room written s (padded (take ?n cp)) s'"
      by (auto simp: xdr_opaque_def Let_def unat_rndup padded_def len)
  qed
qed

lemma encodes_bytes:
  assumes "unat n \<le> length b" "n \<le> maxsize"
  shows "encodes good room written (xdr_bytes malloc ops maxsize) (Some b, n) (be32 n @ padded (take (unat n) b))"
proof (rule encodes_after [OF encodes_u_int [of n],
    where k = "\<lambda>s. do { (ok, p, s) \<leftarrow> opaque_at ops n XDR_ENCODE (Some b) s; Some (ok, (p, n), s) }"])
  fix s
  assume "good s" "4 dvd length (written s)" "length (padded (take (unat n) b)) \<le> room s"
  from encodesD [OF encodes_opaque [OF assms(1)] this]
  show "\<exists>s'. do { (ok, p, s) \<leftarrow> opaque_at ops n XDR_ENCODE (Some b) s; Some (ok, (p, n), s) } = Some (True, (Some b, n), s') \<and>
      emits good room written s (padded (take (unat n) b)) s'"
    by (auto simp: opaque_at_def bytes_at_def)
qed (use assms encodes_unit [OF encodes_opaque [OF assms(1)]] in \<open>auto simp: xdr_bytes_def Let_def\<close>)

lemma encodes_string:
  assumes nul: "c_strlen b = Some n" and n: "n < 2 ^ 32" "of_nat n \<le> maxsize"
  shows "encodes good room written (xdr_string malloc ops maxsize) (Some b) (be32 (of_nat n) @ padded (take n b))"
proof (rule encodes_after [OF encodes_u_int [of "of_nat n"],
    where k = "opaque_at ops (of_nat n) XDR_ENCODE (Some b)"])
  have [simp]: "unat (of_nat n :: u32) = n" using n by (simp add: unat_of_nat_u32)
  have "n \<le> length b" using nul by (auto simp: c_strlen_def length_takeWhile_le split: if_splits)
  show "4 dvd length (padded (take n b))" by (simp only: length_padded pad_len_aligned)
  fix s
  assume "good s" "4 dvd length (written s)" "length (padded (take n b)) \<le> room s"
  then show "\<exists>s'. opaque_at ops (of_nat n) XDR_ENCODE (Some b) s = Some (True, Some b, s') \<and>
      emits good room written s (padded (take n b)) s'"
    using encodesD [OF encodes_opaque [of "of_nat n" b], of s] \<open>n \<le> length b\<close>
    by (auto simp: opaque_at_def bytes_at_def)
qed (use assms in \<open>auto simp: xdr_string_def Let_def\<close>)

end

context byte_source
begin

lemma decodes_opaque [xdr_simps]:
  assumes "length bs = unat cnt" "unat cnt \<le> length old"
  shows "decodes good rest (xdr_opaque ops cnt) old (bs @ drop (unat cnt) old) (padded bs)"
proof (cases "cnt = 0")
  case True
  then show ?thesis using assms by (auto simp: decodes_def xdr_opaque_def padded_def)
next
  case False
  let ?p = "pad_len (unat cnt)"
  show ?thesis
  proof (rule decodesI)
    show "4 dvd length (padded bs)" by (simp only: length_padded pad_len_aligned)
    fix s r
    assume s: "good s" "rest s = padded bs @ r"
    then obtain t where t: "x_getbytes ops (take (unat cnt) old) s = Some (True, bs, t)" "good t"
        "rest t = replicate ?p 0 @ r"
      using get_bytes [of s bs "replicate ?p 0 @ r" "take (unat cnt) old"] assms by (auto simp: padded_def)
    then obtain u where u: "x_getbytes ops (replicate ?p 0) t = Some (True, replicate ?p 0, u)" "good u" "rest u = r"
      using get_bytes [of t "replicate ?p 0" r "replicate ?p 0"] by auto
    from t u assms False
    show "\<exists>s'. xdr_opaque ops cnt XDR_DECODE old s = Some (True, bs @ drop (unat cnt) old, s') \<and> good s' \<and> rest s' = r"
      by (auto simp: xdr_opaque_def Let_def unat_rndup)
  qed
qed

lemma opaque_at_reads:
  assumes "length bs = unat cnt" "length old = unat cnt" "good s" "rest s = padded bs @ r" "4 dvd length r"
  shows "\<exists>s'. opaque_at ops cnt XDR_DECODE (Some old) s = Some (True, Some bs, s') \<and> good s' \<and> rest s' = r"
  using decodesD [OF decodes_opaque [of bs cnt old] assms(3,4,5)] assms(1,2)
  by (auto simp: opaque_at_def bytes_at_def)

lemma decodes_bytes:
  assumes n: "length bs = unat n" "n \<le> maxsize" "n \<noteq> 0"
    and m: "malloc (unat n) = Some fresh" "length fresh = unat n"
  shows "decodes good rest (xdr_bytes malloc ops maxsize) (None, old) (Some bs, n) (be32 n @ padded bs)"
proof (rule decodes_after [OF decodes_u_int [of old n],
    where k = "\<lambda>s. do { (ok, p, s) \<leftarrow> opaque_at ops n XDR_DECODE (Some fresh) s; Some (ok, (p, n), s) }"])
  show "4 dvd length (padded bs)" by (simp only: length_padded pad_len_aligned)
  fix s r
  assume "good s" "rest s = padded bs @ r" "4 dvd length r"
  from opaque_at_reads [OF n(1) m(2) this]
  show "\<exists>s'. do { (ok, p, s) \<leftarrow> opaque_at ops n XDR_DECODE (Some fresh) s; Some (ok, (p, n), s) } = Some (True, (Some bs, n), s') \<and>
      good s' \<and> rest s' = r"
    by auto
qed (use assms in \<open>auto simp: xdr_bytes_def Let_def\<close>)

lemma decodes_string:
  assumes n: "length bs < 2 ^ 32 - 1" "of_nat (length bs) \<le> maxsize"
    and m: "malloc (Suc (length bs)) = Some fresh" "length fresh = Suc (length bs)"
  shows "decodes good rest (xdr_string malloc ops maxsize) None (Some (bs @ [0])) (be32 (of_nat (length bs)) @ padded bs)"
proof (rule decodes_after [OF decodes_u_int [of 0 "of_nat (length bs)"],
    where k = "opaque_at ops (of_nat (length bs)) XDR_DECODE (Some (fresh[length bs := 0]))"])
  have len [simp]: "unat (of_nat (length bs) :: u32) = length bs" using n by (simp add: unat_of_nat_u32)
  have suc: "unat (of_nat (length bs) + 1 :: u32) = Suc (length bs)"
    using n by (simp add: unat_word_ariths)
  show "4 dvd length (padded bs)" by (simp only: length_padded pad_len_aligned)
  {
    fix s r
    assume "good s" "rest s = padded bs @ r" "4 dvd length r"
    moreover have "drop (length bs) (fresh[length bs := 0]) = [0]"
      using m(2) drop_eq_nth_Cons [of "length bs" "fresh[length bs := 0]"] by simp
    ultimately show "\<exists>s'. opaque_at ops (of_nat (length bs)) XDR_DECODE (Some (fresh[length bs := 0])) s = Some (True, Some (bs @ [0]), s') \<and>
        good s' \<and> rest s' = r"
      using decodesD [OF decodes_opaque [of bs "of_nat (length bs)" "fresh[length bs := 0]"]] m(2)
      by (fastforce simp: opaque_at_def bytes_at_def)
  }
  {
    fix s s'
    assume u: "xdr_u_int ops XDR_DECODE 0 s = Some (True, of_nat (length bs), s')"
    have "of_nat (length bs) + 1 \<noteq> (0 :: u32)" using suc by (metis nat.distinct(1) unat_0)
    then show "xdr_string malloc ops maxsize XDR_DECODE None s =
        opaque_at ops (of_nat (length bs)) XDR_DECODE (Some (fresh[length bs := 0])) s'"
      using u n m suc by (auto simp: xdr_string_def Let_def)
  }
qed

end

subsection \<open>Arrays and pointers\<close>

lemma concat_unit: "\<forall>x\<in>set xs. 4 dvd length (enc x) \<Longrightarrow> 4 dvd length (concat (map enc xs))"
  by (induction xs) auto

lemma elems_emit:
  assumes "\<forall>x\<in>set xs. encodes good room written f x (enc x)"
    and "good s" "4 dvd length (written s)" "length (concat (map enc xs)) \<le> room s"
  shows "\<exists>s'. xdr_elems f XDR_ENCODE (length xs) xs s = Some (True, xs, s') \<and>
    emits good room written s (concat (map enc xs)) s'"
  using assms
proof (induction xs arbitrary: s)
  case Nil
  then show ?case by (simp add: emits_Nil)
next
  case (Cons x xs)
  then obtain t where t: "f XDR_ENCODE x s = Some (True, x, t)" "emits good room written s (enc x) t"
    using encodesD [of good room written f x "enc x" s] by auto
  moreover have "4 dvd length (enc x)" using Cons.prems(1) encodes_unit by fastforce
  ultimately have "good t" "4 dvd length (written t)" "length (concat (map enc xs)) \<le> room t"
    using emits_next [OF t(2), of "concat (map enc xs)"] Cons.prems by auto
  then obtain u where "xdr_elems f XDR_ENCODE (length xs) xs t = Some (True, xs, u)"
      "emits good room written t (concat (map enc xs)) u"
    using Cons by auto
  with t show ?case by (auto intro: emits_append)
qed

lemma elems_read:
  assumes "\<forall>x\<in>set xs. decodes good rest f zero x (enc x)"
    and "good s" "rest s = concat (map enc xs) @ r" "4 dvd length r"
  shows "\<exists>s'. xdr_elems f XDR_DECODE (length xs) (replicate (length xs) zero) s = Some (True, xs, s') \<and> good s' \<and> rest s' = r"
  using assms
proof (induction xs arbitrary: s)
  case Nil
  then show ?case by simp
next
  case (Cons x xs)
  then have "\<forall>y\<in>set xs. 4 dvd length (enc y)" by (auto dest: decodes_unit)
  then have "4 dvd length (concat (map enc xs))" by (rule concat_unit)
  with Cons.prems obtain t where t: "f XDR_DECODE zero s = Some (True, x, t)" "good t" "rest t = concat (map enc xs) @ r"
    using decodesD [of good rest f zero x "enc x" s "concat (map enc xs) @ r"] by auto
  then obtain u where "xdr_elems f XDR_DECODE (length xs) (replicate (length xs) zero) t = Some (True, xs, u)"
      "good u" "rest u = r"
    using Cons by auto
  with t show ?case by auto
qed

text \<open>Elements beyond the end of the array are an access outside of it, unless the stream gives up before.\<close>

lemma elems_overrun:
  assumes "\<forall>x s. \<exists>y s'. f op x s = Some (True, y, s')" "length xs < n"
  shows "xdr_elems f op n xs s = None"
  using assms(2)
proof (induction n arbitrary: xs s)
  case (Suc n)
  show ?case
  proof (cases xs)
    case (Cons x ys)
    obtain y s' where "f op x s = Some (True, y, s')" using assms(1) by blast
    with Cons Suc show ?thesis by simp
  qed simp
qed simp

context long_sink
begin

lemma encodes_array:
  assumes "length xs < 2 ^ 32" "of_nat (length xs) \<le> maxsize"
    and "\<forall>x\<in>set xs. encodes good room written elproc x (enc x)"
  shows "encodes good room written (xdr_array malloc zero maxsize elsize elproc ops)
    (Some xs, of_nat (length xs)) (be32 (of_nat (length xs)) @ concat (map enc xs))"
proof (rule encodes_after [OF encodes_u_int [of "of_nat (length xs)"],
    where k = "\<lambda>s. do { (stat, ys, s) \<leftarrow> xdr_elems elproc XDR_ENCODE (length xs) xs s; Some (stat, (Some ys, of_nat (length xs)), s) }"])
  show "4 dvd length (concat (map enc xs))" using assms(3) encodes_unit by (fastforce intro!: concat_unit)
  fix s
  assume "good s" "4 dvd length (written s)" "length (concat (map enc xs)) \<le> room s"
  from elems_emit [OF assms(3) this]
  show "\<exists>s'. do { (stat, ys, s) \<leftarrow> xdr_elems elproc XDR_ENCODE (length xs) xs s; Some (stat, (Some ys, of_nat (length xs)), s) } =
      Some (True, (Some xs, of_nat (length xs)), s') \<and> emits good room written s (concat (map enc xs)) s'"
    by auto
qed (use assms in \<open>auto simp: xdr_array_def Let_def unat_of_nat_u32\<close>)

lemma encodes_pointer_None:
  "encodes good room written (xdr_pointer malloc zero obj_size f ops) None (be32 0)"
proof (rule encodesI)
  fix s
  assume "good s" "4 dvd length (written s)" "length (be32 0) \<le> room s"
  then show "\<exists>s'. xdr_pointer malloc zero obj_size f ops XDR_ENCODE None s = Some (True, None, s') \<and> emits good room written s (be32 0) s'"
    using encodesD [OF encodes_bool [of 0], of s] by (auto simp: xdr_pointer_def)
qed simp

lemma encodes_pointer_Some:
  assumes "encodes good room written f v bs"
  shows "encodes good room written (xdr_pointer malloc zero obj_size f ops) (Some v) (be32 1 @ bs)"
proof (rule encodes_after [where v = 1, OF encodes_bool [of 1, simplified]])
  show "\<And>s s'. xdr_bool ops XDR_ENCODE 1 s = Some (True, 1, s') \<Longrightarrow>
     xdr_pointer malloc zero obj_size f ops XDR_ENCODE (Some v) s = xdr_reference malloc zero obj_size f XDR_ENCODE (Some v) s'"
    by (simp add: xdr_pointer_def)
qed (use encodesD [OF assms] encodes_unit [OF assms] in \<open>fastforce simp: xdr_reference_def\<close>)+

end

context long_source
begin

lemma decodes_array:
  assumes n: "length xs < 2 ^ 32" "of_nat (length xs) \<le> maxsize" "xs \<noteq> []"
    and sz: "length xs * unat elsize < 2 ^ 32" "elsize \<noteq> 0"
    and m: "malloc (length xs * unat elsize) \<noteq> None"
    and dec: "\<forall>x\<in>set xs. decodes good rest elproc zero x (enc x)"
  shows "decodes good rest (xdr_array malloc zero maxsize elsize elproc ops) (None, old)
    (Some xs, of_nat (length xs)) (be32 (of_nat (length xs)) @ concat (map enc xs))"
proof (rule decodes_after [OF decodes_u_int [of old "of_nat (length xs)"],
    where k = "\<lambda>s. do { (stat, ys, s) \<leftarrow> xdr_elems elproc XDR_DECODE (length xs) (replicate (length xs) zero) s;
                        Some (stat, (Some ys, of_nat (length xs)), s) }"])
  show "4 dvd length (concat (map enc xs))" using dec decodes_unit by (fastforce intro!: concat_unit)
  fix s r
  assume "good s" "rest s = concat (map enc xs) @ r" "4 dvd length r"
  from elems_read [OF dec this]
  show "\<exists>s'. do { (stat, ys, s) \<leftarrow> xdr_elems elproc XDR_DECODE (length xs) (replicate (length xs) zero) s;
        Some (stat, (Some ys, of_nat (length xs)), s) } = Some (True, (Some xs, of_nat (length xs)), s') \<and> good s' \<and> rest s' = r"
    by auto
next
  fix s s'
  assume u: "xdr_u_int ops XDR_DECODE old s = Some (True, of_nat (length xs), s')"
  have len: "unat (of_nat (length xs) :: u32) = length xs" using n by (simp add: unat_of_nat_u32)
  have node: "unat (of_nat (length xs) * elsize :: u32) = length xs * unat elsize"
    using sz len by (subst unat_mult_lem [THEN iffD1]) auto
  have "unat elsize \<noteq> 0" using sz(2) by (simp add: unat_eq_0)
  moreover have "(of_nat (length xs) :: u32) \<noteq> 0" using len n(3) by (metis length_0_conv unat_0)
  ultimately show "xdr_array malloc zero maxsize elsize elproc ops XDR_DECODE (None, old) s =
      do { (stat, ys, s) \<leftarrow> xdr_elems elproc XDR_DECODE (length xs) (replicate (length xs) zero) s';
           Some (stat, (Some ys, of_nat (length xs)), s) }"
    using u n m by (auto simp: xdr_array_def Let_def len node)
qed

lemma decodes_pointer_None:
  "decodes good rest (xdr_pointer malloc zero obj_size f ops) None None (be32 0)"
proof (rule decodesI)
  fix s r
  assume "good s" "rest s = be32 0 @ r" "4 dvd length r"
  then show "\<exists>s'. xdr_pointer malloc zero obj_size f ops XDR_DECODE None s = Some (True, None, s') \<and> good s' \<and> rest s' = r"
    using decodesD [OF decodes_bool [of 0 0], of s r] by (auto simp: xdr_pointer_def)
qed simp

lemma decodes_pointer_Some:
  assumes "decodes good rest f zero v bs" "malloc (unat obj_size) \<noteq> None"
  shows "decodes good rest (xdr_pointer malloc zero obj_size f ops) None (Some v) (be32 1 @ bs)"
proof (rule decodes_after [where v = 1, OF decodes_bool [of 0 1, simplified]])
  show "\<And>s s'. xdr_bool ops XDR_DECODE 0 s = Some (True, 1, s') \<Longrightarrow>
     xdr_pointer malloc zero obj_size f ops XDR_DECODE None s = xdr_reference malloc zero obj_size f XDR_DECODE None s'"
    by (simp add: xdr_pointer_def)
qed (use decodesD [OF assms(1)] decodes_unit [OF assms(1)] assms(2) in \<open>fastforce simp: xdr_reference_def\<close>)+

end

end
