(* ===== verification/XdrMem.thy ===== *)
theory XdrMem
  imports XdrFilters
begin

text \<open>
  The XDR stream over a memory buffer, oncrpc/librpc/xdr_mem.c, on a 64-bit host: addresses and
  \<open>x_handy\<close> (declared \<open>uintptr_t\<close>) are 64-bit words. \<open>mem\<close> is the buffer the stream was created for, which starts at
  \<open>x_base\<close>; an access outside of it has no result. The stream meets the contract for XDR units as long as
  they fit in the buffer; it does not for opaque bytes.
\<close>

record xdr_mem =
  mem :: "byte list"
  x_base :: ulong
  x_private :: ulong
  x_handy :: ulong

definition xdrmem_create :: "byte list \<Rightarrow> ulong \<Rightarrow> u32 \<Rightarrow> xdr_mem" where
  "xdrmem_create b addr sz = \<lparr>mem = b, x_base = addr, x_private = addr, x_handy = ucast sz\<rparr>"

text \<open>The offset of the current position, and reading and writing \<open>n\<close> bytes there.\<close>

definition mem_off :: "xdr_mem \<Rightarrow> nat" where
  "mem_off x = unat (x_private x - x_base x)"

definition peek :: "nat \<Rightarrow> xdr_mem \<Rightarrow> byte list option" where
  "peek n x = (if mem_off x + n \<le> length (mem x) then Some (take n (drop (mem_off x) (mem x))) else None)"

definition poke :: "byte list \<Rightarrow> xdr_mem \<Rightarrow> xdr_mem option" where
  "poke bs x = (if mem_off x + length bs \<le> length (mem x)
                then Some (x\<lparr>mem := take (mem_off x) (mem x) @ bs @ drop (mem_off x + length bs) (mem x)\<rparr>)
                else None)"

definition xdrmem_getlong :: "xdr_mem \<Rightarrow> (u32 option \<times> xdr_mem) option" where
  "xdrmem_getlong x =
     (let x = x\<lparr>x_handy := x_handy x - 4\<rparr>
      in if x_handy x < 0 then Some (None, x)
         else do { b \<leftarrow> peek 4 x; Some (Some (un_be32 b), x\<lparr>x_private := x_private x + 4\<rparr>) })"

definition xdrmem_putlong :: "u32 \<Rightarrow> xdr_mem \<Rightarrow> (bool \<times> xdr_mem) option" where
  "xdrmem_putlong lp x =
     (let x = x\<lparr>x_handy := x_handy x - 4\<rparr>
      in if x_handy x < 0 then Some (False, x)
         else do { x \<leftarrow> poke (be32 lp) x; Some (True, x\<lparr>x_private := x_private x + 4\<rparr>) })"

text \<open>\<open>memcpy (xdrs->x_private, addr, len)\<close> and \<open>memcpy (addr, xdrs->x_private, len)\<close>: the destination comes first.\<close>

definition xdrmem_getbytes :: "byte list \<Rightarrow> xdr_mem \<Rightarrow> (bool \<times> byte list \<times> xdr_mem) option" where
  "xdrmem_getbytes addr x =
     (let x = x\<lparr>x_handy := x_handy x - of_nat (length addr)\<rparr>
      in if x_handy x < 0 then Some (False, addr, x)
         else do { x \<leftarrow> poke addr x; Some (True, addr, x\<lparr>x_private := x_private x + of_nat (length addr)\<rparr>) })"

definition xdrmem_putbytes :: "byte list \<Rightarrow> xdr_mem \<Rightarrow> (bool \<times> byte list \<times> xdr_mem) option" where
  "xdrmem_putbytes addr x =
     (let x = x\<lparr>x_handy := x_handy x - of_nat (length addr)\<rparr>
      in if x_handy x < 0 then Some (False, addr, x)
         else do { b \<leftarrow> peek (length addr) x; Some (True, b, x\<lparr>x_private := x_private x + of_nat (length addr)\<rparr>) })"

definition xdrmem_getpos :: "xdr_mem \<Rightarrow> u32" where
  "xdrmem_getpos x = ucast (x_private x - x_base x)"

definition xdrmem_setpos :: "u32 \<Rightarrow> xdr_mem \<Rightarrow> bool \<times> xdr_mem" where
  "xdrmem_setpos pos x =
     (let newaddr = x_base x + ucast pos; lastaddr = x_private x + x_handy x
      in if lastaddr < newaddr then (False, x)
         else (True, x\<lparr>x_private := newaddr, x_handy := lastaddr - newaddr\<rparr>))"

text \<open>The address handed out, 0 for NULL. \<open>len\<close> is an \<open>int\<close>, converted to \<open>uintptr_t\<close> with its sign.\<close>

definition xdrmem_inline :: "u32 \<Rightarrow> xdr_mem \<Rightarrow> ulong \<times> xdr_mem" where
  "xdrmem_inline len x =
     (if scast len \<le> x_handy x
      then (x_private x, x\<lparr>x_handy := x_handy x - scast len, x_private := x_private x + scast len\<rparr>)
      else (0, x))"

definition xdrmem_ops :: "xdr_mem xdr_ops" where
  "xdrmem_ops = \<lparr>x_getlong = xdrmem_getlong, x_putlong = xdrmem_putlong,
                 x_getbytes = xdrmem_getbytes, x_putbytes = xdrmem_putbytes\<rparr>"

subsection \<open>The contract for XDR units\<close>

text \<open>The stream has not left its buffer of \<open>n\<close> bytes, and \<open>x_handy\<close> counts what is left of it.\<close>

definition mem_good :: "nat \<Rightarrow> xdr_mem \<Rightarrow> bool" where
  "mem_good n x \<longleftrightarrow> length (mem x) = n \<and> mem_off x \<le> length (mem x) \<and> length (mem x) < 2 ^ 32 \<and>
     x_handy x = of_nat (length (mem x) - mem_off x)"

definition mem_room :: "xdr_mem \<Rightarrow> nat" where
  "mem_room x = length (mem x) - mem_off x"

definition mem_written :: "xdr_mem \<Rightarrow> byte list" where
  "mem_written x = take (mem_off x) (mem x)"

definition mem_rest :: "xdr_mem \<Rightarrow> byte list" where
  "mem_rest x = drop (mem_off x) (mem x)"

lemma mem_good_create:
  "length b < 2 ^ 32 \<Longrightarrow> mem_good (length b) (xdrmem_create b addr (of_nat (length b)))"
  by (simp add: mem_good_def xdrmem_create_def mem_off_def unat_of_nat_u32 unsigned_of_nat take_bit_nat_eq_self)

lemma mem_off_step:
  assumes "mem_good N x" "n \<le> mem_room x"
  shows "unat (x_private x + of_nat n - x_base x) = mem_off x + n"
proof -
  have "mem_off x + n < 2 ^ 64" using assms by (auto simp: mem_good_def mem_room_def)
  moreover have "x_private x + of_nat n - x_base x = of_nat (mem_off x + n)" by (simp add: mem_off_def)
  ultimately show ?thesis by (simp only: unat_of_nat_u64)
qed

lemma handy_step:
  assumes "mem_good N x" "n \<le> mem_room x"
  shows "x_handy x - of_nat n = of_nat (length (mem x) - (mem_off x + n))"
proof -
  have "mem_off x + n \<le> length (mem x)" using assms by (auto simp: mem_good_def mem_room_def)
  then show ?thesis using assms(1) by (simp add: mem_good_def of_nat_diff)
qed

text \<open>The position and \<open>x_handy\<close> after \<open>n\<close> bytes, with the buffer changed or not.\<close>

lemma mem_good_step:
  assumes "mem_good N x" "n \<le> mem_room x" "length b = length (mem x)"
  defines "y \<equiv> x\<lparr>x_handy := x_handy x - of_nat n, mem := b, x_private := x_private x + of_nat n\<rparr>"
  shows "mem_good N y" "mem_off y = mem_off x + n"
proof -
  show off: "mem_off y = mem_off x + n"
    using mem_off_step [OF assms(1,2)] by (simp add: y_def mem_off_def)
  have "mem_off x + n \<le> length b" using assms by (auto simp: mem_good_def mem_room_def)
  then show "mem_good N y"
    using handy_step [OF assms(1,2)] assms(1,3) off by (simp add: mem_good_def y_def)
qed

lemma mem_putlong:
  assumes "mem_good N x" "4 \<le> mem_room x"
  shows "\<exists>x'. xdrmem_putlong v x = Some (True, x') \<and> emits (mem_good N) mem_room mem_written x (be32 v) x'"
proof -
  define b where "b = take (mem_off x) (mem x) @ be32 v @ drop (mem_off x + 4) (mem x)"
  define y where "y = x\<lparr>x_handy := x_handy x - of_nat 4, mem := b, x_private := x_private x + of_nat 4\<rparr>"
  have le: "mem_off x + 4 \<le> length (mem x)" using assms by (auto simp: mem_good_def mem_room_def)
  then have len: "length b = length (mem x)" by (simp add: b_def)
  note y = mem_good_step [OF assms len, folded y_def]
  have "xdrmem_putlong v x = Some (True, y)"
    using le by (simp add: xdrmem_putlong_def Let_def poke_def mem_off_def y_def b_def)
  moreover have "take (mem_off x + 4) b = take (mem_off x) (mem x) @ be32 v"
    using le by (simp add: b_def)
  ultimately show ?thesis
    using y by (simp add: emits_def mem_room_def mem_written_def) (simp add: y_def len)
qed

lemma mem_getlong:
  assumes "mem_good N x" "mem_rest x = be32 v @ r"
  shows "\<exists>x'. xdrmem_getlong x = Some (Some v, x') \<and> mem_good N x' \<and> mem_rest x' = r"
proof -
  define y where "y = x\<lparr>x_handy := x_handy x - of_nat 4, mem := mem x, x_private := x_private x + of_nat 4\<rparr>"
  have len: "length (mem x) - mem_off x = 4 + length r"
    using arg_cong [OF assms(2), of length] by (simp add: mem_rest_def)
  then have room: "4 \<le> mem_room x" and le: "mem_off x + 4 \<le> length (mem x)" by (simp_all add: mem_room_def)
  note y = mem_good_step [OF assms(1) room refl, folded y_def]
  have d: "drop (mem_off x) (mem x) = be32 v @ r" using assms(2) by (simp add: mem_rest_def)
  then have "xdrmem_getlong x = Some (Some v, y)"
    using le by (simp add: xdrmem_getlong_def Let_def peek_def mem_off_def y_def)
  moreover have "drop (mem_off x + 4) (mem x) = r"
    using d by (metis append_eq_conv_conj drop_drop add.commute length_be32)
  ultimately show ?thesis
    using y by (simp add: mem_rest_def) (simp add: y_def)
qed

interpretation memw: long_sink xdrmem_ops "mem_good N" mem_room mem_written for N
  by unfold_locales (simp add: xdrmem_ops_def mem_putlong)

interpretation memr: long_source xdrmem_ops "mem_good N" mem_rest for N
  by unfold_locales (simp add: xdrmem_ops_def mem_getlong)

subsection \<open>Round trips and faults\<close>

lemma mem_start:
  "length b < 2 ^ 32 \<Longrightarrow> mem_good (length b) (xdrmem_create b addr (of_nat (length b)))"
  "mem_room (xdrmem_create b addr sz) = length b"
  "mem_written (xdrmem_create b addr sz) = []"
  "mem_rest (xdrmem_create b addr sz) = b"
  by (rule mem_good_create, assumption)
     (simp_all add: mem_room_def mem_written_def mem_rest_def mem_off_def xdrmem_create_def)

lemma mem_encode:
  assumes "encodes (mem_good (length b)) mem_room mem_written f v bs" "length bs \<le> length b" "length b < 2 ^ 32"
  obtains x r where "f XDR_ENCODE v (xdrmem_create b addr (of_nat (length b))) = Some (True, v, x)"
    "mem x = bs @ r" "length (mem x) = length b"
proof -
  obtain x where x: "f XDR_ENCODE v (xdrmem_create b addr (of_nat (length b))) = Some (True, v, x)"
      "emits (mem_good (length b)) mem_room mem_written (xdrmem_create b addr (of_nat (length b))) bs x"
    using encodesD [OF assms(1) mem_start(1) [OF assms(3)]] assms(2) by (auto simp: mem_start)
  then have "take (mem_off x) (mem x) = bs" "length (mem x) = length b"
    by (simp_all add: emits_def mem_start mem_good_def) (simp add: mem_written_def)
  then show thesis
    using that [OF x(1), of "drop (mem_off x) (mem x)"] by (metis append_take_drop_id)
qed

lemma mem_decode:
  assumes "decodes (mem_good (length b)) mem_rest f old v bs" "b = bs @ r" "length b < 2 ^ 32" "4 dvd length b"
  obtains y where "f XDR_DECODE old (xdrmem_create b addr (of_nat (length b))) = Some (True, v, y)"
proof -
  have "4 dvd length r"
    using decodes_unit [OF assms(1)] assms(2,4) by (metis dvd_add_right_iff length_append)
  then show thesis
    using that decodesD [OF assms(1) mem_start(1) [OF assms(3)], where r = r] assms(2) by (auto simp: mem_start)
qed

lemma mem_roundtrip:
  assumes "\<And>N. encodes (mem_good N) mem_room mem_written f v bs" "\<And>N. decodes (mem_good N) mem_rest g old w bs"
    and "length bs \<le> length b" "length b < 2 ^ 32" "4 dvd length b"
  shows "\<exists>x y. f XDR_ENCODE v (xdrmem_create b addr (of_nat (length b))) = Some (True, v, x) \<and>
    g XDR_DECODE old (xdrmem_create (mem x) addr' (of_nat (length (mem x)))) = Some (True, w, y)"
proof -
  obtain x r where x: "f XDR_ENCODE v (xdrmem_create b addr (of_nat (length b))) = Some (True, v, x)"
      "mem x = bs @ r" "length (mem x) = length b"
    by (rule mem_encode [OF assms(1,3,4)])
  obtain y where "g XDR_DECODE old (xdrmem_create (mem x) addr' (of_nat (length (mem x)))) = Some (True, w, y)"
    by (rule mem_decode [OF assms(2) x(2)]) (use x(3) assms(4,5) in auto)
  with x(1) show ?thesis by blast
qed

text \<open>
  A counted array of numbers that \<open>xdr_array\<close> writes to a memory stream large enough for it is read back unchanged from
  the buffer, into newly allocated storage.
\<close>

theorem xdr_array_roundtrip:
  assumes "xs \<noteq> []" "4 + 4 * length xs \<le> length b" "length b < 2 ^ 32" "4 dvd length b"
    and "of_nat (length xs) \<le> maxsize" "malloc (length xs * 4) \<noteq> None"
  shows "\<exists>x y. xdr_array malloc 0 maxsize 4 (xdr_u_long xdrmem_ops) xdrmem_ops XDR_ENCODE (Some xs, of_nat (length xs))
        (xdrmem_create b addr (of_nat (length b))) = Some (True, (Some xs, of_nat (length xs)), x) \<and>
      xdr_array malloc 0 maxsize 4 (xdr_u_long xdrmem_ops) xdrmem_ops XDR_DECODE (None, old)
        (xdrmem_create (mem x) addr' (of_nat (length (mem x)))) = Some (True, (Some xs, of_nat (length xs)), y)"
proof -
  let ?bs = "be32 (of_nat (length xs)) @ concat (map be32 xs)"
  let ?f = "xdr_array malloc 0 maxsize 4 (xdr_u_long xdrmem_ops) xdrmem_ops"
  have len: "length xs < 2 ^ 32" using assms by simp
  have "length (concat (map be32 xs)) = 4 * length xs"
    by (simp add: length_concat comp_def sum_list_triv)
  then have bs: "length ?bs \<le> length b" using assms(2) by simp
  have enc: "encodes (mem_good N) mem_room mem_written ?f (Some xs, of_nat (length xs)) ?bs" for N
    using len assms memw.encodes_u_long by (intro memw.encodes_array) auto
  have dec: "decodes (mem_good N) mem_rest ?f (None, old) (Some xs, of_nat (length xs)) ?bs" for N
    using len assms memr.decodes_u_long by (intro memr.decodes_array) auto
  show ?thesis by (rule mem_roundtrip [OF enc dec bs assms(3,4)])
qed

theorem xdr_array_roundtrip_witness:
  "\<exists>x y. xdr_array (\<lambda>n. Some (replicate n 0)) 0 16 4 (xdr_u_long xdrmem_ops) xdrmem_ops XDR_ENCODE (Some [7, 2 ^ 31], of_nat 2)
        (xdrmem_create (replicate 16 0) 4096 (of_nat 16)) = Some (True, (Some [7, 2 ^ 31], of_nat 2), x) \<and>
      xdr_array (\<lambda>n. Some (replicate n 0)) 0 16 4 (xdr_u_long xdrmem_ops) xdrmem_ops XDR_DECODE (None, 0)
        (xdrmem_create (mem x) 8192 (of_nat (length (mem x)))) = Some (True, (Some [7, 2 ^ 31], of_nat 2), y)"
  using xdr_array_roundtrip [of "[7, 2 ^ 31]" "replicate 16 0" 16 "\<lambda>n. Some (replicate n 0)" 4096 0 8192] by simp

text \<open>
  C36. \<open>xdr_array\<close> computes the size of the block in 32 bits. When \<open>c * elsize\<close> wraps around, so that the block has room for
  fewer than \<open>c\<close> elements, decoding such a count writes behind the block: there is no result, whatever the stream delivers
  for the elements.
\<close>

theorem xdr_array_overflow:
  assumes "x_getlong ops s = Some (Some c, s')" "c \<le> maxsize" "c \<noteq> 0"
    and "malloc (unat (c * elsize)) \<noteq> None"
    and "unat (c * elsize) div unat elsize < unat c"
    and "\<forall>x s. \<exists>y s'. elproc XDR_DECODE x s = Some (True, y, s')"
  shows "xdr_array malloc zero maxsize elsize elproc ops XDR_DECODE (None, old) s = None"
  using assms elems_overrun [of elproc XDR_DECODE "replicate (unat (c * elsize) div unat elsize) zero" "unat c" s']
  by (auto simp: xdr_array_def xdr_u_int_def xdr_u_long_def Let_def)

theorem xdr_array_overflow_witness:
  "xdr_array (\<lambda>n. Some (replicate n 0)) (0 :: u32) 0xFFFFFFFF 8 (\<lambda>op v s. Some (True, v, s)) xdrmem_ops
     XDR_DECODE (None, 0) (xdrmem_create (be32 0x20000001) 4096 4) = None"
  by (rule xdr_array_overflow [where c = "0x20000001" and s' = "(xdrmem_create (be32 0x20000001) 4100 0)\<lparr>x_base := 4096\<rparr>"])
     (simp_all add: xdrmem_ops_def xdrmem_create_def xdrmem_getlong_def peek_def mem_off_def)

text \<open>
  \<open>x_handy\<close> is unsigned, so the tests for the end of the buffer never succeed: reading a unit never reports a failure,
  and with fewer than four bytes left it reads behind the buffer; writing one writes behind it.
\<close>

theorem xdrmem_limit_unchecked:
  "(\<forall>x x'. xdrmem_getlong x \<noteq> Some (None, x')) \<and> (\<forall>v x x'. xdrmem_putlong v x \<noteq> Some (False, x')) \<and>
   (\<forall>x v. length (mem x) < mem_off x + 4 \<longrightarrow> xdrmem_getlong x = None \<and> xdrmem_putlong v x = None)"
  by (auto simp: xdrmem_getlong_def xdrmem_putlong_def peek_def poke_def mem_off_def Let_def bind_eq_Some_conv split: if_splits)

theorem xdrmem_limit_unchecked_witness:
  "xdrmem_getlong (xdrmem_create [1, 2] 4096 2) = None"
  using xdrmem_limit_unchecked by (simp add: xdrmem_create_def mem_off_def)

text \<open>
  The byte operations copy in the wrong direction: inside the buffer, \<open>xdrmem_putbytes\<close> reports success, leaves the stream
  as it was and overwrites the caller's data with it; \<open>xdrmem_getbytes\<close> overwrites the stream with the caller's buffer.
\<close>

theorem xdrmem_bytes_reversed:
  assumes "mem_off x + length addr \<le> length (mem x)"
  shows "(\<exists>y. xdrmem_putbytes addr x = Some (True, take (length addr) (drop (mem_off x) (mem x)), y) \<and> mem y = mem x) \<and>
    (\<exists>y. xdrmem_getbytes addr x = Some (True, addr, y) \<and> take (length addr) (drop (mem_off x) (mem y)) = addr)"
  using assms by (auto simp: xdrmem_putbytes_def xdrmem_getbytes_def peek_def poke_def mem_off_def Let_def)

theorem xdrmem_bytes_reversed_witness:
  "\<exists>y. xdrmem_putbytes [1, 2] (xdrmem_create [9, 9, 9, 9] 4096 4) = Some (True, [9, 9], y) \<and> mem y = [9, 9, 9, 9]"
  using xdrmem_bytes_reversed [of "xdrmem_create [9, 9, 9, 9] 4096 4" "[1, 2]"] by (simp add: xdrmem_create_def mem_off_def)

text \<open>
  On \<open>_M_X64\<close> a number of type double comes back with its two halves exchanged: \<open>xdr_double\<close> writes the half at the lower address
  first, and reads the half at the higher address first. On \<open>_X86_\<close> the number is read back as written.
\<close>

theorem xdr_double_halves:
  assumes "8 \<le> length b" "length b < 2 ^ 32" "4 dvd length b"
  shows "(\<exists>x y. xdr_double X86 xdrmem_ops XDR_ENCODE (lo, hi) (xdrmem_create b addr (of_nat (length b))) = Some (True, (lo, hi), x) \<and>
      xdr_double X86 xdrmem_ops XDR_DECODE old (xdrmem_create (mem x) addr' (of_nat (length (mem x)))) = Some (True, (lo, hi), y)) \<and>
    (\<exists>x y. xdr_double X64 xdrmem_ops XDR_ENCODE (lo, hi) (xdrmem_create b addr (of_nat (length b))) = Some (True, (lo, hi), x) \<and>
      xdr_double X64 xdrmem_ops XDR_DECODE old (xdrmem_create (mem x) addr' (of_nat (length (mem x)))) = Some (True, (hi, lo), y))"
  using mem_roundtrip [OF memw.encodes_double_x86 [of _ lo hi] memr.decodes_double_intel [of X86 _ old lo hi], of b addr addr']
    mem_roundtrip [OF memw.encodes_double_x64 [of _ lo hi] memr.decodes_double_intel [of X64 _ old hi lo], of b addr addr'] assms
  by simp

theorem xdr_double_halves_witness:
  "\<exists>x y. xdr_double X64 xdrmem_ops XDR_ENCODE (1, 2) (xdrmem_create (replicate 8 0) 4096 (of_nat 8)) = Some (True, (1, 2), x) \<and>
      xdr_double X64 xdrmem_ops XDR_DECODE (0, 0) (xdrmem_create (mem x) 4096 (of_nat (length (mem x)))) = Some (True, (2, 1), y)"
  using xdr_double_halves [of "replicate 8 0" 1 2 4096 "(0, 0)" 4096] by simp

end
