(* ===== verification/KsMemStream.thy ===== *)
theory KsMemStream
  imports XdrFilters
begin

text \<open>
  The buffered XDR stream of ACPLT/KS, ks/src/xdrmemstream.cpp: the contents of a stream are spread over fragments of
  equal size, which form a linked list and are recycled through a free list shared by all streams.

  Fragments live in an explicit store: \<open>heap\<close> maps the address of a fragment to it, 0 is the null pointer. \<open>msglob\<close> holds the
  static variables of the module, \<open>memstream\<close> an \<open>XDR\<close> handle together with its \<open>MemoryStreamInfo\<close>; \<open>x_private\<close> is the
  offset \<open>off\<close> in the fragment \<open>ptr\<close>. \<open>long\<close> has 32 bits. \<open>mal g\<close> is what \<open>malloc\<close> returns for a fragment: its
  address and its contents, or nothing. An operation that uses a null pointer, leaves its fragment or does not
  return has no result.
\<close>

subsection \<open>State\<close>

record frag =
  nxt :: nat
  used :: u32
  fdata :: "byte list"

record msglob =
  heap :: "nat \<Rightarrow> frag option"
  buf_size :: u32
  free_list :: nat
  fragment_count :: u32
  free_fragment_count :: u32
  fragment_quota :: u32
  fragment_watermark :: u32
  free_percentage :: u32

record memstream =
  ms_op :: xdr_op
  ptr :: nat
  off :: nat
  handy :: u32
  first_frag :: nat
  current :: nat
  info_count :: u32
  info_length :: u32

type_synonym mss = "msglob \<times> memstream"
type_synonym mallocf = "msglob \<Rightarrow> (nat \<times> byte list) option"

subsection \<open>The fragment pool\<close>

text \<open>A fragment takes \<open>buf_size\<close> bytes and its head without the alignment dummy: two words of eight bytes.\<close>

definition ms_getusage :: "msglob \<Rightarrow> u32 \<times> u32" where
  "ms_getusage g = (fragment_count g * (buf_size g + 16), free_fragment_count g * (buf_size g + 16))"

definition ms_controlusage :: "u32 \<Rightarrow> u32 \<Rightarrow> u32 \<Rightarrow> u32 \<Rightarrow> msglob \<Rightarrow> bool \<times> msglob" where
  "ms_controlusage fragmentsize quota watermark freepercentage g =
     (if fragmentsize \<noteq> buf_size g \<and> fragment_count g \<noteq> 0 then (False, g)
      else let sz = (if fragmentsize < 256 then 256 else fragmentsize)
           in (True, g\<lparr>buf_size := sz, fragment_quota := quota, fragment_watermark := watermark,
                       free_percentage := freepercentage\<rparr>))"

text \<open>The second half of the allocation: the new fragment \<open>p\<close> is linked behind the current one and becomes current.\<close>

definition link_fragment :: "nat \<Rightarrow> byte list \<Rightarrow> mss \<Rightarrow> (nat \<times> mss) option" where
  "link_fragment p d s = (case s of (g, x) \<Rightarrow>
     do { h \<leftarrow> (if current x \<noteq> 0
                then do { c \<leftarrow> heap g (current x); Some ((heap g)(current x \<mapsto> c\<lparr>nxt := p\<rparr>)) }
                else Some (heap g));
          Some (p, g\<lparr>heap := h(p \<mapsto> \<lparr>nxt = 0, used = buf_size g, fdata = d\<rparr>)\<rparr>,
                x\<lparr>current := p, ptr := p, off := 0, handy := buf_size g, info_count := info_count x + 1\<rparr>) })"

definition alloc_fragment :: "mallocf \<Rightarrow> mss \<Rightarrow> (nat \<times> mss) option" where
  "alloc_fragment mal s = (case s of (g, x) \<Rightarrow>
     if free_list g \<noteq> 0
     then do { f \<leftarrow> heap g (free_list g);
               link_fragment (free_list g) (fdata f)
                 (g\<lparr>free_list := nxt f, free_fragment_count := free_fragment_count g - 1\<rparr>, x) }
     else if fragment_quota g \<le> fragment_count g then Some (0, g, x)
     else (case mal g of
         None \<Rightarrow> Some (0, g\<lparr>fragment_count := fragment_count g + 1\<rparr>, x)
       | Some (p, d) \<Rightarrow> link_fragment p d (g\<lparr>fragment_count := fragment_count g + 1\<rparr>, x)))"

definition free_fragment :: "nat \<Rightarrow> msglob \<Rightarrow> msglob option" where
  "free_fragment p g =
     (if p = 0 then Some g
      else do { f \<leftarrow> heap g p;
                Some (g\<lparr>heap := (heap g)(p \<mapsto> f\<lparr>nxt := free_list g\<rparr>), free_list := p,
                        free_fragment_count := free_fragment_count g + 1\<rparr>) })"

text \<open>The loop of \<open>xdrmemstream_freegarbage\<close>: \<open>n\<close> fragments of the free list are returned to the C library.\<close>

fun garbage_loop :: "nat \<Rightarrow> msglob \<Rightarrow> msglob option" where
  "garbage_loop 0 g = Some g"
| "garbage_loop (Suc n) g =
     (if free_list g = 0 then None
      else do { f \<leftarrow> heap g (free_list g);
                garbage_loop n (g\<lparr>heap := (heap g)(free_list g := None), free_list := nxt f,
                                  free_fragment_count := free_fragment_count g - 1,
                                  fragment_count := fragment_count g - 1\<rparr>) })"

definition garbage_count :: "msglob \<Rightarrow> u32" where
  "garbage_count g =
     (let n = ((free_fragment_count g - fragment_watermark g) * free_percentage g) div 100
      in if n = 0 then free_fragment_count g - fragment_watermark g else n)"

definition ms_freegarbage :: "msglob \<Rightarrow> msglob option" where
  "ms_freegarbage g =
     (if fragment_watermark g < free_fragment_count g then garbage_loop (unat (garbage_count g)) g else Some g)"

text \<open>The loop that frees all fragments from \<open>p\<close> on, in \<open>xdrmemstream_clear\<close> and \<open>MemStreamDestroy\<close>.\<close>

partial_function (option) free_chain :: "nat \<Rightarrow> msglob \<Rightarrow> msglob option" where
  "free_chain p g =
     (if p = 0 then Some g
      else do { f \<leftarrow> heap g p; g' \<leftarrow> free_fragment p g; free_chain (nxt f) g' })"

subsection \<open>Creation, clearing, rewinding\<close>

text \<open>\<open>info_ok\<close> tells whether the info block could be allocated; its field \<open>length\<close> starts with whatever the block holds.\<close>

definition ms_create :: "mallocf \<Rightarrow> bool \<Rightarrow> u32 \<Rightarrow> mss \<Rightarrow> (bool \<times> mss) option" where
  "ms_create mal info_ok junk s = (case s of (g, x) \<Rightarrow>
     if \<not> info_ok then Some (False, g, x)
     else do { (p, g, x) \<leftarrow> alloc_fragment mal (g, x\<lparr>ms_op := XDR_ENCODE, current := 0, info_count := 0, info_length := junk\<rparr>);
               if p = 0 then Some (False, g, x) else Some (True, g, x\<lparr>first_frag := p\<rparr>) })"

definition ms_clear :: "mss \<Rightarrow> mss option" where
  "ms_clear s = (case s of (g, x) \<Rightarrow>
     do { f \<leftarrow> heap g (first_frag x);
          let x = x\<lparr>current := first_frag x, ms_op := XDR_ENCODE, ptr := first_frag x, off := 0,
                    handy := buf_size g, info_count := 1\<rparr>;
          let g = g\<lparr>heap := (heap g)(first_frag x \<mapsto> f\<lparr>used := buf_size g\<rparr>)\<rparr>;
          g \<leftarrow> free_chain (nxt f) g;
          f \<leftarrow> heap g (first_frag x);
          Some (g\<lparr>heap := (heap g)(first_frag x \<mapsto> f\<lparr>nxt := 0\<rparr>)\<rparr>, x) })"

text \<open>The length information is fixed when a stream leaves the encoding mode.\<close>

definition fix_length :: "mss \<Rightarrow> mss option" where
  "fix_length s = (case s of (g, x) \<Rightarrow>
     do { c \<leftarrow> heap g (current x);
          Some (g\<lparr>heap := (heap g)(current x \<mapsto> c\<lparr>used := used c - handy x\<rparr>)\<rparr>,
                x\<lparr>info_length := info_count x * buf_size g - handy x\<rparr>) })"

definition ms_rewind :: "xdr_op \<Rightarrow> mss \<Rightarrow> mss option" where
  "ms_rewind op s =
     (if op = XDR_ENCODE then ms_clear s
      else do { (g, x) \<leftarrow> (if ms_op (snd s) = XDR_ENCODE then fix_length s else Some s);
                f \<leftarrow> heap g (first_frag x);
                Some (g, x\<lparr>current := first_frag x, ptr := first_frag x, off := 0, handy := used f, ms_op := op\<rparr>) })"

definition ms_destroy :: "mss \<Rightarrow> msglob option" where
  "ms_destroy s = (case s of (g, x) \<Rightarrow> free_chain (first_frag x) g)"

definition ms_get_length :: "mss \<Rightarrow> u32" where
  "ms_get_length s = info_length (snd s)"

text \<open>
  \<open>desc\<close> is the array of descriptions, each a fragment and its length, with room for \<open>*fragment_count\<close> of them. The code
  never advances its pointer \<open>desc\<close>.
\<close>

fun describe_loop :: "(nat \<Rightarrow> frag option) \<Rightarrow> nat \<Rightarrow> nat \<Rightarrow> (nat \<times> u32) list \<Rightarrow> (nat \<times> u32) list option" where
  "describe_loop h 0 p desc = Some desc"
| "describe_loop h (Suc n) p desc =
     do { f \<leftarrow> h p;
          if used f = 0 then Some desc
          else if desc = [] then None
          else let desc = desc[0 := (p, used f)]
               in if nxt f = 0 then Some desc else describe_loop h n (nxt f) desc }"

definition ms_get_fragments ::
  "mss \<Rightarrow> (nat \<times> u32) list option \<Rightarrow> nat \<Rightarrow> ((nat \<times> u32) list option \<times> nat \<times> u32) option" where
  "ms_get_fragments s desc avail = (case s of (g, x) \<Rightarrow>
     do { f \<leftarrow> heap g (first_frag x);
          let count = (if used f = 0 then size_sub (unat (info_count x)) 1 else unat (info_count x));
          desc \<leftarrow> (case desc of None \<Rightarrow> Some None
                    | Some d \<Rightarrow> map_option Some (describe_loop (heap g) avail (first_frag x) d));
          Some (desc, count, info_length x) })"

subsection \<open>Reading and writing\<close>

text \<open>\<open>AdvanceToNextFragment\<close>, for a stream that has used up its fragment.\<close>

definition advance :: "mss \<Rightarrow> (bool \<times> mss) option" where
  "advance s = (case s of (g, x) \<Rightarrow>
     do { c \<leftarrow> heap g (current x);
          if nxt c = 0 then Some (False, g, x\<lparr>current := 0, handy := 0\<rparr>)
          else do { f \<leftarrow> heap g (nxt c);
                    Some (used f \<noteq> 0, g, x\<lparr>current := nxt c, ptr := nxt c, off := 0, handy := used f\<rparr>) } })"

definition frag_read :: "nat \<Rightarrow> mss \<Rightarrow> byte list option" where
  "frag_read n s = (case s of (g, x) \<Rightarrow>
     do { f \<leftarrow> heap g (ptr x);
          if off x + n \<le> length (fdata f) then Some (take n (drop (off x) (fdata f))) else None })"

definition frag_write :: "byte list \<Rightarrow> mss \<Rightarrow> mss option" where
  "frag_write bs s = (case s of (g, x) \<Rightarrow>
     do { f \<leftarrow> heap g (ptr x);
          if off x + length bs \<le> length (fdata f)
          then Some (g\<lparr>heap := (heap g)(ptr x \<mapsto>
                 f\<lparr>fdata := take (off x) (fdata f) @ bs @ drop (off x + length bs) (fdata f)\<rparr>)\<rparr>, x)
          else None })"

definition step :: "nat \<Rightarrow> mss \<Rightarrow> mss" where
  "step n s = (case s of (g, x) \<Rightarrow> (g, x\<lparr>off := off x + n, handy := handy x - of_nat n\<rparr>))"

text \<open>What the operations do first when the current fragment is used up.\<close>

definition refill_get :: "mss \<Rightarrow> (bool \<times> mss) option" where
  "refill_get s = (if handy (snd s) = 0 then advance s else Some (True, s))"

definition refill_put :: "mallocf \<Rightarrow> mss \<Rightarrow> (bool \<times> mss) option" where
  "refill_put mal s =
     (if handy (snd s) = 0 then do { (p, s) \<leftarrow> alloc_fragment mal s; Some (p \<noteq> 0, s) } else Some (True, s))"

definition ms_getlong :: "mss \<Rightarrow> (u32 option \<times> mss) option" where
  "ms_getlong s =
     do { (ok, s) \<leftarrow> refill_get s;
          if \<not> ok then Some (None, s) else do { b \<leftarrow> frag_read 4 s; Some (Some (un_be32 b), step 4 s) } }"

definition ms_putlong :: "mallocf \<Rightarrow> u32 \<Rightarrow> mss \<Rightarrow> (bool \<times> mss) option" where
  "ms_putlong mal v s =
     do { (ok, s) \<leftarrow> refill_put mal s;
          if \<not> ok then Some (False, fst s, (snd s)\<lparr>handy := 0\<rparr>)
          else do { s \<leftarrow> frag_write (be32 v) s; Some (True, step 4 s) } }"

partial_function (option) ms_getbytes :: "byte list \<Rightarrow> mss \<Rightarrow> (bool \<times> byte list \<times> mss) option" where
  "ms_getbytes addr s =
     (if addr = [] then Some (True, [], s)
      else do { (ok, s) \<leftarrow> refill_get s;
                if \<not> ok then Some (False, addr, s)
                else let count = min (length addr) (unat (handy (snd s)))
                     in do { b \<leftarrow> frag_read count s;
                             (ok, r, s) \<leftarrow> ms_getbytes (drop count addr) (step count s);
                             Some (ok, b @ r, s) } })"

partial_function (option) ms_putbytes_loop :: "mallocf \<Rightarrow> byte list \<Rightarrow> mss \<Rightarrow> (bool \<times> mss) option" where
  "ms_putbytes_loop mal addr s =
     (if addr = [] then Some (True, s)
      else do { (ok, s) \<leftarrow> refill_put mal s;
                if \<not> ok then Some (False, s)
                else let count = min (length addr) (unat (handy (snd s)))
                     in do { s \<leftarrow> frag_write (take count addr) s;
                             ms_putbytes_loop mal (drop count addr) (step count s) } })"

definition ms_putbytes :: "mallocf \<Rightarrow> byte list \<Rightarrow> mss \<Rightarrow> (bool \<times> byte list \<times> mss) option" where
  "ms_putbytes mal addr s = do { (ok, s) \<leftarrow> ms_putbytes_loop mal addr s; Some (ok, addr, s) }"

text \<open>The place handed out (fragment and offset), (0, 0) for the null pointer. \<open>len\<close> and the cast \<open>x_handy\<close> are compared as \<open>int\<close>.\<close>

definition ms_inline :: "mallocf \<Rightarrow> nat \<Rightarrow> mss \<Rightarrow> ((nat \<times> nat) \<times> mss) option" where
  "ms_inline mal len s =
     do { (ok, s) \<leftarrow> refill_put mal s;
          if \<not> ok then Some ((0, 0), s)
          else if int len \<le> sint (handy (snd s))
          then Some ((ptr (snd s), off (snd s)), step len s)
          else Some ((0, 0), s) }"

text \<open>Positions are not implemented.\<close>

definition ms_getpos :: "mss \<Rightarrow> u32" where
  "ms_getpos s = 0"

definition ms_setpos :: "u32 \<Rightarrow> mss \<Rightarrow> bool \<times> mss" where
  "ms_setpos pos s = (False, s)"

definition ms_ops :: "mallocf \<Rightarrow> mss xdr_ops" where
  "ms_ops mal = \<lparr>x_getlong = ms_getlong, x_putlong = ms_putlong mal,
                 x_getbytes = ms_getbytes, x_putbytes = ms_putbytes mal\<rparr>"

subsection \<open>Transfer to and from a socket\<close>

text \<open>
  \<open>read\<close> and \<open>write\<close> act on the state \<open>'n\<close> of a connection: \<open>Bytes b\<close> are the bytes read, \<open>Count n\<close> the number of bytes written,
  \<open>Errno e\<close> the error of a result below zero. \<open>EINTR\<close>, \<open>EAGAIN\<close> and \<open>EWOULDBLOCK\<close> are no errors. The result is
  the return code, the error if one was stored, what is left of \<open>*max\<close>, the connection and the stream.
\<close>

datatype errno = EINTR | EAGAIN | EWOULDBLOCK | EINVAL | ENOMEM | EIO | EPIPE | ECONNRESET | EINPROGRESS | Other_errno nat

definition transient :: "errno \<Rightarrow> bool" where
  "transient e \<longleftrightarrow> e = EINTR \<or> e = EAGAIN \<or> e = EWOULDBLOCK"

text \<open>
  \<open>m\<close> is the value of the \<open>int\<close> behind \<open>max\<close>, which the callers never make negative.
  The number of bytes for one call: \<open>int count = x_handy\<close>, or \<open>*max\<close> if that is less. A fragment with \<open>2 ^ 31\<close> bytes left or more makes
  \<open>count\<close> negative, which is not more than \<open>*max\<close>, and passed as a \<open>size_t\<close> it is above \<open>SSIZE_MAX\<close>, where the effect of \<open>read\<close> and \<open>write\<close> is
  implementation-defined (on Linux they fail): the model has no result.
\<close>

definition transfer_count :: "nat \<Rightarrow> u32 \<Rightarrow> nat option" where
  "transfer_count m h = (if sint h < 0 then None else Some (min m (unat h)))"

partial_function (option) read_loop ::
  "mallocf \<Rightarrow> (nat \<Rightarrow> 'n \<Rightarrow> (errno + byte list) \<times> 'n) \<Rightarrow> nat \<Rightarrow> 'n \<Rightarrow> mss \<Rightarrow>
   (bool \<times> errno option \<times> nat \<times> 'n \<times> mss) option" where
  "read_loop mal rd m n s =
     (if m = 0 then Some (True, None, 0, n, s)
      else do { (ok, s) \<leftarrow> refill_put mal s;
                if \<not> ok then Some (False, Some ENOMEM, m, n, s)
                else do { count \<leftarrow> transfer_count m (handy (snd s));
                          (case rd count n of
                             (Inl e, n) \<Rightarrow> Some (transient e, Some e, m, n, s)
                           | (Inr b, n) \<Rightarrow>
                               if b = [] then Some (False, Some EIO, m, n, s)
                               else do { s \<leftarrow> frag_write b s;
                                         if count \<noteq> length b then Some (True, None, m - length b, n, step (length b) s)
                                         else read_loop mal rd (m - length b) n (step (length b) s) }) } })"

definition read_from_fd ::
  "mallocf \<Rightarrow> (nat \<Rightarrow> 'n \<Rightarrow> (errno + byte list) \<times> 'n) \<Rightarrow> nat \<Rightarrow> 'n \<Rightarrow> mss \<Rightarrow>
   (bool \<times> errno option \<times> nat \<times> 'n \<times> mss) option" where
  "read_from_fd mal rd m n s =
     (if ms_op (snd s) \<noteq> XDR_ENCODE then Some (False, Some EINVAL, m, n, s) else read_loop mal rd m n s)"

partial_function (option) write_loop ::
  "(byte list \<Rightarrow> 'n \<Rightarrow> (errno + nat) \<times> 'n) \<Rightarrow> nat \<Rightarrow> 'n \<Rightarrow> mss \<Rightarrow> (bool \<times> errno option \<times> nat \<times> 'n \<times> mss) option" where
  "write_loop wr m n s =
     (if m = 0 then Some (True, None, 0, n, s)
      else do { (ok, s) \<leftarrow> refill_get s;
                if \<not> ok then Some (False, Some ENOMEM, m, n, s)
                else do { count \<leftarrow> transfer_count m (handy (snd s));
                             b \<leftarrow> frag_read count s;
                             (case wr b n of
                                (Inl e, n) \<Rightarrow> Some (transient e, Some e, m, n, s)
                              | (Inr w, n) \<Rightarrow>
                                  if w = 0 then Some (False, Some EPIPE, m, n, s)
                                  else if count \<noteq> w then Some (True, None, m - w, n, step w s)
                                  else write_loop wr (m - w) n (step w s)) } })"

definition write_to_fd ::
  "(byte list \<Rightarrow> 'n \<Rightarrow> (errno + nat) \<times> 'n) \<Rightarrow> nat \<Rightarrow> 'n \<Rightarrow> mss \<Rightarrow> (bool \<times> errno option \<times> nat \<times> 'n \<times> mss) option" where
  "write_to_fd wr m n s =
     (if ms_op (snd s) \<noteq> XDR_DECODE then Some (False, Some EINVAL, m, n, s) else write_loop wr m n s)"

subsection \<open>Chains of fragments\<close>

text \<open>\<open>seg h p as q\<close>: following \<open>next\<close> from \<open>p\<close> one passes the fragments \<open>as\<close> and arrives at \<open>q\<close>.\<close>

fun seg :: "(nat \<Rightarrow> frag option) \<Rightarrow> nat \<Rightarrow> nat list \<Rightarrow> nat \<Rightarrow> bool" where
  "seg h p [] q \<longleftrightarrow> p = q"
| "seg h p (a # as) q \<longleftrightarrow> p = a \<and> a \<noteq> 0 \<and> (\<exists>f. h a = Some f \<and> seg h (nxt f) as q)"

fun frag_ptrs :: "(nat \<Rightarrow> frag option) \<Rightarrow> nat \<Rightarrow> nat \<Rightarrow> nat list" where
  "frag_ptrs h 0 p = []"
| "frag_ptrs h (Suc n) p =
     (if p = 0 then [] else p # (case h p of None \<Rightarrow> [] | Some f \<Rightarrow> frag_ptrs h n (nxt f)))"

definition bytes_of :: "(nat \<Rightarrow> frag option) \<Rightarrow> nat \<Rightarrow> byte list" where
  "bytes_of h p = (case h p of None \<Rightarrow> [] | Some f \<Rightarrow> fdata f)"

lemma seg_append: "seg h p (as @ bs) q \<longleftrightarrow> (\<exists>r. seg h p as r \<and> seg h r bs q)"
  by (induction as arbitrary: p) auto

lemma seg_cong:
  "(\<And>a. a \<in> set as \<Longrightarrow> map_option nxt (h' a) = map_option nxt (h a)) \<Longrightarrow> seg h' p as q \<longleftrightarrow> seg h p as q"
proof (induction as arbitrary: p)
  case (Cons a as)
  have "map_option nxt (h' a) = map_option nxt (h a)" using Cons.prems by simp
  moreover have "seg h' r as q \<longleftrightarrow> seg h r as q" for r using Cons by simp
  ultimately show ?case by (cases "h a"; cases "h' a") auto
qed simp

lemma seg_frame: "(\<And>a. a \<in> set as \<Longrightarrow> h' a = h a) \<Longrightarrow> seg h' p as q \<longleftrightarrow> seg h p as q"
  by (rule seg_cong) simp

lemma seg_upd [simp]: "a \<notin> set as \<Longrightarrow> seg (h(a \<mapsto> f)) p as q \<longleftrightarrow> seg h p as q"
  by (rule seg_frame) auto

lemma frag_ptrs_seg: "seg h p as 0 \<Longrightarrow> length as \<le> n \<Longrightarrow> frag_ptrs h n p = as"
proof (induction as arbitrary: p n)
  case Nil
  then show ?case by (cases n) auto
next
  case (Cons a as)
  then show ?case by (cases n) auto
qed

lemma seg_snoc:
  "seg h p (as @ [a]) 0 \<longleftrightarrow> seg h p as a \<and> a \<noteq> 0 \<and> (\<exists>f. h a = Some f \<and> nxt f = 0)"
  by (auto simp: seg_append)

text \<open>A chain can be extended at its end by another fragment.\<close>

lemma seg_extend:
  assumes "seg h p (as @ [a]) 0" "distinct (as @ [a])" "b \<notin> set (as @ [a])" "b \<noteq> 0" "h a = Some f" "nxt n = 0"
  shows "seg (h(a \<mapsto> f\<lparr>nxt := b\<rparr>, b \<mapsto> n)) p (as @ [a, b]) 0"
proof -
  let ?h = "h(a \<mapsto> f\<lparr>nxt := b\<rparr>, b \<mapsto> n)"
  have "seg h p as a" "a \<noteq> 0" using assms(1) by (auto simp: seg_append)
  moreover have "seg ?h p as a = seg h p as a"
    by (rule seg_frame) (use assms(2,3) in auto)
  ultimately have "seg ?h p as a" by simp
  then show ?thesis using assms(3-6) \<open>a \<noteq> 0\<close> by (auto simp: seg_append)
qed

subsection \<open>Streams being written\<close>

definition blocks :: "msglob \<Rightarrow> nat set \<Rightarrow> bool" where
  "blocks g A \<longleftrightarrow> (\<forall>p\<in>A. \<exists>f. heap g p = Some f \<and> length (fdata f) = unat (buf_size g))"

text \<open>Every fragment in the store is counted, and the free list holds the fragments \<open>fl\<close>.\<close>

definition pool_ok :: "msglob \<Rightarrow> nat list \<Rightarrow> bool" where
  "pool_ok g fl \<longleftrightarrow> 0 < buf_size g \<and> 4 dvd unat (buf_size g) \<and>
     finite (dom (heap g)) \<and> unat (fragment_count g) = card (dom (heap g)) \<and>
     seg (heap g) (free_list g) fl 0 \<and> distinct fl \<and> blocks g (set fl) \<and> unat (free_fragment_count g) = length fl"

text \<open>A stream in encoding mode whose fragments are \<open>ps\<close>; all but the last are full.\<close>

definition writing :: "msglob \<Rightarrow> memstream \<Rightarrow> nat list \<Rightarrow> bool" where
  "writing g x ps \<longleftrightarrow> ps \<noteq> [] \<and> distinct ps \<and> seg (heap g) (first_frag x) ps 0 \<and> blocks g (set ps) \<and>
     (\<forall>p\<in>set ps. \<forall>f. heap g p = Some f \<longrightarrow> used f = buf_size g) \<and>
     current x = last ps \<and> ptr x = last ps \<and> off x + unat (handy x) = unat (buf_size g) \<and>
     unat (info_count x) = length ps \<and> ms_op x = XDR_ENCODE"

definition enc_state :: "mss \<Rightarrow> nat list \<Rightarrow> nat list \<Rightarrow> bool" where
  "enc_state s fl ps \<longleftrightarrow> pool_ok (fst s) fl \<and> writing (fst s) (snd s) ps \<and> set fl \<inter> set ps = {}"

definition ms_good :: "mss \<Rightarrow> bool" where
  "ms_good s \<longleftrightarrow> (\<exists>fl ps. enc_state s fl ps)"

text \<open>The bytes in the fragments \<open>ps\<close>, of which the last one holds \<open>k\<close>.\<close>

definition content :: "(nat \<Rightarrow> frag option) \<Rightarrow> nat list \<Rightarrow> nat \<Rightarrow> byte list" where
  "content h ps k = concat (map (bytes_of h) (butlast ps)) @ take k (bytes_of h (last ps))"

definition ms_written :: "mss \<Rightarrow> byte list" where
  "ms_written s = (case s of (g, x) \<Rightarrow>
     content (heap g) (frag_ptrs (heap g) (unat (info_count x)) (first_frag x)) (off x))"

text \<open>The number of bytes that can be written before the quota is exhausted.\<close>

definition ms_room :: "mss \<Rightarrow> nat" where
  "ms_room s = (case s of (g, x) \<Rightarrow> unat (handy x) + unat (buf_size g) *
     (unat (free_fragment_count g) + (unat (fragment_quota g) - unat (fragment_count g))))"

text \<open>\<open>malloc\<close> finds new storage as long as there are finitely many fragments.\<close>

definition mal_ok :: "mallocf \<Rightarrow> bool" where
  "mal_ok mal \<longleftrightarrow> (\<forall>g. finite (dom (heap g)) \<longrightarrow>
     (\<exists>p d. mal g = Some (p, d) \<and> p \<noteq> 0 \<and> heap g p = None \<and> length d = unat (buf_size g)))"

lemma written_content: "enc_state (g, x) fl ps \<Longrightarrow> ms_written (g, x) = content (heap g) ps (off x)"
  by (auto simp: enc_state_def writing_def ms_written_def frag_ptrs_seg)

lemma blocks_frame: "blocks g A \<Longrightarrow> (\<And>p. p \<in> A \<Longrightarrow> heap g' p = heap g p) \<Longrightarrow> buf_size g' = buf_size g \<Longrightarrow> blocks g' A"
  by (simp add: blocks_def)

lemma blocks_dom: "blocks g A \<Longrightarrow> A \<subseteq> dom (heap g)"
  by (auto simp: blocks_def)

lemma blocksD: "blocks g A \<Longrightarrow> p \<in> A \<Longrightarrow> \<exists>f. heap g p = Some f \<and> length (fdata f) = unat (buf_size g)"
  by (simp add: blocks_def)

lemma blocks_empty [simp]: "blocks g {}"
  by (simp add: blocks_def)

lemma blocks_insert [simp]:
  "blocks g (insert p A) \<longleftrightarrow> (\<exists>f. heap g p = Some f \<and> length (fdata f) = unat (buf_size g)) \<and> blocks g A"
  by (auto simp: blocks_def)

lemma link_spec:
  assumes w: "writing g x ps" and p: "p \<notin> set ps" "p \<noteq> 0" and d: "length d = unat (buf_size g)"
    and n: "Suc (length ps) < 2 ^ 32"
  obtains c where "heap g (last ps) = Some c"
    and "link_fragment p d (g, x) = Some (p,
        g\<lparr>heap := (heap g)(last ps \<mapsto> c\<lparr>nxt := p\<rparr>, p \<mapsto> \<lparr>nxt = 0, used = buf_size g, fdata = d\<rparr>)\<rparr>,
        x\<lparr>current := p, ptr := p, off := 0, handy := buf_size g, info_count := info_count x + 1\<rparr>)"
    and "writing (g\<lparr>heap := (heap g)(last ps \<mapsto> c\<lparr>nxt := p\<rparr>, p \<mapsto> \<lparr>nxt = 0, used = buf_size g, fdata = d\<rparr>)\<rparr>)
        (x\<lparr>current := p, ptr := p, off := 0, handy := buf_size g, info_count := info_count x + 1\<rparr>) (ps @ [p])"
proof -
  obtain qs q where ps: "ps = qs @ [q]" using w by (auto simp: writing_def intro: rev_exhaust)
  then obtain c where c: "heap g q = Some c" "length (fdata c) = unat (buf_size g)"
    using w by (auto simp: writing_def dest: blocksD)
  have q0: "q \<noteq> 0" using w by (auto simp: writing_def ps seg_append)
  let ?h = "(heap g)(q \<mapsto> c\<lparr>nxt := p\<rparr>, p \<mapsto> \<lparr>nxt = 0, used = buf_size g, fdata = d\<rparr>)"
  have seg: "seg ?h (first_frag x) (qs @ [q, p]) 0"
    using seg_extend [of "heap g" "first_frag x" qs q p c] w p c ps by (simp add: writing_def)
  have "blocks (g\<lparr>heap := ?h\<rparr>) (set qs)"
    by (rule blocks_frame [of g]) (use w p ps in \<open>auto simp: writing_def\<close>)
  moreover have "unat (info_count x + 1) = Suc (length ps)"
    using w n by (simp add: writing_def unat_word_ariths)
  ultimately have "writing (g\<lparr>heap := ?h\<rparr>)
      (x\<lparr>current := p, ptr := p, off := 0, handy := buf_size g, info_count := info_count x + 1\<rparr>) (ps @ [p])"
    using w p c d seg ps by (auto simp: writing_def)
  moreover have "link_fragment p d (g, x) = Some (p, g\<lparr>heap := ?h\<rparr>,
      x\<lparr>current := p, ptr := p, off := 0, handy := buf_size g, info_count := info_count x + 1\<rparr>)"
    using w c q0 ps by (auto simp: link_fragment_def writing_def)
  ultimately show thesis using that [of c] c ps by auto
qed

text \<open>
  What a successful allocation does: one more fragment in the chain, one fewer available, the contents of
  the stream and the fragments of others unchanged.
\<close>

definition alloc_post :: "mss \<Rightarrow> nat list \<Rightarrow> nat list \<Rightarrow> nat \<Rightarrow> mss \<Rightarrow> nat list \<Rightarrow> bool" where
  "alloc_post s fl ps p s' fl' \<longleftrightarrow> p \<noteq> 0 \<and> enc_state s' fl' (ps @ [p]) \<and> buf_size (fst s') = buf_size (fst s) \<and>
     off (snd s') = 0 \<and> handy (snd s') = buf_size (fst s) \<and> ms_room s \<le> ms_room s' \<and>
     (\<forall>q. q \<in> set ps \<longrightarrow> bytes_of (heap (fst s')) q = bytes_of (heap (fst s)) q) \<and>
     (\<forall>q. q \<notin> set ps \<and> q \<notin> set fl \<and> heap (fst s) q \<noteq> None \<longrightarrow> q \<noteq> p \<and> q \<notin> set fl' \<and> heap (fst s') q = heap (fst s) q)"

lemma chain_length: "pool_ok g fl \<Longrightarrow> writing g x ps \<Longrightarrow> length ps \<le> unat (fragment_count g)"
  by (metis blocks_dom card_mono distinct_card pool_ok_def writing_def)

lemma pool_pop:
  assumes "pool_ok g (p # fl)" "heap g p = Some f"
  shows "free_list g = p" "p \<noteq> 0" "p \<notin> set fl"
    "pool_ok (g\<lparr>free_list := nxt f, free_fragment_count := free_fragment_count g - 1\<rparr>) fl"
    "unat (free_fragment_count g) = Suc (unat (free_fragment_count g - 1))"
proof -
  show *: "free_list g = p" "p \<noteq> 0" "p \<notin> set fl" using assms by (auto simp: pool_ok_def)
  have n: "unat (free_fragment_count g) = Suc (length fl)" using assms by (simp add: pool_ok_def)
  then have "(1 :: u32) \<le> free_fragment_count g" by (simp add: word_le_nat_alt)
  then have "unat (free_fragment_count g - 1) = length fl" using n by (simp add: unat_sub)
  then show "unat (free_fragment_count g) = Suc (unat (free_fragment_count g - 1))"
    "pool_ok (g\<lparr>free_list := nxt f, free_fragment_count := free_fragment_count g - 1\<rparr>) fl"
    using n assms by (auto simp: pool_ok_def blocks_def)
qed

text \<open>The pool after another part of the store has changed.\<close>

lemma pool_frame:
  assumes "pool_ok g fl" "dom h = dom (heap g)" "\<And>q. q \<in> set fl \<Longrightarrow> h q = heap g q"
  shows "pool_ok (g\<lparr>heap := h\<rparr>) fl"
proof -
  have "seg h (free_list g) fl 0 = seg (heap g) (free_list g) fl 0" by (rule seg_frame) (rule assms(3))
  moreover have "blocks (g\<lparr>heap := h\<rparr>) (set fl)"
    by (rule blocks_frame [of g]) (use assms in \<open>auto simp: pool_ok_def\<close>)
  ultimately show ?thesis using assms by (simp add: pool_ok_def)
qed

lemma alloc_recycled:
  assumes e: "enc_state (g, x) (p # fl) ps" and hx: "handy x = 0"
  shows "\<exists>s'. alloc_fragment mal (g, x) = Some (p, s') \<and> alloc_post (g, x) (p # fl) ps p s' fl"
proof -
  have pool: "pool_ok g (p # fl)" and w: "writing g x ps" and dis: "set (p # fl) \<inter> set ps = {}"
    using e by (auto simp: enc_state_def)
  obtain f where f: "heap g p = Some f" "length (fdata f) = unat (buf_size g)"
    using pool by (auto simp: pool_ok_def)
  note pop = pool_pop [OF pool f(1)]
  let ?g = "g\<lparr>free_list := nxt f, free_fragment_count := free_fragment_count g - 1\<rparr>"
  have "card (insert p (set ps)) \<le> card (dom (heap g))"
    using pool w f by (intro card_mono) (auto simp: pool_ok_def writing_def dest: blocks_dom)
  then have "Suc (length ps) \<le> unat (fragment_count g)"
    using pool w dis by (simp add: pool_ok_def writing_def distinct_card)
  then have n: "Suc (length ps) < 2 ^ 32" using unat_u32_less [of "fragment_count g"] by (simp add: le_less_trans)
  have w': "writing ?g x ps" using w by (simp add: writing_def blocks_def)
  obtain c where c: "heap ?g (last ps) = Some c"
    and link: "link_fragment p (fdata f) (?g, x) = Some (p,
        ?g\<lparr>heap := (heap ?g)(last ps \<mapsto> c\<lparr>nxt := p\<rparr>, p \<mapsto> \<lparr>nxt = 0, used = buf_size ?g, fdata = fdata f\<rparr>)\<rparr>,
        x\<lparr>current := p, ptr := p, off := 0, handy := buf_size ?g, info_count := info_count x + 1\<rparr>)"
    and wr: "writing (?g\<lparr>heap := (heap ?g)(last ps \<mapsto> c\<lparr>nxt := p\<rparr>, p \<mapsto> \<lparr>nxt = 0, used = buf_size ?g, fdata = fdata f\<rparr>)\<rparr>)
        (x\<lparr>current := p, ptr := p, off := 0, handy := buf_size ?g, info_count := info_count x + 1\<rparr>) (ps @ [p])"
    by (rule link_spec [OF w' _ pop(2) _ n]) (use dis f in auto)
  have last: "last ps \<in> set ps" using w by (simp add: writing_def)
  have "pool_ok (?g\<lparr>heap := (heap ?g)(last ps \<mapsto> c\<lparr>nxt := p\<rparr>, p \<mapsto> \<lparr>nxt = 0, used = buf_size ?g, fdata = fdata f\<rparr>)\<rparr>) fl"
    by (rule pool_frame [OF pop(4)]) (use c f pop last dis in auto)
  then have "alloc_post (g, x) (p # fl) ps p (?g\<lparr>heap := (heap ?g)(last ps \<mapsto> c\<lparr>nxt := p\<rparr>, p \<mapsto> \<lparr>nxt = 0, used = buf_size ?g, fdata = fdata f\<rparr>)\<rparr>,
        x\<lparr>current := p, ptr := p, off := 0, handy := buf_size ?g, info_count := info_count x + 1\<rparr>) fl"
    using wr c f pop dis last hx
    by (auto simp: alloc_post_def enc_state_def ms_room_def bytes_of_def)
  moreover have "alloc_fragment mal (g, x) = link_fragment p (fdata f) (?g, x)"
    using pop f by (simp add: alloc_fragment_def)
  ultimately show ?thesis using link by simp
qed

lemma alloc_fresh:
  assumes e: "enc_state (g, x) [] ps" and hx: "handy x = 0" and q: "fragment_count g < fragment_quota g" and m: "mal_ok mal"
  shows "\<exists>p s'. alloc_fragment mal (g, x) = Some (p, s') \<and> alloc_post (g, x) [] ps p s' []"
proof -
  have pool: "pool_ok g []" and w: "writing g x ps" using e by (auto simp: enc_state_def)
  then have fin: "finite (dom (heap g))" and fl0: "free_list g = 0" by (auto simp: pool_ok_def)
  obtain p d where m: "mal g = Some (p, d)" "p \<noteq> 0" "heap g p = None" "length d = unat (buf_size g)"
    using m fin unfolding mal_ok_def by blast
  let ?g = "g\<lparr>fragment_count := fragment_count g + 1\<rparr>"
  have fc: "unat (fragment_count g + 1) = Suc (unat (fragment_count g))"
    using q unat_u32_less [of "fragment_quota g"] by (simp add: unat_word_ariths word_less_nat_alt)
  have p: "p \<notin> set ps" using w m by (auto simp: writing_def dest: blocksD)
  have "Suc (length ps) \<le> unat (fragment_count g + 1)"
    using chain_length [OF pool w] fc by simp
  then have n: "Suc (length ps) < 2 ^ 32" using unat_u32_less [of "fragment_count g + 1"] by (simp add: le_less_trans)
  have w': "writing ?g x ps" using w by (simp add: writing_def blocks_def)
  obtain c where c: "heap ?g (last ps) = Some c"
    and link: "link_fragment p d (?g, x) = Some (p,
        ?g\<lparr>heap := (heap ?g)(last ps \<mapsto> c\<lparr>nxt := p\<rparr>, p \<mapsto> \<lparr>nxt = 0, used = buf_size ?g, fdata = d\<rparr>)\<rparr>,
        x\<lparr>current := p, ptr := p, off := 0, handy := buf_size ?g, info_count := info_count x + 1\<rparr>)"
    and wr: "writing (?g\<lparr>heap := (heap ?g)(last ps \<mapsto> c\<lparr>nxt := p\<rparr>, p \<mapsto> \<lparr>nxt = 0, used = buf_size ?g, fdata = d\<rparr>)\<rparr>)
        (x\<lparr>current := p, ptr := p, off := 0, handy := buf_size ?g, info_count := info_count x + 1\<rparr>) (ps @ [p])"
    by (rule link_spec [OF w' p m(2) _ n]) (use m in auto)
  have last: "last ps \<in> set ps" using w by (simp add: writing_def)
  let ?h = "(heap ?g)(last ps \<mapsto> c\<lparr>nxt := p\<rparr>, p \<mapsto> \<lparr>nxt = 0, used = buf_size ?g, fdata = d\<rparr>)"
  have "dom ?h = insert p (dom (heap g))" using c by auto
  moreover have "p \<notin> dom (heap g)" using m by auto
  ultimately have "pool_ok (?g\<lparr>heap := ?h\<rparr>) []"
    using pool fc by (simp add: pool_ok_def blocks_def)
  moreover have "unat (fragment_quota g) - unat (fragment_count g) = Suc (unat (fragment_quota g) - unat (fragment_count g + 1))"
    using q fc by (simp add: word_less_nat_alt)
  ultimately have "alloc_post (g, x) [] ps p (?g\<lparr>heap := ?h\<rparr>,
        x\<lparr>current := p, ptr := p, off := 0, handy := buf_size ?g, info_count := info_count x + 1\<rparr>) []"
    using wr c m p last hx by (auto simp: alloc_post_def enc_state_def ms_room_def bytes_of_def)
  moreover have "alloc_fragment mal (g, x) = link_fragment p d (?g, x)"
    using m fl0 by (simp add: alloc_fragment_def q [unfolded not_le [symmetric]])
  ultimately show ?thesis using trans [OF _ link] by blast
qed

lemma alloc_spec:
  assumes e: "enc_state (g, x) fl ps" and "handy x = 0" "0 < ms_room (g, x)" "mal_ok mal"
  shows "\<exists>p s' fl'. alloc_fragment mal (g, x) = Some (p, s') \<and> alloc_post (g, x) fl ps p s' fl'"
proof (cases fl)
  case Nil
  have "unat (free_fragment_count g) = 0" using e Nil by (simp add: enc_state_def pool_ok_def)
  then have "fragment_count g < fragment_quota g"
    using assms(2,3) by (simp add: ms_room_def word_less_nat_alt)
  then show ?thesis using alloc_fresh [of g x ps mal] assms Nil by blast
next
  case (Cons p fl')
  then show ?thesis using alloc_recycled [of g x p fl' ps mal] assms by blast
qed

text \<open>
  The invariant of a write in progress relative to its start: \<open>S\<close> are the fragments of the stream and the pool at the start;
  every other fragment is as it was.
\<close>

definition others_kept :: "msglob \<Rightarrow> nat set \<Rightarrow> msglob \<Rightarrow> nat set \<Rightarrow> bool" where
  "others_kept g S g' S' \<longleftrightarrow> buf_size g' = buf_size g \<and>
     (\<forall>q. heap g q \<noteq> None \<and> q \<notin> S \<longrightarrow> q \<notin> S' \<and> heap g' q = heap g q)"

lemma others_kept_refl: "others_kept g S g S"
  by (simp add: others_kept_def)

lemma others_kept_trans:
  "others_kept g S g' S' \<Longrightarrow> others_kept g' S' g'' S'' \<Longrightarrow> others_kept g S g'' S''"
  unfolding others_kept_def by metis

lemma refill_put_spec:
  assumes e: "enc_state s fl ps" and "0 < ms_room s" "mal_ok mal"
  shows "\<exists>s' fl' ps'. refill_put mal s = Some (True, s') \<and> enc_state s' fl' ps' \<and> ms_room s \<le> ms_room s' \<and>
    ms_written s' = ms_written s \<and> 0 < unat (handy (snd s')) \<and> buf_size (fst s') = buf_size (fst s) \<and>
    others_kept (fst s) (set ps \<union> set fl) (fst s') (set ps' \<union> set fl')"
proof (cases "handy (snd s) = 0")
  case False
  then show ?thesis
    using e by (intro exI [of _ s] exI [of _ fl] exI [of _ ps]) (auto simp: refill_put_def others_kept_refl unat_gt_0)
next
  case True
  obtain g x where s: "s = (g, x)" by force
  obtain p s' fl' where a: "alloc_fragment mal s = Some (p, s')" "alloc_post s fl ps p s' fl'"
    using alloc_spec [of g x fl ps mal] assms True s by auto
  obtain g' x' where s': "s' = (g', x')" by force
  have w: "writing g x ps" "buf_size g \<noteq> 0" using e s by (auto simp: enc_state_def pool_ok_def)
  then have "off x = unat (buf_size g)" using True s by (simp add: writing_def)
  moreover obtain f where f: "heap g (last ps) = Some f" "length (fdata f) = unat (buf_size g)" "ps \<noteq> []"
    using w by (auto simp: writing_def dest: blocksD [where p = "last ps"])
  ultimately have "content (heap g) ps (off x) = concat (map (bytes_of (heap g)) (butlast ps @ [last ps]))"
    by (simp add: content_def bytes_of_def del: append_butlast_last_id)
  then have "content (heap g) ps (off x) = concat (map (bytes_of (heap g)) ps)"
    using f(3) by simp
  moreover have "content (heap g') (ps @ [p]) 0 = concat (map (bytes_of (heap g')) ps)"
    by (simp add: content_def)
  moreover have "map (bytes_of (heap g')) ps = map (bytes_of (heap g)) ps"
    using a s s' by (simp add: alloc_post_def)
  ultimately have "ms_written s' = ms_written s"
    using a(2) written_content [of g x fl ps] written_content [of g' x' fl' "ps @ [p]"] e s s'
    by (simp add: alloc_post_def)
  then show ?thesis
    using a w s s' True
    by (intro exI [of _ s'] exI [of _ fl'] exI [of _ "ps @ [p]"])
       (auto simp: refill_put_def alloc_post_def others_kept_def unat_gt_0)
qed

text \<open>Writing into the current fragment.\<close>

lemma frag_write_spec:
  assumes e: "enc_state s fl ps" and n: "length bs \<le> unat (handy (snd s))"
  shows "\<exists>s'. frag_write bs s = Some s' \<and> enc_state (step (length bs) s') fl ps \<and>
    ms_room s = ms_room (step (length bs) s') + length bs \<and> ms_written (step (length bs) s') = ms_written s @ bs \<and>
    buf_size (fst s') = buf_size (fst s) \<and>
    others_kept (fst s) (set ps \<union> set fl) (fst (step (length bs) s')) (set ps \<union> set fl)"
proof -
  obtain g x where s: "s = (g, x)" by force
  have pool: "pool_ok g fl" and w: "writing g x ps" and dis: "set fl \<inter> set ps = {}"
    using e s by (auto simp: enc_state_def)
  obtain qs q where ps: "ps = qs @ [q]" using w by (auto simp: writing_def intro: rev_exhaust)
  obtain f where f: "heap g q = Some f" "length (fdata f) = unat (buf_size g)"
    using w ps by (auto simp: writing_def)
  have qqs: "q \<notin> set qs" "q \<notin> set fl" using w ps dis by (auto simp: writing_def)
  have le: "off x + length bs \<le> length (fdata f)" using w f n s by (simp add: writing_def)
  define d where "d = take (off x) (fdata f) @ bs @ drop (off x + length bs) (fdata f)"
  define h where "h = (heap g)(q \<mapsto> f\<lparr>fdata := d\<rparr>)"
  have len: "length d = unat (buf_size g)" using le f by (simp add: d_def)
  have fw: "frag_write bs s = Some (g\<lparr>heap := h\<rparr>, x)"
    using f le w ps s by (simp add: frag_write_def writing_def h_def d_def)
  have hq: "h a = heap g a" if "a \<noteq> q" for a using that by (simp add: h_def)
  have hn: "unat (handy x - of_nat (length bs)) = unat (handy x) - length bs"
    using n s unat_u32_less [of "handy x"] by (subst unat_sub) (auto simp: word_le_nat_alt unat_of_nat_u32)
  have "seg h (first_frag x) ps 0 = seg (heap g) (first_frag x) ps 0"
    by (rule seg_cong) (use f in \<open>auto simp: h_def\<close>)
  moreover have "blocks (g\<lparr>heap := h\<rparr>) (set ps)"
    using w f len by (auto simp: writing_def blocks_def h_def)
  ultimately have wr: "writing (g\<lparr>heap := h\<rparr>) (x\<lparr>off := off x + length bs, handy := handy x - of_nat (length bs)\<rparr>) ps"
    using w hn n s f by (auto simp: writing_def h_def)
  have pool': "pool_ok (g\<lparr>heap := h\<rparr>) fl"
    by (rule pool_frame [OF pool]) (use f qqs in \<open>auto simp: h_def\<close>)
  have "map (bytes_of h) qs = map (bytes_of (heap g)) qs"
    using qqs by (auto simp: bytes_of_def h_def)
  then have "concat (map (bytes_of h) qs) = concat (map (bytes_of (heap g)) qs)" by (rule arg_cong)
  moreover have "take (off x + length bs) d = take (off x) (fdata f) @ bs"
    using le by (simp add: d_def)
  moreover have "bytes_of h q = d" "bytes_of (heap g) q = fdata f" using f by (simp_all add: bytes_of_def h_def)
  ultimately have "content h ps (off x + length bs) = content (heap g) ps (off x) @ bs"
    by (simp add: content_def ps)
  moreover have enc': "enc_state (step (length bs) (g\<lparr>heap := h\<rparr>, x)) fl ps"
    using wr pool' dis by (simp add: enc_state_def step_def)
  ultimately have "ms_written (step (length bs) (g\<lparr>heap := h\<rparr>, x)) = ms_written s @ bs"
    using e s by (simp add: written_content step_def)
  then show ?thesis
    using fw enc' hn n s qqs hq ps
    by (auto simp: ms_room_def step_def others_kept_def)
qed

subsection \<open>The contract of a sink\<close>

lemma written_length: "enc_state (g, x) fl ps \<Longrightarrow> \<exists>k. length (ms_written (g, x)) = k * unat (buf_size g) + off x"
proof -
  assume e: "enc_state (g, x) fl ps"
  have "\<forall>p\<in>set ps. length (bytes_of (heap g) p) = unat (buf_size g)"
    using e by (auto simp: enc_state_def writing_def bytes_of_def dest: blocksD)
  moreover have "ps \<noteq> []" "off x \<le> unat (buf_size g)" using e by (auto simp: enc_state_def writing_def)
  moreover have "\<forall>p\<in>set (butlast ps). p \<in> set ps" by (auto dest: in_set_butlastD)
  ultimately have "length (content (heap g) ps (off x)) = length (butlast ps) * unat (buf_size g) + off x"
    by (simp add: content_def length_concat comp_def sum_list_triv cong: map_cong)
  then show ?thesis using written_content [OF e] by auto
qed

lemma aligned_handy:
  assumes e: "enc_state s fl ps" and "4 dvd length (ms_written s)" and h: "0 < unat (handy (snd s))"
  shows "4 \<le> unat (handy (snd s))"
proof -
  obtain g x where s: "s = (g, x)" by force
  then have B: "4 dvd unat (buf_size g)" "off x + unat (handy x) = unat (buf_size g)"
    using e by (auto simp: enc_state_def pool_ok_def writing_def)
  obtain k where "length (ms_written (g, x)) = k * unat (buf_size g) + off x"
    using written_length [of g x fl ps] e s by blast
  then have "4 dvd off x" using assms(2) B(1) s by (metis dvd_add_right_iff dvd_mult)
  then have "4 dvd unat (handy x)" using B by (metis dvd_add_right_iff)
  then show ?thesis using h s by (auto dest: dvd_imp_le)
qed

lemma putlong_spec:
  assumes e: "enc_state s fl ps" and al: "4 dvd length (ms_written s)" and r: "4 \<le> ms_room s" and m: "mal_ok mal"
  shows "\<exists>s' fl' ps'. ms_putlong mal v s = Some (True, s') \<and> enc_state s' fl' ps' \<and> ms_room s \<le> ms_room s' + 4 \<and>
    ms_written s' = ms_written s @ be32 v \<and> others_kept (fst s) (set ps \<union> set fl) (fst s') (set ps' \<union> set fl')"
proof -
  obtain t fl' ps' where t: "refill_put mal s = Some (True, t)" "enc_state t fl' ps'" "ms_room s \<le> ms_room t"
      "ms_written t = ms_written s" "0 < unat (handy (snd t))"
      "others_kept (fst s) (set ps \<union> set fl) (fst t) (set ps' \<union> set fl')"
    using refill_put_spec [OF e _ m] r by auto
  then have "length (be32 v) \<le> unat (handy (snd t))" using aligned_handy [of t] al by simp
  from frag_write_spec [OF t(2) this] obtain u where u: "frag_write (be32 v) t = Some u" "enc_state (step 4 u) fl' ps'"
      "ms_room t = ms_room (step 4 u) + 4" "ms_written (step 4 u) = ms_written t @ be32 v"
      "others_kept (fst t) (set ps' \<union> set fl') (fst (step 4 u)) (set ps' \<union> set fl')"
    by auto
  then show ?thesis
    using t others_kept_trans [OF t(6) u(5)]
    by (intro exI [of _ "step 4 u"] exI [of _ fl'] exI [of _ ps']) (simp add: ms_putlong_def)
qed

lemma putbytes_spec:
  assumes "enc_state s fl ps" "length bs \<le> ms_room s" "mal_ok mal"
  shows "\<exists>s' fl' ps'. ms_putbytes_loop mal bs s = Some (True, s') \<and> enc_state s' fl' ps' \<and> ms_room s \<le> ms_room s' + length bs \<and>
    ms_written s' = ms_written s @ bs \<and> others_kept (fst s) (set ps \<union> set fl) (fst s') (set ps' \<union> set fl')"
  using assms
proof (induction "length bs" arbitrary: bs s fl ps rule: less_induct)
  case less
  show ?case
  proof (cases "bs = []")
    case True
    then show ?thesis
      using less.prems by (intro exI [of _ s] exI [of _ fl] exI [of _ ps]) (simp add: ms_putbytes_loop.simps others_kept_refl)
  next
    case False
    then have "0 < ms_room s" using less.prems(2) by (cases bs) auto
    from refill_put_spec [OF less.prems(1) this less.prems(3)]
    obtain t fl' ps' where t: "refill_put mal s = Some (True, t)" "enc_state t fl' ps'" "ms_room s \<le> ms_room t"
        "ms_written t = ms_written s" "0 < unat (handy (snd t))"
        "others_kept (fst s) (set ps \<union> set fl) (fst t) (set ps' \<union> set fl')"
      by blast
    let ?n = "min (length bs) (unat (handy (snd t)))"
    have n: "length (take ?n bs) = ?n" "?n \<le> unat (handy (snd t))" "0 < ?n" using t(5) False by auto
    from frag_write_spec [OF t(2), of "take ?n bs"] n
    obtain u where u: "frag_write (take ?n bs) t = Some u" "enc_state (step ?n u) fl' ps'"
        "ms_room t = ms_room (step ?n u) + ?n" "ms_written (step ?n u) = ms_written t @ take ?n bs"
        "others_kept (fst t) (set ps' \<union> set fl') (fst (step ?n u)) (set ps' \<union> set fl')"
      by auto
    have "length (drop ?n bs) < length bs" "length (drop ?n bs) \<le> ms_room (step ?n u)"
      using n False less.prems(2) t(3) u(3) by auto
    from less.hyps [OF this(1) u(2) this(2) less.prems(3)]
    obtain v fl'' ps'' where v: "ms_putbytes_loop mal (drop ?n bs) (step ?n u) = Some (True, v)" "enc_state v fl'' ps''"
        "ms_room (step ?n u) \<le> ms_room v + length (drop ?n bs)" "ms_written v = ms_written (step ?n u) @ drop ?n bs"
        "others_kept (fst (step ?n u)) (set ps' \<union> set fl') (fst v) (set ps'' \<union> set fl'')"
      by blast
    have "ms_putbytes_loop mal bs s = Some (True, v)"
      using False t(1) u(1) v(1) by (simp add: ms_putbytes_loop.simps [of mal bs s] Let_def)
    moreover have "ms_written v = ms_written s @ bs" using v(4) u(4) t(4) by simp
    moreover have "ms_room s \<le> ms_room v + length bs" using v(3) u(3) t(3) n by simp
    ultimately show ?thesis
      using v(2) others_kept_trans [OF others_kept_trans [OF t(6) u(5)] v(5)] by blast
  qed
qed

lemma ms_sink:
  assumes "mal_ok mal"
  shows "byte_sink (ms_ops mal) ms_good ms_room ms_written"
proof (unfold_locales)
  fix s v
  assume "ms_good s" "4 dvd length (ms_written s)" "4 \<le> ms_room s"
  then show "\<exists>s'. x_putlong (ms_ops mal) v s = Some (True, s') \<and> emits ms_good ms_room ms_written s (be32 v) s'"
    using putlong_spec [OF _ _ _ assms] by (fastforce simp: ms_ops_def emits_def ms_good_def)
next
  fix s and bs :: "byte list"
  assume "ms_good s" "length bs \<le> ms_room s"
  then obtain s' where "ms_putbytes_loop mal bs s = Some (True, s')" "ms_good s'" "ms_room s \<le> ms_room s' + length bs"
      "ms_written s' = ms_written s @ bs"
    using putbytes_spec [OF _ _ assms] by (fastforce simp: ms_good_def)
  then show "\<exists>s'. x_putbytes (ms_ops mal) bs s = Some (True, bs, s') \<and> emits ms_good ms_room ms_written s bs s'"
    by (simp add: ms_ops_def ms_putbytes_def emits_def)
qed

text \<open>The same for a fixed fragment size, which writing does not change.\<close>

definition good_sized :: "u32 \<Rightarrow> mss \<Rightarrow> bool" where
  "good_sized B s \<longleftrightarrow> ms_good s \<and> buf_size (fst s) = B"

lemma ms_sink_sized:
  assumes "mal_ok mal"
  shows "byte_sink (ms_ops mal) (good_sized B) ms_room ms_written"
proof (unfold_locales)
  fix s v
  assume "good_sized B s" "4 dvd length (ms_written s)" "4 \<le> ms_room s"
  then show "\<exists>s'. x_putlong (ms_ops mal) v s = Some (True, s') \<and> emits (good_sized B) ms_room ms_written s (be32 v) s'"
    using putlong_spec [OF _ _ _ assms] by (fastforce simp: ms_ops_def emits_def ms_good_def good_sized_def others_kept_def)
next
  fix s and bs :: "byte list"
  assume "good_sized B s" "length bs \<le> ms_room s"
  then obtain s' where "ms_putbytes_loop mal bs s = Some (True, s')" "good_sized B s'" "ms_room s \<le> ms_room s' + length bs"
      "ms_written s' = ms_written s @ bs"
    using putbytes_spec [OF _ _ assms] by (fastforce simp: ms_good_def good_sized_def others_kept_def)
  then show "\<exists>s'. x_putbytes (ms_ops mal) bs s = Some (True, bs, s') \<and> emits (good_sized B) ms_room ms_written s bs s'"
    by (simp add: ms_ops_def ms_putbytes_def emits_def)
qed

text \<open>The allocator as an interface: whatever satisfies it makes a stream a sink.\<close>

locale fragment_allocator =
  fixes mal :: mallocf
  assumes mal_ok: "mal_ok mal"

sublocale fragment_allocator \<subseteq> sink: byte_sink "ms_ops mal" ms_good ms_room ms_written
  by (rule ms_sink [OF mal_ok])

text \<open>An allocator that returns the lowest free address.\<close>

definition mal_lowest :: mallocf where
  "mal_lowest g = Some (LEAST p. p \<noteq> 0 \<and> heap g p = None, replicate (unat (buf_size g)) 0)"

lemma mal_lowest_ok: "mal_ok mal_lowest"
  unfolding mal_ok_def
proof (intro allI impI)
  fix g :: msglob
  assume "finite (dom (heap g))"
  then have "finite (insert 0 (dom (heap g)))" by simp
  then obtain p where "p \<notin> insert 0 (dom (heap g))" using ex_new_if_finite infinite_UNIV_nat by blast
  then have "p \<noteq> 0 \<and> heap g p = None" by auto
  then have "(LEAST p. p \<noteq> 0 \<and> heap g p = None) \<noteq> 0 \<and> heap g (LEAST p. p \<noteq> 0 \<and> heap g p = None) = None"
    by (rule LeastI)
  then show "\<exists>p d. mal_lowest g = Some (p, d) \<and> p \<noteq> 0 \<and> heap g p = None \<and> length d = unat (buf_size g)"
    unfolding mal_lowest_def
    by - (rule exI, rule exI, rule conjI, rule refl, elim conjE, intro conjI, assumption, assumption, rule length_replicate)
qed

interpretation msw: fragment_allocator mal_lowest
  by unfold_locales (rule mal_lowest_ok)

subsection \<open>Streams being read\<close>

definition used_bytes :: "(nat \<Rightarrow> frag option) \<Rightarrow> nat \<Rightarrow> byte list" where
  "used_bytes h p = (case h p of None \<Rightarrow> [] | Some f \<Rightarrow> take (unat (used f)) (fdata f))"

text \<open>\<open>qs\<close> are the fragments behind the current one; only the last of them may be empty.\<close>

definition reading :: "mss \<Rightarrow> nat list \<Rightarrow> bool" where
  "reading s qs \<longleftrightarrow> (case s of (g, x) \<Rightarrow>
     (\<exists>f. heap g (current x) = Some f \<and> ptr x = current x \<and> off x + unat (handy x) \<le> length (fdata f) \<and>
          seg (heap g) (nxt f) qs 0) \<and>
     (\<forall>p\<in>set qs. \<forall>f. heap g p = Some f \<longrightarrow> unat (used f) \<le> length (fdata f) \<and> 4 dvd unat (used f)) \<and>
     (\<forall>p\<in>set (butlast qs). \<forall>f. heap g p = Some f \<longrightarrow> used f \<noteq> 0) \<and> length qs \<le> unat (info_count x))"

definition ms_rgood :: "mss \<Rightarrow> bool" where
  "ms_rgood s \<longleftrightarrow> (\<exists>qs. reading s qs)"

definition ms_rest :: "mss \<Rightarrow> byte list" where
  "ms_rest s = (case s of (g, x) \<Rightarrow>
     take (unat (handy x)) (drop (off x) (bytes_of (heap g) (current x))) @
     concat (map (used_bytes (heap g)) (frag_ptrs (heap g) (unat (info_count x))
       (case heap g (current x) of None \<Rightarrow> 0 | Some f \<Rightarrow> nxt f))))"

lemma rest_reading:
  "reading (g, x) qs \<Longrightarrow> ms_rest (g, x) =
     take (unat (handy x)) (drop (off x) (bytes_of (heap g) (current x))) @ concat (map (used_bytes (heap g)) qs)"
  by (auto simp: reading_def ms_rest_def frag_ptrs_seg)

text \<open>The fragments behind the current one hold whole units.\<close>

lemma reading_units:
  assumes "reading (g, x) qs"
  shows "4 dvd length (concat (map (used_bytes (heap g)) qs))"
proof (rule concat_unit, rule ballI)
  fix p
  assume p: "p \<in> set qs"
  have "unat (used f) \<le> length (fdata f) \<and> 4 dvd unat (used f)" if "heap g p = Some f" for f
    using assms p that by (auto simp: reading_def)
  then show "4 dvd length (used_bytes (heap g) p)"
    by (auto simp: used_bytes_def min_absorb2 split: option.split)
qed

lemma refill_get_spec:
  assumes r: "reading s qs" and ne: "ms_rest s \<noteq> []"
  shows "\<exists>s' qs'. refill_get s = Some (True, s') \<and> reading s' qs' \<and> ms_rest s' = ms_rest s \<and> handy (snd s') \<noteq> 0"
proof (cases "handy (snd s) = 0")
  case False
  then show ?thesis using r by (auto simp: refill_get_def)
next
  case True
  obtain g x where s: "s = (g, x)" by force
  obtain f where f: "heap g (current x) = Some f" "seg (heap g) (nxt f) qs 0"
    using r s by (auto simp: reading_def)
  have rest: "ms_rest s = concat (map (used_bytes (heap g)) qs)"
    using rest_reading [of g x qs] r s True by simp
  then obtain p ps where qs: "qs = p # ps" using ne by (cases qs) auto
  then obtain fp where fp: "heap g p = Some fp" "nxt f = p" "p \<noteq> 0" "seg (heap g) (nxt fp) ps 0"
    using f by auto
  have le: "unat (used fp) \<le> length (fdata fp)" using r s qs fp by (auto simp: reading_def)
  have "used fp \<noteq> 0"
  proof (cases "ps = []")
    case True
    then show ?thesis using ne rest qs fp by (auto simp: used_bytes_def)
  next
    case False
    then have "p \<in> set (butlast qs)" using qs by simp
    then show ?thesis using r s fp by (auto simp: reading_def)
  qed
  moreover have "set (butlast ps) \<subseteq> set (butlast qs)" using qs by auto
  ultimately have "reading (g, x\<lparr>current := p, ptr := p, off := 0, handy := used fp\<rparr>) ps"
    using r s qs fp le by (auto simp: reading_def)
  moreover from rest_reading [OF this] have "ms_rest (g, x\<lparr>current := p, ptr := p, off := 0, handy := used fp\<rparr>) = ms_rest s"
    using rest qs fp le by (simp add: bytes_of_def used_bytes_def)
  moreover have "refill_get s = Some (True, g, x\<lparr>current := p, ptr := p, off := 0, handy := used fp\<rparr>)"
    using True s f fp \<open>used fp \<noteq> 0\<close> by (simp add: refill_get_def advance_def)
  ultimately show ?thesis using \<open>used fp \<noteq> 0\<close>
    by (intro exI [of _ "(g, x\<lparr>current := p, ptr := p, off := 0, handy := used fp\<rparr>)"] exI [of _ ps]) simp
qed

lemma frag_read_spec:
  assumes r: "reading s qs" and n: "n \<le> unat (handy (snd s))"
  shows "\<exists>b. frag_read n s = Some b \<and> length b = n \<and> ms_rest s = b @ ms_rest (step n s) \<and> reading (step n s) qs"
proof -
  obtain g x where s: "s = (g, x)" by force
  obtain f where f: "heap g (current x) = Some f" "ptr x = current x" "off x + unat (handy x) \<le> length (fdata f)"
    using r s by (auto simp: reading_def)
  let ?x = "x\<lparr>off := off x + n, handy := handy x - of_nat n\<rparr>"
  have hn: "unat (handy x - of_nat n) = unat (handy x) - n"
    using n s unat_u32_less [of "handy x"] by (subst unat_sub) (auto simp: word_le_nat_alt unat_of_nat_u32)
  then have rd: "reading (g, ?x) qs" using r s f n by (auto simp: reading_def)
  have "take (unat (handy x)) (drop (off x) (fdata f)) =
      take n (drop (off x) (fdata f)) @ take (unat (handy x) - n) (drop (off x + n) (fdata f))"
    using n s by (metis add.commute drop_drop le_add_diff_inverse snd_conv take_add)
  then have "ms_rest s = take n (drop (off x) (fdata f)) @ ms_rest (g, ?x)"
    using rest_reading [of g x qs] rest_reading [OF rd] r s f hn by (simp add: bytes_of_def)
  then show ?thesis
    using f n s rd by (auto simp: frag_read_def step_def)
qed

lemma getlong_spec:
  assumes "ms_rgood s" "ms_rest s = be32 v @ r" "4 dvd length r"
  shows "\<exists>s'. ms_getlong s = Some (Some v, s') \<and> ms_rgood s' \<and> ms_rest s' = r"
proof -
  obtain qs where "reading s qs" using assms by (auto simp: ms_rgood_def)
  then obtain t qs' where t: "refill_get s = Some (True, t)" "reading t qs'" "ms_rest t = be32 v @ r" "handy (snd t) \<noteq> 0"
    using refill_get_spec [of s qs] assms(2) by auto
  obtain g x where gx: "t = (g, x)" by force
  have "length (take (unat (handy x)) (drop (off x) (bytes_of (heap g) (current x)))) = unat (handy x)"
    using t(2) gx by (auto simp: reading_def bytes_of_def)
  moreover have "4 dvd length (ms_rest t)" using t(3) assms(3) by simp
  ultimately have "4 dvd unat (handy x)"
    using rest_reading [of g x qs'] reading_units [of g x qs'] t(2) gx by (simp add: dvd_add_left_iff)
  moreover have "unat (handy x) \<noteq> 0" using t(4) gx by (simp add: unat_eq_0)
  ultimately have "4 \<le> unat (handy (snd t))" using gx by (auto dest: dvd_imp_le)
  from frag_read_spec [OF t(2) this] obtain b where b: "frag_read 4 t = Some b" "length b = 4"
      "ms_rest t = b @ ms_rest (step 4 t)" "reading (step 4 t) qs'"
    by blast
  then have "b = be32 v" "ms_rest (step 4 t) = r" using t(3) by (auto simp: append_eq_append_conv)
  then show ?thesis using t b by (auto simp: ms_getlong_def ms_rgood_def)
qed

lemma getbytes_spec:
  assumes "reading s qs" "ms_rest s = bs @ r" "length buf = length bs"
  shows "\<exists>s' qs'. ms_getbytes buf s = Some (True, bs, s') \<and> reading s' qs' \<and> ms_rest s' = r"
  using assms
proof (induction "length bs" arbitrary: bs buf s qs rule: less_induct)
  case less
  show ?case
  proof (cases "bs = []")
    case True
    then have "ms_getbytes buf s = Some (True, [], s)" using less.prems(3) by (simp add: ms_getbytes.simps)
    with True show ?thesis using less.prems(1,2) by (intro exI [of _ s] exI [of _ qs]) simp
  next
    case False
    obtain t qs' where t: "refill_get s = Some (True, t)" "reading t qs'" "ms_rest t = bs @ r" "handy (snd t) \<noteq> 0"
      using refill_get_spec [OF less.prems(1)] less.prems(2) False by auto
    let ?n = "min (length buf) (unat (handy (snd t)))"
    have n0: "0 < ?n" using t(4) False less.prems(3) by (auto simp: unat_gt_0)
    obtain b where b: "frag_read ?n t = Some b" "length b = ?n" "ms_rest t = b @ ms_rest (step ?n t)" "reading (step ?n t) qs'"
      using frag_read_spec [OF t(2), of ?n] by auto
    have n: "?n \<le> length bs" using less.prems(3) by simp
    have bb: "b = take ?n bs" "ms_rest (step ?n t) = drop ?n bs @ r"
      using arg_cong [OF trans [OF b(3) [symmetric] t(3)], of "take ?n"]
        arg_cong [OF trans [OF b(3) [symmetric] t(3)], of "drop ?n"] b(2) n by auto
    have "length (drop ?n bs) < length bs" "length (drop ?n buf) = length (drop ?n bs)"
      using n0 n less.prems(3) by auto
    from less.hyps [OF this(1) b(4) bb(2) this(2)]
    obtain u qs'' where u: "ms_getbytes (drop ?n buf) (step ?n t) = Some (True, drop ?n bs, u)" "reading u qs''" "ms_rest u = r"
      by blast
    have "buf \<noteq> []" using False less.prems(3) by auto
    then have "ms_getbytes buf s = Some (True, take ?n bs @ drop ?n bs, u)"
      using t(1) b(1) u(1) bb(1) by (simp add: ms_getbytes.simps [of buf s] Let_def)
    then show ?thesis using u by auto
  qed
qed

interpretation msr: byte_source "ms_ops mal" ms_rgood ms_rest for mal
proof unfold_locales
  fix s r v
  assume "ms_rgood s" "ms_rest s = be32 v @ r" "4 dvd length r"
  then show "\<exists>s'. x_getlong (ms_ops mal) s = Some (Some v, s') \<and> ms_rgood s' \<and> ms_rest s' = r"
    using getlong_spec by (simp add: ms_ops_def)
next
  fix s and bs r buf :: "byte list"
  assume "ms_rgood s" "ms_rest s = bs @ r" "length buf = length bs"
  then show "\<exists>s'. x_getbytes (ms_ops mal) buf s = Some (True, bs, s') \<and> ms_rgood s' \<and> ms_rest s' = r"
    using getbytes_spec unfolding ms_rgood_def by (simp add: ms_ops_def) metis
qed

text \<open>Reading changes neither the fragments nor where the stream begins.\<close>

definition at_stream :: "msglob \<Rightarrow> nat \<Rightarrow> mss \<Rightarrow> bool" where
  "at_stream g p s \<longleftrightarrow> ms_rgood s \<and> fst s = g \<and> first_frag (snd s) = p"

lemma refill_get_frozen: "refill_get s = Some (ok, s') \<Longrightarrow> fst s' = fst s \<and> first_frag (snd s') = first_frag (snd s)"
  by (auto simp: refill_get_def advance_def Let_def bind_eq_Some_conv split: if_splits prod.splits)

lemma step_frozen [simp]: "fst (step n s) = fst s" "first_frag (snd (step n s)) = first_frag (snd s)"
  by (cases s; simp add: step_def)+

lemma getlong_frozen: "ms_getlong s = Some (v, s') \<Longrightarrow> fst s' = fst s \<and> first_frag (snd s') = first_frag (snd s)"
  by (auto simp: ms_getlong_def bind_eq_Some_conv split: if_splits dest!: refill_get_frozen)

lemma getbytes_frozen:
  assumes "ms_getbytes addr s = Some y"
  shows "fst (snd (snd y)) = fst s \<and> first_frag (snd (snd (snd y))) = first_frag (snd s)"
proof (rule ms_getbytes.raw_induct
    [where P = "\<lambda>addr s y. fst (snd (snd y)) = fst s \<and> first_frag (snd (snd (snd y))) = first_frag (snd s)", OF _ assms], goal_cases)
  case (1 self addr s y)
  show ?case
  proof (cases "addr = []")
    case True
    then show ?thesis using 1(2) by auto
  next
    case False
    then obtain ok t where t: "refill_get s = Some (ok, t)"
      using 1(2) by (auto simp: bind_eq_Some_conv)
    note f = refill_get_frozen [OF t]
    show ?thesis
    proof (cases ok)
      case False
      then show ?thesis using 1(2) \<open>addr \<noteq> []\<close> t f by auto
    next
      case True
      let ?n = "min (length addr) (unat (handy (snd t)))"
      obtain z where z: "self (drop ?n addr) (step ?n t) = Some z" "snd (snd y) = snd (snd z)"
        using 1(2) \<open>addr \<noteq> []\<close> t True by (auto simp: Let_def bind_eq_Some_conv)
      show ?thesis using 1(1) [OF z(1)] z(2) f by simp
    qed
  qed
qed

lemma ms_source_at: "byte_source (ms_ops mal) (at_stream g p) ms_rest"
proof unfold_locales
  fix s r v
  assume a: "at_stream g p s" "ms_rest s = be32 v @ r" "4 dvd length r"
  then obtain s' where s': "ms_getlong s = Some (Some v, s')" "ms_rgood s'" "ms_rest s' = r"
    using getlong_spec [OF _ a(2,3)] by (auto simp: at_stream_def)
  from getlong_frozen [OF s'(1)] s' a(1)
  show "\<exists>s'. x_getlong (ms_ops mal) s = Some (Some v, s') \<and> at_stream g p s' \<and> ms_rest s' = r"
    by (simp add: ms_ops_def at_stream_def)
next
  fix s and bs r buf :: "byte list"
  assume a: "at_stream g p s" "ms_rest s = bs @ r" "length buf = length bs"
  then obtain s' where s': "ms_getbytes buf s = Some (True, bs, s')" "ms_rgood s'" "ms_rest s' = r"
    using getbytes_spec unfolding ms_rgood_def at_stream_def by metis
  from getbytes_frozen [OF s'(1)] s' a(1)
  show "\<exists>s'. x_getbytes (ms_ops mal) buf s = Some (True, bs, s') \<and> at_stream g p s' \<and> ms_rest s' = r"
    by (simp add: ms_ops_def at_stream_def)
qed

text \<open>The number of fragments that can still be had.\<close>

definition pool_room :: "msglob \<Rightarrow> nat" where
  "pool_room g = unat (free_fragment_count g) + (unat (fragment_quota g) - unat (fragment_count g))"

subsection \<open>Rewinding\<close>

text \<open>The fragments after the length of the last one has been fixed.\<close>

lemma fix_length_spec:
  assumes e: "enc_state (g, x) fl ps"
  obtains h where "fix_length (g, x) = Some (g\<lparr>heap := h\<rparr>, x\<lparr>info_length := info_count x * buf_size g - handy x\<rparr>)"
    and "\<And>p. map_option nxt (h p) = map_option nxt (heap g p)"
    and "\<And>p. map_option fdata (h p) = map_option fdata (heap g p)"
    and "\<And>p. p \<in> set (butlast ps) \<Longrightarrow> h p = heap g p"
    and "\<exists>f. h (last ps) = Some f \<and> unat (used f) = off x \<and> length (fdata f) = unat (buf_size g)"
proof -
  have w: "writing g x ps" using e by (simp add: enc_state_def)
  then obtain f where f: "heap g (last ps) = Some f" "length (fdata f) = unat (buf_size g)" "used f = buf_size g"
    by (metis blocksD last_in_set writing_def)
  let ?h = "(heap g)(last ps \<mapsto> f\<lparr>used := used f - handy x\<rparr>)"
  have "last ps \<notin> set (butlast ps)" using w
    by (metis append_butlast_last_id distinct_append writing_def disjoint_iff list.set_intros(1))
  moreover have le: "unat (handy x) \<le> unat (buf_size g)" "off x = unat (buf_size g) - unat (handy x)"
    using w by (auto simp: writing_def)
  moreover have "unat (buf_size g - handy x) = off x"
    using le by (subst unat_sub) (auto simp: word_le_nat_alt)
  moreover have "fix_length (g, x) = Some (g\<lparr>heap := ?h\<rparr>, x\<lparr>info_length := info_count x * buf_size g - handy x\<rparr>)"
    using w f by (simp add: fix_length_def writing_def)
  ultimately show thesis using f by (intro that [of ?h]) auto
qed

lemma off_unit:
  assumes "enc_state (g, x) fl ps" "4 dvd length (ms_written (g, x))"
  shows "4 dvd off x"
proof -
  obtain k where "length (ms_written (g, x)) = k * unat (buf_size g) + off x"
    using written_length [OF assms(1)] by blast
  moreover have "4 dvd unat (buf_size g)" using assms(1) by (auto simp: enc_state_def pool_ok_def)
  ultimately show ?thesis using assms(2) by (metis dvd_add_right_iff dvd_mult)
qed

text \<open>
  A stream of the fragments \<open>ps\<close> that stands at its beginning, in decoding mode: all fragments but the last are full, the last
  one holds whole units.
\<close>

definition rewound :: "mss \<Rightarrow> nat list \<Rightarrow> nat list \<Rightarrow> bool" where
  "rewound s fl ps \<longleftrightarrow> (case s of (g, x) \<Rightarrow>
     pool_ok g fl \<and> ps \<noteq> [] \<and> distinct ps \<and> seg (heap g) (first_frag x) ps 0 \<and> blocks g (set ps) \<and> set fl \<inter> set ps = {} \<and>
     (\<forall>p\<in>set (butlast ps). \<forall>f. heap g p = Some f \<longrightarrow> used f = buf_size g) \<and>
     (\<forall>f. heap g (last ps) = Some f \<longrightarrow> unat (used f) \<le> unat (buf_size g) \<and> 4 dvd unat (used f)) \<and>
     current x = first_frag x \<and> ptr x = first_frag x \<and> off x = 0 \<and> (\<forall>f. heap g (first_frag x) = Some f \<longrightarrow> handy x = used f) \<and>
     length ps = unat (info_count x) \<and> ms_op x = XDR_DECODE)"

lemma in_set_butlast_or_last: "p \<in> set ps \<Longrightarrow> p \<in> set (butlast ps) \<or> p = last ps"
  by (induction ps) auto

lemma rewound_frag:
  assumes "rewound (g, x) fl ps" "p \<in> set ps" "heap g p = Some f"
  shows "unat (used f) \<le> length (fdata f)" "4 dvd unat (used f)" "length (fdata f) = unat (buf_size g)"
    "p \<in> set (butlast ps) \<Longrightarrow> used f \<noteq> 0"
proof -
  have b: "length (fdata f) = unat (buf_size g)" "0 < unat (buf_size g)" "4 dvd unat (buf_size g)"
    using assms by (auto simp: rewound_def pool_ok_def unat_gt_0 dest: blocksD)
  have d: "p \<in> set (butlast ps) \<or> p = last ps" by (rule in_set_butlast_or_last [OF assms(2)])
  have l: "p \<in> set (butlast ps) \<Longrightarrow> used f = buf_size g" "p = last ps \<Longrightarrow> unat (used f) \<le> unat (buf_size g) \<and> 4 dvd unat (used f)"
    using assms(1,3) by (auto simp: rewound_def)
  show "length (fdata f) = unat (buf_size g)" by (rule b(1))
  show "unat (used f) \<le> length (fdata f)" "4 dvd unat (used f)" using d l b by auto
  show "p \<in> set (butlast ps) \<Longrightarrow> used f \<noteq> 0" using l(1) b(2) by auto
qed

lemma rewound_reading:
  assumes r: "rewound (g, x) fl (p # qs)"
  shows "reading (g, x) qs" "ms_rest (g, x) = concat (map (used_bytes (heap g)) (p # qs))"
proof -
  obtain f where f: "heap g p = Some f" "first_frag x = p" "seg (heap g) (nxt f) qs 0" using r by (auto simp: rewound_def)
  have "set (butlast qs) \<subseteq> set (butlast (p # qs))" by auto
  then have a: "\<forall>q\<in>set qs. \<forall>f. heap g q = Some f \<longrightarrow> unat (used f) \<le> length (fdata f) \<and> 4 dvd unat (used f)"
      "\<forall>q\<in>set (butlast qs). \<forall>f. heap g q = Some f \<longrightarrow> used f \<noteq> 0"
    using rewound_frag(1,2,4) [OF r] in_set_butlastD [of _ qs] by (meson list.set_intros(2), meson list.set_intros(2) subsetD)
  have "unat (used f) \<le> length (fdata f)" using rewound_frag(1) [OF r _ f(1)] by simp
  then show rd: "reading (g, x) qs"
    using r f a by (auto simp: reading_def rewound_def)
  show "ms_rest (g, x) = concat (map (used_bytes (heap g)) (p # qs))"
    using rest_reading [OF rd] f r by (simp add: rewound_def bytes_of_def used_bytes_def)
qed

lemma rewind_rewound:
  assumes e: "enc_state (g, x) fl ps" and al: "4 dvd length (ms_written (g, x))"
  shows "\<exists>g' x'. ms_rewind XDR_DECODE (g, x) = Some (g', x') \<and> rewound (g', x') fl ps \<and>
    concat (map (used_bytes (heap g')) ps) = ms_written (g, x) \<and> info_length x' = info_count x * buf_size g - handy x \<and>
    buf_size g' = buf_size g \<and> pool_room g' = pool_room g"
proof -
  have w: "writing g x ps" using e by (simp add: enc_state_def)
  obtain h where h: "fix_length (g, x) = Some (g\<lparr>heap := h\<rparr>, x\<lparr>info_length := info_count x * buf_size g - handy x\<rparr>)"
      "\<And>p. map_option nxt (h p) = map_option nxt (heap g p)" "\<And>p. map_option fdata (h p) = map_option fdata (heap g p)"
      "\<And>p. p \<in> set (butlast ps) \<Longrightarrow> h p = heap g p"
      "\<exists>f. h (last ps) = Some f \<and> unat (used f) = off x \<and> length (fdata f) = unat (buf_size g)"
    by (rule fix_length_spec [OF e]) blast
  have hq: "h q = heap g q" if "q \<noteq> last ps" for q
  proof -
    obtain c where "g\<lparr>heap := (heap g)(last ps \<mapsto> c)\<rparr> = g\<lparr>heap := h\<rparr>"
      using h(1) w by (auto simp: fix_length_def writing_def bind_eq_Some_conv)
    from arg_cong [OF this, of heap] that show ?thesis by auto
  qed
  have dom: "dom h = dom (heap g)" using h(2) by (auto simp: dom_def) (metis map_option_is_None option.exhaust)+
  have "ps \<noteq> []" "set fl \<inter> set ps = {}" using e by (auto simp: enc_state_def writing_def)
  then have "last ps \<notin> set fl" using last_in_set by blast
  then have hfl: "h q = heap g q" if "q \<in> set fl" for q using hq that by metis
  have pool: "pool_ok (g\<lparr>heap := h\<rparr>) fl"
    by (rule pool_frame) (use e hfl dom in \<open>auto simp: enc_state_def\<close>)
  have seg: "seg h (first_frag x) ps 0"
    using seg_cong [of ps h "heap g" "first_frag x" 0] h(2) w by (simp add: writing_def)
  then obtain f where f: "h (first_frag x) = Some f" using w by (cases ps) (auto simp: writing_def)
  have bl: "blocks (g\<lparr>heap := h\<rparr>) (set ps)"
    using w h(3) unfolding blocks_def writing_def by simp (metis map_option_eq_Some)
  have full: "\<forall>p\<in>set (butlast ps). \<forall>f. h p = Some f \<longrightarrow> used f = buf_size g"
    using w h(4) in_set_butlastD [of _ ps] by (auto simp: writing_def)
  let ?x = "x\<lparr>info_length := info_count x * buf_size g - handy x, current := first_frag x, ptr := first_frag x, off := 0, handy := used f, ms_op := XDR_DECODE\<rparr>"
  have "off x \<le> unat (buf_size g)" using w by (simp add: writing_def)
  then have "rewound (g\<lparr>heap := h\<rparr>, ?x) fl ps"
    using pool seg bl full w e f h(5) off_unit [OF e al] by (auto simp: rewound_def enc_state_def writing_def)
  moreover have "ms_rewind XDR_DECODE (g, x) = Some (g\<lparr>heap := h\<rparr>, ?x)"
    using w h(1) f by (simp add: ms_rewind_def writing_def)
  moreover have "concat (map (used_bytes h) ps) = ms_written (g, x)"
  proof -
    have "used_bytes h q = bytes_of (heap g) q" if "q \<in> set (butlast ps)" for q
      using full h(4) [OF that] that bl in_set_butlastD [OF that] by (auto simp: used_bytes_def bytes_of_def blocks_def split: option.split)
    then have "concat (map (used_bytes h) (butlast ps)) = concat (map (bytes_of (heap g)) (butlast ps))" by (simp cong: map_cong)
    moreover have "used_bytes h (last ps) = take (off x) (bytes_of (heap g) (last ps))"
      using h(5) h(3) [of "last ps"] by (auto simp: used_bytes_def bytes_of_def split: option.split)
    ultimately have "content (heap g) ps (off x) = concat (map (used_bytes h) (butlast ps @ [last ps]))"
      by (simp add: content_def del: append_butlast_last_id)
    moreover have "butlast ps @ [last ps] = ps" using w by (simp add: writing_def)
    ultimately show ?thesis using written_content [OF e] by (simp only:)
  qed
  ultimately show ?thesis by (auto simp: pool_room_def)
qed


lemma rewind_spec:
  assumes e: "enc_state s fl ps" and al: "4 dvd length (ms_written s)"
  shows "\<exists>s'. ms_rewind XDR_DECODE s = Some s' \<and> ms_rgood s' \<and> ms_rest s' = ms_written s \<and> ms_op (snd s') = XDR_DECODE"
proof -
  obtain g x where s: "s = (g, x)" by force
  obtain g' x' where r: "ms_rewind XDR_DECODE s = Some (g', x')" "rewound (g', x') fl ps"
      "concat (map (used_bytes (heap g')) ps) = ms_written s"
    using rewind_rewound [OF e [unfolded s]] al s by blast
  obtain p qs where "ps = p # qs" using r(2) by (cases ps) (auto simp: rewound_def)
  then show ?thesis using r rewound_reading [of g' x' fl p qs] by (auto simp: ms_rgood_def rewound_def)
qed

text \<open>A fragment \<open>p\<close> that belongs to nobody else becomes the first one of a stream.\<close>

lemma first_spec:
  assumes p: "pool_ok g fl" and h: "heap g p = Some f" "length (fdata f) = unat (buf_size g)" "nxt f = 0" "used f = buf_size g"
    and "p \<noteq> 0" "p \<notin> set fl"
  shows "enc_state (g, x\<lparr>ms_op := XDR_ENCODE, current := p, info_count := 1, info_length := junk, ptr := p, off := 0,
            handy := buf_size g, first_frag := p\<rparr>) fl [p]" (is "enc_state (g, ?x) _ _")
    and "ms_written (g, x\<lparr>ms_op := XDR_ENCODE, current := p, info_count := 1, info_length := junk, ptr := p, off := 0,
            handy := buf_size g, first_frag := p\<rparr>) = []"
proof -
  show e: "enc_state (g, ?x) fl [p]" using assms by (auto simp: enc_state_def writing_def)
  show "ms_written (g, ?x) = []" using written_content [OF e] by (simp add: content_def)
qed

lemma create_spec:
  assumes p: "pool_ok g fl" and room: "0 < pool_room g" and m: "mal_ok mal"
  shows "\<exists>s. ms_create mal True junk (g, x) = Some (True, s) \<and> ms_good s \<and> ms_written s = [] \<and>
    ms_room s = unat (buf_size g) * pool_room g"
proof (cases fl)
  case (Cons p fl')
  then obtain f where f: "heap g p = Some f" "length (fdata f) = unat (buf_size g)"
    using p by (auto simp: pool_ok_def)
  note pop = pool_pop [OF p [unfolded Cons] f(1)]
  let ?n = "\<lparr>nxt = 0, used = buf_size g, fdata = fdata f\<rparr>"
  let ?g = "g\<lparr>free_list := nxt f, free_fragment_count := free_fragment_count g - 1, heap := (heap g)(p \<mapsto> ?n)\<rparr>"
  let ?x = "x\<lparr>ms_op := XDR_ENCODE, current := p, info_count := 1, info_length := junk, ptr := p, off := 0,
            handy := buf_size ?g, first_frag := p\<rparr>"
  have "pool_ok ?g fl'"
    by (rule pool_frame [OF pop(4), of "(heap g)(p \<mapsto> ?n)", simplified]) (use f pop(3) in auto)
  note first = first_spec [OF this, where p = p and f = ?n and x = x and junk = junk]
  have "enc_state (?g, ?x) fl' [p]" by (rule first(1)) (use f pop in auto)
  moreover have "ms_written (?g, ?x) = []" by (rule first(2)) (use f pop in auto)
  moreover have "ms_create mal True junk (g, x) = Some (True, ?g, ?x)"
    using f pop by (simp add: ms_create_def alloc_fragment_def link_fragment_def)
  moreover have "ms_room (?g, ?x) = unat (buf_size g) * pool_room g"
    using pop(5) by (simp add: ms_room_def pool_room_def)
  ultimately show ?thesis unfolding ms_good_def by blast
next
  case Nil
  obtain p d where m: "mal g = Some (p, d)" "p \<noteq> 0" "heap g p = None" "length d = unat (buf_size g)"
    using m p unfolding mal_ok_def pool_ok_def by blast
  have q: "fragment_count g < fragment_quota g" using room p Nil by (simp add: pool_room_def pool_ok_def word_less_nat_alt)
  then have fc: "unat (fragment_count g + 1) = Suc (unat (fragment_count g))"
    using unat_u32_less [of "fragment_quota g"] by (simp add: unat_word_ariths word_less_nat_alt)
  let ?n = "\<lparr>nxt = 0, used = buf_size g, fdata = d\<rparr>"
  let ?g = "g\<lparr>fragment_count := fragment_count g + 1, heap := (heap g)(p \<mapsto> ?n)\<rparr>"
  let ?x = "x\<lparr>ms_op := XDR_ENCODE, current := p, info_count := 1, info_length := junk, ptr := p, off := 0,
            handy := buf_size ?g, first_frag := p\<rparr>"
  have "p \<notin> dom (heap g)" using m by auto
  then have "pool_ok ?g []" using p fc Nil by (simp add: pool_ok_def blocks_def)
  note first = first_spec [OF this, where p = p and f = ?n and x = x and junk = junk]
  have "enc_state (?g, ?x) [] [p]" by (rule first(1)) (use m in auto)
  moreover have "ms_written (?g, ?x) = []" by (rule first(2)) (use m in auto)
  moreover have "free_list g = 0" using p Nil by (simp add: pool_ok_def)
  then have "ms_create mal True junk (g, x) = Some (True, ?g, ?x)"
    using m(1,2) by (simp add: ms_create_def alloc_fragment_def link_fragment_def q [unfolded not_le [symmetric]])
  moreover have "ms_room (?g, ?x) = unat (buf_size g) * pool_room g"
    using q fc p Nil by (simp add: ms_room_def pool_room_def pool_ok_def word_less_nat_alt) (metis Suc_diff_Suc mult_Suc_right)
  ultimately show ?thesis unfolding ms_good_def by blast
qed

text \<open>
  Composition: what a filter writes to a new stream is what it, or another filter for the same representation, reads after rewinding.
\<close>

lemma ms_roundtrip:
  assumes p: "pool_ok g fl" "mal_ok mal"
    and enc: "encodes ms_good ms_room ms_written f v bs" and dec: "decodes ms_rgood ms_rest f' old w bs"
    and room: "length bs \<le> unat (buf_size g) * pool_room g" "0 < pool_room g"
  shows "\<exists>s t u w'. ms_create mal True junk (g, x) = Some (True, s) \<and> f XDR_ENCODE v s = Some (True, v, t) \<and>
    ms_written t = bs \<and> ms_rewind XDR_DECODE t = Some u \<and> f' XDR_DECODE old u = Some (True, w, w')"
proof -
  obtain s where s: "ms_create mal True junk (g, x) = Some (True, s)" "ms_good s" "ms_written s = []"
      "ms_room s = unat (buf_size g) * pool_room g"
    using create_spec [OF p(1) room(2) p(2)] by blast
  then obtain t where t: "f XDR_ENCODE v s = Some (True, v, t)" "emits ms_good ms_room ms_written s bs t"
    using encodesD [OF enc, of s] room by auto
  then have tw: "ms_written t = bs" using s by (simp add: emits_def)
  obtain fl' ps where "enc_state t fl' ps" using t(2) by (auto simp: emits_def ms_good_def)
  from rewind_spec [OF this] obtain u where u: "ms_rewind XDR_DECODE t = Some u" "ms_rgood u" "ms_rest u = bs @ []"
    using encodes_unit [OF enc] tw by auto
  then obtain y where "f' XDR_DECODE old u = Some (True, w, y)"
    using decodesD [OF dec, of u "[]"] by auto
  with s t tw u show ?thesis by blast
qed

subsection \<open>Properties\<close>

text \<open>
  C11. A C string that \<open>xdr_string\<close> writes to a new stream is read back unchanged after rewinding it, for any fragment size
  and any distribution of the bytes over recycled and new fragments; the stream then holds the length and the padded
  characters. Neither writing nor reading fails as long as the pool has room.
\<close>

theorem ms_string_roundtrip:
  assumes "pool_ok g fl" "mal_ok mal"
    and "0 \<notin> set str" "length str < 2 ^ 32 - 1" "of_nat (length str) \<le> maxsize"
    and "malloc (Suc (length str)) = Some fresh" "length fresh = Suc (length str)"
    and "0 < pool_room g" "8 + length str \<le> unat (buf_size g) * pool_room g"
  shows "\<exists>s t u w. ms_create mal True junk (g, x) = Some (True, s) \<and>
    xdr_string malloc (ms_ops mal) maxsize XDR_ENCODE (Some (str @ [0])) s = Some (True, Some (str @ [0]), t) \<and>
    ms_written t = be32 (of_nat (length str)) @ padded str \<and> ms_rewind XDR_DECODE t = Some u \<and>
    xdr_string malloc (ms_ops mal) maxsize XDR_DECODE None u = Some (True, Some (str @ [0]), w)"
proof -
  have len: "c_strlen (str @ [0]) = Some (length str)" using takeWhile_neq_append [OF assms(3), of "[]"] by (simp add: c_strlen_def)
  have "length str < 2 ^ 32" using assms(4) by simp
  from byte_sink.encodes_string [OF ms_sink [OF assms(2)] len this assms(5)]
  have enc: "encodes ms_good ms_room ms_written (xdr_string malloc (ms_ops mal) maxsize) (Some (str @ [0]))
      (be32 (of_nat (length str)) @ padded str)" by simp
  note dec = msr.decodes_string [where bs = str and malloc = malloc and maxsize = maxsize and fresh = fresh, OF assms(4,5,6,7)]
  have "length (be32 (of_nat (length str)) @ padded str) \<le> unat (buf_size g) * pool_room g"
    using assms(9) pad_len_less [of "length str"] by simp
  from ms_roundtrip [OF assms(1,2) enc dec this assms(8)] show ?thesis .
qed

theorem ms_string_roundtrip_witness:
  "\<exists>s t u w. ms_create mal_lowest True 0
      (\<lparr>heap = Map.empty, buf_size = 256, free_list = 0, fragment_count = 0, free_fragment_count = 0, fragment_quota = 10,
        fragment_watermark = 0, free_percentage = 50\<rparr>,
       \<lparr>ms_op = XDR_FREE, ptr = 0, off = 0, handy = 0, first_frag = 0, current = 0, info_count = 0, info_length = 0\<rparr>) = Some (True, s) \<and>
    xdr_string (\<lambda>n. Some (replicate n 0)) (ms_ops mal_lowest) 100 XDR_ENCODE (Some ([75, 83] @ [0])) s = Some (True, Some ([75, 83] @ [0]), t) \<and>
    ms_written t = be32 (of_nat (length [75 :: byte, 83])) @ padded [75, 83] \<and> ms_rewind XDR_DECODE t = Some u \<and>
    xdr_string (\<lambda>n. Some (replicate n 0)) (ms_ops mal_lowest) 100 XDR_DECODE None u = Some (True, Some ([75, 83] @ [0]), w)"
  by (rule ms_string_roundtrip [where fl = "[]" and fresh = "[0, 0, 0]"])
     (simp_all add: pool_ok_def mal_lowest_ok pool_room_def)

text \<open>
  C20. Streams do not disturb each other: writing bytes to one stream leaves the fragments, and so the contents, of every other stream
  as they were, and the other stream remains a correct stream in encoding mode.
\<close>

theorem ms_streams_disjoint:
  assumes "enc_state (g, x) fl ps" "writing g y qs" "set qs \<inter> (set ps \<union> set fl) = {}"
    and "length bs \<le> ms_room (g, x)" "mal_ok mal"
  shows "\<exists>g' x'. ms_putbytes mal bs (g, x) = Some (True, bs, g', x') \<and> ms_written (g', x') = ms_written (g, x) @ bs \<and>
    writing g' y qs \<and> ms_written (g', y) = ms_written (g, y)"
proof -
  obtain s' fl' ps' where s: "ms_putbytes_loop mal bs (g, x) = Some (True, s')" "ms_written s' = ms_written (g, x) @ bs"
      "others_kept g (set ps \<union> set fl) (fst s') (set ps' \<union> set fl')"
    using putbytes_spec [OF assms(1,4,5)] by auto
  obtain g' x' where s': "s' = (g', x')" by force
  have kept: "heap g' q = heap g q" if "q \<in> set qs" for q
    using s(3) s' assms(2,3) that by (auto simp: others_kept_def writing_def dest!: blocksD)
  have buf: "buf_size g' = buf_size g" using s(3) s' by (simp add: others_kept_def)
  have "seg (heap g') (first_frag y) qs 0 = seg (heap g) (first_frag y) qs 0" by (rule seg_frame) (rule kept)
  moreover have "blocks g' (set qs)"
    by (rule blocks_frame [of g]) (use assms(2) kept buf in \<open>auto simp: writing_def\<close>)
  ultimately have w: "writing g' y qs" using assms(2) buf kept by (auto simp: writing_def)
  have wr: "ms_written (h, y) = content (heap h) qs (off y)" if "writing h y qs" for h
    using that by (auto simp: writing_def ms_written_def frag_ptrs_seg)
  have "qs \<noteq> []" using w by (simp add: writing_def)
  moreover have b: "bytes_of (heap g') q = bytes_of (heap g) q" if "q \<in> set qs" for q
    using kept [OF that] by (simp add: bytes_of_def)
  moreover have "map (bytes_of (heap g')) (butlast qs) = map (bytes_of (heap g)) (butlast qs)"
    using b by (auto dest: in_set_butlastD)
  ultimately have "content (heap g') qs (off y) = content (heap g) qs (off y)"
    unfolding content_def by (metis last_in_set)
  then show ?thesis using s s' w wr [OF w] wr [OF assms(2)] by (simp add: ms_putbytes_def)
qed

text \<open>Two streams with one fragment each.\<close>

definition two_frags :: msglob where
  "two_frags = \<lparr>heap = [1 \<mapsto> \<lparr>nxt = 0, used = 8, fdata = replicate 8 0\<rparr>, 2 \<mapsto> \<lparr>nxt = 0, used = 8, fdata = replicate 8 7\<rparr>],
     buf_size = 8, free_list = 0, fragment_count = 2, free_fragment_count = 0, fragment_quota = 9,
     fragment_watermark = 0, free_percentage = 50\<rparr>"

definition on_frag :: "nat \<Rightarrow> nat \<Rightarrow> memstream" where
  "on_frag p k = \<lparr>ms_op = XDR_ENCODE, ptr = p, off = k, handy = 8 - of_nat k, first_frag = p, current = p,
     info_count = 1, info_length = 0\<rparr>"

lemma two_frags_states:
  "enc_state (two_frags, on_frag 1 4) [] [1]" "writing two_frags (on_frag 2 4) [2]" "ms_room (two_frags, on_frag 1 4) = 60"
  by (simp_all add: two_frags_def on_frag_def enc_state_def pool_ok_def writing_def ms_room_def blocks_def)

theorem ms_streams_disjoint_witness:
  "\<exists>g' x'. ms_putbytes mal_lowest (replicate 10 5) (two_frags, on_frag 1 4) = Some (True, replicate 10 5, g', x') \<and>
    ms_written (g', x') = ms_written (two_frags, on_frag 1 4) @ replicate 10 5 \<and>
    writing g' (on_frag 2 4) [2] \<and> ms_written (g', on_frag 2 4) = ms_written (two_frags, on_frag 2 4)"
  by (rule ms_streams_disjoint [OF two_frags_states(1,2) _ _ mal_lowest_ok]) (simp_all add: two_frags_states(3) [simplified])

subsection \<open>Transfers\<close>

lemma transfer_count_small: "unat h < 2 ^ 31 \<Longrightarrow> transfer_count m h = Some (min m (unat h))"
  by (simp add: transfer_count_def sint_positive)

text \<open>In a stream being written, no more than a whole fragment is left.\<close>

lemma handy_le: "enc_state s fl ps \<Longrightarrow> unat (handy (snd s)) \<le> unat (buf_size (fst s))"
  by (simp add: enc_state_def writing_def)

text \<open>
  In a stream being read the bytes left in a fragment are part of what is left of the stream, and of the fragment. \<open>int_sized\<close>: one of
  them is less than \<open>2 ^ 31\<close>.
\<close>

definition int_sized :: "mss \<Rightarrow> bool" where
  "int_sized s \<longleftrightarrow> length (ms_rest s) < 2 ^ 31 \<or> (\<forall>p f. heap (fst s) p = Some f \<longrightarrow> length (fdata f) < 2 ^ 31)"

lemma int_sized_handy:
  assumes "reading s qs" "int_sized s"
  shows "unat (handy (snd s)) < 2 ^ 31"
proof -
  obtain g x where s: "s = (g, x)" by force
  obtain f where f: "heap g (current x) = Some f" "off x + unat (handy x) \<le> length (fdata f)"
    using assms(1) s by (auto simp: reading_def)
  have "unat (handy x) \<le> length (ms_rest s)" using f by (simp add: s ms_rest_def bytes_of_def)
  then show ?thesis using assms(2) f s by (fastforce simp: int_sized_def)
qed

lemma int_sized_mono: "int_sized s \<Longrightarrow> fst t = fst s \<Longrightarrow> length (ms_rest t) \<le> length (ms_rest s) \<Longrightarrow> int_sized t"
  by (auto simp: int_sized_def)

text \<open>
  What \<open>write\<close> does to a connection on which \<open>sent n\<close> has been sent: it takes some of the bytes it is given, from the
  beginning, or fails.
\<close>

definition write_ok :: "(byte list \<Rightarrow> 'n \<Rightarrow> (errno + nat) \<times> 'n) \<Rightarrow> ('n \<Rightarrow> byte list) \<Rightarrow> bool" where
  "write_ok wr sent \<longleftrightarrow> (\<forall>b n. case wr b n of
     (Inl _, n') \<Rightarrow> sent n' = sent n
   | (Inr w, n') \<Rightarrow> w \<le> length b \<and> sent n' = sent n @ take w b)"

text \<open>The results of \<open>write\<close> that are an error for the stream, and those that are progress.\<close>

definition refused :: "(errno + nat) \<times> 'n \<Rightarrow> bool" where
  "refused r \<longleftrightarrow> (case fst r of Inl e \<Rightarrow> \<not> transient e | Inr w \<Rightarrow> w = 0)"

definition accepted :: "(errno + nat) \<times> 'n \<Rightarrow> bool" where
  "accepted r \<longleftrightarrow> (case fst r of Inl _ \<Rightarrow> False | Inr w \<Rightarrow> w \<noteq> 0)"

lemma write_loop_spec:
  assumes w: "write_ok wr sent" and "reading s qs" "m \<le> length (ms_rest s)" "int_sized s"
  shows "\<exists>ok e m' n' s'. write_loop wr m n s = Some (ok, e, m', n', s') \<and> ms_rgood s' \<and> m' \<le> m \<and>
    sent n' = sent n @ take (m - m') (ms_rest s) \<and> ms_rest s' = drop (m - m') (ms_rest s) \<and> ms_op (snd s') = ms_op (snd s) \<and>
    fst s' = fst s \<and> first_frag (snd s') = first_frag (snd s) \<and> (ok \<or> (\<exists>b n1. b \<noteq> [] \<and> refused (wr b n1))) \<and>
    (m' = m \<and> m \<noteq> 0 \<longrightarrow> (\<exists>b. b \<noteq> [] \<and> \<not> accepted (wr b n)))"
  using assms(2-4)
proof (induction m arbitrary: n s qs rule: less_induct)
  case (less m)
  show ?case
  proof (cases "m = 0")
    case True
    then show ?thesis using less.prems by (auto simp: write_loop.simps ms_rgood_def)
  next
    case False
    then obtain t qs' where t: "refill_get s = Some (True, t)" "reading t qs'" "ms_rest t = ms_rest s" "handy (snd t) \<noteq> 0"
      using refill_get_spec [OF less.prems(1)] less.prems(2) by fastforce
    have opt: "ms_op (snd t) = ms_op (snd s)" "fst t = fst s" "first_frag (snd t) = first_frag (snd s)"
      using t(1) by (auto simp: refill_get_def advance_def split: if_splits prod.splits option.splits simp: bind_eq_Some_conv)
    let ?c = "min m (unat (handy (snd t)))"
    have c0: "0 < ?c" using t(4) False by (auto simp: unat_gt_0)
    have st: "int_sized t" by (rule int_sized_mono [OF less.prems(3) opt(2)]) (simp add: t(3))
    have tc: "transfer_count m (handy (snd t)) = Some ?c" by (rule transfer_count_small [OF int_sized_handy [OF t(2) st]])
    obtain b where b: "frag_read ?c t = Some b" "length b = ?c"
      using frag_read_spec [OF t(2), of ?c] by auto
    have b0: "b \<noteq> []" using c0 b(2) by auto
    consider (err) e n' where "wr b n = (Inl e, n')" | (none) n' where "wr b n = (Inr 0, n')"
      | (some) k n' where "wr b n = (Inr k, n')" "k \<noteq> 0" by (metis surj_pair sum.exhaust)
    then show ?thesis
    proof cases
      case err
      then have "sent n' = sent n" using w [unfolded write_ok_def, rule_format, where b = b and n = n] by simp
      moreover have "write_loop wr m n s = Some (transient e, Some e, m, n', t)"
        using t(1) tc b(1) err False by (simp add: write_loop.simps [of wr m n s] Let_def)
      moreover have "refused (wr b n) = (\<not> transient e)" "\<not> accepted (wr b n)" using err by (simp_all add: refused_def accepted_def)
      then have "transient e \<or> (\<exists>b n1. b \<noteq> [] \<and> refused (wr b n1))" "\<exists>b. b \<noteq> [] \<and> \<not> accepted (wr b n)" using b0 by blast+
      ultimately show ?thesis using t(2,3) opt unfolding ms_rgood_def
        by (intro exI [of _ "transient e"] exI [of _ "Some e"] exI [of _ m] exI [of _ n'] exI [of _ t]) (simp, blast)
    next
      case none
      then have "sent n' = sent n" using w [unfolded write_ok_def, rule_format, where b = b and n = n] by simp
      moreover have "write_loop wr m n s = Some (False, Some EPIPE, m, n', t)"
        using t(1) tc b(1) none False by (simp add: write_loop.simps [of wr m n s] Let_def)
      moreover have "refused (wr b n)" "\<not> accepted (wr b n)" using none by (simp_all add: refused_def accepted_def)
      then have "\<exists>b n1. b \<noteq> [] \<and> refused (wr b n1)" "\<exists>b. b \<noteq> [] \<and> \<not> accepted (wr b n)" using b0 by blast+
      ultimately show ?thesis using t(2,3) opt unfolding ms_rgood_def
        by (intro exI [of _ False] exI [of _ "Some EPIPE"] exI [of _ m] exI [of _ n'] exI [of _ t]) (simp, blast)
    next
      case some
      then have k: "k \<le> ?c" "sent n' = sent n @ take k b"
        using w [unfolded write_ok_def, rule_format, where b = b and n = n] b(2) by simp_all
      from frag_read_spec [OF t(2), of k] k obtain b' where b': "length b' = k" "ms_rest t = b' @ ms_rest (step k t)"
        "reading (step k t) qs'" by auto
      have "b = take ?c (ms_rest s)"
        using frag_read_spec [OF t(2), of ?c] b t(3) by auto
      then have bk: "take k b = take k (ms_rest s)" "ms_rest (step k t) = drop k (ms_rest s)"
        using k b' t(3) by (auto simp: min_def) 
      have opk: "ms_op (snd (step k t)) = ms_op (snd s)" "fst (step k t) = fst s" "first_frag (snd (step k t)) = first_frag (snd s)"
        using opt by (cases t; simp add: step_def)+
      have mk: "m - k < m" using some(2) \<open>m \<noteq> 0\<close> by simp
      show ?thesis
      proof (cases "?c = k")
        case False
        then have "write_loop wr m n s = Some (True, None, m - k, n', step k t)"
          using t(1) tc b(1) some \<open>m \<noteq> 0\<close> by (simp add: write_loop.simps [of wr m n s] Let_def)
        moreover have "m - (m - k) = k" using k(1) by simp
        ultimately show ?thesis using k bk b' opk mk by (auto simp: ms_rgood_def)
      next
        case True
        have "m - k < m" "m - k \<le> length (ms_rest (step k t))" using some(2) k(1) bk(2) \<open>m \<noteq> 0\<close> less.prems(2) by auto
        have sk: "int_sized (step k t)" by (rule int_sized_mono [OF st]) (use opk(2) opt(2) bk(2) t(3) in simp_all)
        from less.IH [OF \<open>m - k < m\<close> b'(3) \<open>m - k \<le> length (ms_rest (step k t))\<close> this, of n'] obtain ok e m' n'' u where
          u: "write_loop wr (m - k) n' (step k t) = Some (ok, e, m', n'', u)" "ms_rgood u" "m' \<le> m - k"
            "sent n'' = sent n' @ take (m - k - m') (ms_rest (step k t))" "ms_rest u = drop (m - k - m') (ms_rest (step k t))"
            "ms_op (snd u) = ms_op (snd (step k t))" "fst u = fst (step k t)" "first_frag (snd u) = first_frag (snd (step k t))"
            "ok \<or> (\<exists>b n1. b \<noteq> [] \<and> refused (wr b n1))"
          by blast
        have "write_loop wr m n s = Some (ok, e, m', n'', u)"
          using t(1) tc b(1) some True \<open>m \<noteq> 0\<close> u(1) by (simp add: write_loop.simps [of wr m n s] Let_def)
        moreover have mm: "m - m' = k + (m - k - m')" "m' \<le> m" using u(3) k(1) by auto
        moreover have "sent n'' = sent n @ take (m - m') (ms_rest s)"
          unfolding mm(1) using u(4) k(2) bk by (simp only: take_add append_assoc)
        moreover have "ms_rest u = drop (m - m') (ms_rest s)"
          unfolding mm(1) using u(5) bk(2) by (simp only: drop_drop add.commute)
        moreover have "ms_op (snd u) = ms_op (snd s) \<and> fst u = fst s \<and> first_frag (snd u) = first_frag (snd s)"
          using u(6-8) opk by simp
        moreover have "m' \<noteq> m" using u(3) mk by simp
        ultimately show ?thesis using u(2,9) by blast
      qed
    qed
  qed
qed

text \<open>
  C19. Writing a stream to a socket always returns, however the socket splits or refuses the data. What has been sent is the next part
  of the contents, exactly as long as \<open>*max\<close> has been lowered, and the stream stands behind it: a later call goes on where this
  one stopped. The sizes are assumed to fit the variables of type \<open>int\<close> which the code keeps them in: \<open>*max\<close>, and what is left in
  a fragment (\<open>int_sized\<close>: the rest of the stream, or each fragment, is shorter than \<open>2 ^ 31\<close> bytes).
\<close>

theorem write_to_fd_resumes:
  assumes "write_ok wr sent" "ms_rgood s" "ms_op (snd s) = XDR_DECODE" "m \<le> length (ms_rest s)" "m < 2 ^ 31" "int_sized s"
  shows "\<exists>ok e m' n' s'. write_to_fd wr m n s = Some (ok, e, m', n', s') \<and> m' \<le> m \<and> ms_rgood s' \<and> ms_op (snd s') = XDR_DECODE \<and>
    sent n' = sent n @ take (m - m') (ms_rest s) \<and> ms_rest s' = drop (m - m') (ms_rest s)"
proof -
  obtain qs where "reading s qs" using assms(2) by (auto simp: ms_rgood_def)
  from write_loop_spec [OF assms(1) this assms(4,6), of n] show ?thesis
    using assms(3) by (auto simp: write_to_fd_def)
qed

theorem write_to_fd_resumes_witness:
  "\<exists>ok e m' n' s'. write_to_fd (\<lambda>b n. (Inr (min 3 (length b)), n @ take 3 b)) 8 [] (two_frags, (on_frag 2 0)\<lparr>ms_op := XDR_DECODE\<rparr>) = Some (ok, e, m', n', s') \<and>
    m' \<le> 8 \<and> ms_rgood s' \<and> ms_op (snd s') = XDR_DECODE \<and>
    id n' = id [] @ take (8 - m') (ms_rest (two_frags, (on_frag 2 0)\<lparr>ms_op := XDR_DECODE\<rparr>)) \<and>
    ms_rest s' = drop (8 - m') (ms_rest (two_frags, (on_frag 2 0)\<lparr>ms_op := XDR_DECODE\<rparr>))"
proof (rule write_to_fd_resumes)
  have "reading (two_frags, (on_frag 2 0)\<lparr>ms_op := XDR_DECODE\<rparr>) []" by (simp add: reading_def two_frags_def on_frag_def)
  then show "ms_rgood (two_frags, (on_frag 2 0)\<lparr>ms_op := XDR_DECODE\<rparr>)" by (auto simp: ms_rgood_def)
  show "8 \<le> length (ms_rest (two_frags, (on_frag 2 0)\<lparr>ms_op := XDR_DECODE\<rparr>))"
    by (simp add: ms_rest_def two_frags_def on_frag_def bytes_of_def)
  show "int_sized (two_frags, (on_frag 2 0)\<lparr>ms_op := XDR_DECODE\<rparr>)"
    by (simp add: int_sized_def ms_rest_def two_frags_def on_frag_def bytes_of_def)
qed (simp_all add: write_ok_def min_def)

text \<open>What \<open>read\<close> does to a connection on which the bytes \<open>pend n\<close> are waiting.\<close>

definition read_ok :: "(nat \<Rightarrow> 'n \<Rightarrow> (errno + byte list) \<times> 'n) \<Rightarrow> ('n \<Rightarrow> byte list) \<Rightarrow> bool" where
  "read_ok rd pend \<longleftrightarrow> (\<forall>k n. case rd k n of
     (Inl _, n') \<Rightarrow> pend n' = pend n
   | (Inr b, n') \<Rightarrow> length b \<le> k \<and> pend n = b @ pend n')"

lemma read_okD:
  assumes "read_ok rd pend"
  shows "rd k n = (Inl e, n') \<Longrightarrow> pend n' = pend n"
    and "rd k n = (Inr b, n') \<Longrightarrow> length b \<le> k \<and> pend n = b @ pend n'"
  using assms [unfolded read_ok_def, rule_format, where k = k and n = n] by simp_all

lemma read_loop_spec:
  assumes r: "read_ok rd pend" and m: "mal_ok mal" and "ms_good s" "m \<le> ms_room s" "unat (buf_size (fst s)) < 2 ^ 31"
  shows "\<exists>ok e m' n' s' b. read_loop mal rd m n s = Some (ok, e, m', n', s') \<and> ms_good s' \<and> m' + length b = m \<and>
    pend n = b @ pend n' \<and> ms_written s' = ms_written s @ b \<and> ms_room s \<le> ms_room s' + length b \<and>
    buf_size (fst s') = buf_size (fst s) \<and>
    (ok \<or> (\<exists>k n1 n2. 0 < k \<and> (rd k n1 = (Inr [], n2) \<or> (\<exists>e. rd k n1 = (Inl e, n2) \<and> \<not> transient e)))) \<and> (\<not> ok \<longrightarrow> e \<noteq> Some ENOMEM \<or> (\<exists>k n1 n2. rd k n1 = (Inl ENOMEM, n2)))"
  using assms(3-5)
proof (induction m arbitrary: n s rule: less_induct)
  case (less m)
  show ?case
  proof (cases "m = 0")
    case True
    then show ?thesis using less.prems by (auto simp: read_loop.simps [of mal rd 0])
  next
    case False
    obtain fl ps where "enc_state s fl ps" using less.prems(1) by (auto simp: ms_good_def)
    then obtain t fl' ps' where t: "refill_put mal s = Some (True, t)" "enc_state t fl' ps'" "ms_room s \<le> ms_room t"
        "ms_written t = ms_written s" "0 < unat (handy (snd t))" "buf_size (fst t) = buf_size (fst s)"
      using refill_put_spec [OF _ _ m] less.prems(2) False unfolding others_kept_def by (metis gr0I le_zero_eq)
    let ?c = "min m (unat (handy (snd t)))"
    have c0: "0 < ?c" using t(5) False by simp
    have tc: "transfer_count m (handy (snd t)) = Some ?c"
      by (rule transfer_count_small) (use handy_le [OF t(2)] t(6) less.prems(3) in simp)
    have good: "ms_good t" using t(2) by (auto simp: ms_good_def)
    consider (err) e n' where "rd ?c n = (Inl e, n')" | (none) n' where "rd ?c n = (Inr [], n')"
      | (some) b n' where "rd ?c n = (Inr b, n')" "b \<noteq> []" by (metis surj_pair sum.exhaust)
    then show ?thesis
    proof cases
      case err
      then have "read_loop mal rd m n s = Some (transient e, Some e, m, n', t)"
        using t(1) tc False by (simp add: read_loop.simps [of mal rd m n s] Let_def)
      moreover have "pend n = [] @ pend n'" using read_okD(1) [OF r err] by simp
      moreover have "transient e \<or> (\<exists>k n1 n2. 0 < k \<and> (rd k n1 = (Inr [], n2) \<or> (\<exists>e. rd k n1 = (Inl e, n2) \<and> \<not> transient e)))"
        using err c0 by blast
      moreover have "\<not> transient e \<longrightarrow> Some e \<noteq> Some ENOMEM \<or> (\<exists>k n1 n2. rd k n1 = (Inl ENOMEM, n2))" using err by blast
      ultimately show ?thesis using good t(3,4,6) by (metis add.right_neutral append_Nil2 list.size(3))
    next
      case none
      then have "read_loop mal rd m n s = Some (False, Some EIO, m, n', t)"
        using t(1) tc False by (simp add: read_loop.simps [of mal rd m n s] Let_def)
      moreover have "pend n = [] @ pend n'" using read_okD(2) [OF r none] by simp
      ultimately show ?thesis using good t(3,4,6) none c0 by (metis add.right_neutral append_Nil2 list.size(3) errno.distinct option.inject)
    next
      case some
      have b: "length b \<le> ?c" "pend n = b @ pend n'" using read_okD(2) [OF r some(1)] by auto
      then have "length b \<le> unat (handy (snd t))" by simp
      from frag_write_spec [OF t(2) this] obtain u where u: "frag_write b t = Some u" "enc_state (step (length b) u) fl' ps'"
          "ms_room t = ms_room (step (length b) u) + length b" "ms_written (step (length b) u) = ms_written t @ b"
          "buf_size (fst (step (length b) u)) = buf_size (fst t)"
        by (auto simp: others_kept_def)
      have gu: "ms_good (step (length b) u)" using u(2) by (auto simp: ms_good_def)
      show ?thesis
      proof (cases "?c = length b")
        case False
        then have "read_loop mal rd m n s = Some (True, None, m - length b, n', step (length b) u)"
          using t(1) tc some u(1) \<open>m \<noteq> 0\<close> by (simp add: read_loop.simps [of mal rd m n s] Let_def)
        moreover have "m - length b + length b = m" using b(1) by simp
        ultimately show ?thesis using gu b(2) u(3,4,5) t(3,4,6) by (metis)
      next
        case True
        have le: "m - length b < m" "m - length b \<le> ms_room (step (length b) u)"
          using some(2) \<open>m \<noteq> 0\<close> less.prems(2) t(3) u(3) by auto
        have sz: "unat (buf_size (fst (step (length b) u))) < 2 ^ 31" using less.prems(3) u(5) t(6) by simp
        from less.IH [OF le(1) gu le(2) sz, of n'] obtain ok e m' n'' v d where
          v: "read_loop mal rd (m - length b) n' (step (length b) u) = Some (ok, e, m', n'', v)" "ms_good v"
            "m' + length d = m - length b" "pend n' = d @ pend n''" "ms_written v = ms_written (step (length b) u) @ d"
            "ms_room (step (length b) u) \<le> ms_room v + length d" "buf_size (fst v) = buf_size (fst (step (length b) u))"
            "ok \<or> (\<exists>k n1 n2. 0 < k \<and> (rd k n1 = (Inr [], n2) \<or> (\<exists>e. rd k n1 = (Inl e, n2) \<and> \<not> transient e)))"
            "\<not> ok \<longrightarrow> e \<noteq> Some ENOMEM \<or> (\<exists>k n1 n2. rd k n1 = (Inl ENOMEM, n2))"
          by blast
        have "read_loop mal rd m n s = Some (ok, e, m', n'', v)"
          using t(1) tc some u(1) True \<open>m \<noteq> 0\<close> v(1) by (simp add: read_loop.simps [of mal rd m n s] Let_def)
        moreover have "m' + length (b @ d) = m" using v(3) b(1) by auto
        moreover have "pend n = (b @ d) @ pend n''" using b(2) v(4) by simp
        moreover have "ms_written v = ms_written s @ (b @ d)" using v(5) u(4) t(4) by simp
        moreover have "ms_room s \<le> ms_room v + length (b @ d)" using v(6) u(3) t(3) by simp
        moreover have "buf_size (fst v) = buf_size (fst s)" using v(7) u(5) t(6) by simp
        ultimately show ?thesis using v(2,8,9) by blast
      qed
    qed
  qed
qed

subsection \<open>Returning fragments\<close>

lemma free_fragment_spec:
  assumes "pool_ok g fl" "heap g p = Some f" "length (fdata f) = unat (buf_size g)" "p \<notin> set fl" "p \<noteq> 0"
  shows "\<exists>g'. free_fragment p g = Some g' \<and> pool_ok g' (p # fl) \<and> (\<forall>q. q \<noteq> p \<longrightarrow> heap g' q = heap g q) \<and>
    buf_size g' = buf_size g \<and> fragment_count g' = fragment_count g \<and> fragment_quota g' = fragment_quota g"
proof -
  let ?h = "(heap g)(p \<mapsto> f\<lparr>nxt := free_list g\<rparr>)"
  let ?g = "g\<lparr>heap := ?h, free_list := p, free_fragment_count := free_fragment_count g + 1\<rparr>"
  have dom: "dom ?h = dom (heap g)" using assms(2) by auto
  have "card (insert p (set fl)) \<le> card (dom (heap g))"
    using assms by (intro card_mono) (auto simp: pool_ok_def dest: blocks_dom)
  then have "Suc (length fl) \<le> unat (fragment_count g)" using assms by (simp add: pool_ok_def distinct_card)
  then have "unat (free_fragment_count g + 1) = Suc (length fl)"
    using assms(1) unat_u32_less [of "fragment_count g"] by (simp add: pool_ok_def unat_word_ariths)
  moreover have "seg ?h (free_list g) fl 0"
    using assms by (simp add: pool_ok_def)
  moreover have "blocks ?g (set fl)"
    by (rule blocks_frame [of g]) (use assms in \<open>auto simp: pool_ok_def\<close>)
  ultimately have "pool_ok ?g (p # fl)" using assms dom by (simp add: pool_ok_def)
  moreover have "free_fragment p g = Some ?g" using assms by (simp add: free_fragment_def)
  ultimately show ?thesis by auto
qed

lemma free_chain_spec:
  assumes "pool_ok g fl" "seg (heap g) p ps 0" "distinct ps" "set ps \<inter> set fl = {}" "blocks g (set ps)"
  shows "\<exists>g'. free_chain p g = Some g' \<and> pool_ok g' (rev ps @ fl) \<and> (\<forall>q. q \<notin> set ps \<longrightarrow> heap g' q = heap g q) \<and>
    buf_size g' = buf_size g \<and> fragment_count g' = fragment_count g \<and> fragment_quota g' = fragment_quota g"
  using assms
proof (induction ps arbitrary: p g fl)
  case Nil
  then show ?case by (simp add: free_chain.simps [of 0])
next
  case (Cons a ps)
  then obtain f where f: "p = a" "a \<noteq> 0" "heap g a = Some f" "length (fdata f) = unat (buf_size g)" "seg (heap g) (nxt f) ps 0"
    by auto
  obtain h where h: "free_fragment a g = Some h" "pool_ok h (a # fl)" "\<forall>q. q \<noteq> a \<longrightarrow> heap h q = heap g q"
      "buf_size h = buf_size g" "fragment_count h = fragment_count g" "fragment_quota h = fragment_quota g"
    using free_fragment_spec [OF Cons.prems(1) f(3,4) _ f(2)] Cons.prems by auto
  have "seg (heap h) (nxt f) ps 0"
    using f(5) h(3) Cons.prems(3) by (subst seg_frame [where h = "heap g"]) auto
  moreover have "blocks h (set ps)"
    by (rule blocks_frame [of g]) (use Cons.prems h in auto)
  ultimately obtain g' where "free_chain (nxt f) h = Some g'" "pool_ok g' (rev ps @ a # fl)"
      "\<forall>q. q \<notin> set ps \<longrightarrow> heap g' q = heap h q" "buf_size g' = buf_size h" "fragment_count g' = fragment_count h"
      "fragment_quota g' = fragment_quota h"
    using Cons.IH [OF h(2), of "nxt f"] Cons.prems by auto
  then show ?case using f h by (auto simp: free_chain.simps [of a])
qed

text \<open>
  C21. Destroying a stream returns each of its fragments to the pool, whatever the stream was last used for, and touches no
  other fragment: nothing is lost, nothing is freed twice.
\<close>

theorem ms_destroy_returns:
  assumes "pool_ok g fl" "seg (heap g) (first_frag x) ps 0" "distinct ps" "set ps \<inter> set fl = {}" "blocks g (set ps)"
  shows "\<exists>g'. ms_destroy (g, x) = Some g' \<and> pool_ok g' (rev ps @ fl) \<and> pool_room g' = pool_room g + length ps \<and>
    (\<forall>q. q \<notin> set ps \<longrightarrow> heap g' q = heap g q)"
  using free_chain_spec [OF assms] assms(1) by (auto simp: ms_destroy_def pool_room_def pool_ok_def)

theorem ms_destroy_returns_witness:
  "\<exists>g'. ms_destroy (two_frags, on_frag 1 4) = Some g' \<and> pool_ok g' (rev [1] @ []) \<and> pool_room g' = pool_room two_frags + length [1 :: nat] \<and>
    (\<forall>q. q \<notin> set [1] \<longrightarrow> heap g' q = heap two_frags q)"
  by (rule ms_destroy_returns) (simp_all add: two_frags_def on_frag_def pool_ok_def blocks_def)

lemma clear_spec:
  assumes "pool_ok g fl" "seg (heap g) (first_frag x) (p # ps) 0" "distinct (p # ps)" "set (p # ps) \<inter> set fl = {}"
    and "blocks g (set (p # ps))"
  shows "\<exists>g' x'. ms_clear (g, x) = Some (g', x') \<and> enc_state (g', x') (rev ps @ fl) [p] \<and> ms_written (g', x') = [] \<and>
    ms_room (g', x') = unat (buf_size g) * (pool_room g + Suc (length ps)) \<and> buf_size g' = buf_size g"
proof -
  obtain f where f: "heap g p = Some f" "first_frag x = p" "p \<noteq> 0" "length (fdata f) = unat (buf_size g)" "seg (heap g) (nxt f) ps 0"
    using assms(2,5) by auto
  let ?h = "(heap g)(p \<mapsto> f\<lparr>used := buf_size g\<rparr>)"
  let ?x = "x\<lparr>current := p, ms_op := XDR_ENCODE, ptr := p, off := 0, handy := buf_size g, info_count := 1\<rparr>"
  have pool: "pool_ok (g\<lparr>heap := ?h\<rparr>) fl"
    by (rule pool_frame [OF assms(1)]) (use f assms(4) in auto)
  have "seg ?h (nxt f) ps 0" using f(5) assms(3) by simp
  moreover have "blocks (g\<lparr>heap := ?h\<rparr>) (set ps)"
    by (rule blocks_frame [of g]) (use assms(3,5) in auto)
  ultimately obtain g' where g': "free_chain (nxt f) (g\<lparr>heap := ?h\<rparr>) = Some g'" "pool_ok g' (rev ps @ fl)"
      "\<forall>q. q \<notin> set ps \<longrightarrow> heap g' q = ?h q" "buf_size g' = buf_size g" "fragment_count g' = fragment_count g"
      "fragment_quota g' = fragment_quota g"
    using free_chain_spec [OF pool, of "nxt f" ps] assms(3,4) by auto
  have hp: "heap g' p = Some (f\<lparr>used := buf_size g\<rparr>)" using g'(3) assms(3) by simp
  let ?k = "(heap g')(p \<mapsto> f\<lparr>used := buf_size g, nxt := 0\<rparr>)"
  have pool': "pool_ok (g'\<lparr>heap := ?k\<rparr>) (rev ps @ fl)"
    by (rule pool_frame [OF g'(2)]) (use hp assms(3,4) in auto)
  have "enc_state (g'\<lparr>heap := ?k\<rparr>, ?x) (rev ps @ fl) [p]"
    using pool' f g' assms(3,4) by (auto simp: enc_state_def writing_def)
  moreover from written_content [OF this] have "ms_written (g'\<lparr>heap := ?k\<rparr>, ?x) = []" by (simp add: content_def)
  moreover have "ms_clear (g, x) = Some (g'\<lparr>heap := ?k\<rparr>, ?x)"
    using f g'(1) hp by (simp add: ms_clear_def)
  moreover have "ms_room (g'\<lparr>heap := ?k\<rparr>, ?x) = unat (buf_size g) * (pool_room g + Suc (length ps))"
    using g' assms(1) by (simp add: ms_room_def pool_room_def pool_ok_def algebra_simps)
  moreover have "buf_size (g'\<lparr>heap := ?k\<rparr>) = buf_size g" using g'(4) by simp
  ultimately show ?thesis by blast
qed

text \<open>
  Clearing a stream keeps its first fragment and returns the others to the pool; the stream is then empty and ready to be
  written, and everything can be written to it that could be written to a new one.
\<close>

theorem ms_clear_empties:
  assumes "pool_ok g fl" "seg (heap g) (first_frag x) (p # ps) 0" "distinct (p # ps)" "set (p # ps) \<inter> set fl = {}"
    and "blocks g (set (p # ps))"
  shows "\<exists>g' x'. ms_clear (g, x) = Some (g', x') \<and> enc_state (g', x') (rev ps @ fl) [p] \<and> ms_written (g', x') = [] \<and>
    ms_room (g', x') = unat (buf_size g) * (pool_room g + Suc (length ps))"
  using clear_spec [OF assms] by blast

theorem ms_clear_empties_witness:
  "\<exists>g' x'. ms_clear (two_frags, (on_frag 1 4)\<lparr>ms_op := XDR_DECODE\<rparr>) = Some (g', x') \<and> enc_state (g', x') (rev [] @ []) [1] \<and>
    ms_written (g', x') = [] \<and> ms_room (g', x') = unat (buf_size two_frags) * (pool_room two_frags + Suc (length ([] :: nat list)))"
  by (rule ms_clear_empties) (simp_all add: two_frags_def on_frag_def pool_ok_def blocks_def)

text \<open>
  A stream that owns its fragments, whatever it was last used for, and the number of bytes it could hold if it were cleared.
\<close>

definition chain :: "mss \<Rightarrow> nat \<Rightarrow> bool" where
  "chain s r \<longleftrightarrow> (case s of (g, x) \<Rightarrow>
     \<exists>fl p ps. pool_ok g fl \<and> seg (heap g) (first_frag x) (p # ps) 0 \<and> distinct (p # ps) \<and> set (p # ps) \<inter> set fl = {} \<and>
       blocks g (set (p # ps)) \<and> r = unat (buf_size g) * (pool_room g + Suc (length ps)))"

lemma enc_chain:
  assumes e: "enc_state (g, x) fl ps"
  shows "chain (g, x) (length (ms_written (g, x)) + ms_room (g, x))"
    and "length (ms_written (g, x)) + ms_room (g, x) = unat (buf_size g) * (pool_room g + length ps)"
proof -
  obtain p qs where ps: "ps = p # qs" using e by (cases ps) (auto simp: enc_state_def writing_def)
  have "\<forall>p\<in>set ps. length (bytes_of (heap g) p) = unat (buf_size g)"
    using e by (auto simp: enc_state_def writing_def bytes_of_def dest: blocksD)
  moreover have o: "ps \<noteq> []" "off x + unat (handy x) = unat (buf_size g)" using e by (auto simp: enc_state_def writing_def)
  moreover have "\<forall>p\<in>set (butlast ps). p \<in> set ps" by (auto dest: in_set_butlastD)
  ultimately have n: "length (ms_written (g, x)) = length (butlast ps) * unat (buf_size g) + off x"
    unfolding written_content [OF e] by (simp add: content_def length_concat comp_def sum_list_triv cong: map_cong)
  show r: "length (ms_written (g, x)) + ms_room (g, x) = unat (buf_size g) * (pool_room g + length ps)"
    unfolding n ms_room_def pool_room_def using o ps by (simp add: algebra_simps)
  have "pool_ok g fl \<and> seg (heap g) (first_frag x) ps 0 \<and> distinct ps \<and> set ps \<inter> set fl = {} \<and> blocks g (set ps)"
    using e by (auto simp: enc_state_def writing_def)
  then show "chain (g, x) (length (ms_written (g, x)) + ms_room (g, x))"
    unfolding r ps chain_def prod.case by (intro exI [of _ fl] exI [of _ p] exI [of _ qs]) simp
qed

lemma rewound_chain:
  assumes "rewound (g, x) fl ps"
  shows "chain (g, x) (unat (buf_size g) * (pool_room g + length ps))"
proof -
  obtain p qs where ps: "ps = p # qs" using assms by (cases ps) (auto simp: rewound_def)
  have "pool_ok g fl \<and> seg (heap g) (first_frag x) ps 0 \<and> distinct ps \<and> set ps \<inter> set fl = {} \<and> blocks g (set ps)"
    using assms by (auto simp: rewound_def)
  then show ?thesis
    unfolding ps chain_def prod.case by (intro exI [of _ fl] exI [of _ p] exI [of _ qs]) simp
qed

lemma chain_frozen: "chain s r \<Longrightarrow> fst s' = fst s \<Longrightarrow> first_frag (snd s') = first_frag (snd s) \<Longrightarrow> chain s' r"
  by (cases s; cases s') (simp add: chain_def)

lemma clear_chain:
  assumes "chain (g, x) r"
  shows "\<exists>g' x'. ms_clear (g, x) = Some (g', x') \<and> good_sized (buf_size g) (g', x') \<and> ms_written (g', x') = [] \<and> ms_room (g', x') = r"
proof -
  obtain fl p ps where c: "pool_ok g fl" "seg (heap g) (first_frag x) (p # ps) 0" "distinct (p # ps)" "set (p # ps) \<inter> set fl = {}"
      "blocks g (set (p # ps))" "r = unat (buf_size g) * (pool_room g + Suc (length ps))"
    using assms unfolding chain_def prod.case by blast
  from clear_spec [OF c(1-5)] show ?thesis using c(6) by (auto simp: good_sized_def ms_good_def)
qed

lemma garbage_loop_spec:
  assumes "pool_ok g fl" "n \<le> length fl"
  shows "\<exists>g'. garbage_loop n g = Some g' \<and> pool_ok g' (drop n fl) \<and> (\<forall>q. q \<notin> set fl \<longrightarrow> heap g' q = heap g q)"
  using assms
proof (induction n arbitrary: g fl)
  case 0
  then show ?case by simp
next
  case (Suc n)
  then obtain p fl' where fl: "fl = p # fl'" by (cases fl) auto
  then obtain f where f: "heap g p = Some f" using Suc.prems by (auto simp: pool_ok_def)
  note pop = pool_pop [OF Suc.prems(1) [unfolded fl] f]
  let ?g = "g\<lparr>heap := (heap g)(p := None), free_list := nxt f,
              free_fragment_count := free_fragment_count g - 1, fragment_count := fragment_count g - 1\<rparr>"
  have fin: "finite (dom (heap g))" "unat (fragment_count g) = card (dom (heap g))" using Suc.prems by (auto simp: pool_ok_def)
  have dom: "dom ((heap g)(p := None)) = dom (heap g) - {p}" by auto
  have pin: "p \<in> dom (heap g)" using f by auto
  then have card: "card (dom (heap g)) = Suc (card (dom (heap g) - {p}))"
    using fin(1) by (metis card_Suc_Diff1)
  then have "(1 :: u32) \<le> fragment_count g" using fin(2) by (simp add: word_le_nat_alt)
  then have "unat (fragment_count g - 1) = card (dom (heap g) - {p})" using fin card by (simp add: unat_sub)
  moreover have "seg ((heap g)(p := None)) (nxt f) fl' 0"
    using pop(3,4) by (subst seg_frame [where h = "heap g"]) (auto simp: pool_ok_def)
  moreover have "blocks ?g (set fl')"
    by (rule blocks_frame [of g]) (use Suc.prems(1) fl pop(3) in \<open>auto simp: pool_ok_def\<close>)
  ultimately have "pool_ok ?g fl'" using pop(4) fin dom by (simp add: pool_ok_def)
  moreover have "n \<le> length fl'" using Suc.prems fl by simp
  ultimately obtain g' where g': "garbage_loop n ?g = Some g'" "pool_ok g' (drop n fl')" "\<forall>q. q \<notin> set fl' \<longrightarrow> heap g' q = heap ?g q"
    using Suc.IH by blast
  then have "garbage_loop (Suc n) g = Some g'" using pop f by simp
  then show ?case using g' fl by auto
qed

lemma garbage_loop_settings:
  "garbage_loop n g = Some g' \<Longrightarrow> free_percentage g' = free_percentage g \<and> fragment_watermark g' = fragment_watermark g"
proof (induction n g rule: garbage_loop.induct)
  case (2 n g)
  then show ?case by (auto simp: bind_eq_Some_conv split: if_splits)
qed simp

lemma freegarbage_spec:
  assumes "pool_ok g fl" "unat (free_percentage g) \<le> 100"
    and "(length fl - unat (fragment_watermark g)) * unat (free_percentage g) < 2 ^ 32"
  shows "\<exists>g' n. ms_freegarbage g = Some g' \<and> pool_ok g' (drop n fl) \<and>
    (if unat (fragment_watermark g) < length fl then 0 < n \<and> n \<le> length fl - unat (fragment_watermark g) else n = 0) \<and>
    (\<forall>q. q \<notin> set fl \<longrightarrow> heap g' q = heap g q) \<and> free_percentage g' = free_percentage g \<and> fragment_watermark g' = fragment_watermark g"
proof (cases "fragment_watermark g < free_fragment_count g")
  case False
  then have "\<not> unat (fragment_watermark g) < length fl" using assms(1) by (simp add: pool_ok_def word_less_nat_alt)
  then show ?thesis using False assms(1) by (intro exI [of _ g] exI [of _ 0]) (simp add: ms_freegarbage_def)
next
  case True
  have len: "unat (free_fragment_count g) = length fl" using assms(1) by (simp add: pool_ok_def)
  let ?w = "unat (fragment_watermark g)" and ?p = "unat (free_percentage g)"
  have lt: "?w < length fl" using True len by (simp add: word_less_nat_alt)
  have d: "unat (free_fragment_count g - fragment_watermark g) = length fl - ?w"
    using True len by (subst unat_sub) auto
  then have m: "unat ((free_fragment_count g - fragment_watermark g) * free_percentage g) = (length fl - ?w) * ?p"
    using assms(3) by (subst unat_mult_lem [THEN iffD1]) auto
  let ?q = "((free_fragment_count g - fragment_watermark g) * free_percentage g) div 100"
  have q: "unat ?q = (length fl - ?w) * ?p div 100" using m by (simp add: unat_div_distrib)
  have "(length fl - ?w) * ?p \<le> (length fl - ?w) * 100" using assms(2) by simp
  then have le: "unat ?q \<le> length fl - ?w" using q by (metis div_le_mono nonzero_mult_div_cancel_right zero_neq_numeral)
  have n: "0 < unat (garbage_count g)" "unat (garbage_count g) \<le> length fl - ?w"
    using le d lt by (auto simp: garbage_count_def Let_def unat_gt_0 [symmetric] simp del: unat_gt_0)
  then have "unat (garbage_count g) \<le> length fl" by linarith
  then obtain g' where "garbage_loop (unat (garbage_count g)) g = Some g'" "pool_ok g' (drop (unat (garbage_count g)) fl)"
      "\<forall>q. q \<notin> set fl \<longrightarrow> heap g' q = heap g q"
    using garbage_loop_spec [OF assms(1)] by blast
  moreover note garbage_loop_settings [OF this(1)]
  ultimately show ?thesis using True n lt by (auto simp: ms_freegarbage_def)
qed

text \<open>A pool that garbage collection can work on, now and later: the numbers it computes with fit in 32 bits.\<close>

definition collectable :: "msglob \<Rightarrow> bool" where
  "collectable g \<longleftrightarrow> (\<exists>fl. pool_ok g fl \<and> unat (free_percentage g) \<le> 100 \<and>
     (length fl - unat (fragment_watermark g)) * unat (free_percentage g) < 2 ^ 32)"

lemma freegarbage_collectable:
  assumes "collectable g"
  obtains g' where "ms_freegarbage g = Some g'" "collectable g'"
proof -
  obtain fl where fl: "pool_ok g fl" "unat (free_percentage g) \<le> 100"
      "(length fl - unat (fragment_watermark g)) * unat (free_percentage g) < 2 ^ 32"
    using assms by (auto simp: collectable_def)
  obtain g' n where g': "ms_freegarbage g = Some g'" "pool_ok g' (drop n fl)" "free_percentage g' = free_percentage g"
      "fragment_watermark g' = fragment_watermark g"
    using freegarbage_spec [OF fl] by blast
  have "(length (drop n fl) - unat (fragment_watermark g)) * unat (free_percentage g) \<le>
      (length fl - unat (fragment_watermark g)) * unat (free_percentage g)" by (intro mult_right_mono) simp_all
  from le_less_trans [OF this fl(3)] have "collectable g'"
    unfolding collectable_def g'(3,4) using g'(2) fl(2) by blast
  with g'(1) show thesis by (rule that)
qed

text \<open>
  C26. One step of garbage collection never fails when the percentage is at most 100 and the product fits in 32 bits: it frees
  fragments of the free list only, at least one when there are more than the watermark allows, and never goes below the watermark. The
  fragments in use are untouched and the accounting stays exact.
\<close>

theorem ms_freegarbage_safe:
  assumes "pool_ok g fl" "unat (free_percentage g) \<le> 100"
    and "(length fl - unat (fragment_watermark g)) * unat (free_percentage g) < 2 ^ 32"
  shows "\<exists>g' n. ms_freegarbage g = Some g' \<and> pool_ok g' (drop n fl) \<and>
    (if unat (fragment_watermark g) < length fl then 0 < n \<and> n \<le> length fl - unat (fragment_watermark g) else n = 0) \<and>
    (\<forall>q. q \<notin> set fl \<longrightarrow> heap g' q = heap g q)"
  using freegarbage_spec [OF assms] by blast

text \<open>A pool with two free fragments.\<close>

definition two_free :: msglob where
  "two_free = two_frags\<lparr>heap := [1 \<mapsto> \<lparr>nxt = 2, used = 8, fdata = replicate 8 0\<rparr>, 2 \<mapsto> \<lparr>nxt = 0, used = 8, fdata = replicate 8 7\<rparr>],
     free_list := 1, free_fragment_count := 2\<rparr>"

theorem ms_freegarbage_safe_witness:
  "\<exists>g' n. ms_freegarbage two_free = Some g' \<and> pool_ok g' (drop n [1, 2]) \<and>
    (if unat (fragment_watermark two_free) < length [1 :: nat, 2] then 0 < n \<and> n \<le> length [1 :: nat, 2] - unat (fragment_watermark two_free) else n = 0) \<and>
    (\<forall>q. q \<notin> set [1, 2] \<longrightarrow> heap g' q = heap two_free q)"
  by (rule ms_freegarbage_safe) (simp_all add: two_free_def two_frags_def pool_ok_def blocks_def)

text \<open>
  The first read behind the end of a stream fails as it should, but it leaves no current fragment, and the next read follows
  the null pointer: it has no result (the comment in \<open>AdvanceToNextFragment\<close> says the next request will fail too).
\<close>

theorem ms_read_past_end:
  assumes "reading s []" "handy (snd s) = 0" "heap (fst s) 0 = None"
  shows "\<exists>s'. ms_getlong s = Some (None, s') \<and> ms_getlong s' = None"
proof -
  obtain g x where s: "s = (g, x)" by force
  obtain f where f: "heap g (current x) = Some f" "nxt f = 0" using assms(1) s by (auto simp: reading_def)
  then have "ms_getlong s = Some (None, g, x\<lparr>current := 0, handy := 0\<rparr>)"
    using assms(2) s by (simp add: ms_getlong_def refill_get_def advance_def)
  then show ?thesis using assms(3) s by (simp add: ms_getlong_def refill_get_def advance_def)
qed

theorem ms_read_past_end_witness:
  "\<exists>s'. ms_getlong (two_frags, (on_frag 2 8)\<lparr>ms_op := XDR_DECODE\<rparr>) = Some (None, s') \<and> ms_getlong s' = None"
  by (rule ms_read_past_end) (simp_all add: reading_def two_frags_def on_frag_def)

lemma describe_loop_tl: "describe_loop h n p desc = Some desc' \<Longrightarrow> tl desc' = tl desc"
proof (induction h n p desc rule: describe_loop.induct)
  case (2 h n p desc)
  then show ?case
    by (cases desc) (auto simp: bind_eq_Some_conv Let_def split: if_splits)
qed simp

text \<open>
  \<open>xdrmemstream_get_fragments\<close> describes at most one fragment: it writes every description over the first one, so the rest of the
  array is returned as it came in.
\<close>

theorem ms_get_fragments_first_only:
  assumes "ms_get_fragments s (Some desc) avail = Some (Some desc', n, len)"
  shows "tl desc' = tl desc"
  using assms by (auto simp: ms_get_fragments_def bind_eq_Some_conv Let_def split: prod.splits dest: describe_loop_tl)

theorem ms_get_fragments_first_only_witness:
  "tl [(2 :: nat, 8 :: u32), (0, 0)] = tl [(0, 0), (0, 0)]"
  by (rule ms_get_fragments_first_only
        [of "(two_free, (on_frag 1 8)\<lparr>info_count := 2\<rparr>)" "[(0, 0), (0, 0)]" "Suc (Suc 0)" "[(2, 8), (0, 0)]" 2 0])
     (simp add: ms_get_fragments_def two_free_def two_frags_def on_frag_def)

end
