(* ===== verification/KsCodec.thy ===== *)
theory KsCodec
  imports XdrFilters PltTime
begin

text \<open>
  How the C++ classes of ACPLT/KS (de)serialize themselves: \<open>xdrEncode\<close> and \<open>xdrDecode\<close> members are sequences of
  calls joined by \<open>&&\<close>. An encoder of an object is \<open>'s coder\<close>, a decoder returns the object it
  built or nothing. \<open>writes\<close> and \<open>reads\<close> are the counterparts of \<open>encodes\<close> and \<open>decodes\<close> for them, and the lemmas
  compose representations along the calls. ks/include/ks/xdr.h, ks/src/string.cpp, ks/src/time.cpp,
  ks/include/ks/array_impl.h and array_builtins.h.
\<close>

type_synonym 's coder = "'s \<Rightarrow> (bool \<times> 's) option"
type_synonym ('s, 'a) decoder = "'s \<Rightarrow> ('a option \<times> 's) option"

text \<open>\<open>a && b\<close> of encoders, and a decoder followed by the rest of the code that uses its object.\<close>

definition and_then :: "'s coder \<Rightarrow> 's coder \<Rightarrow> 's coder" where
  "and_then a b s = do { (ok, s) \<leftarrow> a s; if ok then b s else Some (False, s) }"

definition then_with :: "('s, 'a) decoder \<Rightarrow> ('a \<Rightarrow> ('s, 'b) decoder) \<Rightarrow> ('s, 'b) decoder" where
  "then_with d k s = do { (r, s) \<leftarrow> d s; case r of None \<Rightarrow> Some (None, s) | Some v \<Rightarrow> k v s }"

definition deliver :: "'a \<Rightarrow> ('s, 'a) decoder" where
  "deliver v s = Some (Some v, s)"

text \<open>The wrappers \<open>ks_xdre_\<close> and \<open>ks_xdrd_\<close> around an XDR routine; \<open>old\<close> is what the variable holds before.\<close>

definition ks_xdre :: "('s, 'a) filter \<Rightarrow> 'a \<Rightarrow> 's coder" where
  "ks_xdre f v s = do { (ok, _, s) \<leftarrow> f XDR_ENCODE v s; Some (ok, s) }"

definition ks_xdrd :: "('s, 'a) filter \<Rightarrow> 'a \<Rightarrow> ('s, 'a) decoder" where
  "ks_xdrd f old s = do { (ok, v, s) \<leftarrow> f XDR_DECODE old s; Some (if ok then Some v else None, s) }"

definition ks_xdre_bool :: "'s xdr_ops \<Rightarrow> bool \<Rightarrow> 's coder" where
  "ks_xdre_bool ops p = ks_xdre (xdr_bool ops) (if p then 1 else 0)"

definition ks_xdrd_bool :: "'s xdr_ops \<Rightarrow> ('s, bool) decoder" where
  "ks_xdrd_bool ops s =
     do { (ok, b, s) \<leftarrow> xdr_bool ops XDR_DECODE 0 s; Some (if ok then Some (b \<noteq> 0) else None, s) }"

subsection \<open>What encoders write and decoders read\<close>

definition writes ::
  "('s \<Rightarrow> bool) \<Rightarrow> ('s \<Rightarrow> nat) \<Rightarrow> ('s \<Rightarrow> byte list) \<Rightarrow> 's coder \<Rightarrow> byte list \<Rightarrow> bool" where
  "writes good room written e bs \<longleftrightarrow> encodes good room written (\<lambda>op v s. do { (ok, s) \<leftarrow> e s; Some (ok, v, s) }) () bs"

definition reads ::
  "('s \<Rightarrow> bool) \<Rightarrow> ('s \<Rightarrow> byte list) \<Rightarrow> ('s, 'a) decoder \<Rightarrow> 'a \<Rightarrow> byte list \<Rightarrow> bool" where
  "reads good rest d v bs \<longleftrightarrow>
     decodes good rest (\<lambda>op old s. do { (r, s) \<leftarrow> d s; Some (r \<noteq> None, r, s) }) None (Some v) bs"

lemma writes_alt:
  "writes good room written e bs \<longleftrightarrow> 4 dvd length bs \<and>
     (\<forall>s. good s \<and> 4 dvd length (written s) \<and> length bs \<le> room s \<longrightarrow>
        (\<exists>s'. e s = Some (True, s') \<and> emits good room written s bs s'))"
proof -
  have "do { (ok, s) \<leftarrow> e s; Some (ok, (), s) } = Some (True, (), s') \<longleftrightarrow> e s = Some (True, s')" for s s'
    by (auto simp: bind_eq_Some_conv)
  then show ?thesis unfolding writes_def encodes_def by simp
qed

lemma reads_alt:
  "reads good rest d v bs \<longleftrightarrow> 4 dvd length bs \<and>
     (\<forall>s r. good s \<and> rest s = bs @ r \<and> 4 dvd length r \<longrightarrow> (\<exists>s'. d s = Some (Some v, s') \<and> good s' \<and> rest s' = r))"
  by (auto simp: reads_def decodes_def bind_eq_Some_conv)

lemma writes_unit: "writes good room written e bs \<Longrightarrow> 4 dvd length bs"
  by (simp add: writes_alt)

lemma reads_unit: "reads good rest d v bs \<Longrightarrow> 4 dvd length bs"
  by (simp add: reads_alt)

lemma writes_xdre: "encodes good room written f v bs \<Longrightarrow> writes good room written (ks_xdre f v) bs"
  by (fastforce simp: writes_alt encodes_def ks_xdre_def)

lemma reads_xdrd: "decodes good rest f old v bs \<Longrightarrow> reads good rest (ks_xdrd f old) v bs"
  by (fastforce simp: reads_alt decodes_def ks_xdrd_def)

lemma writes_and:
  assumes a: "writes good room written a bs" and b: "writes good room written b cs"
  shows "writes good room written (and_then a b) (bs @ cs)"
  unfolding writes_alt
proof (intro conjI allI impI)
  show "4 dvd length (bs @ cs)" using writes_unit [OF a] writes_unit [OF b] by simp
  fix s
  assume s: "good s \<and> 4 dvd length (written s) \<and> length (bs @ cs) \<le> room s"
  then obtain t where t: "a s = Some (True, t)" "emits good room written s bs t"
    using a by (auto simp: writes_alt)
  have "good t" "length cs \<le> room t" "4 dvd length (written t)"
    using emits_next [OF t(2), of cs] s writes_unit [OF a] by auto
  then obtain u where "b t = Some (True, u)" "emits good room written t cs u"
    using b by (auto simp: writes_alt)
  with t show "\<exists>u. and_then a b s = Some (True, u) \<and> emits good room written s (bs @ cs) u"
    by (auto simp: and_then_def intro: emits_append)
qed

lemma reads_then:
  assumes d: "reads good rest d v bs" and k: "reads good rest (k v) w cs"
  shows "reads good rest (then_with d k) w (bs @ cs)"
  unfolding reads_alt
proof (intro conjI allI impI)
  show "4 dvd length (bs @ cs)" using reads_unit [OF d] reads_unit [OF k] by simp
  fix s r
  assume s: "good s \<and> rest s = (bs @ cs) @ r \<and> 4 dvd length r"
  then obtain t where t: "d s = Some (Some v, t)" "good t" "rest t = cs @ r"
    using d reads_unit [OF k] unfolding reads_alt by (metis append_assoc dvd_add length_append)
  then obtain u where "k v t = Some (Some w, u)" "good u" "rest u = r"
    using k s unfolding reads_alt by blast
  with t show "\<exists>u. then_with d k s = Some (Some w, u) \<and> good u \<and> rest u = r"
    by (simp add: then_with_def)
qed

lemma reads_deliver: "reads good rest (deliver v) v []"
  by (simp add: reads_alt deliver_def)

text \<open>A last step that only computes.\<close>

lemma reads_map: "reads good rest d v bs \<Longrightarrow> k v = deliver w \<Longrightarrow> reads good rest (then_with d k) w bs"
  using reads_then [of good rest d v bs k w "[]"] reads_deliver [of good rest w] by simp

subsection \<open>Strings, times and arrays\<close>

text \<open>
  Storage: what \<open>new char[n]\<close> returns, whether \<open>new T[n]\<close> succeeds, and whether the representation object of a string
  can be allocated.
\<close>

record alloc_env =
  new_bytes :: "nat \<Rightarrow> byte list option"
  new_array :: "nat \<Rightarrow> bool"
  new_srep :: bool

definition alloc_ok :: "alloc_env \<Rightarrow> bool" where
  "alloc_ok env \<longleftrightarrow> (\<forall>n < 2 ^ 32. \<exists>b. new_bytes env n = Some b \<and> length b = n) \<and> (\<forall>n. new_array env n) \<and> new_srep env"

definition string_encode :: "'s xdr_ops \<Rightarrow> byte list \<Rightarrow> 's coder" where
  "string_encode ops str =
     and_then (ks_xdre (xdr_u_long ops) (of_nat (length str)))
       (\<lambda>s. do { (ok, _, s) \<leftarrow> xdr_opaque ops (of_nat (length str)) XDR_ENCODE str s; Some (ok, s) })"

text \<open>
  \<open>sz + 1\<close> is computed with \<open>u_long\<close>. The string object stores a zero byte at index \<open>sz\<close>.
\<close>

definition string_decode :: "alloc_env \<Rightarrow> 's xdr_ops \<Rightarrow> ('s, byte list) decoder" where
  "string_decode env ops =
     then_with (ks_xdrd (xdr_u_long ops) 0) (\<lambda>sz s.
       case new_bytes env (unat (sz + 1)) of
         None \<Rightarrow> Some (None, s)
       | Some n \<Rightarrow> do { (ok, n, s) \<leftarrow> xdr_opaque ops sz XDR_DECODE n s;
                        if \<not> ok then Some (None, s)
                        else if \<not> new_srep env then Some (None, s)
                        else if length n \<le> unat sz then None
                        else Some (Some (take (unat sz) n), s) })"

text \<open>Times are sent as two unsigned numbers, spans as two signed ones. Only a time is normalised when it is received.\<close>

definition time_encode :: "'s xdr_ops \<Rightarrow> timeval \<Rightarrow> 's coder" where
  "time_encode ops t =
     and_then (ks_xdre (xdr_u_long ops) (word_of_int (tv_sec t))) (ks_xdre (xdr_u_long ops) (word_of_int (tv_usec t)))"

definition time_decode :: "'s xdr_ops \<Rightarrow> ('s, timeval) decoder" where
  "time_decode ops =
     then_with (ks_xdrd (xdr_u_long ops) 0) (\<lambda>sec.
       then_with (ks_xdrd (xdr_u_long ops) 0) (\<lambda>usec.
         deliver (time_normalize \<lparr>tv_sec = sint sec, tv_usec = sint usec\<rparr>)))"

definition span_encode :: "'s xdr_ops \<Rightarrow> timeval \<Rightarrow> 's coder" where
  "span_encode ops t =
     and_then (ks_xdre (xdr_long ops) (word_of_int (tv_sec t))) (ks_xdre (xdr_long ops) (word_of_int (tv_usec t)))"

definition span_decode :: "'s xdr_ops \<Rightarrow> ('s, timeval) decoder" where
  "span_decode ops =
     then_with (ks_xdrd (xdr_long ops) 0) (\<lambda>sec.
       then_with (ks_xdrd (xdr_long ops) 0) (\<lambda>usec. deliver \<lparr>tv_sec = sint sec, tv_usec = sint usec\<rparr>))"

fun encode_elems :: "('a \<Rightarrow> 's coder) \<Rightarrow> 'a list \<Rightarrow> 's coder" where
  "encode_elems e [] s = Some (True, s)"
| "encode_elems e (x # xs) s = do { (ok, s) \<leftarrow> e x s; if ok then encode_elems e xs s else Some (False, s) }"

definition array_encode :: "'s xdr_ops \<Rightarrow> ('a \<Rightarrow> 's coder) \<Rightarrow> 'a list \<Rightarrow> 's coder" where
  "array_encode ops e xs = and_then (ks_xdre (xdr_u_long ops) (of_nat (length xs))) (encode_elems e xs)"

fun decode_elems :: "('s, 'a) decoder \<Rightarrow> nat \<Rightarrow> ('s, 'a list) decoder" where
  "decode_elems d 0 s = Some (Some [], s)"
| "decode_elems d (Suc n) s =
     do { (r, s) \<leftarrow> d s;
          case r of None \<Rightarrow> Some (None, s)
          | Some x \<Rightarrow> do { (q, s) \<leftarrow> decode_elems d n s; Some (map_option ((#) x) q, s) } }"

text \<open>The storage of an array of \<open>old_size\<close> elements is kept when the size fits.\<close>

definition array_decode :: "alloc_env \<Rightarrow> 's xdr_ops \<Rightarrow> ('s, 'a) decoder \<Rightarrow> nat \<Rightarrow> ('s, 'a list) decoder" where
  "array_decode env ops d old_size =
     then_with (ks_xdrd (xdr_u_long ops) 0) (\<lambda>sz s.
       if old_size \<noteq> unat sz \<and> \<not> new_array env (unat sz) then Some (None, s) else decode_elems d (unat sz) s)"

text \<open>Arrays of \<open>char\<close> are opaque data.\<close>

definition bytes_encode :: "'s xdr_ops \<Rightarrow> byte list \<Rightarrow> 's coder" where
  "bytes_encode ops b =
     and_then (ks_xdre (xdr_u_long ops) (of_nat (length b)))
       (\<lambda>s. do { (ok, _, s) \<leftarrow> xdr_opaque ops (of_nat (length b)) XDR_ENCODE b s; Some (ok, s) })"

definition bytes_decode :: "alloc_env \<Rightarrow> 's xdr_ops \<Rightarrow> byte list \<Rightarrow> ('s, byte list) decoder" where
  "bytes_decode env ops old =
     then_with (ks_xdrd (xdr_u_long ops) 0) (\<lambda>sz s.
       case (if length old \<noteq> unat sz then new_bytes env (unat sz) else Some old) of
         None \<Rightarrow> Some (None, s)
       | Some p \<Rightarrow> do { (ok, p, s) \<leftarrow> xdr_opaque ops sz XDR_DECODE p s; Some (if ok then Some p else None, s) })"

subsection \<open>Their representations\<close>

definition bytes_string :: "byte list \<Rightarrow> byte list" where
  "bytes_string str = be32 (of_nat (length str)) @ padded str"

definition bytes_time :: "timeval \<Rightarrow> byte list" where
  "bytes_time t = be32 (word_of_int (tv_sec t)) @ be32 (word_of_int (tv_usec t))"

definition bytes_array :: "('a \<Rightarrow> byte list) \<Rightarrow> 'a list \<Rightarrow> byte list" where
  "bytes_array enc xs = be32 (of_nat (length xs)) @ concat (map enc xs)"

text \<open>Times the 32-bit fields can hold, in canonical form.\<close>

definition time_sendable :: "timeval \<Rightarrow> bool" where
  "time_sendable t \<longleftrightarrow> time_invariant t \<and> - (2 ^ 31) \<le> tv_sec t \<and> tv_sec t < 2 ^ 31"

definition span_sendable :: "timeval \<Rightarrow> bool" where
  "span_sendable t \<longleftrightarrow> - (2 ^ 31) \<le> tv_sec t \<and> tv_sec t < 2 ^ 31 \<and> - (2 ^ 31) \<le> tv_usec t \<and> tv_usec t < 2 ^ 31"

lemma normalize_canonical: "time_invariant t \<Longrightarrow> time_normalize t = t"
  by (simp add: time_normalize_def time_invariant_def norm_up.simps [of t] norm_down.simps [of t])

context byte_sink
begin

lemma writes_u_long [xdr_simps]: "writes good room written (ks_xdre (xdr_u_long ops) v) (be32 v)"
  by (rule writes_xdre) (rule encodes_u_long)

lemma writes_long [xdr_simps]: "writes good room written (ks_xdre (xdr_long ops) v) (be32 v)"
  by (rule writes_xdre) (rule encodes_long)

lemma writes_enum [xdr_simps]: "writes good room written (ks_xdre (xdr_enum ops) v) (be32 v)"
  by (rule writes_xdre) (rule encodes_enum)

lemma writes_bool [xdr_simps]: "writes good room written (ks_xdre_bool ops b) (be32 (if b then 1 else 0))"
  using writes_xdre [OF encodes_bool [of "if b then 1 else 0"]] by (cases b) (simp_all add: ks_xdre_bool_def)

lemma writes_opaque:
  "unat cnt = length b \<Longrightarrow>
   writes good room written (\<lambda>s. do { (ok, _, s) \<leftarrow> xdr_opaque ops cnt XDR_ENCODE b s; Some (ok, s) }) (padded b)"
  using writes_xdre [OF encodes_opaque [of cnt b]] by (simp add: ks_xdre_def [abs_def])

lemma writes_string [xdr_simps]:
  "length str < 2 ^ 32 \<Longrightarrow> writes good room written (string_encode ops str) (bytes_string str)"
  unfolding string_encode_def bytes_string_def
  by (rule writes_and [OF writes_u_long writes_opaque]) (simp add: unat_of_nat_u32)

lemma writes_bytes [xdr_simps]:
  "length b < 2 ^ 32 \<Longrightarrow> writes good room written (bytes_encode ops b) (bytes_string b)"
  unfolding bytes_encode_def bytes_string_def
  by (rule writes_and [OF writes_u_long writes_opaque]) (simp add: unat_of_nat_u32)

lemma writes_time [xdr_simps]: "writes good room written (time_encode ops t) (bytes_time t)"
  unfolding time_encode_def bytes_time_def by (rule writes_and [OF writes_u_long writes_u_long])

lemma writes_span [xdr_simps]: "writes good room written (span_encode ops t) (bytes_time t)"
  unfolding span_encode_def bytes_time_def by (rule writes_and [OF writes_long writes_long])

end

lemma writes_elems:
  "\<forall>x\<in>set xs. writes good room written (e x) (enc x) \<Longrightarrow>
   writes good room written (encode_elems e xs) (concat (map enc xs))"
proof (induction xs)
  case Nil
  then show ?case by (simp add: writes_alt emits_Nil)
next
  case (Cons x xs)
  have "encode_elems e (x # xs) = and_then (e x) (encode_elems e xs)"
    by (rule ext) (simp add: and_then_def)
  then show ?case using writes_and [of good room written "e x" "enc x"] Cons by simp
qed

context byte_sink
begin

lemma writes_array:
  "\<forall>x\<in>set xs. writes good room written (e x) (enc x) \<Longrightarrow>
   writes good room written (array_encode ops e xs) (bytes_array enc xs)"
  unfolding array_encode_def bytes_array_def by (rule writes_and [OF writes_u_long writes_elems])

end

context byte_source
begin

lemma reads_u_long [xdr_simps]: "reads good rest (ks_xdrd (xdr_u_long ops) old) v (be32 v)"
  by (rule reads_xdrd) (rule decodes_u_long)

lemma reads_long [xdr_simps]: "reads good rest (ks_xdrd (xdr_long ops) old) v (be32 v)"
  by (rule reads_xdrd) (rule decodes_long)

lemma reads_enum [xdr_simps]: "reads good rest (ks_xdrd (xdr_enum ops) old) v (be32 v)"
  by (rule reads_xdrd) (rule decodes_enum)

lemma reads_bool [xdr_simps]: "reads good rest (ks_xdrd_bool ops) b (be32 (if b then 1 else 0))"
proof -
  have "decodes good rest (xdr_bool ops) 0 (if b then 1 else 0) (be32 (if b then 1 else 0))"
    using decodes_bool [of 0 "if b then 1 else 0"] by (cases b) simp_all
  then show ?thesis by (fastforce simp: reads_alt decodes_def ks_xdrd_bool_def)
qed

lemma opaque_reads:
  assumes "length bs = unat cnt" "length old = unat cnt" "good s" "rest s = padded bs @ r" "4 dvd length r"
  shows "\<exists>s'. xdr_opaque ops cnt XDR_DECODE old s = Some (True, bs, s') \<and> good s' \<and> rest s' = r"
  using decodesD [OF decodes_opaque [of bs cnt old] assms(3-5)] assms(1,2) by auto

text \<open>A string needs one byte more than it has characters; \<open>sz + 1\<close> must not wrap around.\<close>

lemma reads_string [xdr_simps]:
  assumes n: "length str < 2 ^ 32 - 1" and env: "alloc_ok env"
  shows "reads good rest (string_decode env ops) str (bytes_string str)"
  unfolding string_decode_def bytes_string_def
proof (rule reads_then [OF reads_u_long])
  have len [simp]: "unat (of_nat (length str) :: u32) = length str" using n by (simp add: unat_of_nat_u32)
  have suc: "unat (of_nat (length str) + 1 :: u32) = Suc (length str)" using n by (simp add: unat_word_ariths)
  have "Suc (length str) < 2 ^ 32" using n by simp
  then obtain m where m: "new_bytes env (Suc (length str)) = Some m" "length m = Suc (length str)"
    using env unfolding alloc_ok_def by blast
  show "reads good rest (\<lambda>s. case new_bytes env (unat (of_nat (length str) + 1 :: u32)) of None \<Rightarrow> Some (None, s)
      | Some n \<Rightarrow> do { (ok, n, s) \<leftarrow> xdr_opaque ops (of_nat (length str)) XDR_DECODE n s;
          if \<not> ok then Some (None, s) else if \<not> new_srep env then Some (None, s)
          else if length n \<le> unat (of_nat (length str) :: u32) then None
          else Some (Some (take (unat (of_nat (length str) :: u32)) n), s) }) str (padded str)"
    unfolding reads_alt
  proof (intro conjI allI impI)
    show "4 dvd length (padded str)" by (simp only: length_padded pad_len_aligned)
    fix s r
    assume s: "good s \<and> rest s = padded str @ r \<and> 4 dvd length r"
    obtain s' where s': "xdr_opaque ops (of_nat (length str)) XDR_DECODE m s = Some (True, str @ drop (length str) m, s')"
        "good s'" "rest s' = r"
      using decodesD [OF decodes_opaque [of str "of_nat (length str)" m], of s r] m(2) s by auto
    then show "\<exists>s'. (case new_bytes env (unat (of_nat (length str) + 1 :: u32)) of None \<Rightarrow> Some (None, s)
      | Some n \<Rightarrow> do { (ok, n, s) \<leftarrow> xdr_opaque ops (of_nat (length str)) XDR_DECODE n s;
          if \<not> ok then Some (None, s) else if \<not> new_srep env then Some (None, s)
          else if length n \<le> unat (of_nat (length str) :: u32) then None
          else Some (Some (take (unat (of_nat (length str) :: u32)) n), s) }) = Some (Some str, s') \<and> good s' \<and> rest s' = r"
      using m suc env by (auto simp: alloc_ok_def)
  qed
qed

lemma reads_bytes [xdr_simps]:
  assumes n: "length b < 2 ^ 32" and env: "alloc_ok env"
  shows "reads good rest (bytes_decode env ops old) b (bytes_string b)"
  unfolding bytes_decode_def bytes_string_def
proof (rule reads_then [OF reads_u_long])
  have len [simp]: "unat (of_nat (length b) :: u32) = length b" using n by (simp add: unat_of_nat_u32)
  obtain m where m: "(if length old \<noteq> length b then new_bytes env (length b) else Some old) = Some m" "length m = length b"
    using env n unfolding alloc_ok_def by (cases "length old = length b") auto
  show "reads good rest (\<lambda>s. case (if length old \<noteq> unat (of_nat (length b) :: u32) then new_bytes env (unat (of_nat (length b) :: u32)) else Some old) of
      None \<Rightarrow> Some (None, s)
    | Some p \<Rightarrow> do { (ok, p, s) \<leftarrow> xdr_opaque ops (of_nat (length b)) XDR_DECODE p s; Some (if ok then Some p else None, s) }) b (padded b)"
    unfolding reads_alt
  proof (intro conjI allI impI)
    show "4 dvd length (padded b)" by (simp only: length_padded pad_len_aligned)
    fix s r
    assume "good s \<and> rest s = padded b @ r \<and> 4 dvd length r"
    then obtain s' where "xdr_opaque ops (of_nat (length b)) XDR_DECODE m s = Some (True, b, s')" "good s'" "rest s' = r"
      using opaque_reads [of b "of_nat (length b)" m s r] m(2) by auto
    then show "\<exists>s'. (case (if length old \<noteq> unat (of_nat (length b) :: u32) then new_bytes env (unat (of_nat (length b) :: u32)) else Some old) of
      None \<Rightarrow> Some (None, s)
    | Some p \<Rightarrow> do { (ok, p, s) \<leftarrow> xdr_opaque ops (of_nat (length b)) XDR_DECODE p s; Some (if ok then Some p else None, s) }) = Some (Some b, s') \<and> good s' \<and> rest s' = r"
      unfolding len m(1) by simp
  qed
qed

lemma reads_time [xdr_simps]:
  assumes "time_sendable t"
  shows "reads good rest (time_decode ops) t (bytes_time t)"
proof -
  have "\<lparr>tv_sec = sint (word_of_int (tv_sec t) :: u32), tv_usec = sint (word_of_int (tv_usec t) :: u32)\<rparr> = t"
    using assms by (simp add: time_sendable_def time_invariant_def sint_of_int_u32)
  then show ?thesis
    using assms unfolding time_decode_def bytes_time_def
    by (intro reads_then [OF reads_u_long] reads_map [OF reads_u_long]) (simp add: time_sendable_def normalize_canonical)
qed

lemma reads_span [xdr_simps]:
  assumes "span_sendable t"
  shows "reads good rest (span_decode ops) t (bytes_time t)"
proof -
  have "\<lparr>tv_sec = sint (word_of_int (tv_sec t) :: u32), tv_usec = sint (word_of_int (tv_usec t) :: u32)\<rparr> = t"
    using assms by (simp add: span_sendable_def sint_of_int_u32)
  then show ?thesis
    unfolding span_decode_def bytes_time_def
    by (intro reads_then [OF reads_long] reads_map [OF reads_long]) simp
qed

end

lemma reads_elems:
  "\<forall>x\<in>set xs. reads good rest d x (enc x) \<Longrightarrow>
   reads good rest (decode_elems d (length xs)) xs (concat (map enc xs))"
proof (induction xs)
  case Nil
  then show ?case by (simp add: reads_alt)
next
  case (Cons x xs)
  have "decode_elems d (Suc (length xs)) = then_with d (\<lambda>x. then_with (decode_elems d (length xs)) (\<lambda>ys. deliver (x # ys)))"
    by (rule ext) (auto simp: then_with_def deliver_def split: option.split bind_split)
  moreover have IH: "reads good rest (decode_elems d (length xs)) xs (concat (map enc xs))" using Cons by simp
  have "reads good rest (then_with (decode_elems d (length xs)) (\<lambda>ys. deliver (x # ys))) (x # xs) (concat (map enc xs))"
    by (rule reads_map [OF IH]) simp
  moreover have "reads good rest d x (enc x)" using Cons.prems by simp
  ultimately show ?case
    using reads_then [where d = d and v = x and k = "\<lambda>x. then_with (decode_elems d (length xs)) (\<lambda>ys. deliver (x # ys))"]
    by simp
qed

context byte_source
begin

lemma reads_array:
  assumes "\<forall>x\<in>set xs. reads good rest d x (enc x)" "length xs < 2 ^ 32" "alloc_ok env"
  shows "reads good rest (array_decode env ops d old_size) xs (bytes_array enc xs)"
  unfolding array_decode_def bytes_array_def
  by (rule reads_then [OF reads_u_long])
     (use reads_elems [OF assms(1)] assms(2,3) in \<open>simp add: unat_of_nat_u32 alloc_ok_def\<close>)

end

end
