(* ===== verification/KsValue.thy ===== *)
theory KsValue
  imports KsCodec KsMemStream XdrMem
begin

text \<open>
  The values of ACPLT/KS variables and their external representation: ks/include/ks/value.h, value_impl.h,
  ks/src/value.cpp and the unions of ks/src/xdr.cpp. The classes derived from \<open>KsValue\<close> are the constructors of
  \<open>ks_value\<close>; floating point numbers are their bit patterns (a double as the pair of its 32-bit words in memory).
\<close>

datatype ks_value =
    BoolValue bool
  | IntValue u32
  | UIntValue u32
  | SingleValue u32
  | DoubleValue "u32 \<times> u32"
  | StringValue "byte list"
  | TimeValue timeval
  | TimeSpanValue timeval
  | StateValue u32
  | VoidValue
  | ByteVecValue "byte list"
  | BoolVecValue "bool list"
  | IntVecValue "u32 list"
  | UIntVecValue "u32 list"
  | SingleVecValue "u32 list"
  | DoubleVecValue "(u32 \<times> u32) list"
  | StringVecValue "byte list list"
  | TimeVecValue "timeval list"
  | TimeSpanVecValue "timeval list"
  | StateVecValue "u32 list"

fun xdrTypeCode :: "ks_value \<Rightarrow> u32" where
  "xdrTypeCode (BoolValue _) = 0x02"
| "xdrTypeCode (IntValue _) = 0x10"
| "xdrTypeCode (UIntValue _) = 0x11"
| "xdrTypeCode (SingleValue _) = 0x20"
| "xdrTypeCode (DoubleValue _) = 0x21"
| "xdrTypeCode (StringValue _) = 0x30"
| "xdrTypeCode (TimeValue _) = 0x31"
| "xdrTypeCode (TimeSpanValue _) = 0x32"
| "xdrTypeCode (StateValue _) = 0x38"
| "xdrTypeCode VoidValue = 0x00"
| "xdrTypeCode (ByteVecValue _) = 0x81"
| "xdrTypeCode (BoolVecValue _) = 0x82"
| "xdrTypeCode (IntVecValue _) = 0x90"
| "xdrTypeCode (UIntVecValue _) = 0x91"
| "xdrTypeCode (SingleVecValue _) = 0xA0"
| "xdrTypeCode (DoubleVecValue _) = 0xA1"
| "xdrTypeCode (StringVecValue _) = 0xB0"
| "xdrTypeCode (TimeVecValue _) = 0xB1"
| "xdrTypeCode (TimeSpanVecValue _) = 0xB2"
| "xdrTypeCode (StateVecValue _) = 0xB8"

fun xdrEncodeVariant :: "arch \<Rightarrow> 's xdr_ops \<Rightarrow> ks_value \<Rightarrow> 's coder" where
  "xdrEncodeVariant arch ops (BoolValue b) = ks_xdre_bool ops b"
| "xdrEncodeVariant arch ops (IntValue v) = ks_xdre (xdr_long ops) v"
| "xdrEncodeVariant arch ops (UIntValue v) = ks_xdre (xdr_u_long ops) v"
| "xdrEncodeVariant arch ops (SingleValue v) = ks_xdre (xdr_float ops) v"
| "xdrEncodeVariant arch ops (DoubleValue v) = ks_xdre (xdr_double arch ops) v"
| "xdrEncodeVariant arch ops (StringValue v) = string_encode ops v"
| "xdrEncodeVariant arch ops (TimeValue v) = time_encode ops v"
| "xdrEncodeVariant arch ops (TimeSpanValue v) = span_encode ops v"
| "xdrEncodeVariant arch ops (StateValue v) = ks_xdre (xdr_enum ops) v"
| "xdrEncodeVariant arch ops VoidValue = (\<lambda>s. Some (True, s))"
| "xdrEncodeVariant arch ops (ByteVecValue v) = bytes_encode ops v"
| "xdrEncodeVariant arch ops (BoolVecValue v) = array_encode ops (ks_xdre_bool ops) v"
| "xdrEncodeVariant arch ops (IntVecValue v) = array_encode ops (ks_xdre (xdr_long ops)) v"
| "xdrEncodeVariant arch ops (UIntVecValue v) = array_encode ops (ks_xdre (xdr_u_long ops)) v"
| "xdrEncodeVariant arch ops (SingleVecValue v) = array_encode ops (ks_xdre (xdr_float ops)) v"
| "xdrEncodeVariant arch ops (DoubleVecValue v) = array_encode ops (ks_xdre (xdr_double arch ops)) v"
| "xdrEncodeVariant arch ops (StringVecValue v) = array_encode ops (string_encode ops) v"
| "xdrEncodeVariant arch ops (TimeVecValue v) = array_encode ops (time_encode ops) v"
| "xdrEncodeVariant arch ops (TimeSpanVecValue v) = array_encode ops (span_encode ops) v"
| "xdrEncodeVariant arch ops (StateVecValue v) = array_encode ops (ks_xdre (xdr_enum ops)) v"

text \<open>\<open>KsXdrUnion::xdrEncode\<close>; \<open>KsValue::xdrEncodeCommon\<close> writes nothing.\<close>

definition xdrEncodeCommon :: "'s coder" where
  "xdrEncodeCommon s = Some (True, s)"

definition value_encode :: "arch \<Rightarrow> 's xdr_ops \<Rightarrow> ks_value \<Rightarrow> 's coder" where
  "value_encode arch ops v =
     and_then (and_then (ks_xdre (xdr_enum ops) (xdrTypeCode v)) (xdrEncodeVariant arch ops v)) xdrEncodeCommon"

text \<open>The constructor the type code selects in \<open>KsValue::xdrNew\<close>, applied to the stream. New vectors have size 0.\<close>

definition construct :: "('s, 'a) decoder \<Rightarrow> ('a \<Rightarrow> ks_value) \<Rightarrow> ('s, ks_value) decoder" where
  "construct d C = then_with d (\<lambda>v. deliver (C v))"

definition xdrDecodeVariant :: "alloc_env \<Rightarrow> arch \<Rightarrow> 's xdr_ops \<Rightarrow> u32 \<Rightarrow> ('s, ks_value) decoder" where
  "xdrDecodeVariant env arch ops c =
     (if c = 0x02 then construct (ks_xdrd_bool ops) BoolValue
      else if c = 0x10 then construct (ks_xdrd (xdr_long ops) 0) IntValue
      else if c = 0x11 then construct (ks_xdrd (xdr_u_long ops) 0) UIntValue
      else if c = 0x20 then construct (ks_xdrd (xdr_float ops) 0) SingleValue
      else if c = 0x21 then construct (ks_xdrd (xdr_double arch ops) (0, 0)) DoubleValue
      else if c = 0x30 then construct (string_decode env ops) StringValue
      else if c = 0x31 then construct (time_decode ops) TimeValue
      else if c = 0x32 then construct (span_decode ops) TimeSpanValue
      else if c = 0x38 then construct (ks_xdrd (xdr_enum ops) 0) StateValue
      else if c = 0x00 then deliver VoidValue
      else if c = 0x81 then construct (bytes_decode env ops []) ByteVecValue
      else if c = 0x82 then construct (array_decode env ops (ks_xdrd_bool ops) 0) BoolVecValue
      else if c = 0x90 then construct (array_decode env ops (ks_xdrd (xdr_long ops) 0) 0) IntVecValue
      else if c = 0x91 then construct (array_decode env ops (ks_xdrd (xdr_u_long ops) 0) 0) UIntVecValue
      else if c = 0xA0 then construct (array_decode env ops (ks_xdrd (xdr_float ops) 0) 0) SingleVecValue
      else if c = 0xA1 then construct (array_decode env ops (ks_xdrd (xdr_double arch ops) (0, 0)) 0) DoubleVecValue
      else if c = 0xB0 then construct (array_decode env ops (string_decode env ops) 0) StringVecValue
      else if c = 0xB1 then construct (array_decode env ops (time_decode ops) 0) TimeVecValue
      else if c = 0xB2 then construct (array_decode env ops (span_decode ops) 0) TimeSpanVecValue
      else if c = 0xB8 then construct (array_decode env ops (ks_xdrd (xdr_enum ops) 0) 0) StateVecValue
      else (\<lambda>s. Some (None, s)))"

definition xdrDecodeCommon :: "'s coder" where
  "xdrDecodeCommon s = Some (True, s)"

definition value_xdrNew :: "alloc_env \<Rightarrow> arch \<Rightarrow> 's xdr_ops \<Rightarrow> ('s, ks_value) decoder" where
  "value_xdrNew env arch ops =
     then_with (ks_xdrd (xdr_enum ops) 0) (\<lambda>c.
       then_with (xdrDecodeVariant env arch ops c) (\<lambda>v s.
         do { (ok, s) \<leftarrow> xdrDecodeCommon s; Some (if ok then Some v else None, s) }))"

text \<open>\<open>KsXdrUnion::xdrDecode\<close> into an existing object, whose type the received value must have.\<close>

definition value_decode :: "alloc_env \<Rightarrow> arch \<Rightarrow> 's xdr_ops \<Rightarrow> ks_value \<Rightarrow> ('s, ks_value) decoder" where
  "value_decode env arch ops this =
     then_with (ks_xdrd (xdr_enum ops) 0) (\<lambda>c.
       if c \<noteq> xdrTypeCode this then (\<lambda>s. Some (None, s)) else xdrDecodeVariant env arch ops c)"

subsection \<open>The external representation\<close>

fun bytes_variant :: "arch \<Rightarrow> ks_value \<Rightarrow> byte list" where
  "bytes_variant arch (BoolValue b) = be32 (if b then 1 else 0)"
| "bytes_variant arch (IntValue v) = be32 v"
| "bytes_variant arch (UIntValue v) = be32 v"
| "bytes_variant arch (SingleValue v) = be32 v"
| "bytes_variant arch (DoubleValue v) = bytes_double arch v"
| "bytes_variant arch (StringValue v) = bytes_string v"
| "bytes_variant arch (TimeValue v) = bytes_time v"
| "bytes_variant arch (TimeSpanValue v) = bytes_time v"
| "bytes_variant arch (StateValue v) = be32 v"
| "bytes_variant arch VoidValue = []"
| "bytes_variant arch (ByteVecValue v) = bytes_string v"
| "bytes_variant arch (BoolVecValue v) = bytes_array (\<lambda>b. be32 (if b then 1 else 0)) v"
| "bytes_variant arch (IntVecValue v) = bytes_array be32 v"
| "bytes_variant arch (UIntVecValue v) = bytes_array be32 v"
| "bytes_variant arch (SingleVecValue v) = bytes_array be32 v"
| "bytes_variant arch (DoubleVecValue v) = bytes_array (bytes_double arch) v"
| "bytes_variant arch (StringVecValue v) = bytes_array bytes_string v"
| "bytes_variant arch (TimeVecValue v) = bytes_array bytes_time v"
| "bytes_variant arch (TimeSpanVecValue v) = bytes_array bytes_time v"
| "bytes_variant arch (StateVecValue v) = bytes_array be32 v"

definition bytes_value :: "arch \<Rightarrow> ks_value \<Rightarrow> byte list" where
  "bytes_value arch v = be32 (xdrTypeCode v) @ bytes_variant arch v"

text \<open>The value the same processor reads from it: the value itself, but for the numbers of type \<open>double\<close> on \<open>X64\<close>.\<close>

fun heard :: "arch \<Rightarrow> ks_value \<Rightarrow> ks_value" where
  "heard arch (DoubleValue d) = DoubleValue (heard_double arch d)"
| "heard arch (DoubleVecValue ds) = DoubleVecValue (map (heard_double arch) ds)"
| "heard arch v = v"

lemma xdrTypeCode_heard [simp]: "xdrTypeCode (heard arch v) = xdrTypeCode v"
  by (cases v) simp_all

lemma heard_id: "arch \<noteq> X64 \<or> (\<forall>d. v \<noteq> DoubleValue d) \<and> (\<forall>ds. v \<noteq> DoubleVecValue ds) \<Longrightarrow> heard arch v = v"
  by (cases v) (auto simp: heard_double_def fun_eq_iff cong: map_cong)

text \<open>Values the format can express: lengths in 32 bits, canonical times.\<close>

fun sendable :: "ks_value \<Rightarrow> bool" where
  "sendable (StringValue v) \<longleftrightarrow> length v < 2 ^ 32 - 1"
| "sendable (TimeValue v) \<longleftrightarrow> time_sendable v"
| "sendable (TimeSpanValue v) \<longleftrightarrow> span_sendable v"
| "sendable (ByteVecValue v) \<longleftrightarrow> length v < 2 ^ 32"
| "sendable (BoolVecValue v) \<longleftrightarrow> length v < 2 ^ 32"
| "sendable (IntVecValue v) \<longleftrightarrow> length v < 2 ^ 32"
| "sendable (UIntVecValue v) \<longleftrightarrow> length v < 2 ^ 32"
| "sendable (SingleVecValue v) \<longleftrightarrow> length v < 2 ^ 32"
| "sendable (DoubleVecValue v) \<longleftrightarrow> length v < 2 ^ 32"
| "sendable (StringVecValue v) \<longleftrightarrow> length v < 2 ^ 32 \<and> (\<forall>s\<in>set v. length s < 2 ^ 32 - 1)"
| "sendable (TimeVecValue v) \<longleftrightarrow> length v < 2 ^ 32 \<and> (\<forall>t\<in>set v. time_sendable t)"
| "sendable (TimeSpanVecValue v) \<longleftrightarrow> length v < 2 ^ 32 \<and> (\<forall>t\<in>set v. span_sendable t)"
| "sendable (StateVecValue v) \<longleftrightarrow> length v < 2 ^ 32"
| "sendable _ \<longleftrightarrow> True"

context byte_sink
begin

lemma writes_float [xdr_simps]: "writes good room written (ks_xdre (xdr_float ops) v) (be32 v)"
  by (rule writes_xdre) (rule encodes_float)

lemma writes_double [xdr_simps]: "writes good room written (ks_xdre (xdr_double arch ops) d) (bytes_double arch d)"
  by (rule writes_xdre) (rule encodes_double)

lemma writes_nothing: "writes good room written (\<lambda>s. Some (True, s)) []"
  by (simp add: writes_alt emits_Nil)

lemma writes_variant: "sendable v \<Longrightarrow> writes good room written (xdrEncodeVariant arch ops v) (bytes_variant arch v)"
  by (cases v) (auto simp: xdr_simps writes_nothing split_paired_all intro!: writes_array)

lemma writes_value: "sendable v \<Longrightarrow> writes good room written (value_encode arch ops v) (bytes_value arch v)"
  using writes_and [OF writes_and [OF writes_enum writes_variant] writes_nothing]
  by (simp add: value_encode_def bytes_value_def xdrEncodeCommon_def [abs_def])

end

context byte_source
begin

lemma reads_float [xdr_simps]: "reads good rest (ks_xdrd (xdr_float ops) old) v (be32 v)"
  by (rule reads_xdrd) (rule decodes_float)

lemma reads_double [xdr_simps]: "reads good rest (ks_xdrd (xdr_double arch ops) old) (heard_double arch d) (bytes_double arch d)"
  by (rule reads_xdrd) (rule decodes_double)

lemma reads_doubles:
  assumes "length ds < 2 ^ 32" "alloc_ok env"
  shows "reads good rest (array_decode env ops (ks_xdrd (xdr_double arch ops) old) n) (map (heard_double arch) ds) (bytes_array (bytes_double arch) ds)"
proof -
  let ?b = "\<lambda>d. bytes_double arch (heard_double arch d)"
  have hh: "heard_double arch (heard_double arch d) = d" for d by (simp add: heard_double_def)
  have "\<forall>d\<in>set (map (heard_double arch) ds). reads good rest (ks_xdrd (xdr_double arch ops) old) d (?b d)"
    using reads_double [of arch old "heard_double arch d" for d] unfolding hh by blast
  moreover have "bytes_array ?b (map (heard_double arch) ds) = bytes_array (bytes_double arch) ds"
    by (simp add: bytes_array_def comp_def hh)
  ultimately show ?thesis using reads_array [of "map (heard_double arch) ds" "ks_xdrd (xdr_double arch ops) old" ?b env n] assms by simp
qed

lemmas reads_bools [xdr_simps] = reads_bool [of True, simplified] reads_bool [of False, simplified]

lemma reads_construct: "reads good rest d v bs \<Longrightarrow> reads good rest (construct d C) (C v) bs"
  unfolding construct_def by (rule reads_map) auto

lemma reads_variant:
  assumes "sendable v" "alloc_ok env"
  shows "reads good rest (xdrDecodeVariant env arch ops (xdrTypeCode v)) (heard arch v) (bytes_variant arch v)"
  using assms
  by (cases v) (auto simp: xdrDecodeVariant_def xdr_simps reads_deliver reads_doubles intro!: reads_construct reads_array)

lemma reads_value:
  assumes "sendable v" "alloc_ok env"
  shows "reads good rest (value_xdrNew env arch ops) (heard arch v) (bytes_value arch v)"
  unfolding value_xdrNew_def bytes_value_def
  by (intro reads_then [OF reads_enum] reads_map [OF reads_variant [OF assms]])
     (rule ext, simp add: xdrDecodeCommon_def deliver_def)

end

subsection \<open>Properties\<close>

lemma ms_value_roundtrip:
  assumes "pool_ok g fl" "mal_ok mal"
    and enc: "writes ms_good ms_room ms_written e bs" and dec: "reads ms_rgood ms_rest d v bs"
    and room: "length bs \<le> unat (buf_size g) * pool_room g" "0 < pool_room g"
  shows "\<exists>s t u w. ms_create mal True junk (g, x) = Some (True, s) \<and> e s = Some (True, t) \<and>
    ms_written t = bs \<and> ms_rewind XDR_DECODE t = Some u \<and> d u = Some (Some v, w)"
  using ms_roundtrip [OF assms(1,2) enc [unfolded writes_def] dec [unfolded reads_def] room, of junk x]
  by (auto simp: bind_eq_Some_conv)

text \<open>
  C10. Every value, of each of the twenty types, that is encoded to a new buffered stream is read by \<open>KsValue::xdrNew\<close> after
  rewinding: the type code selects the right class and the vectors, strings and times inside are complete. The stream holds
  exactly the external representation \<open>bytes_value\<close>. What is read is the value itself on each platform, with one exception:
  on \<open>X64\<close> the two halves of every number of type \<open>double\<close> come back exchanged (\<open>heard\<close>).
\<close>

theorem value_roundtrip:
  assumes "pool_ok g fl" "mal_ok mal" "sendable v" "alloc_ok env"
    and "0 < pool_room g" "length (bytes_value arch v) \<le> unat (buf_size g) * pool_room g"
  shows "(\<exists>s t u w. ms_create mal True junk (g, x) = Some (True, s) \<and> value_encode arch (ms_ops mal) v s = Some (True, t) \<and>
      ms_written t = bytes_value arch v \<and> ms_rewind XDR_DECODE t = Some u \<and>
      value_xdrNew env arch (ms_ops mal) u = Some (Some (heard arch v), w)) \<and>
    (arch \<noteq> X64 \<or> (\<forall>d. v \<noteq> DoubleValue d) \<and> (\<forall>ds. v \<noteq> DoubleVecValue ds) \<longrightarrow> heard arch v = v)"
  using ms_value_roundtrip [OF assms(1,2) byte_sink.writes_value [OF ms_sink [OF assms(2)] assms(3)]
        msr.reads_value [OF assms(3,4)] assms(6,5)] heard_id by blast

definition unlimited :: alloc_env where
  "unlimited = \<lparr>new_bytes = (\<lambda>n. Some (replicate n 0)), new_array = (\<lambda>n. True), new_srep = True\<rparr>"

lemma unlimited_ok: "alloc_ok unlimited"
  by (simp add: alloc_ok_def unlimited_def)

theorem value_roundtrip_witness:
  "(\<exists>s t u w. ms_create mal_lowest True 0 (two_free, on_frag 1 0) = Some (True, s) \<and>
      value_encode X86 (ms_ops mal_lowest) (DoubleVecValue [(1, 2)]) s = Some (True, t) \<and>
      ms_written t = bytes_value X86 (DoubleVecValue [(1, 2)]) \<and> ms_rewind XDR_DECODE t = Some u \<and>
      value_xdrNew unlimited X86 (ms_ops mal_lowest) u = Some (Some (DoubleVecValue [(1, 2)]), w)) \<and>
   (\<exists>s t u w. ms_create mal_lowest True 0 (two_free, on_frag 1 0) = Some (True, s) \<and>
      value_encode X64 (ms_ops mal_lowest) (DoubleVecValue [(1, 2)]) s = Some (True, t) \<and>
      ms_written t = bytes_value X64 (DoubleVecValue [(1, 2)]) \<and> ms_rewind XDR_DECODE t = Some u \<and>
      value_xdrNew unlimited X64 (ms_ops mal_lowest) u = Some (Some (DoubleVecValue [(2, 1)]), w))"
proof -
  have pool: "pool_ok two_free [1, 2]" "0 < pool_room two_free"
    by (simp_all add: two_free_def two_frags_def pool_ok_def blocks_def pool_room_def)
  have fit: "length (bytes_value arch (DoubleVecValue [(1, 2)])) \<le> unat (buf_size two_free) * pool_room two_free" for arch
    by (simp add: two_free_def two_frags_def pool_room_def bytes_value_def bytes_array_def bytes_double_def)
  have ok: "sendable (DoubleVecValue [(1, 2)])" by simp
  note R = value_roundtrip [OF pool(1) mal_lowest_ok ok unlimited_ok pool(2) fit, where x = "on_frag 1 0" and junk = 0, THEN conjunct1]
  show ?thesis using R [of X86] R [of X64] by (simp add: heard_double_def)
qed

text \<open>
  A type code that is none of the twenty makes \<open>xdrNew\<close> return the null pointer, whatever follows in the stream, and after
  reading nothing but the code; an object refuses a value of another type in the same way.
\<close>

theorem value_wrong_code:
  assumes "x_getlong ops s = Some (Some c, s')"
  shows "(c \<notin> range xdrTypeCode \<longrightarrow> value_xdrNew env arch ops s = Some (None, s')) \<and>
    (c \<noteq> xdrTypeCode this \<longrightarrow> value_decode env arch ops this s = Some (None, s'))"
proof -
  have code: "ks_xdrd (xdr_enum ops) 0 s = Some (Some c, s')"
    using assms by (simp add: ks_xdrd_def xdr_enum_def xdr_long_def)
  have "xdrDecodeVariant env arch ops c s' = Some (None, s')" if "c \<notin> range xdrTypeCode"
  proof -
    have ne: "c \<noteq> xdrTypeCode v" for v using that by auto
    show ?thesis
      using ne [of "BoolValue b" for b] ne [of "IntValue i" for i] ne [of "UIntValue i" for i] ne [of "SingleValue i" for i]
        ne [of "DoubleValue d" for d] ne [of "StringValue l" for l] ne [of "TimeValue q" for q] ne [of "TimeSpanValue q" for q]
        ne [of "StateValue i" for i] ne [of VoidValue] ne [of "ByteVecValue l" for l] ne [of "BoolVecValue l" for l]
        ne [of "IntVecValue l" for l] ne [of "UIntVecValue l" for l] ne [of "SingleVecValue l" for l]
        ne [of "DoubleVecValue l" for l] ne [of "StringVecValue l" for l] ne [of "TimeVecValue l" for l]
        ne [of "TimeSpanVecValue l" for l] ne [of "StateVecValue l" for l]
      by (simp add: xdrDecodeVariant_def)
  qed
  then show ?thesis using code by (auto simp: value_xdrNew_def value_decode_def then_with_def)
qed

theorem value_wrong_code_witness:
  "value_xdrNew unlimited X86 xdrmem_ops (xdrmem_create (be32 5) 4096 4) =
     Some (None, \<lparr>mem = be32 5, x_base = 4096, x_private = 4100, x_handy = 0\<rparr>)"
proof -
  have "x_getlong xdrmem_ops (xdrmem_create (be32 5) 4096 4) =
      Some (Some 5, \<lparr>mem = be32 5, x_base = 4096, x_private = 4100, x_handy = 0\<rparr>)"
    by (simp add: xdrmem_ops_def xdrmem_create_def xdrmem_getlong_def peek_def mem_off_def)
  moreover have "5 \<noteq> xdrTypeCode v" for v by (cases v) simp_all
  then have "5 \<notin> range xdrTypeCode" by blast
  ultimately show ?thesis using value_wrong_code [of xdrmem_ops "xdrmem_create (be32 5) 4096 4" 5] by blast
qed

text \<open>
  A received time is in canonical form whatever the peer sent. A received time span is not normalised: it has just the microseconds that
  were sent, also when they violate the invariant of \<open>PltTimeSpan\<close>.
\<close>

theorem received_times:
  assumes "x_getlong ops s = Some (Some a, s1)" "x_getlong ops s1 = Some (Some b, s2)"
  shows "(\<exists>t. time_decode ops s = Some (Some t, s2) \<and> time_invariant t \<and> us_of t = sint a * 1000000 + sint b) \<and>
    span_decode ops s = Some (Some \<lparr>tv_sec = sint a, tv_usec = sint b\<rparr>, s2)"
proof -
  have "ks_xdrd (xdr_u_long ops) 0 s = Some (Some a, s1)" "ks_xdrd (xdr_u_long ops) 0 s1 = Some (Some b, s2)"
    "ks_xdrd (xdr_long ops) 0 s = Some (Some a, s1)" "ks_xdrd (xdr_long ops) 0 s1 = Some (Some b, s2)"
    using assms by (simp_all add: ks_xdrd_def xdr_u_long_def xdr_long_def)
  then show ?thesis
    using normalize_invariant(2) us_of_normalize(2) [of "\<lparr>tv_sec = sint a, tv_usec = sint b\<rparr>"]
    by (auto simp: time_decode_def span_decode_def then_with_def deliver_def us_of_def)
qed

theorem received_times_witness:
  "\<not> span_invariant \<lparr>tv_sec = sint (1 :: u32), tv_usec = sint (2000000 :: u32)\<rparr> \<and>
   span_decode xdrmem_ops (xdrmem_create (be32 1 @ be32 2000000) 4096 8) =
     Some (Some \<lparr>tv_sec = sint (1 :: u32), tv_usec = sint (2000000 :: u32)\<rparr>,
       \<lparr>mem = be32 1 @ be32 2000000, x_base = 4096, x_private = 4104, x_handy = 0\<rparr>)"
proof -
  let ?s = "\<lambda>p h. \<lparr>mem = be32 1 @ be32 2000000, x_base = 4096, x_private = p, x_handy = h\<rparr>"
  have "x_getlong xdrmem_ops (xdrmem_create (be32 1 @ be32 2000000) 4096 8) = Some (Some 1, ?s 4100 4)"
    by (simp add: xdrmem_ops_def xdrmem_create_def xdrmem_getlong_def peek_def mem_off_def)
  moreover have "x_getlong xdrmem_ops (?s 4100 4) = Some (Some 2000000, ?s 4104 0)"
    by (simp add: xdrmem_ops_def xdrmem_getlong_def peek_def mem_off_def)
  ultimately show ?thesis
    using received_times [of xdrmem_ops "xdrmem_create (be32 1 @ be32 2000000) 4096 8" 1 "?s 4100 4" 2000000 "?s 4104 0"]
    by (simp add: span_invariant_def)
qed

text \<open>
  With a 32-bit \<open>u_long\<close> a received string length of \<open>2^32 - 1\<close> makes \<open>KsString\<close> allocate no storage at all (\<open>sz + 1\<close> wraps around
  to 0) and read the characters over it: decoding has no result.
\<close>

theorem string_length_wraps:
  assumes "x_getlong ops s = Some (Some (2 ^ 32 - 1), s')" "new_bytes env 0 = Some []"
  shows "string_decode env ops s = None"
proof -
  have "ks_xdrd (xdr_u_long ops) 0 s = Some (Some (- 1), s')"
    using assms by (simp add: ks_xdrd_def xdr_u_long_def)
  moreover have "0 < unat (- 1 :: u32)" by (simp only: unat_gt_0) simp
  ultimately show ?thesis using assms(2) by (simp add: string_decode_def then_with_def xdr_opaque_def Let_def)
qed

theorem string_length_wraps_witness:
  "string_decode unlimited xdrmem_ops (xdrmem_create (be32 (- 1)) 4096 4) = None"
  by (rule string_length_wraps [where s' = "\<lparr>mem = be32 (- 1), x_base = 4096, x_private = 4100, x_handy = 0\<rparr>"])
     (simp_all add: unlimited_def xdrmem_ops_def xdrmem_create_def xdrmem_getlong_def peek_def mem_off_def)

end
