(* ===== verification/KsResult.thy ===== *)
theory KsResult
  imports KsPrelude
begin

text \<open>
  The result codes of the ACPLT/KS protocol the model uses, ks/include/ks/ks.h. A \<open>KS_RESULT\<close> is an XDR enumeration.
\<close>

type_synonym ks_result = u32

definition KS_ERR_OK :: ks_result where "KS_ERR_OK = 0x0000"
definition KS_ERR_GENERIC :: ks_result where "KS_ERR_GENERIC = 0x0001"
definition KS_ERR_BADAUTH :: ks_result where "KS_ERR_BADAUTH = 0x0002"
definition KS_ERR_NOTIMPLEMENTED :: ks_result where "KS_ERR_NOTIMPLEMENTED = 0x0003"
definition KS_ERR_BADPARAM :: ks_result where "KS_ERR_BADPARAM = 0x0004"
definition KS_ERR_UNKNOWNAUTH :: ks_result where "KS_ERR_UNKNOWNAUTH = 0x0005"
definition KS_ERR_TARGETGENERIC :: ks_result where "KS_ERR_TARGETGENERIC = 0x0006"
definition KS_ERR_BADOBJTYPE :: ks_result where "KS_ERR_BADOBJTYPE = 0x0007"
definition KS_ERR_BADNAME :: ks_result where "KS_ERR_BADNAME = 0x0010"
definition KS_ERR_BADPATH :: ks_result where "KS_ERR_BADPATH = 0x0011"
definition KS_ERR_BADMASK :: ks_result where "KS_ERR_BADMASK = 0x0012"
definition KS_ERR_NOACCESS :: ks_result where "KS_ERR_NOACCESS = 0x0013"
definition KS_ERR_BADTYPE :: ks_result where "KS_ERR_BADTYPE = 0x0014"
definition KS_ERR_SERVERUNKNOWN :: ks_result where "KS_ERR_SERVERUNKNOWN = 0x0021"
definition KS_ERR_BADINITPARAM :: ks_result where "KS_ERR_BADINITPARAM = 0x0032"

lemmas ks_result_defs =
  KS_ERR_OK_def KS_ERR_GENERIC_def KS_ERR_BADAUTH_def KS_ERR_NOTIMPLEMENTED_def KS_ERR_BADPARAM_def
  KS_ERR_UNKNOWNAUTH_def KS_ERR_TARGETGENERIC_def KS_ERR_BADOBJTYPE_def KS_ERR_BADNAME_def KS_ERR_BADPATH_def
  KS_ERR_BADMASK_def KS_ERR_NOACCESS_def KS_ERR_BADTYPE_def KS_ERR_SERVERUNKNOWN_def KS_ERR_BADINITPARAM_def

end
