(* ===== verification/KsConversions.thy ===== *)
theory KsConversions
  imports KsResult "HOL-Library.Monad_Syntax"
begin

text \<open>
  The percent encoding of names: ks/include/ks/conversions.h, ks/src/conversions.cpp. A string is the list of its
  characters; in memory a zero follows it, and reading behind that zero is a fault, as is writing behind a buffer from
  \<open>new char[]\<close> (the outer option). \<open>sg\<close> says whether plain \<open>char\<close> is signed.
\<close>

subsection \<open>Characters\<close>

definition isdigit :: "byte \<Rightarrow> bool" where
  "isdigit c \<longleftrightarrow> 0x30 \<le> c \<and> c \<le> 0x39"

definition isupper :: "byte \<Rightarrow> bool" where
  "isupper c \<longleftrightarrow> 0x41 \<le> c \<and> c \<le> 0x5A"

definition islower :: "byte \<Rightarrow> bool" where
  "islower c \<longleftrightarrow> 0x61 \<le> c \<and> c \<le> 0x7A"

definition isxdigit :: "byte \<Rightarrow> bool" where
  "isxdigit c \<longleftrightarrow> isdigit c \<or> (0x41 \<le> c \<and> c \<le> 0x46) \<or> (0x61 \<le> c \<and> c \<le> 0x66)"

definition ksIsValidChar :: "byte \<Rightarrow> bool" where
  "ksIsValidChar c \<longleftrightarrow> isdigit c \<or> isupper c \<or> islower c \<or> c = 0x5F"

definition ksIsDelim :: "byte \<Rightarrow> bool" where
  "ksIsDelim c \<longleftrightarrow> c = 0x2F \<or> c = 0x2E"

definition hex_char :: "u32 \<Rightarrow> byte" where
  "hex_char n = ucast n + (if n < 10 then 0x30 else 0x37)"

definition ksToPercent :: "bool \<Rightarrow> byte \<Rightarrow> byte list" where
  "ksToPercent sg c =
     (let d = (if sg then scast c else ucast c :: u32) in [0x25, hex_char (drop_bit 4 d), hex_char (d mod 16)])"

definition hex_val :: "byte \<Rightarrow> byte" where
  "hex_val c = (if c \<le> 0x39 then c - 0x30 else if c \<le> 0x46 then c - 0x37 else c - 0x57)"

text \<open>\<open>ksFromPercent\<close> on the memory from \<open>s\<close> on; the second character is read only when the first is a digit.\<close>

definition ksFromPercent :: "byte list \<Rightarrow> byte option" where
  "ksFromPercent s =
     (case s of
        [] \<Rightarrow> None
      | a # r \<Rightarrow> if \<not> isxdigit a then Some 0
                else (case r of
                        [] \<Rightarrow> None
                      | b # _ \<Rightarrow> Some (if isxdigit b then push_bit 4 (hex_val a) + hex_val b else 0)))"

subsection \<open>Buffers\<close>

definition put :: "nat \<Rightarrow> 'a list \<Rightarrow> 'a list \<Rightarrow> 'a list option" where
  "put j xs buf = (if j + length xs \<le> length buf then Some (take j buf @ xs @ drop (j + length xs) buf) else None)"

definition new_ok :: "(nat \<Rightarrow> byte list option) \<Rightarrow> bool" where
  "new_ok new_char \<longleftrightarrow> (\<forall>n. \<exists>b. new_char n = Some b \<and> length b = n)"

subsection \<open>Encoding of names and paths\<close>

fun escape_loop :: "bool \<Rightarrow> (byte \<Rightarrow> bool) \<Rightarrow> byte list \<Rightarrow> nat \<Rightarrow> byte list \<Rightarrow> (nat \<times> byte list) option" where
  "escape_loop sg keep [] j res = Some (j, res)"
| "escape_loop sg keep (c # cs) j res =
     (if keep c then do { res \<leftarrow> put j [c] res; escape_loop sg keep cs (j + 1) res }
      else do { res \<leftarrow> put j (ksToPercent sg c) res; escape_loop sg keep cs (j + 3) res })"

definition escape :: "(nat \<Rightarrow> byte list option) \<Rightarrow> bool \<Rightarrow> (byte \<Rightarrow> bool) \<Rightarrow> byte list \<Rightarrow> byte list option" where
  "escape new_char sg keep org =
     (let convert = length (filter (\<lambda>c. \<not> keep c) org)
      in if convert = 0 then Some org
         else case new_char (length org + 1 + convert * 2) of
                None \<Rightarrow> Some []
              | Some res \<Rightarrow> do { (j, res) \<leftarrow> escape_loop sg keep org 0 res;
                                res \<leftarrow> put (length org + convert * 2) [0] res;
                                Some (take (length org + convert * 2) res) })"

definition ksStringToPercent :: "(nat \<Rightarrow> byte list option) \<Rightarrow> bool \<Rightarrow> byte list \<Rightarrow> byte list option" where
  "ksStringToPercent new_char sg org = escape new_char sg ksIsValidChar org"

definition ksPathToPercent :: "(nat \<Rightarrow> byte list option) \<Rightarrow> bool \<Rightarrow> byte list \<Rightarrow> byte list option" where
  "ksPathToPercent new_char sg org = escape new_char sg (\<lambda>c. ksIsValidChar c \<or> ksIsDelim c) org"

subsection \<open>Decoding\<close>

fun count_percent :: "byte list \<Rightarrow> nat" where
  "count_percent [] = 0"
| "count_percent (c # cs) = (if c = 0x25 then Suc (count_percent (drop 2 cs)) else count_percent cs)"

fun unescape_loop :: "byte list \<Rightarrow> nat \<Rightarrow> byte list \<Rightarrow> (bool \<times> byte list) option" where
  "unescape_loop [] j res = Some (True, res)"
| "unescape_loop (c # cs) j res =
     (if c = 0x25
      then do { d \<leftarrow> ksFromPercent (cs @ [0]);
                res \<leftarrow> put j [d] res;
                if d = 0 then Some (False, res) else unescape_loop (drop 2 cs) (j + 1) res }
      else do { res \<leftarrow> put j [c] res; unescape_loop cs (j + 1) res })"

definition ksStringFromPercent :: "(nat \<Rightarrow> byte list option) \<Rightarrow> byte list \<Rightarrow> (ks_result + byte list) option" where
  "ksStringFromPercent new_char org =
     (let convert = count_percent org
      in if convert = 0 then Some (Inr org)
         else let szres = size_sub (length org) (convert * 2)
              in case new_char (size_add szres 1) of
                   None \<Rightarrow> Some (Inl KS_ERR_GENERIC)
                 | Some res \<Rightarrow> do { (ok, res) \<leftarrow> unescape_loop org 0 res;
                                   res \<leftarrow> put szres [0] res;
                                   Some (if ok then Inr (take szres res) else Inl KS_ERR_BADNAME) })"

subsection \<open>Resource locators\<close>

text \<open>\<open>strchr(p, '/') + 1\<close>.\<close>

definition after_slash :: "byte list \<Rightarrow> byte list option" where
  "after_slash p =
     (case dropWhile (\<lambda>c. c \<noteq> 0x2F \<and> c \<noteq> 0) p of
        [] \<Rightarrow> None
      | c # cs \<Rightarrow> if c = 0x2F then Some cs else None)"

definition verbatim_len :: "byte list \<Rightarrow> nat" where
  "verbatim_len org =
     (if take 2 org = [0x2F, 0x2F]
      then (case after_slash (drop 2 org) of
              None \<Rightarrow> length org
            | Some r \<Rightarrow> (case after_slash r of None \<Rightarrow> length org | Some q \<Rightarrow> length org - length q))
      else 0)"

definition strncpy :: "byte list \<Rightarrow> nat \<Rightarrow> byte list" where
  "strncpy p n = (let t = takeWhile (\<lambda>c. c \<noteq> 0) (take n p) in t @ replicate (n - length t) 0)"

text \<open>The main loop; a \<open>p\<close> at the end of the string and a zero character in it are the same to the code.\<close>

fun encode_loop :: "bool \<Rightarrow> bool \<Rightarrow> bool \<Rightarrow> byte list \<Rightarrow> nat \<Rightarrow> byte list \<Rightarrow> (bool \<times> nat \<times> byte list) option" where
  "encode_loop sg ab ap [] j buf = Some (True, j, buf)"
| "encode_loop sg ab ap (c # cs) j buf =
     (if c = 0 then Some (True, j, buf)
      else if ab \<and> c = 0x5C
      then (case cs of
              [] \<Rightarrow> Some (False, j, buf)
            | d # ds \<Rightarrow>
                if d = 0 then Some (False, j, buf)
                else if \<not> ksIsValidChar d
                then do { buf \<leftarrow> put j (ksToPercent sg d) buf; encode_loop sg ab ap ds (j + 3) buf }
                else do { buf \<leftarrow> put j [d] buf; encode_loop sg ab ap ds (j + 1) buf })
      else if ap \<and> c = 0x25
      then do { buf \<leftarrow> put j [c] buf;
                (case cs of
                   [] \<Rightarrow> Some (False, j + 1, buf)
                 | d # ds \<Rightarrow>
                     if \<not> isxdigit d then Some (False, j + 1, buf)
                     else do { buf \<leftarrow> put (j + 1) [d] buf;
                               (case ds of
                                  [] \<Rightarrow> Some (False, j + 2, buf)
                                | e # es \<Rightarrow>
                                    if \<not> isxdigit e then Some (False, j + 2, buf)
                                    else do { buf \<leftarrow> put (j + 2) [e] buf;
                                              encode_loop sg ab ap es (j + 3) buf }) }) }
      else if ksIsValidChar c \<or> ksIsDelim c
      then do { buf \<leftarrow> put j [c] buf; encode_loop sg ab ap cs (j + 1) buf }
      else do { buf \<leftarrow> put j (ksToPercent sg c) buf; encode_loop sg ab ap cs (j + 3) buf })"

definition ksEncodeString ::
  "(nat \<Rightarrow> byte list option) \<Rightarrow> bool \<Rightarrow> bool \<Rightarrow> bool \<Rightarrow> byte list \<Rightarrow> (ks_result + byte list) option" where
  "ksEncodeString new_char sg ab ap org =
     (case new_char (length org * 3 + 1) of
        None \<Rightarrow> Some (Inl KS_ERR_GENERIC)
      | Some buf \<Rightarrow>
          do { let len = verbatim_len org;
               buf \<leftarrow> put 0 (strncpy org len) buf;
               (ok, j, buf) \<leftarrow> encode_loop sg ab ap (drop len org) len buf;
               buf \<leftarrow> put j [0] buf;
               Some (if ok then Inr (takeWhile (\<lambda>c. c \<noteq> 0) buf) else Inl KS_ERR_BADNAME) })"

fun decode_loop :: "bool \<Rightarrow> byte list \<Rightarrow> nat \<Rightarrow> byte list \<Rightarrow> (bool \<times> nat \<times> byte list) option" where
  "decode_loop ub [] j buf = Some (True, j, buf)"
| "decode_loop ub (c # cs) j buf =
     (if c = 0 then Some (True, j, buf)
      else if c = 0x25
      then do { d \<leftarrow> ksFromPercent (cs @ [0]);
                if d = 0 then Some (False, j, buf)
                else if ub \<and> (d = 0x5C \<or> ksIsDelim d \<or> d = 0x25)
                then do { buf \<leftarrow> put j [0x5C, d] buf; decode_loop ub (drop 2 cs) (j + 2) buf }
                else do { buf \<leftarrow> put j [d] buf; decode_loop ub (drop 2 cs) (j + 1) buf } }
      else do { buf \<leftarrow> put j [c] buf; decode_loop ub cs (j + 1) buf })"

definition ksDecodeString :: "(nat \<Rightarrow> byte list option) \<Rightarrow> bool \<Rightarrow> byte list \<Rightarrow> (ks_result + byte list) option" where
  "ksDecodeString new_char ub org =
     (case new_char (length org + 1) of
        None \<Rightarrow> Some (Inl KS_ERR_GENERIC)
      | Some buf \<Rightarrow>
          do { (ok, j, buf) \<leftarrow> decode_loop ub org 0 buf;
               buf \<leftarrow> put j [0] buf;
               Some (if ok then Inr (takeWhile (\<lambda>c. c \<noteq> 0) buf) else Inl KS_ERR_BADNAME) })"

subsection \<open>Writing to a buffer\<close>

lemma put_prefix:
  assumes "j + length xs \<le> length buf"
  shows "\<exists>b. put j xs buf = Some b \<and> length b = length buf \<and> take (j + length xs) b = take j buf @ xs"
  using assms by (simp add: put_def)

lemma put_NoneI: "length buf < j + length xs \<Longrightarrow> put j xs buf = None"
  by (simp add: put_def)

lemma put_at:
  assumes "put j xs buf = Some b"
  shows "length b = length buf \<and> j + length xs \<le> length buf \<and> take (j + length xs) b = take j buf @ xs"
  using assms by (auto simp: put_def split: if_splits)

definition escaped :: "bool \<Rightarrow> (byte \<Rightarrow> bool) \<Rightarrow> byte list \<Rightarrow> byte list" where
  "escaped sg keep org = concat (map (\<lambda>c. if keep c then [c] else ksToPercent sg c) org)"

lemma length_ksToPercent [simp]: "length (ksToPercent sg c) = 3"
  by (simp add: ksToPercent_def Let_def)

lemma escaped_simps [simp]:
  "escaped sg keep [] = []"
  "escaped sg keep (c # cs) = (if keep c then [c] else ksToPercent sg c) @ escaped sg keep cs"
  by (simp_all add: escaped_def)

lemma length_escaped: "length (escaped sg keep org) = length org + 2 * length (filter (\<lambda>c. \<not> keep c) org)"
  by (induction org) auto

lemma escape_loop_spec:
  assumes "j + length (escaped sg keep cs) \<le> length res"
  shows "\<exists>b. escape_loop sg keep cs j res = Some (j + length (escaped sg keep cs), b) \<and> length b = length res \<and>
             take (j + length (escaped sg keep cs)) b = take j res @ escaped sg keep cs"
  using assms
proof (induction sg keep cs j res rule: escape_loop.induct)
  case (2 sg keep c cs j res)
  let ?x = "if keep c then [c] else ksToPercent sg c"
  obtain b where b: "put j ?x res = Some b" "length b = length res" "take (j + length ?x) b = take j res @ ?x"
    using put_prefix [of j ?x res] 2(3) by auto
  show ?case
  proof (cases "keep c")
    case True
    then show ?thesis using 2(1) [of b] 2(3) b by auto
  next
    case False
    then show ?thesis using 2(2) [of b] 2(3) b by (auto simp: add.assoc)
  qed
qed simp

lemma escape_spec:
  assumes "new_ok new_char"
  shows "escape new_char sg keep org = Some (escaped sg keep org)"
proof (cases "length (filter (\<lambda>c. \<not> keep c) org) = 0")
  case True
  then have "escaped sg keep org = org" by (induction org) (auto split: if_splits)
  then show ?thesis using True by (simp add: escape_def)
next
  case False
  let ?n = "length org + length (filter (\<lambda>c. \<not> keep c) org) * 2"
  obtain r where r: "new_char (?n + 1) = Some r" "length r = ?n + 1"
    using assms by (auto simp: new_ok_def)
  have n: "length (escaped sg keep org) = ?n" by (simp add: length_escaped)
  obtain b where b: "escape_loop sg keep org 0 r = Some (?n, b)" "length b = ?n + 1" "take ?n b = escaped sg keep org"
    using escape_loop_spec [of 0 sg keep org r] r(2) n by auto
  show ?thesis using False r b n by (simp add: escape_def Let_def put_def)
qed

subsection \<open>The decoder and its specification\<close>

text \<open>What decoding means: every percent sign and the two digits behind it stand for the character, which is not zero.\<close>

fun unpercent :: "byte list \<Rightarrow> byte list option" where
  "unpercent [] = Some []"
| "unpercent (c # cs) =
     (if c \<noteq> 0x25 then map_option ((#) c) (unpercent cs)
      else (case cs of
              a # b # r \<Rightarrow>
                if isxdigit a \<and> isxdigit b \<and> push_bit 4 (hex_val a) + hex_val b \<noteq> 0
                then map_option ((#) (push_bit 4 (hex_val a) + hex_val b)) (unpercent r)
                else None
            | _ \<Rightarrow> None))"

text \<open>The percent signs the code looks at are followed by two characters.\<close>

fun complete :: "byte list \<Rightarrow> bool" where
  "complete [] \<longleftrightarrow> True"
| "complete (c # cs) \<longleftrightarrow> (if c = 0x25 then 2 \<le> length cs \<and> complete (drop 2 cs) else complete cs)"

lemma complete_count: "complete cs \<Longrightarrow> 3 * count_percent cs \<le> length cs"
  by (induction cs rule: complete.induct) auto

lemma from_percent_two: "ksFromPercent (a # b # r) =
    Some (if isxdigit a \<and> isxdigit b then push_bit 4 (hex_val a) + hex_val b else 0)"
  by (simp add: ksFromPercent_def)

lemma unescape_loop_spec:
  assumes "complete cs" and "j + length cs \<le> length res + 2 * count_percent cs"
  shows "\<exists>b. unescape_loop cs j res = Some (unpercent cs \<noteq> None, b) \<and> length b = length res \<and>
             (\<forall>r. unpercent cs = Some r \<longrightarrow>
                length r + 2 * count_percent cs = length cs \<and> take (j + length r) b = take j res @ r)"
  using assms
proof (induction cs j res rule: unescape_loop.induct)
  case (2 c cs j res)
  show ?case
  proof (cases "c = 0x25")
    case False
    have "3 * count_percent cs \<le> length cs" using 2(3) False by (auto intro: complete_count)
    then have "j + 1 \<le> length res" using 2(4) False by simp
    then obtain b where b: "put j [c] res = Some b" "length b = length res" "take (j + 1) b = take j res @ [c]"
      using put_prefix [of j "[c]" res] by auto
    show ?thesis using 2(2) [OF False b(1)] 2(3,4) False b by (auto simp: b(1))
  next
    case True
    then obtain x y r where cs: "cs = x # y # r" using 2(3) by (cases cs; cases "tl cs") auto
    let ?d = "if isxdigit x \<and> isxdigit y then push_bit 4 (hex_val x) + hex_val y else 0"
    have d: "ksFromPercent (cs @ [0]) = Some ?d" by (simp add: cs from_percent_two)
    have "3 * count_percent r \<le> length r" using 2(3) True cs by (auto intro: complete_count)
    then have "j + 1 \<le> length res" using 2(4) True cs by simp
    then obtain b where b: "put j [?d] res = Some b" "length b = length res" "take (j + 1) b = take j res @ [?d]"
      using put_prefix [of j "[?d]" res] by auto
    show ?thesis
    proof (cases "?d = 0")
      case True
      then show ?thesis using \<open>c = 0x25\<close> d b by (auto simp: cs split: if_splits)
    next
      case False
      have 1: "isxdigit x" "isxdigit y" using False by presburger+
      obtain b' where b': "unescape_loop r (j + 1) b = Some (unpercent r \<noteq> None, b')" "length b' = length b"
        "\<forall>q. unpercent r = Some q \<longrightarrow> length q + 2 * count_percent r = length r \<and> take (j + 1 + length q) b' = take (j + 1) b @ q"
        using 2(1) [OF True d b(1) False] 2(3,4) True cs b(2) by auto
      have u: "unescape_loop (c # cs) j res = Some (unpercent r \<noteq> None, b')"
        using True d b(1) b'(1) False by (simp add: cs)
      have v: "unpercent (c # cs) = map_option ((#) ?d) (unpercent r)" using True False 1 by (simp add: cs)
      show ?thesis unfolding u v using b' b True by (auto simp: cs)
    qed
  qed
qed simp

lemma from_percent_spec:
  assumes "new_ok new_char" and "complete org" and "length org < 2 ^ 64"
  shows "ksStringFromPercent new_char org =
           Some (case unpercent org of None \<Rightarrow> Inl KS_ERR_BADNAME | Some r \<Rightarrow> Inr r)"
proof -
  have c: "3 * count_percent org \<le> length org" using assms(2) by (rule complete_count)
  show ?thesis
  proof (cases "count_percent org = 0")
    case True
    then have "unpercent org = Some org" by (induction org) (auto split: if_splits)
    with True show ?thesis by (simp add: ksStringFromPercent_def)
  next
    case False
    let ?n = "length org - count_percent org * 2"
    have n: "size_sub (length org) (count_percent org * 2) = ?n" "size_add ?n 1 = ?n + 1"
      using c False assms(3) by (simp_all add: size_sub_le size_add_def size_mod_def)
    obtain r where r: "new_char (?n + 1) = Some r" "length r = ?n + 1" using assms(1) by (auto simp: new_ok_def)
    obtain b where b: "unescape_loop org 0 r = Some (unpercent org \<noteq> None, b)" "length b = length r"
      "\<forall>q. unpercent org = Some q \<longrightarrow> length q + 2 * count_percent org = length org \<and> take (length q) b = q"
      using unescape_loop_spec [OF assms(2), of 0 r] r(2) c by auto
    have "\<forall>q. unpercent org = Some q \<longrightarrow> length q = ?n" using b(3) by auto
    then show ?thesis using False n r b by (auto simp: ksStringFromPercent_def put_def split: option.splits)
  qed
qed

text \<open>
  C24. On a string whose percent signs are all followed by two characters, \<open>ksStringFromPercent\<close> stays within its
  buffer and computes exactly the decoding: the decoded string, or KS_ERR_BADNAME when a sign is not followed by two
  hexadecimal digits or stands for the character 0.
\<close>

theorem from_percent_decodes:
  assumes "new_ok new_char" and "complete org" and "length org < 2 ^ 64"
  shows "ksStringFromPercent new_char org =
           Some (case unpercent org of None \<Rightarrow> Inl KS_ERR_BADNAME | Some r \<Rightarrow> Inr r)"
  using assms by (rule from_percent_spec)

theorem from_percent_decodes_witness:
  "ksStringFromPercent (\<lambda>n. Some (replicate n 0)) [0x61, 0x25, 0x32, 0x46] = Some (Inr [0x61, 0x2F])"
  using from_percent_decodes [where new_char = "\<lambda>n. Some (replicate n 0)" and org = "[0x61, 0x25, 0x32, 0x46]"]
  by (simp add: new_ok_def isxdigit_def isdigit_def hex_val_def)

subsection \<open>Decoding what was encoded\<close>

lemma hex_digit:
  assumes "n < 16"
  shows "isxdigit (hex_char (of_nat n)) \<and> hex_val (hex_char (of_nat n)) = of_nat n"
proof -
  have "\<forall>i\<in>set [0..<16]. isxdigit (hex_char (of_nat i)) \<and> hex_val (hex_char (of_nat i)) = of_nat i" by code_simp
  from less_16_all [OF this assms] show ?thesis .
qed

lemma ksToPercent_ok:
  assumes "sg \<longrightarrow> c < 0x80" and c: "c = of_nat (16 * h + l)" "h < 16" "l < 16" "unat c = 16 * h + l"
  shows "ksToPercent sg c = [0x25, hex_char (of_nat h), hex_char (of_nat l)]"
proof -
  have "sg \<longrightarrow> 16 * h + l < 128" using assms(1) c(4) by (simp add: word_less_nat_alt)
  then have "(if sg then scast c else ucast c) = (of_nat (16 * h + l) :: u32)"
    using c(1-3) ucast_byte [of "16 * h + l"] scast_byte_pos [of "16 * h + l"] by auto
  then show ?thesis using c(2,3) drop_bit_4_of_nat [of "16 * h + l"] mod_16_of_nat [of "16 * h + l"]
    by (simp add: ksToPercent_def Let_def del: of_nat_add of_nat_mult)
qed

lemma ksToPercent_bad:
  assumes c: "c = of_nat (16 * h + l)" "8 \<le> h" "h < 16" "l < 16"
  shows "ksToPercent True c = [0x25, 0x27 + of_nat h, hex_char (of_nat l)]"
proof -
  let ?n = "16 * h + l + 0xFFFFFF00"
  have d: "scast c = (of_nat ?n :: u32)" using c scast_byte_neg [of "16 * h + l"] by simp
  have e: "?n = (h + 0xFFFFFF0) * 16 + l" by simp
  have "?n div 16 = h + 0xFFFFFF0" unfolding e using c(4) by simp
  moreover have "?n mod 16 = l" unfolding e using c(4) by (simp only: mod_mult_self3 mod_less)
  moreover have "?n < 2 ^ 32" using c(3,4) by simp
  ultimately have "drop_bit 4 (scast c :: u32) = of_nat (h + 0xFFFFFF0)" "(scast c :: u32) mod 16 = of_nat l"
    using drop_bit_4_of_nat [of ?n] mod_16_of_nat [of ?n] d by (simp_all del: of_nat_add of_nat_mult)
  moreover have "(of_nat (h + 0xFFFFFF0) :: u32) = of_nat h + 0xFFFFFF0" by simp
  moreover have "\<forall>i\<in>set [0..<16]. 8 \<le> i \<longrightarrow> hex_char (of_nat i + 0xFFFFFF0) = 0x27 + of_nat i" by code_simp
  ultimately show ?thesis using less_16_all [where P = "\<lambda>i. 8 \<le> i \<longrightarrow> hex_char (of_nat i + 0xFFFFFF0) = 0x27 + of_nat i" and n = h] c(2,3)
    by (simp add: ksToPercent_def Let_def del: of_nat_add)
qed

lemma code_never_decodes:
  assumes "0x80 \<le> c"
  shows "unpercent (ksToPercent True c) \<noteq> Some [c]"
proof -
  obtain h l where c: "c = of_nat (16 * h + l)" "h < 16" "l < 16" "unat c = 16 * h + l" by (rule byte_split)
  have "8 \<le> h" using assms c(3,4) by (simp add: word_le_nat_alt)
  then have "h \<in> {8, 9, 10, 11, 12, 13, 14, 15}" using c(2) by auto
  then show ?thesis
    using ksToPercent_bad [OF c(1) \<open>8 \<le> h\<close> c(2,3)] hex_digit [OF c(3)] c(1)
    by (auto simp: isxdigit_def isdigit_def hex_val_def push_bit_eq_mult)
qed

lemma ksToPercent_plain:
  assumes "sg \<longrightarrow> c < 0x80"
  obtains a b where "ksToPercent sg c = [0x25, a, b]" "isxdigit a" "isxdigit b" "push_bit 4 (hex_val a) + hex_val b = c"
proof -
  obtain h l where c: "c = of_nat (16 * h + l)" "h < 16" "l < 16" "unat c = 16 * h + l" by (rule byte_split)
  show thesis
    using that [OF ksToPercent_ok [OF assms c]] hex_digit [OF c(2)] hex_digit [OF c(3)] c(1)
    by (simp add: push_bit_eq_mult)
qed

definition plain :: "bool \<Rightarrow> byte list \<Rightarrow> bool" where
  "plain sg s \<longleftrightarrow> (\<forall>c\<in>set s. c \<noteq> 0 \<and> (sg \<longrightarrow> c < 0x80))"

lemma plain_simps [simp]:
  "plain sg []"
  "plain sg (c # cs) \<longleftrightarrow> c \<noteq> 0 \<and> (sg \<longrightarrow> c < 0x80) \<and> plain sg cs"
  by (auto simp: plain_def)

lemma unpercent_escaped:
  assumes "plain sg s" "\<not> keep 0x25"
  shows "unpercent (escaped sg keep s) = Some s \<and> complete (escaped sg keep s)"
  using assms(1)
proof (induction s)
  case (Cons c cs)
  show ?case
  proof (cases "keep c")
    case True
    then show ?thesis using Cons assms(2) by auto
  next
    case False
    have "sg \<longrightarrow> c < 0x80" using Cons by simp
    then show ?thesis by (rule ksToPercent_plain) (use False Cons in auto)
  qed
qed simp

lemma not_valid_percent: "\<not> ksIsValidChar 0x25" "\<not> ksIsDelim 0x25"
  by (simp_all add: ksIsValidChar_def isdigit_def isupper_def islower_def ksIsDelim_def)

text \<open>
  C23. Where plain char is unsigned, and for 7-bit characters everywhere, decoding an encoded name or path gives it back.
\<close>

theorem percent_roundtrip:
  assumes "new_ok new_char" and "plain sg s" and "length s < 2 ^ 60"
  shows "(do { e \<leftarrow> ksStringToPercent new_char sg s; ksStringFromPercent new_char e }) = Some (Inr s) \<and>
         (do { e \<leftarrow> ksPathToPercent new_char sg s; ksStringFromPercent new_char e }) = Some (Inr s)"
proof -
  have short: "length (escaped sg keep s) < 2 ^ 64" for keep
    using assms(3) length_filter_le [of "\<lambda>c. \<not> keep c" s]
    by (simp add: length_escaped del: length_filter_le)
  have "ksStringFromPercent new_char (escaped sg keep s) = Some (Inr s)" if "\<not> keep 0x25" for keep
  proof -
    have u: "unpercent (escaped sg keep s) = Some s" "complete (escaped sg keep s)"
      using unpercent_escaped [where keep = keep, OF assms(2) that] by auto
    show ?thesis using from_percent_spec [OF assms(1) u(2) short] u(1) by simp
  qed
  then show ?thesis using not_valid_percent
    by (simp add: ksStringToPercent_def ksPathToPercent_def escape_spec [OF assms(1)])
qed

theorem percent_roundtrip_witness:
  "(do { e \<leftarrow> ksStringToPercent (\<lambda>n. Some (replicate n 0)) True [0x2F, 0x41];
         ksStringFromPercent (\<lambda>n. Some (replicate n 0)) e }) = Some (Inr [0x2F, 0x41])"
  using percent_roundtrip [where new_char = "\<lambda>n. Some (replicate n 0)" and sg = True and s = "[0x2F, 0x41]"] by (simp add: new_ok_def)

text \<open>
  Two ways to leave the scheme. Where plain char is signed, the code of a character from 0x80 on never decodes to
  that character: the high digit is computed from the sign-extended value. And decoding a name that ends in a bare
  percent sign writes behind the buffer, which is computed as if two more characters were there.
\<close>

theorem percent_breaks:
  assumes "0x80 \<le> c" and "new_ok new_char" and "0x25 \<notin> set name" and "length name < 2 ^ 62"
  shows "unpercent (ksToPercent True c) \<noteq> Some [c] \<and> ksStringFromPercent new_char (name @ [0x25]) = None"
proof
  show "unpercent (ksToPercent True c) \<noteq> Some [c]" using assms(1) by (rule code_never_decodes)
next
  have cnt: "count_percent (name @ [0x25]) = 1" using assms(3) by (induction name) auto
  have over: "unescape_loop (name @ [0x25]) j res = None" if "length res \<le> j + length name" for j res
    using assms(3) that
  proof (induction name arbitrary: j res)
    case Nil
    then show ?case by (simp add: ksFromPercent_def isxdigit_def isdigit_def put_def)
  next
    case (Cons a name)
    then have "unescape_loop (name @ [0x25]) (j + 1) b = None" if "length b = length res" for b
      using that by simp
    with Cons show ?case by (cases "put j [a] res") (auto dest: put_at)
  qed
  obtain k r where k: "size_add (size_sub (length name + 1) 2) 1 = k" "k \<le> length name"
      "new_char k = Some r" "length r = k"
  proof -
    let ?k = "size_add (size_sub (length name + 1) 2) 1"
    have "?k \<le> length name" using assms(4) by (cases name) (auto simp: size_add_def size_sub_def size_mod_def)
    moreover obtain r where "new_char ?k = Some r" "length r = ?k" using assms(2) by (auto simp: new_ok_def)
    ultimately show thesis by (intro that [of ?k r]) (rule refl)
  qed
  then show "ksStringFromPercent new_char (name @ [0x25]) = None"
    using over [of r 0] by (simp add: ksStringFromPercent_def cnt)
qed

theorem percent_breaks_witness:
  "ksStringFromPercent (\<lambda>n. Some (replicate n 0)) [0x61, 0x25] = None \<and> unpercent (ksToPercent True 0xE4) \<noteq> Some [0xE4]"
  using percent_breaks [where c = "0xE4" and new_char = "\<lambda>n. Some (replicate n 0)" and name = "[0x61]"] by (simp add: new_ok_def)

subsection \<open>Resource locators\<close>

lemma verbatim_len_le: "verbatim_len org \<le> length org"
  by (simp add: verbatim_len_def split: option.splits)

lemma length_strncpy [simp]: "n \<le> length p \<Longrightarrow> length (strncpy p n) = n"
  using length_takeWhile_le [of "\<lambda>c. c \<noteq> 0" "take n p"] by (simp add: strncpy_def Let_def)

lemma length_takeWhile_stop: "\<not> P x \<Longrightarrow> length (takeWhile P (xs @ x # ys)) \<le> length xs"
  by (induction xs) auto

lemma put_some: "j + length xs \<le> length buf \<Longrightarrow> \<exists>b. put j xs buf = Some b \<and> length b = length buf"
  using put_prefix by blast

text \<open>The main loop stays in a buffer with three places for each remaining character.\<close>

lemma encode_loop_bounded:
  assumes "j + 3 * length cs < length buf"
  shows "\<exists>ok j' b. encode_loop sg ab ap cs j buf = Some (ok, j', b) \<and> j' < length buf \<and> length b = length buf"
  using assms
proof (induction sg ab ap cs j buf rule: encode_loop.induct)
  case (2 sg ab ap c cs j buf)
  consider (zero) "c = 0" | (backslash) "c \<noteq> 0" "ab" "c = 0x5C" | (percent) "c \<noteq> 0" "\<not> (ab \<and> c = 0x5C)" "ap" "c = 0x25"
    | (other) "c \<noteq> 0" "\<not> (ab \<and> c = 0x5C)" "\<not> (ap \<and> c = 0x25)" by blast
  then show ?case
  proof cases
    case zero
    then show ?thesis using "2.prems" by auto
  next
    case backslash
    show ?thesis
    proof (cases cs)
      case Nil
      then show ?thesis using backslash "2.prems" by auto
    next
      case (Cons d ds)
      have e: "ab \<and> c = 0x5C" using backslash by simp
      let ?x = "if ksIsValidChar d then [d] else ksToPercent sg d"
      have "j + length ?x \<le> length buf" using "2.prems" Cons by simp
      then obtain b where b: "put j ?x buf = Some b" "length b = length buf" using put_some by blast
      show ?thesis
        using "2.IH"(1) [OF backslash(1) e Cons, of b] "2.IH"(2) [OF backslash(1) e Cons, of b] e b "2.prems" Cons
        by (cases "d = 0"; cases "ksIsValidChar d") auto
    qed
  next
    case percent
    then have e: "\<not> (ab \<and> c = 0x5C)" "ap \<and> c = 0x25" by simp_all
    obtain b1 where b1: "put j [c] buf = Some b1" "length b1 = length buf" using put_some [of j "[c]" buf] "2.prems" by auto
    obtain b2 where b2: "put (j + 1) [hd cs] b1 = Some b2" "length b2 = length buf"
      using put_some [of "j + 1" "[hd cs]" b1] "2.prems" b1(2) by auto
    obtain b3 where b3: "put (j + 2) [hd (tl cs)] b2 = Some b3" "length b3 = length buf"
      using put_some [of "j + 2" "[hd (tl cs)]" b2] "2.prems" b2(2) by auto
    show ?thesis
      using percent(1) e b1 b2 b3 "2.prems" "2.IH"(3) [OF percent(1) e b1(1), of "hd cs" "tl cs" b2 "hd (tl cs)" "tl (tl cs)" b3]
      by (cases cs; cases "tl cs") auto
  next
    case other
    let ?x = "if ksIsValidChar c \<or> ksIsDelim c then [c] else ksToPercent sg c"
    have "j + length ?x \<le> length buf" using "2.prems" by simp
    then obtain b where b: "put j ?x buf = Some b" "length b = length buf" using put_some by blast
    show ?thesis
      using other b "2.prems" "2.IH"(4) [OF other, of b] "2.IH"(5) [OF other, of b]
      by (cases "ksIsValidChar c \<or> ksIsDelim c") auto
  qed
qed auto

text \<open>
  Whatever the string and the flags, \<open>ksEncodeString\<close> stays within the buffer of three characters for each character
  of its argument, and succeeds or reports a bad name.
\<close>

theorem encode_stays_in_buffer:
  assumes "new_ok new_char"
  shows "ksEncodeString new_char sg ab ap org = Some (Inl KS_ERR_BADNAME) \<or>
         (\<exists>e. ksEncodeString new_char sg ab ap org = Some (Inr e) \<and> length e \<le> 3 * length org)"
proof -
  let ?v = "verbatim_len org"
  obtain r where r: "new_char (length org * 3 + 1) = Some r" "length r = length org * 3 + 1"
    using assms by (auto simp: new_ok_def)
  obtain b where b: "put 0 (strncpy org ?v) r = Some b" "length b = length r"
    using put_some [of 0 "strncpy org ?v" r] verbatim_len_le [of org] r(2) by auto
  have fits: "?v + 3 * (length org - ?v) < length org * 3 + 1" using verbatim_len_le [of org] by linarith
  obtain ok j c where c: "encode_loop sg ab ap (drop ?v org) ?v b = Some (ok, j, c)" "j < length b" "length c = length b"
    using encode_loop_bounded [of ?v "drop ?v org" b sg ab ap] fits r(2) b(2) by auto
  have "length (takeWhile (\<lambda>c. c \<noteq> 0) (take j c @ 0 # drop (Suc j) c)) \<le> 3 * length org"
    using c(2,3) b(2) r(2) length_takeWhile_stop [of "\<lambda>c. c \<noteq> 0" 0 "take j c" "drop (Suc j) c"] by simp
  then show ?thesis using r b(1) c by (simp add: ksEncodeString_def put_def Let_def)
qed

theorem encode_stays_in_buffer_witness:
  "ksEncodeString (\<lambda>n. Some (replicate n 0)) True True False [0x5C] \<noteq> None"
  using encode_stays_in_buffer [where new_char = "\<lambda>n. Some (replicate n 0)" and sg = True and ab = True and ap = False
      and org = "[0x5C]"] by (auto simp: new_ok_def)

definition path_char :: "byte \<Rightarrow> bool" where
  "path_char c \<longleftrightarrow> ksIsValidChar c \<or> ksIsDelim c"

text \<open>The human readable form of a name: characters that would be misread are preceded by a backslash.\<close>

definition readable :: "bool \<Rightarrow> byte list \<Rightarrow> byte list" where
  "readable ub s = concat (map (\<lambda>c. if ub \<and> (c = 0x5C \<or> c = 0x25) then [0x5C, c] else [c]) s)"

lemma readable_simps [simp]:
  "readable ub [] = []"
  "readable ub (c # cs) = (if ub \<and> (c = 0x5C \<or> c = 0x25) then [0x5C, c] else [c]) @ readable ub cs"
  by (simp_all add: readable_def)

lemma readable_plain: "readable False s = s"
  by (simp add: readable_def)

lemma special_chars: "\<not> path_char 0x25" "\<not> path_char 0x5C" "\<not> path_char 0" "\<not> ksIsValidChar 0x5C"
  by (simp_all add: path_char_def ksIsValidChar_def isdigit_def isupper_def islower_def ksIsDelim_def)

lemma isxdigit_nonzero: "isxdigit c \<Longrightarrow> c \<noteq> 0"
  by (auto simp: isxdigit_def isdigit_def)

lemma escaped_nonzero:
  assumes "plain sg s"
  shows "0 \<notin> set (escaped sg keep s)"
  using assms
proof (induction s)
  case (Cons c cs)
  then have "sg \<longrightarrow> c < 0x80" by simp
  then show ?case by (rule ksToPercent_plain) (use Cons isxdigit_nonzero in auto)
qed simp

lemma readable_nonzero: "plain sg s \<Longrightarrow> 0 \<notin> set (readable ub s)"
  by (induction s) auto

lemma length_readable: "length (readable ub s) \<le> length (escaped sg path_char s)"
  using special_chars by (induction s) auto

lemma terminated:
  assumes "put j [0] b = Some b'" "take j b = xs" "0 \<notin> set xs"
  shows "takeWhile (\<lambda>c. c \<noteq> 0) b' = xs"
  using assms takeWhile_neq_append [of 0 xs] by (auto simp: put_def split: if_splits)

text \<open>Encoding without escapes, and encoding the readable form with them, write the same characters.\<close>

lemma encode_loop_readable:
  assumes "plain sg s"
  shows "encode_loop sg ab False (readable ab s) j buf = map_option (\<lambda>(j, b). (True, j, b)) (escape_loop sg path_char s j buf)"
  using assms
proof (induction s arbitrary: j buf)
  case (Cons c cs)
  have "encode_loop sg ab False (readable ab (c # cs)) j buf =
      (if path_char c then do { b \<leftarrow> put j [c] buf; encode_loop sg ab False (readable ab cs) (j + 1) b }
       else do { b \<leftarrow> put j (ksToPercent sg c) buf; encode_loop sg ab False (readable ab cs) (j + 3) b })"
    using Cons(2) special_chars not_valid_percent by (cases ab) (auto simp: path_char_def)
  then show ?case using Cons
    by (cases "path_char c"; cases "put j [c] buf"; cases "put j (ksToPercent sg c) buf") simp_all
qed simp

lemma decode_loop_escaped:
  assumes "plain sg s" and "j + length (readable ub s) \<le> length buf"
  shows "\<exists>b. decode_loop ub (escaped sg path_char s) j buf = Some (True, j + length (readable ub s), b) \<and>
             length b = length buf \<and> take (j + length (readable ub s)) b = take j buf @ readable ub s"
  using assms
proof (induction s arbitrary: j buf)
  case (Cons c cs)
  let ?x = "if ub \<and> (c = 0x5C \<or> c = 0x25) then [0x5C, c] else [c]"
  obtain b where b: "put j ?x buf = Some b" "length b = length buf" "take (j + length ?x) b = take j buf @ ?x"
    using put_prefix [of j ?x buf] Cons(3) by auto
  have c: "c \<noteq> 0" "sg \<longrightarrow> c < 0x80" using Cons(2) by simp_all
  have step: "decode_loop ub (escaped sg path_char (c # cs)) j buf = decode_loop ub (escaped sg path_char cs) (j + length ?x) b"
  proof (cases "path_char c")
    case True
    then show ?thesis using b(1) c(1) special_chars by auto
  next
    case False
    then have "\<not> ksIsDelim c" by (simp add: path_char_def)
    from c(2) show ?thesis
      by (rule ksToPercent_plain) (use False b(1) c(1) \<open>\<not> ksIsDelim c\<close> in \<open>auto simp: from_percent_two\<close>)
  qed
  show ?case unfolding step using Cons(1) [of "j + length ?x" b] Cons(2,3) b by (auto simp: add.assoc)
qed simp

lemma no_locator: "take 2 s \<noteq> [0x2F, 0x2F] \<Longrightarrow> verbatim_len (readable ub s) = 0"
  by (cases s; cases "tl s") (auto simp: verbatim_len_def readable_def)

lemma encode_readable:
  assumes "new_ok new_char" and "plain sg s" and "take 2 s \<noteq> [0x2F, 0x2F]"
  shows "ksEncodeString new_char sg ab False (readable ab s) = Some (Inr (escaped sg path_char s))"
proof -
  let ?d = "readable ab s" and ?e = "escaped sg path_char s"
  obtain r where r: "new_char (length ?d * 3 + 1) = Some r" "length r = length ?d * 3 + 1"
    using assms(1) by (auto simp: new_ok_def)
  have "length s \<le> length ?d" by (induction s) auto
  then have fits: "length ?e < length r"
    using r(2) length_filter_le [of "\<lambda>c. \<not> path_char c" s] by (simp add: length_escaped del: length_filter_le)
  then obtain b where b: "escape_loop sg path_char s 0 r = Some (length ?e, b)" "length b = length r" "take (length ?e) b = ?e"
    using escape_loop_spec [of 0 sg path_char s r] by auto
  obtain b' where b': "put (length ?e) [0] b = Some b'" using put_some [of "length ?e" "[0]" b] fits b(2) by auto
  show ?thesis
    using r(1) no_locator [OF assms(3), of ab] encode_loop_readable [OF assms(2), of ab 0 r] b(1) b'
      terminated [OF b' b(3) escaped_nonzero [OF assms(2)]]
    by (simp add: ksEncodeString_def strncpy_def put_def [of 0 "[]"])
qed

text \<open>
  A name of 7-bit characters (of any characters where plain char is unsigned) that is not a resource locator is
  recovered from its encoding; its human readable form, with backslashes, is encoded to the same string again.
\<close>

theorem encode_decode:
  assumes "new_ok new_char" and "plain sg s" and "take 2 s \<noteq> [0x2F, 0x2F]"
  shows "\<exists>e d. ksEncodeString new_char sg False False s = Some (Inr e) \<and> ksDecodeString new_char False e = Some (Inr s) \<and>
               ksDecodeString new_char True e = Some (Inr d) \<and> ksEncodeString new_char sg True False d = Some (Inr e)"
proof -
  let ?e = "escaped sg path_char s"
  have dec: "ksDecodeString new_char ub ?e = Some (Inr (readable ub s))" for ub
  proof -
    obtain r where r: "new_char (length ?e + 1) = Some r" "length r = length ?e + 1"
      using assms(1) by (auto simp: new_ok_def)
    have fits: "length (readable ub s) < length r" using r(2) length_readable [of ub s sg] by simp
    then obtain b where b: "decode_loop ub ?e 0 r = Some (True, length (readable ub s), b)" "length b = length r"
        "take (length (readable ub s)) b = readable ub s"
      using decode_loop_escaped [OF assms(2), of 0 ub r] by auto
    obtain b' where b': "put (length (readable ub s)) [0] b = Some b'"
      using put_some [of "length (readable ub s)" "[0]" b] fits b(2) by auto
    show ?thesis using r(1) b(1) b' terminated [OF b' b(3) readable_nonzero [OF assms(2)]]
      by (simp add: ksDecodeString_def)
  qed
  show ?thesis
    using dec [of False] dec [of True] encode_readable [OF assms, of False] encode_readable [OF assms, of True]
    by (simp add: readable_plain)
qed

theorem encode_decode_witness:
  "\<exists>e. ksEncodeString (\<lambda>n. Some (replicate n 0)) True False False [0x61, 0x25] = Some (Inr e) \<and>
       ksDecodeString (\<lambda>n. Some (replicate n 0)) False e = Some (Inr [0x61, 0x25])"
  using encode_decode [where new_char = "\<lambda>n. Some (replicate n 0)" and sg = True and s = "[0x61, 0x25]"]
  by (auto simp: new_ok_def)

end
