(* ===== verification/KsPath.thy ===== *)
theory KsPath
  imports KsConversions
begin

text \<open>
  Path names of communication objects: ks/include/ks/path.h, ks/src/path.cpp, with \<open>substr\<close> and the concatenation of
  plt/src/string.cpp. A path keeps the string and the index of each component in it; relative paths keep how many levels
  of the context they leave. A string is the list of its characters, in memory a zero follows. Reading behind that zero is
  a fault, the outer option. \<open>mem n\<close> says whether an array of \<open>n\<close> indices can be allocated.
\<close>

record kspath =
  pstr :: "byte list"
  valid :: bool
  slash :: "nat list"
  ifirst :: nat
  ilast :: nat
  go_up :: nat

subsection \<open>Strings\<close>

definition c_str :: "byte list \<Rightarrow> byte list" where
  "c_str s = takeWhile (\<lambda>c. c \<noteq> 0) s"

definition substr :: "byte list \<Rightarrow> nat \<Rightarrow> nat \<Rightarrow> byte list" where
  "substr s i n =
     (if i = 0 \<and> length s \<le> n then s else if i < length s then take n (c_str (drop i s)) else [])"

definition concat2 :: "byte list \<Rightarrow> byte list \<Rightarrow> byte list" where
  "concat2 a b = c_str a @ c_str b"

subsection \<open>Parsing\<close>

text \<open>The ``stay here'' and ``go up'' components in front of a relative path.\<close>

fun points :: "byte list \<Rightarrow> bool \<Rightarrow> nat \<Rightarrow> (byte list \<times> bool \<times> nat) option" where
  "points [] ws g = Some ([], ws, g)"
| "points (c # cs) ws g =
     (if c \<noteq> 0x2E then Some (c # cs, ws, g)
      else (case cs of
              [] \<Rightarrow> None
            | d # ds \<Rightarrow>
                if d = 0x2E
                then (case ds of [] \<Rightarrow> None | e # es \<Rightarrow> if e = 0x2F then points es True (g + 1) else None)
                else if d = 0x2F then points ds True g else None))"

fun count_slashes :: "byte list \<Rightarrow> bool \<Rightarrow> nat option" where
  "count_slashes [] ws = Some 0"
| "count_slashes (c # cs) ws =
     (if c = 0 then Some 0
      else if c = 0x2F then (if ws then None else map_option Suc (count_slashes cs True))
      else count_slashes cs False)"

text \<open>Validity, number of slashes and \<open>_go_up\<close>. An empty path leaves \<open>_go_up\<close> unset; nothing reads it then.\<close>

definition checkAndCount :: "byte list \<Rightarrow> bool \<times> nat \<times> nat" where
  "checkAndCount s =
     (case s of
        [] \<Rightarrow> (False, 0, 0)
      | c # cs \<Rightarrow>
          if c = 0 then (False, 0, 0)
          else if c = 0x2F
          then (case count_slashes cs True of None \<Rightarrow> (False, 0, 0) | Some n \<Rightarrow> (True, n, 0))
          else (case points s False 1 of
                  None \<Rightarrow> (False, 0, 1)
                | Some (p, ws, g) \<Rightarrow> (case count_slashes p ws of None \<Rightarrow> (False, 0, g) | Some n \<Rightarrow> (True, n, g))))"

text \<open>The index behind each of the next \<open>n\<close> slashes, from index \<open>si\<close> on.\<close>

fun next_slashes :: "byte list \<Rightarrow> nat \<Rightarrow> nat \<Rightarrow> nat list option" where
  "next_slashes cs si 0 = Some []"
| "next_slashes [] si (Suc n) = None"
| "next_slashes (c # cs) si (Suc n) =
     (if c = 0x2F then map_option ((#) (si + 1)) (next_slashes cs (si + 1) n) else next_slashes cs (si + 1) (Suc n))"

definition findSlashes :: "kspath \<Rightarrow> kspath option" where
  "findSlashes p =
     (if slash p = [] then Some (p\<lparr>valid := False\<rparr>)
      else if \<not> valid p then Some p
      else let si = length (takeWhile (\<lambda>c. c = 0x2F \<or> c = 0x2E) (pstr p));
               maxidx = length (slash p) - 1
           in do { rest \<leftarrow> next_slashes (drop si (pstr p) @ [0]) si (maxidx - 1);
                   Some (p\<lparr>slash := si # rest @ [size_max], ilast := maxidx - 1\<rparr>) })"

definition new_array_of :: "(nat \<Rightarrow> bool) \<Rightarrow> nat \<Rightarrow> nat list" where
  "new_array_of mem n = (if mem n then replicate n 0 else [])"

definition path_of :: "(nat \<Rightarrow> bool) \<Rightarrow> byte list \<Rightarrow> kspath option" where
  "path_of mem s =
     (case checkAndCount s of
        (v, n, g) \<Rightarrow>
          findSlashes \<lparr>pstr = s, valid = v, slash = new_array_of mem (n + 2), ifirst = 0, ilast = 0, go_up = g\<rparr>)"

definition root_path :: "(nat \<Rightarrow> bool) \<Rightarrow> kspath" where
  "root_path mem =
     \<lparr>pstr = [0x2F], valid = mem 2, slash = (if mem 2 then [1, 1] else []), ifirst = 0, ilast = 0, go_up = 0\<rparr>"

subsection \<open>Access\<close>

definition isAbsolute :: "kspath \<Rightarrow> bool" where
  "isAbsolute p \<longleftrightarrow> go_up p = 0"

definition path_size :: "kspath \<Rightarrow> nat" where
  "path_size p = (if valid p then ilast p - ifirst p + 1 else 0)"

text \<open>The components \<open>first\<close> to \<open>last\<close> as a path of its own, \<open>getHead\<close>, \<open>getTail\<close>, and the component with an index.\<close>

definition sub_path :: "kspath \<Rightarrow> nat \<Rightarrow> nat \<Rightarrow> kspath" where
  "sub_path p f l = p\<lparr>ifirst := f + ifirst p, ilast := l + ifirst p, go_up := 1\<rparr>"

definition path_nth :: "kspath \<Rightarrow> nat \<Rightarrow> byte list" where
  "path_nth p i =
     substr (pstr p) (slash p ! (ifirst p + i))
       (size_sub (size_sub (slash p ! (ifirst p + i + 1)) (slash p ! (ifirst p + i))) 1)"

definition getHead :: "kspath \<Rightarrow> byte list" where
  "getHead p = path_nth p 0"

definition getTail :: "kspath \<Rightarrow> kspath" where
  "getTail p = sub_path p 1 (path_size p - 1)"

definition to_string :: "kspath \<Rightarrow> byte list" where
  "to_string p =
     concat2 (if isAbsolute p then [0x2F] else concat (replicate (go_up p - 1) [0x2E, 0x2E, 0x2F]))
       (substr (pstr p) (slash p ! ifirst p) (size_sub (slash p ! (ilast p + 1)) (slash p ! ifirst p)))"

subsection \<open>Resolution\<close>

text \<open>The constructor that appends a relative path to a prefix of an absolute one.\<close>

definition append_path :: "(nat \<Rightarrow> bool) \<Rightarrow> kspath \<Rightarrow> kspath \<Rightarrow> kspath option" where
  "append_path mem this rel =
     findSlashes
       \<lparr>pstr = concat2 (substr (pstr this) 0 (slash this ! (ilast this + 1 - go_up rel)))
                (substr (pstr rel) (slash rel ! ifirst rel) (size_sub (slash rel ! (ilast rel + 1)) (slash rel ! ifirst rel))),
        valid = True, slash = new_array_of mem (path_size this - go_up rel + path_size rel + 1),
        ifirst = 0, ilast = path_size this - go_up rel + path_size rel, go_up = 0\<rparr>"

definition resolve :: "(nat \<Rightarrow> bool) \<Rightarrow> kspath \<Rightarrow> kspath \<Rightarrow> kspath option" where
  "resolve mem this rel =
     (if isAbsolute rel then Some rel
      else if go_up rel \<le> path_size this then append_path mem this rel
      else path_of mem [0x2F, 0x2F])"

text \<open>
  \<open>decodePercents\<close>: the number of percent signs up to each index, counted from the first component on, tells how far the
  index moves.
\<close>

fun move_slashes :: "byte list \<Rightarrow> nat \<Rightarrow> nat \<Rightarrow> nat list \<Rightarrow> nat list" where
  "move_slashes s prev cnt [] = []"
| "move_slashes s prev cnt [final] = [final]"
| "move_slashes s prev cnt (i # j # is) =
     (let cnt = cnt + length (filter (\<lambda>c. c = 0x25) (take (i - prev) (drop prev s)))
      in size_sub i (2 * cnt) # move_slashes s i cnt (j # is))"

definition decodePercents :: "(nat \<Rightarrow> byte list option) \<Rightarrow> kspath \<Rightarrow> (ks_result \<times> kspath) option" where
  "decodePercents new_char p =
     do { r \<leftarrow> ksStringFromPercent new_char (pstr p);
          Some (case r of
                  Inl e \<Rightarrow> (e, p)
                | Inr s \<Rightarrow>
                    (KS_ERR_OK, p\<lparr>slash := hd (slash p) # move_slashes (pstr p) (hd (slash p)) 0 (tl (slash p)), pstr := s\<rparr>)) }"

text \<open>The two loops of \<open>resolvePaths\<close>.\<close>

fun resolve_loop :: "(nat \<Rightarrow> bool) \<Rightarrow> kspath \<Rightarrow> byte list list \<Rightarrow> (kspath \<times> ks_result) list option" where
  "resolve_loop mem context [] = Some []"
| "resolve_loop mem context (s # ids) =
     do { path \<leftarrow> path_of mem s;
          (path, res) \<leftarrow>
            (if valid path
             then (if valid context
                   then do { path \<leftarrow> resolve mem context path;
                             Some (path, if valid path then KS_ERR_OK else KS_ERR_BADPATH) }
                   else Some (path, if isAbsolute path then KS_ERR_OK else KS_ERR_BADPATH))
             else Some (path, KS_ERR_BADPATH));
          rest \<leftarrow> resolve_loop mem path ids;
          Some ((path, res) # rest) }"

fun decode_paths :: "(nat \<Rightarrow> byte list option) \<Rightarrow> (kspath \<times> ks_result) list \<Rightarrow> (kspath \<times> ks_result) list option" where
  "decode_paths new_char [] = Some []"
| "decode_paths new_char ((p, res) # ps) =
     do { (res, p) \<leftarrow> (if res = KS_ERR_OK then decodePercents new_char p else Some (res, p));
          rest \<leftarrow> decode_paths new_char ps;
          Some ((p, res) # rest) }"

definition resolvePaths ::
  "(nat \<Rightarrow> bool) \<Rightarrow> (nat \<Rightarrow> byte list option) \<Rightarrow> byte list list \<Rightarrow> (kspath \<times> ks_result) list option" where
  "resolvePaths mem new_char ids =
     do { context \<leftarrow> path_of mem [0x2F, 0x2F];
          ps \<leftarrow> resolve_loop mem context ids;
          decode_paths new_char ps }"

subsection \<open>Sequences of components\<close>

fun join :: "byte list list \<Rightarrow> byte list" where
  "join [] = []"
| "join [c] = c"
| "join (c # d # cs) = c @ 0x2F # join (d # cs)"

fun offsets :: "nat \<Rightarrow> byte list list \<Rightarrow> nat list" where
  "offsets k [] = []"
| "offsets k [c] = [k]"
| "offsets k (c # d # cs) = k # offsets (k + length c + 1) (d # cs)"

text \<open>Components a path text can have: no slash in them, only the last may be empty, and the first has no leading dot.\<close>

definition comps_ok :: "byte list list \<Rightarrow> bool" where
  "comps_ok cs \<longleftrightarrow> cs \<noteq> [] \<and> (\<forall>c\<in>set cs. 0 \<notin> set c \<and> 0x2F \<notin> set c) \<and> (\<forall>c\<in>set (butlast cs). c \<noteq> []) \<and>
                (hd cs = [] \<or> hd (hd cs) \<noteq> 0x2E)"

definition seps :: "byte list list \<Rightarrow> bool" where
  "seps cs \<longleftrightarrow> cs \<noteq> [] \<and> (\<forall>c\<in>set cs. 0 \<notin> set c \<and> 0x2F \<notin> set c) \<and> (\<forall>c\<in>set (butlast cs). c \<noteq> [])"

lemma seps_tail: "seps (c # d # cs) \<Longrightarrow> seps (d # cs) \<and> c \<noteq> [] \<and> 0 \<notin> set c \<and> 0x2F \<notin> set c"
  by (simp add: seps_def)

lemma comps_ok_seps: "comps_ok cs \<Longrightarrow> seps cs"
  by (simp add: comps_ok_def seps_def)

lemma length_offsets [simp]: "length (offsets k cs) = length cs"
  by (induction k cs rule: offsets.induct) auto

lemma offsets_Cons: "cs \<noteq> [] \<Longrightarrow> offsets k cs = k # tl (offsets k cs)"
  by (cases "(k, cs)" rule: offsets.cases) auto

lemma count_slashes_name:
  "0 \<notin> set c \<Longrightarrow> 0x2F \<notin> set c \<Longrightarrow> count_slashes (c @ r) ws = count_slashes r (if c = [] then ws else False)"
  by (induction c arbitrary: ws) auto

lemma count_slashes_join: "seps cs \<Longrightarrow> count_slashes (join cs) ws = Some (length cs - 1)"
proof (induction cs arbitrary: ws rule: join.induct)
  case (2 c)
  then show ?case using count_slashes_name [of c "[]" ws] by (simp add: seps_def)
next
  case (3 c d cs)
  have s: "seps (d # cs)" "c \<noteq> []" "0 \<notin> set c" "0x2F \<notin> set c" using seps_tail [OF 3(2)] by auto
  show ?case using count_slashes_name [OF s(3,4), of "0x2F # join (d # cs)" ws] 3(1) [OF s(1)] s(2) by simp
qed (simp add: seps_def)

lemma next_slashes_name:
  "0x2F \<notin> set c \<Longrightarrow> next_slashes (c @ 0x2F # r) si (Suc n) =
     map_option ((#) (si + length c + 1)) (next_slashes r (si + length c + 1) n)"
  by (induction c arbitrary: si) auto

lemma next_slashes_join: "seps cs \<Longrightarrow> next_slashes (join cs @ [0]) si (length cs - 1) = Some (tl (offsets si cs))"
proof (induction cs arbitrary: si rule: join.induct)
  case (3 c d cs)
  have s: "seps (d # cs)" "0x2F \<notin> set c" using seps_tail [OF 3(2)] by auto
  show ?case
    using next_slashes_name [OF s(2), of "join (d # cs) @ [0]" si "length cs"] 3(1) [OF s(1), of "si + length c + 1"]
      offsets_Cons [of "d # cs" "si + length c + 1"] by simp
qed (simp_all add: seps_def)

lemma join_start: "comps_ok cs \<Longrightarrow> join cs = [] \<or> hd (join cs) \<noteq> 0x2F \<and> hd (join cs) \<noteq> 0x2E"
  by (cases cs rule: join.cases) (auto simp: comps_ok_def hd_append dest: hd_in_set)

lemma join_plain: "\<forall>c\<in>set cs. 0 \<notin> set c \<Longrightarrow> 0 \<notin> set (join cs)"
  by (induction cs rule: join.induct) auto

subsection \<open>What a path object stands for\<close>

definition layout :: "kspath \<Rightarrow> byte list \<Rightarrow> byte list list \<Rightarrow> bool" where
  "layout p pre cs \<longleftrightarrow> valid p \<and> cs \<noteq> [] \<and> 0 \<notin> set pre \<and> (\<forall>c\<in>set cs. 0 \<notin> set c) \<and> pstr p = pre @ join cs \<and>
     slash p = offsets (length pre) cs @ [size_max] \<and> ifirst p = 0 \<and> ilast p = length cs - 1 \<and>
     length (pstr p) < 2 ^ 63"

definition represents :: "kspath \<Rightarrow> nat \<Rightarrow> byte list list \<Rightarrow> bool" where
  "represents p g cs \<longleftrightarrow> (\<exists>pre. layout p pre cs \<and> set pre \<subseteq> {0x2F, 0x2E} \<and> (g = 0 \<longrightarrow> pre = [0x2F])) \<and>
     comps_ok cs \<and> go_up p = g"

definition components :: "kspath \<Rightarrow> byte list list" where
  "components p = map (path_nth p) [0..<path_size p]"

lemma substr_plain: "0 \<notin> set s \<Longrightarrow> substr s i n = take n (drop i s)"
proof -
  assume s: "0 \<notin> set s"
  have "0 \<notin> set (drop i s)" using s in_set_dropD by fastforce
  then show ?thesis by (simp add: substr_def c_str_def takeWhile_neq_id)
qed

definition off :: "byte list list \<Rightarrow> nat \<Rightarrow> nat" where
  "off cs i = length (concat (map (\<lambda>c. c @ [0x2F]) (take i cs)))"

lemma off_simps [simp]:
  "off cs 0 = 0"
  "off (c # cs) (Suc i) = length c + 1 + off cs i"
  by (simp_all add: off_def)

lemma offsets_nth: "i < length cs \<Longrightarrow> offsets k cs ! i = k + off cs i"
proof (induction k cs arbitrary: i rule: offsets.induct)
  case (3 k c d cs)
  then show ?case by (cases i) auto
qed auto

lemma drop_join: "i < length cs \<Longrightarrow> drop (off cs i) (join cs) = join (drop i cs)"
proof (induction cs arbitrary: i rule: join.induct)
  case (3 c d cs)
  then show ?case by (cases i) auto
qed auto

lemma take_join: "i < length cs \<Longrightarrow> take (off cs i) (join cs) = concat (map (\<lambda>c. c @ [0x2F]) (take i cs))"
proof (induction cs arbitrary: i rule: join.induct)
  case (3 c d cs)
  then show ?case by (cases i) auto
qed auto

lemma layout_plain: "layout p pre cs \<Longrightarrow> 0 \<notin> set (pstr p)"
  using join_plain by (auto simp: layout_def)

lemma layout_size: "layout p pre cs \<Longrightarrow> path_size p = length cs"
  by (simp add: layout_def path_size_def)

lemma layout_slash: "layout p pre cs \<Longrightarrow> i < length cs \<Longrightarrow> slash p ! i = length pre + off cs i"
  by (simp add: layout_def nth_append offsets_nth)

lemma layout_final: "layout p pre cs \<Longrightarrow> slash p ! length cs = size_max"
  by (simp add: layout_def nth_append)

lemma layout_drop: "layout p pre cs \<Longrightarrow> i < length cs \<Longrightarrow> drop (length pre + off cs i) (pstr p) = join (drop i cs)"
  by (simp add: layout_def drop_join)

lemma off_le: "i < length cs \<Longrightarrow> off cs i \<le> length (join cs)"
proof (induction cs arbitrary: i rule: join.induct)
  case (3 c d cs)
  then show ?case by (cases i) auto
qed auto

lemma off_Suc: "i < length cs \<Longrightarrow> off cs (Suc i) = off cs i + length (cs ! i) + 1"
  by (simp add: off_def take_Suc_conv_app_nth)

lemma layout_nth:
  assumes p: "layout p pre cs" and i: "i < length cs"
  shows "path_nth p i = cs ! i"
proof -
  have len: "length pre + off cs i \<le> length (pstr p)" "length (pstr p) < 2 ^ 63" "ifirst p = 0"
    using p off_le [OF i] by (auto simp: layout_def)
  have d: "drop i cs = cs ! i # drop (Suc i) cs" using i by (rule drop_eq_nth_Cons)
  show ?thesis
  proof (cases "Suc i < length cs")
    case True
    then obtain e es where e: "drop (Suc i) cs = e # es" by (cases "drop (Suc i) cs") auto
    have "path_nth p i = take (length (cs ! i)) (join (drop i cs))"
      using layout_slash [OF p i] layout_slash [OF p True] off_Suc [OF i] len(3) layout_drop [OF p i]
        substr_plain [OF layout_plain [OF p]]
      by (simp add: path_nth_def size_sub_def)
    then show ?thesis by (simp add: d e)
  next
    case False
    then have e: "Suc i = length cs" using i by simp
    have "path_nth p i = take (size_max - (length pre + off cs i) - 1) (join (drop i cs))"
      using layout_slash [OF p i] layout_final [OF p] len layout_drop [OF p i] substr_plain [OF layout_plain [OF p]] e
      by (simp add: path_nth_def size_sub_def size_max_def size_mod_def)
    moreover have "length (join (drop i cs)) = length (pstr p) - (length pre + off cs i)"
      using layout_drop [OF p i] length_drop by metis
    moreover have "drop i cs = [cs ! i]" using d e by simp
    ultimately show ?thesis using len by (simp add: size_max_def size_mod_def)
  qed
qed

lemma layout_components: "layout p pre cs \<Longrightarrow> components p = cs"
  unfolding components_def by (rule nth_equalityI) (auto simp: layout_size layout_nth)

lemma findSlashes_layout:
  assumes "pstr p = pre @ join cs" "set pre \<subseteq> {0x2F, 0x2E}" "comps_ok cs" "valid p" "length (slash p) = length cs + 1"
    "ifirst p = 0" "length (pstr p) < 2 ^ 63"
  shows "\<exists>q. findSlashes p = Some q \<and> layout q pre cs \<and> go_up q = go_up p"
proof -
  have cs: "cs \<noteq> []" "seps cs" using assms(3) comps_ok_seps by (simp_all add: comps_ok_def)
  have "takeWhile (\<lambda>c. c = 0x2F \<or> c = 0x2E) (pre @ join cs) = pre @ takeWhile (\<lambda>c. c = 0x2F \<or> c = 0x2E) (join cs)"
    using assms(2) by (intro takeWhile_append2) auto
  also have "takeWhile (\<lambda>c. c = 0x2F \<or> c = 0x2E) (join cs) = []"
    using join_start [OF assms(3)] by (cases "join cs") auto
  finally have skip: "length (takeWhile (\<lambda>c. c = 0x2F \<or> c = 0x2E) (pstr p)) = length pre" by (simp add: assms(1))
  have "slash p \<noteq> []" using assms(5) by auto
  moreover have "next_slashes (join cs @ [0]) (length pre) (length cs - 1) = Some (tl (offsets (length pre) cs))"
    using cs(2) by (rule next_slashes_join)
  ultimately have "findSlashes p = Some (p\<lparr>slash := offsets (length pre) cs @ [size_max], ilast := length cs - 1\<rparr>)"
    using assms(1,4,5) skip offsets_Cons [OF cs(1), of "length pre"] by (simp add: findSlashes_def Let_def)
  moreover have "0 \<notin> set pre" using assms(2) by auto
  ultimately show ?thesis using assms(1,3,4,6,7) cs(1) by (auto simp: layout_def comps_ok_def)
qed

subsection \<open>Parsing and printing\<close>

definition updirs :: "bool list \<Rightarrow> byte list" where
  "updirs bs = concat (map (\<lambda>b. if b then [0x2E, 0x2E, 0x2F] else [0x2E, 0x2F]) bs)"

lemma updirs_simps [simp]:
  "updirs [] = []"
  "updirs (b # bs) = (if b then [0x2E, 0x2E, 0x2F] else [0x2E, 0x2F]) @ updirs bs"
  by (simp_all add: updirs_def)

lemma updirs_chars: "set (updirs bs) \<subseteq> {0x2F, 0x2E}"
  by (induction bs) auto

lemma points_updirs:
  assumes "r = [] \<or> hd r \<noteq> 0x2E"
  shows "points (updirs bs @ r) ws g = Some (r, bs \<noteq> [] \<or> ws, g + length (filter id bs))"
proof (induction bs arbitrary: ws g)
  case Nil
  show ?case using assms by (cases r) auto
next
  case (Cons b bs)
  then show ?case by simp
qed

lemma new_array_of_ok: "\<forall>n. mem n \<Longrightarrow> length (new_array_of mem n) = n"
  by (simp add: new_array_of_def)

lemma parse_absolute:
  assumes "\<forall>n. mem n" "comps_ok cs" "length (join cs) < 2 ^ 62"
  shows "\<exists>p. path_of mem (0x2F # join cs) = Some p \<and> represents p 0 cs"
proof -
  have c: "cs \<noteq> []" using assms(2) by (simp add: comps_ok_def)
  have "checkAndCount (0x2F # join cs) = (True, length cs - 1, 0)"
    using count_slashes_join [OF comps_ok_seps [OF assms(2)]] by (simp add: checkAndCount_def)
  then show ?thesis
    using findSlashes_layout [where pre = "[0x2F]" and cs = cs
        and p = "\<lparr>pstr = 0x2F # join cs, valid = True, slash = new_array_of mem (length cs - 1 + 2), ifirst = 0, ilast = 0, go_up = 0\<rparr>"]
      assms c new_array_of_ok [OF assms(1)]
    by (auto simp: path_of_def represents_def)
qed

lemma parse_relative:
  assumes "\<forall>n. mem n" "comps_ok cs" "length (updirs bs @ join cs) < 2 ^ 62" "updirs bs @ join cs \<noteq> []"
  shows "\<exists>p. path_of mem (updirs bs @ join cs) = Some p \<and> represents p (1 + length (filter id bs)) cs \<and>
             layout p (updirs bs) cs"
proof -
  let ?s = "updirs bs @ join cs" and ?g = "1 + length (filter id bs)"
  have c: "cs \<noteq> []" using assms(2) by (simp add: comps_ok_def)
  have start: "join cs = [] \<or> hd (join cs) \<noteq> 0x2E" using join_start [OF assms(2)] by blast
  have "\<exists>a r. ?s = a # r \<and> a \<noteq> 0 \<and> a \<noteq> 0x2F"
  proof (cases bs)
    case Nil
    have "0 \<notin> set (join cs)" using assms(2) join_plain [of cs] by (auto simp: comps_ok_def)
    then show ?thesis using Nil assms(4) join_start [OF assms(2)] by (cases "join cs") auto
  qed auto
  then have "checkAndCount ?s = (True, length cs - 1, ?g)"
    using points_updirs [OF start, of bs False 1] count_slashes_join [OF comps_ok_seps [OF assms(2)], of "bs \<noteq> []"]
    by (auto simp: checkAndCount_def)
  moreover obtain q where q: "findSlashes \<lparr>pstr = ?s, valid = True, slash = new_array_of mem (length cs - 1 + 2), ifirst = 0,
      ilast = 0, go_up = ?g\<rparr> = Some q" "layout q (updirs bs) cs" "go_up q = ?g"
    using findSlashes_layout [where pre = "updirs bs" and cs = cs
        and p = "\<lparr>pstr = ?s, valid = True, slash = new_array_of mem (length cs - 1 + 2), ifirst = 0, ilast = 0, go_up = ?g\<rparr>"]
      assms c new_array_of_ok [OF assms(1)] updirs_chars by auto
  moreover have "represents q ?g cs" unfolding represents_def using q(2,3) updirs_chars [of bs] assms(2) by auto
  ultimately show ?thesis using q(2) by (simp add: path_of_def)
qed

lemma represents_components: "represents p g cs \<Longrightarrow> components p = cs \<and> valid p \<and> go_up p = g"
  using layout_components by (auto simp: represents_def layout_def)

lemma layout_rest:
  assumes p: "layout p pre cs"
  shows "substr (pstr p) (slash p ! ifirst p) (size_sub (slash p ! (ilast p + 1)) (slash p ! ifirst p)) = join cs"
proof -
  have c: "0 < length cs" "ilast p + 1 = length cs" "ifirst p = 0" "length (pstr p) < 2 ^ 63" "length pre \<le> length (pstr p)"
    using p by (auto simp: layout_def)
  have s: "slash p ! 0 = length pre" using layout_slash [OF p c(1)] by simp
  then have "size_sub (slash p ! (ilast p + 1)) (slash p ! ifirst p) = size_max - length pre"
    using layout_final [OF p] c by (simp add: size_sub_def size_max_def size_mod_def)
  moreover have "drop (length pre) (pstr p) = join cs" using layout_drop [OF p c(1)] by simp
  moreover have "length (join cs) \<le> size_max - length pre" using p c(4) by (simp add: layout_def size_max_def size_mod_def)
  ultimately show ?thesis using s c(3) substr_plain [OF layout_plain [OF p]] by simp
qed

lemma concat2_plain: "0 \<notin> set a \<Longrightarrow> 0 \<notin> set b \<Longrightarrow> concat2 a b = a @ b"
  by (simp add: concat2_def c_str_def takeWhile_neq_id)

lemma represents_join_plain: "represents p g cs \<Longrightarrow> 0 \<notin> set (join cs)"
  by (rule join_plain) (auto simp: represents_def comps_ok_def)

lemma to_string_layout:
  assumes "layout p pre cs" "go_up p = 0"
  shows "to_string p = 0x2F # join cs"
proof -
  have "0 \<notin> set (join cs)" using assms(1) by (intro join_plain) (simp add: layout_def)
  then show ?thesis unfolding to_string_def layout_rest [OF assms(1)] using assms(2) concat2_plain by (simp add: isAbsolute_def)
qed

lemma to_string_represents:
  assumes "represents p g cs"
  shows "to_string p = (if g = 0 then [0x2F] else concat (replicate (g - 1) [0x2E, 0x2E, 0x2F])) @ join cs"
proof -
  obtain pre where p: "layout p pre cs" "go_up p = g" using assms by (auto simp: represents_def)
  show ?thesis
    unfolding to_string_def layout_rest [OF p(1)]
    using p(2) represents_join_plain [OF assms] concat2_plain by (auto simp: isAbsolute_def)
qed

text \<open>
  C22. A path text of well-formed components is parsed into exactly these components, absolute with a slash in front,
  relative with any number of \<open>./\<close> and \<open>../\<close> in front, of which it counts the latter; an absolute path prints as it was read.
\<close>

theorem path_parsed:
  assumes "\<forall>n. mem n" and "comps_ok cs" and "length (updirs bs @ join cs) < 2 ^ 62" and "updirs bs @ join cs \<noteq> []"
  shows "(\<exists>p. path_of mem (0x2F # join cs) = Some p \<and> valid p \<and> isAbsolute p \<and> components p = cs \<and>
              to_string p = 0x2F # join cs) \<and>
         (\<exists>p. path_of mem (updirs bs @ join cs) = Some p \<and> valid p \<and> go_up p = 1 + length (filter id bs) \<and>
              components p = cs)"
proof
  have "length (join cs) < 2 ^ 62" using assms(3) by simp
  then show "\<exists>p. path_of mem (0x2F # join cs) = Some p \<and> valid p \<and> isAbsolute p \<and> components p = cs \<and> to_string p = 0x2F # join cs"
    using parse_absolute [OF assms(1,2)] represents_components to_string_represents by (fastforce simp: isAbsolute_def)
next
  show "\<exists>p. path_of mem (updirs bs @ join cs) = Some p \<and> valid p \<and> go_up p = 1 + length (filter id bs) \<and> components p = cs"
    using parse_relative [OF assms] represents_components by blast
qed

theorem path_parsed_witness:
  "\<exists>p. path_of (\<lambda>_. True) [0x2E, 0x2E, 0x2F, 0x61, 0x2F, 0x62] = Some p \<and> go_up p = 2 \<and> components p = [[0x61], [0x62]]"
  using path_parsed [where mem = "\<lambda>_. True" and bs = "[True]" and cs = "[[0x61], [0x62]]"]
  by (auto simp: comps_ok_def)

text \<open>
  After the check, the indices of an absolute path whose text starts with \<open>/.\<close> are computed from the text behind
  the leading dots and slashes; if a slash was among them, the search for the counted number of slashes leaves the string.
  A leading dot of the first name is lost.
\<close>

theorem leading_dots:
  assumes "\<forall>n. mem n" and "name \<noteq> []" and "0 \<notin> set name" and "0x2F \<notin> set name" and "hd name \<noteq> 0x2E"
    and "length name < 2 ^ 62"
  shows "path_of mem (0x2F # 0x2E # 0x2F # name) = None \<and>
         (\<exists>p. path_of mem (0x2F # 0x2E # name) = Some p \<and> valid p \<and> components p = [name])"
proof -
  have scan: "next_slashes (name @ [0]) si (Suc 0) = None" for si
    using assms(3,4) by (induction name arbitrary: si) auto
  obtain a r where a: "name = a # r" "a \<noteq> 0" "a \<noteq> 0x2F" "a \<noteq> 0x2E" using assms(2-5) by (cases name) auto
  have c: "count_slashes name ws = Some 0" for ws
    using count_slashes_name [OF assms(3,4), of "[]" ws] by simp
  have "path_of mem (0x2F # 0x2E # 0x2F # name) = None"
    using scan c a assms(1) by (auto simp: path_of_def checkAndCount_def findSlashes_def new_array_of_def)
  moreover obtain q where q: "findSlashes \<lparr>pstr = [0x2F, 0x2E] @ name, valid = True, slash = new_array_of mem 2, ifirst = 0,
      ilast = 0, go_up = 0\<rparr> = Some q" "layout q [0x2F, 0x2E] [name]"
    using findSlashes_layout [where pre = "[0x2F, 0x2E]" and cs = "[name]"
        and p = "\<lparr>pstr = [0x2F, 0x2E] @ name, valid = True, slash = new_array_of mem 2, ifirst = 0, ilast = 0, go_up = 0\<rparr>"]
      assms new_array_of_ok [OF assms(1)] by (auto simp: comps_ok_def)
  moreover have "checkAndCount (0x2F # 0x2E # name) = (True, 0, 0)" using c by (simp add: checkAndCount_def)
  ultimately show ?thesis
    using layout_components [OF q(2)] by (simp add: path_of_def layout_def numeral_2_eq_2)
qed

theorem leading_dots_witness: "path_of (\<lambda>_. True) [0x2F, 0x2E, 0x2F, 0x61] = None"
  using leading_dots [where mem = "\<lambda>_. True" and name = "[0x61]"] by simp

subsection \<open>Resolving\<close>

lemma join_append: "bs \<noteq> [] \<Longrightarrow> join (us @ bs) = concat (map (\<lambda>c. c @ [0x2F]) us) @ join bs"
proof (induction us)
  case (Cons a us)
  then obtain d cs where "us @ bs = d # cs" by (cases "us @ bs") auto
  with Cons show ?case by simp
qed simp

lemma comps_ok_append:
  assumes "comps_ok us" "comps_ok bs" "n < length us"
  shows "comps_ok (take n us @ bs)"
proof -
  have b: "bs \<noteq> []" using assms(2) by (simp add: comps_ok_def)
  have "set (take n us) \<subseteq> set (butlast us)"
    using set_take_subset [of n "butlast us"] assms(3) by (simp add: take_butlast)
  then have 1: "c \<in> set (butlast us)" if "c \<in> set (take n us)" for c using that by blast
  have 2: "butlast (take n us @ bs) = take n us @ butlast bs" using b by (simp add: butlast_append)
  have 3: "hd (take n us @ bs) = (if n = 0 then hd bs else hd us)" using assms(3) by (cases us; cases n) auto
  have "\<forall>c\<in>set (butlast (take n us @ bs)). c \<noteq> []" using 1 assms(1,2) unfolding 2 by (auto simp: comps_ok_def)
  moreover have "0 \<notin> set c \<and> 0x2F \<notin> set c" if "c \<in> set (take n us @ bs)" for c
    using that in_set_takeD [of c n us] assms(1,2) by (auto simp: comps_ok_def)
  moreover have "hd (take n us @ bs) = [] \<or> hd (hd (take n us @ bs)) \<noteq> 0x2E"
    using assms(1,2) unfolding 3 comps_ok_def by (cases "n = 0") simp_all
  ultimately show ?thesis using b by (simp add: comps_ok_def)
qed

lemma append_layout:
  assumes mem: "\<forall>n. mem n" and A: "layout A pre us" "comps_ok us" "set pre \<subseteq> {0x2F, 0x2E}" and R: "represents R g bs"
    and g: "0 < g" "g \<le> length us" and small: "length (pre @ join us) + length (join bs) < 2 ^ 62"
  shows "\<exists>q. append_path mem A R = Some q \<and> layout q pre (take (length us - g) us @ bs) \<and> go_up q = 0 \<and>
             comps_ok (take (length us - g) us @ bs)"
proof -
  let ?n = "length us - g" and ?cs = "take (length us - g) us @ bs"
  have n: "?n < length us" using g by linarith
  obtain pre' where R': "layout R pre' bs" and okR: "comps_ok bs" "go_up R = g" using R by (auto simp: represents_def)
  have ok: "comps_ok ?cs" using comps_ok_append [OF A(2) okR(1) n] .
  have bs: "bs \<noteq> []" using okR(1) by (simp add: comps_ok_def)
  let ?front = "pre @ concat (map (\<lambda>c. c @ [0x2F]) (take ?n us))"
  have "ilast A + 1 - go_up R = ?n" using A(1) okR(2) g(2) by (auto simp: layout_def)
  then have "substr (pstr A) 0 (slash A ! (ilast A + 1 - go_up R)) = take (length pre + off us ?n) (pre @ join us)"
    using layout_slash [OF A(1) n] substr_plain [OF layout_plain [OF A(1)]] A(1) by (simp add: layout_def)
  also have "\<dots> = ?front" using take_join [OF n] by simp
  finally have front: "substr (pstr A) 0 (slash A ! (ilast A + 1 - go_up R)) = ?front" .
  have "\<forall>c\<in>set (take ?n us). 0 \<notin> set c" using A(2) set_take_subset [of ?n us] by (auto simp: comps_ok_def)
  then have "0 \<notin> set ?front" using A(3) by auto
  then have whole: "concat2 ?front (join bs) = pre @ join ?cs"
    using concat2_plain [of ?front "join bs"] represents_join_plain [OF R] join_append [OF bs] by simp
  have short: "length (pre @ join ?cs) < 2 ^ 62"
  proof -
    have "length (concat (map (\<lambda>c. c @ [0x2F]) (take ?n us))) \<le> length (join us)" using off_le [OF n] by (simp add: off_def)
    then show ?thesis using small join_append [OF bs, of "take ?n us"] by simp
  qed
  obtain q where "append_path mem A R = Some q" "layout q pre ?cs" "go_up q = 0"
    using findSlashes_layout [where pre = pre and cs = ?cs
        and p = "\<lparr>pstr = pre @ join ?cs, valid = True, slash = new_array_of mem (path_size A - g + path_size R + 1),
                  ifirst = 0, ilast = path_size A - g + path_size R, go_up = 0\<rparr>"]
      ok A(3) short new_array_of_ok [OF mem] layout_size [OF A(1)] layout_size [OF R']
    unfolding append_path_def front layout_rest [OF R'] whole unfolding okR(2) by auto
  then show ?thesis using ok by blast
qed

lemma resolve_appends:
  "layout A pre us \<Longrightarrow> represents R g bs \<Longrightarrow> 0 < g \<Longrightarrow> g \<le> length us \<Longrightarrow> resolve mem A R = append_path mem A R"
  by (simp add: resolve_def isAbsolute_def layout_size represents_def)

lemma resolve_relative:
  assumes "\<forall>n. mem n" and A: "represents A 0 us" and R: "represents R g bs" and g: "0 < g" "g \<le> length us"
    and "length (join us) + length (join bs) < 2 ^ 61"
  shows "\<exists>p. resolve mem A R = Some p \<and> represents p 0 (take (length us - g) us @ bs)"
proof -
  have lay: "layout A [0x2F] us" and okA: "comps_ok us" using A by (auto simp: represents_def)
  show ?thesis
    using append_layout [OF assms(1) lay okA _ R g] assms(6) resolve_appends [OF lay R g, of mem] by (auto simp: represents_def)
qed

lemma double_slash: "\<exists>p. path_of mem [0x2F, 0x2F] = Some p \<and> \<not> valid p"
  by (simp add: path_of_def checkAndCount_def findSlashes_def)

text \<open>
  Resolving a path against an absolute one: an absolute path stays, a relative one replaces us many components at the
  end us it goes up, and one that goes up further than the context has components gives an invalid path.
\<close>

theorem resolve_correct:
  assumes "\<forall>n. mem n" and "represents A 0 us" and "represents R g bs" and "length (join us) + length (join bs) < 2 ^ 61"
  shows "(g = 0 \<longrightarrow> resolve mem A R = Some R) \<and>
         (0 < g \<and> g \<le> length us \<longrightarrow>
            (\<exists>p. resolve mem A R = Some p \<and> valid p \<and> isAbsolute p \<and> components p = take (length us - g) us @ bs)) \<and>
         (length us < g \<longrightarrow> (\<exists>p. resolve mem A R = Some p \<and> \<not> valid p))"
proof (intro conjI impI)
  show "resolve mem A R = Some R" if "g = 0"
    using assms(3) that by (simp add: resolve_def isAbsolute_def represents_def)
  show "\<exists>p. resolve mem A R = Some p \<and> valid p \<and> isAbsolute p \<and> components p = take (length us - g) us @ bs"
    if "0 < g \<and> g \<le> length us"
    using resolve_relative [OF assms(1-3) _ _ assms(4)] that represents_components by (fastforce simp: isAbsolute_def)
  have "path_size A = length us" using assms(2) layout_size by (auto simp: represents_def)
  then show "\<exists>p. resolve mem A R = Some p \<and> \<not> valid p" if "length us < g"
    using assms(3) that double_slash [of mem] by (auto simp: resolve_def isAbsolute_def represents_def)
qed

theorem resolve_correct_witness:
  "\<exists>A R p. path_of (\<lambda>_. True) [0x2F, 0x61, 0x2F, 0x62] = Some A \<and> path_of (\<lambda>_. True) [0x63] = Some R \<and>
           resolve (\<lambda>_. True) A R = Some p \<and> components p = [[0x61], [0x63]]"
proof -
  obtain A where A: "path_of (\<lambda>_. True) [0x2F, 0x61, 0x2F, 0x62] = Some A" "represents A 0 [[0x61], [0x62]]"
    using parse_absolute [of "\<lambda>_. True" "[[0x61], [0x62]]"] by (auto simp: comps_ok_def)
  obtain R where R: "path_of (\<lambda>_. True) [0x63] = Some R" "represents R 1 [[0x63]]"
    using parse_relative [of "\<lambda>_. True" "[[0x63]]" "[]"] by (auto simp: comps_ok_def)
  show ?thesis using resolve_correct [of "\<lambda>_. True" A _ R 1, OF _ A(2) R(2)] A(1) R(1) by auto
qed

subsection \<open>Decoding the components\<close>

lemma xdigit_not_percent: "isxdigit c \<Longrightarrow> c \<noteq> 0x25"
  by (auto simp: isxdigit_def isdigit_def)

lemma unpercent_facts:
  assumes "unpercent c = Some d"
  shows "complete c \<and> length c = length d + 2 * length (filter (\<lambda>x. x = 0x25) c) \<and>
         (\<forall>r e. unpercent r = Some e \<longrightarrow> unpercent (c @ r) = Some (d @ e)) \<and> (\<forall>r. complete (c @ r) = complete r)"
  using assms
proof (induction c arbitrary: d rule: unpercent.induct)
  case 1
  then show ?case by simp
next
  case (2 x cs)
  show ?case
  proof (cases "x = 0x25")
    case False
    then obtain e where e: "unpercent cs = Some e" "d = x # e" using 2(3) by auto
    show ?thesis using 2(1) [OF False e(1)] False e(2) by auto
  next
    case True
    then obtain a b r where cs: "cs = a # b # r" using 2(3) by (auto split: list.splits)
    then obtain e where e: "isxdigit a" "isxdigit b" "push_bit 4 (hex_val a) + hex_val b \<noteq> 0" "unpercent r = Some e"
        "d = (push_bit 4 (hex_val a) + hex_val b) # e"
      using 2(3) True by (auto split: if_splits)
    note IH = 2(2) [OF _ cs refl _ e(4)]
    have len: "length r = length e + 2 * length (filter (\<lambda>x. x = 0x25) r)" and comp: "complete r"
        "\<And>q. complete (r @ q) = complete q" and app: "\<And>q f. unpercent q = Some f \<Longrightarrow> unpercent (r @ q) = Some (e @ f)"
      using IH e(1-3) True by auto
    have "a \<noteq> 0x25" "b \<noteq> 0x25" using xdigit_not_percent e(1,2) by blast+
    then have "length (x # cs) = length d + 2 * length (filter (\<lambda>x. x = 0x25) (x # cs))"
      using len by (simp add: cs True e(5))
    moreover have "complete (x # cs)" "\<And>q. complete ((x # cs) @ q) = complete q" using comp by (simp_all add: cs True)
    moreover have "unpercent ((x # cs) @ q) = Some (d @ f)" if "unpercent q = Some f" for q f
      using app [OF that] e(1-3) by (simp add: cs True e(5))
    ultimately show ?thesis by blast
  qed
qed

lemma unpercent_nonzero: "unpercent c = Some d \<Longrightarrow> 0 \<notin> set c \<Longrightarrow> 0 \<notin> set d"
proof (induction c arbitrary: d rule: unpercent.induct)
  case (2 x cs)
  show ?case
  proof (cases "x = 0x25")
    case False
    then show ?thesis using 2 by auto
  next
    case True
    then obtain a b r where cs: "cs = a # b # r" using 2(3) by (auto split: list.splits)
    let ?v = "push_bit 4 (hex_val a) + hex_val b"
    obtain e where e: "isxdigit a \<and> isxdigit b \<and> ?v \<noteq> 0" "unpercent r = Some e" "d = ?v # e"
      using 2(3) True cs by (auto split: if_splits)
    have "x = 0x25 \<Longrightarrow> 0 \<notin> set e" using 2(2) [OF _ cs refl e(1) e(2)] 2(4) cs by auto
    then show ?thesis using e(1) True unfolding e(3) by simp
  qed
qed simp

definition decoded :: "byte list list \<Rightarrow> byte list list \<Rightarrow> bool" where
  "decoded cs ds \<longleftrightarrow> list_all2 (\<lambda>c d. unpercent c = Some d) cs ds"

lemma decoded_simps [simp]:
  "decoded [] ds \<longleftrightarrow> ds = []"
  "decoded (c # cs) ds \<longleftrightarrow> (\<exists>d es. ds = d # es \<and> unpercent c = Some d \<and> decoded cs es)"
  by (auto simp: decoded_def list_all2_Cons1)

lemma decoded_join: "decoded cs ds \<Longrightarrow> unpercent (join cs) = Some (join ds) \<and> complete (join cs)"
proof (induction cs arbitrary: ds rule: join.induct)
  case (2 c)
  then show ?case using unpercent_facts by auto
next
  case (3 c c' cs)
  then obtain d d' es where d: "ds = d # d' # es" "unpercent c = Some d" "decoded (c' # cs) (d' # es)" by auto
  show ?case using unpercent_facts [OF d(2)] 3(1) [OF d(3)] by (auto simp: d(1))
qed auto

lemma move_slashes_offsets:
  "decoded cs ds \<Longrightarrow> cs \<noteq> [] \<Longrightarrow> drop prev s = join cs \<Longrightarrow> 2 * cnt \<le> prev \<Longrightarrow>
   move_slashes s prev cnt (tl (offsets prev cs) @ [size_max]) = tl (offsets (prev - 2 * cnt) ds) @ [size_max]"
proof (induction cs arbitrary: ds prev cnt rule: join.induct)
  case (2 c)
  then show ?case by auto
next
  case (3 c c' cs)
  then obtain d d' es where d: "ds = d # d' # es" "unpercent c = Some d" "decoded (c' # cs) (d' # es)" by auto
  let ?i = "prev + length c + 1" and ?cnt = "cnt + length (filter (\<lambda>x. x = 0x25) c)"
  have len: "length c = length d + 2 * length (filter (\<lambda>x. x = 0x25) c)" using unpercent_facts [OF d(2)] by blast
  have dr: "drop ?i s = join (c' # cs)"
  proof -
    have "drop ?i s = drop (length c + 1) (drop prev s)" by (simp add: add.commute add.left_commute)
    then show ?thesis using 3(4) by simp
  qed
  have cnt: "length (filter (\<lambda>c. c = 0x25) (take (?i - prev) (drop prev s))) = length (filter (\<lambda>x. x = 0x25) c)"
    using 3(4) by simp
  obtain j js where js: "tl (offsets ?i (c' # cs)) @ [size_max] = j # js"
    by (cases "tl (offsets ?i (c' # cs)) @ [size_max]") auto
  have "offsets ?i (c' # cs) = ?i # tl (offsets ?i (c' # cs))" by (rule offsets_Cons) simp
  then have "tl (offsets prev (c # c' # cs)) = ?i # tl (offsets ?i (c' # cs))" by (metis list.sel(3) offsets.simps(3))
  then have "move_slashes s prev cnt (tl (offsets prev (c # c' # cs)) @ [size_max]) =
      move_slashes s prev cnt (?i # tl (offsets ?i (c' # cs)) @ [size_max])" by (simp only: append_Cons)
  also have "\<dots> = size_sub ?i (2 * ?cnt) # move_slashes s ?i ?cnt (tl (offsets ?i (c' # cs)) @ [size_max])"
    using cnt unfolding js by (simp add: Let_def)
  also have "size_sub ?i (2 * ?cnt) = prev - 2 * cnt + length d + 1" using len 3(5) by (simp add: size_sub_def)
  also have "move_slashes s ?i ?cnt (tl (offsets ?i (c' # cs)) @ [size_max]) = tl (offsets (?i - 2 * ?cnt) (d' # es)) @ [size_max]"
    using 3(1) [OF d(3) _ dr, of ?cnt] len 3(5) by simp
  also have "?i - 2 * ?cnt = prev - 2 * cnt + length d + 1" using len 3(5) by simp
  finally show ?case using offsets_Cons [of "d' # es" "prev - 2 * cnt + length d + 1"] by (simp add: d(1))
qed simp

lemma no_percent: "0x25 \<notin> set pre \<Longrightarrow> unpercent r = Some e \<Longrightarrow> unpercent (pre @ r) = Some (pre @ e) \<and> complete (pre @ r) = complete r"
  by (induction pre) auto

lemma decodePercents_layout:
  assumes "new_ok new_char" "layout p pre cs" "0x25 \<notin> set pre" "decoded cs ds"
  shows "\<exists>q. decodePercents new_char p = Some (KS_ERR_OK, q) \<and> layout q pre ds \<and> go_up q = go_up p"
proof -
  have l: "pstr p = pre @ join cs" "cs \<noteq> []" "slash p = offsets (length pre) cs @ [size_max]" "length (pstr p) < 2 ^ 63"
    using assms(2) unfolding layout_def by blast+
  have u: "unpercent (pstr p) = Some (pre @ join ds)" "complete (pstr p)"
    using no_percent [OF assms(3), of "join cs" "join ds"] decoded_join [OF assms(4)] l(1) by auto
  have r: "ksStringFromPercent new_char (pstr p) = Some (Inr (pre @ join ds))"
    using from_percent_spec [OF assms(1) u(2)] l(4) u(1) by simp
  have s: "slash p = length pre # tl (offsets (length pre) cs) @ [size_max]"
    using l(3) offsets_Cons [OF l(2), of "length pre"] by simp
  have "ds \<noteq> []" "length ds = length cs" using assms(4) l(2) by (auto simp: decoded_def dest: list_all2_lengthD)
  moreover have "hd (slash p) # move_slashes (pstr p) (hd (slash p)) 0 (tl (slash p)) = offsets (length pre) ds @ [size_max]"
    using move_slashes_offsets [OF assms(4) l(2), of "length pre" "pstr p" 0] l(1) offsets_Cons [OF \<open>ds \<noteq> []\<close>, of "length pre"]
    unfolding s by simp
  moreover have "length (pre @ join ds) \<le> length (pstr p)" using unpercent_facts [OF u(1)] by linarith
  moreover have "\<forall>d\<in>set ds. 0 \<notin> set d"
    using assms(2,4) unpercent_nonzero by (fastforce simp: decoded_def layout_def list_all2_conv_all_nth in_set_conv_nth)
  ultimately show ?thesis
    using assms(2) l(4) r by (auto simp: decodePercents_def layout_def)
qed

subsection \<open>Resolving a list of paths\<close>

text \<open>Path texts and what they denote: levels to go up, zero for an absolute path, and components.\<close>

definition denotes :: "byte list \<Rightarrow> nat \<times> byte list list \<Rightarrow> bool" where
  "denotes s d \<longleftrightarrow> comps_ok (snd d) \<and> s \<noteq> [] \<and>
     (if fst d = 0 then s = 0x2F # join (snd d)
      else \<exists>bs. s = updirs bs @ join (snd d) \<and> fst d = 1 + length (filter id bs))"

text \<open>What the list denotes, with \<open>us\<close> as the components of the context; \<open>None\<close> and an end where a path goes up too far.\<close>

fun resolve_spec :: "byte list list \<Rightarrow> (nat \<times> byte list list) list \<Rightarrow> byte list list option list" where
  "resolve_spec us [] = []"
| "resolve_spec us ((g, cs) # ds) =
     (if g = 0 then Some cs # resolve_spec cs ds
      else if g \<le> length us
      then Some (take (length us - g) us @ cs) # resolve_spec (take (length us - g) us @ cs) ds
      else [None])"

definition outcome :: "kspath \<times> ks_result \<Rightarrow> byte list list option \<Rightarrow> bool" where
  "outcome r w \<longleftrightarrow>
     (case w of
        None \<Rightarrow> snd r = KS_ERR_BADPATH
      | Some cs \<Rightarrow> snd r = KS_ERR_OK \<and> (\<exists>ds. decoded cs ds \<and> components (fst r) = ds))"

definition resolved :: "kspath \<times> ks_result \<Rightarrow> byte list list option \<Rightarrow> bool" where
  "resolved r w \<longleftrightarrow>
     (case w of
        None \<Rightarrow> snd r = KS_ERR_BADPATH
      | Some cs \<Rightarrow> snd r = KS_ERR_OK \<and> represents (fst r) 0 cs \<and> (\<exists>ds. decoded cs ds))"

lemma outcome_simps [simp]:
  "outcome r None \<longleftrightarrow> snd r = KS_ERR_BADPATH"
  "outcome r (Some cs) \<longleftrightarrow> snd r = KS_ERR_OK \<and> decoded cs (components (fst r))"
  by (simp_all add: outcome_def)

lemma resolved_simps [simp]:
  "resolved r None \<longleftrightarrow> snd r = KS_ERR_BADPATH"
  "resolved r (Some cs) \<longleftrightarrow> snd r = KS_ERR_OK \<and> represents (fst r) 0 cs \<and> (\<exists>ds. decoded cs ds)"
  by (simp_all add: resolved_def)

lemma parse_denotes:
  assumes "\<forall>n. mem n" "denotes s (g, cs)" "length s < 2 ^ 62"
  shows "\<exists>p. path_of mem s = Some p \<and> represents p g cs"
proof (cases "g = 0")
  case True
  then show ?thesis using parse_absolute [OF assms(1), of cs] assms(2,3) by (auto simp: denotes_def)
next
  case False
  then obtain bs where "s = updirs bs @ join cs" "g = 1 + length (filter id bs)" "comps_ok cs" "s \<noteq> []"
    using assms(2) by (auto simp: denotes_def)
  then show ?thesis using parse_relative [OF assms(1), of cs bs] assms(3) by auto
qed

lemma length_join_denotes: "denotes s (g, cs) \<Longrightarrow> length (join cs) \<le> length s"
  by (auto simp: denotes_def split: if_splits)

lemma length_join_append:
  "bs \<noteq> [] \<Longrightarrow> n < length us \<Longrightarrow> length (join (take n us @ bs)) \<le> length (join us) + length (join bs)"
  using join_append [of bs "take n us"] off_le [of n us] by (simp add: off_def)

lemma decodable_append: "decoded us es \<Longrightarrow> decoded cs ds \<Longrightarrow> \<exists>fs. decoded (take n us @ cs) fs"
  unfolding decoded_def by (blast intro: list_all2_appendI list_all2_takeI)

lemma not_OK_BADPATH: "KS_ERR_OK \<noteq> KS_ERR_BADPATH" "KS_ERR_BADPATH \<noteq> KS_ERR_OK"
  by (simp_all add: ks_result_defs)

lemma resolve_loop_spec:
  assumes mem: "\<forall>n. mem n" and "represents ctx 0 us" and "\<exists>es. decoded us es" and "list_all2 denotes ids ds"
    and "length (resolve_spec us ds) = length ds" and "length (join us) + length (concat ids) < 2 ^ 61"
    and "\<forall>d\<in>set ds. \<exists>es. decoded (snd d) es"
  shows "\<exists>ps. resolve_loop mem ctx ids = Some ps \<and> list_all2 resolved ps (resolve_spec us ds)"
  using assms(2-)
proof (induction ids arbitrary: ctx us ds)
  case Nil
  then show ?case by simp
next
  case (Cons s ids)
  obtain g cs es where ds: "ds = (g, cs) # es" "denotes s (g, cs)" "list_all2 denotes ids es"
    using Cons(4) by (auto simp: list_all2_Cons1)
  obtain p where p: "path_of mem s = Some p" "represents p g cs"
    using parse_denotes [OF mem ds(2)] Cons(6) by force
  have vp: "valid p" "isAbsolute p \<longleftrightarrow> g = 0" "valid ctx"
    using p(2) Cons(2) represents_components by (auto simp: isAbsolute_def)
  have dec: "\<exists>fs. decoded cs fs" using Cons(7) by (simp add: ds(1))
  have len: "length (join cs) \<le> length s" using length_join_denotes [OF ds(2)] .
  consider (abs) "g = 0" | (rel) "0 < g" "g \<le> length us" | (far) "0 < g" "length us < g" by linarith
  then show ?case
  proof cases
    case abs
    obtain ps where "resolve_loop mem p ids = Some ps" "list_all2 resolved ps (resolve_spec cs es)"
      using Cons(1) [OF p(2) [unfolded abs] dec ds(3)] Cons(5-7) len abs by (auto simp: ds(1))
    then show ?thesis using abs p vp dec by (auto simp: ds(1) resolve_def)
  next
    case rel
    let ?n = "take (length us - g) us @ cs"
    have "length (join us) + length (join cs) < 2 ^ 61" using Cons(6) len by simp
    then obtain q where q: "resolve mem ctx p = Some q" "represents q 0 ?n"
      using resolve_relative [OF mem Cons(2) p(2) rel] by blast
    have d: "\<exists>fs. decoded ?n fs" using Cons(3) dec decodable_append by blast
    have "length us - g < length us" using rel by linarith
    then have "length (join ?n) + length (concat ids) < 2 ^ 61"
      using length_join_append [of cs "length us - g" us] ds(2) Cons(6) len by (simp add: denotes_def comps_ok_def)
    then obtain ps where "resolve_loop mem q ids = Some ps" "list_all2 resolved ps (resolve_spec ?n es)"
      using Cons(1) [OF q(2) d ds(3)] Cons(5,7) rel by (auto simp: ds(1))
    then show ?thesis using rel p vp q d represents_components [OF q(2)] by (auto simp: ds(1))
  next
    case far
    then have "ids = []" using Cons(5) ds(3) by (simp add: ds(1))
    moreover obtain q where "resolve mem ctx p = Some q" "\<not> valid q"
      using Cons(2) far p(2) double_slash [of mem] layout_size
      by (fastforce simp: resolve_def isAbsolute_def represents_def)
    ultimately show ?thesis using far p vp by (auto simp: ds(1))
  qed
qed

text \<open>The same with the layout of the path, for its users.\<close>

definition lands :: "kspath \<times> ks_result \<Rightarrow> byte list list option \<Rightarrow> bool" where
  "lands r w \<longleftrightarrow>
     (case w of
        None \<Rightarrow> snd r = KS_ERR_BADPATH
      | Some cs \<Rightarrow> snd r = KS_ERR_OK \<and> go_up (fst r) = 0 \<and> (\<exists>ds. decoded cs ds \<and> layout (fst r) [0x2F] ds))"

lemma lands_simps [simp]:
  "lands r None \<longleftrightarrow> snd r = KS_ERR_BADPATH"
  "lands r (Some cs) \<longleftrightarrow> snd r = KS_ERR_OK \<and> go_up (fst r) = 0 \<and> (\<exists>ds. decoded cs ds \<and> layout (fst r) [0x2F] ds)"
  by (simp_all add: lands_def)

lemma lands_outcome: "lands r w \<Longrightarrow> outcome r w"
  by (auto simp: lands_def outcome_def layout_components split: option.splits)

lemma decode_paths_lands:
  assumes "new_ok new_char" "list_all2 resolved ps vs"
  shows "\<exists>rs. decode_paths new_char ps = Some rs \<and> list_all2 lands rs vs"
  using assms(2)
proof (induction ps arbitrary: vs)
  case (Cons r ps)
  obtain p res where r: "r = (p, res)" by (cases r)
  obtain v ws where vs: "vs = v # ws" "resolved r v" "list_all2 resolved ps ws"
    using Cons(2) by (auto simp: list_all2_Cons1)
  obtain rs where rs: "decode_paths new_char ps = Some rs" "list_all2 lands rs ws" using Cons(1) [OF vs(3)] by blast
  show ?case
  proof (cases v)
    case None
    then show ?thesis using vs rs r not_OK_BADPATH by simp
  next
    case (Some cs)
    then obtain ds where s: "res = KS_ERR_OK" "represents p 0 cs" "decoded cs ds" using vs(2) by (auto simp: resolved_def r)
    then have l: "layout p [0x2F] cs" "go_up p = 0" by (auto simp: represents_def)
    obtain q where "decodePercents new_char p = Some (KS_ERR_OK, q)" "layout q [0x2F] ds" "go_up q = go_up p"
      using decodePercents_layout [OF assms(1) l(1) _ s(3)] by auto
    then show ?thesis using s rs Some l(2) by (auto simp: r vs(1))
  qed
qed simp

lemma resolvePaths_lands:
  assumes "\<forall>n. mem n" and "new_ok new_char" and "list_all2 denotes (s # ids) ((0, cs) # ds)"
    and "length (resolve_spec cs ds) = length ds" and "length (concat (s # ids)) < 2 ^ 61"
    and "\<forall>d\<in>set ((0, cs) # ds). \<exists>es. decoded (snd d) es"
  shows "\<exists>rs. resolvePaths mem new_char (s # ids) = Some rs \<and> list_all2 lands rs (Some cs # resolve_spec cs ds)"
proof -
  have s: "denotes s (0, cs)" "list_all2 denotes ids ds" using assms(3) by auto
  obtain p where p: "path_of mem s = Some p" "represents p 0 cs" using parse_denotes [OF assms(1) s(1)] assms(5) by auto
  have len: "length (join cs) + length (concat ids) < 2 ^ 61" using length_join_denotes [OF s(1)] assms(5) by simp
  obtain ps where ps: "resolve_loop mem p ids = Some ps" "list_all2 resolved ps (resolve_spec cs ds)"
    using resolve_loop_spec [OF assms(1) p(2) _ s(2) assms(4) len] assms(6) by auto
  obtain c where c: "path_of mem [0x2F, 0x2F] = Some c" "\<not> valid c" using double_slash by blast
  have "resolve_loop mem c (s # ids) = Some ((p, KS_ERR_OK) # ps)"
    using p c(2) ps(1) represents_components [OF p(2)] by (simp add: isAbsolute_def)
  then have r: "resolvePaths mem new_char (s # ids) = decode_paths new_char ((p, KS_ERR_OK) # ps)"
    using c(1) by (simp add: resolvePaths_def del: resolve_loop.simps)
  have "list_all2 resolved ((p, KS_ERR_OK) # ps) (Some cs # resolve_spec cs ds)"
    using p(2) ps(2) assms(6) by simp
  from decode_paths_lands [OF assms(2) this] show ?thesis unfolding r .
qed

text \<open>
  C6. \<open>resolvePaths\<close> on a list of well-formed texts that starts with an absolute path and whose names decode: every path is
  resolved against its predecessor, up to a first one that goes up too far, which is reported as KS_ERR_BADPATH; the
  components of the results are the decoded names, whatever characters they contain.
\<close>

theorem resolvePaths_correct:
  assumes "\<forall>n. mem n" and "new_ok new_char" and "list_all2 denotes (s # ids) ((0, cs) # ds)"
    and "length (resolve_spec cs ds) = length ds" and "length (concat (s # ids)) < 2 ^ 61"
    and "\<forall>d\<in>set ((0, cs) # ds). \<exists>es. decoded (snd d) es"
  shows "\<exists>rs. resolvePaths mem new_char (s # ids) = Some rs \<and> list_all2 outcome rs (Some cs # resolve_spec cs ds)"
proof -
  obtain rs where rs: "resolvePaths mem new_char (s # ids) = Some rs" "list_all2 lands rs (Some cs # resolve_spec cs ds)"
    using resolvePaths_lands [OF assms] by blast
  have "list_all2 outcome rs (Some cs # resolve_spec cs ds)" by (rule list_all2_mono [OF rs(2)]) (rule lands_outcome)
  with rs(1) show ?thesis by blast
qed

theorem resolvePaths_correct_witness:
  "\<exists>p q. resolvePaths (\<lambda>_. True) (\<lambda>n. Some (replicate n 0)) [[0x2F, 0x61, 0x2F, 0x62], [0x25, 0x32, 0x46]] =
           Some [(p, KS_ERR_OK), (q, KS_ERR_OK)] \<and> components q = [[0x61], [0x2F]]"
proof -
  have b: "\<exists>bs. updirs bs = [] \<and> filter id bs = []" by (rule exI [of _ "[]"]) simp
  then have "denotes [0x2F, 0x61, 0x2F, 0x62] (0, [[0x61], [0x62]])" "denotes [0x25, 0x32, 0x46] (1, [[0x25, 0x32, 0x46]])"
    by (auto simp: denotes_def comps_ok_def)
  moreover have "decoded [[0x61], [0x62]] [[0x61], [0x62]]" "decoded [[0x25, 0x32, 0x46]] [[0x2F]]"
    by (simp_all add: isxdigit_def isdigit_def hex_val_def)
  then have "Ex (decoded [[0x61], [0x62]]) \<and> Ex (decoded [[0x25, 0x32, 0x46]])" by blast
  ultimately show ?thesis
    using resolvePaths_correct [where mem = "\<lambda>_. True" and new_char = "\<lambda>n. Some (replicate n 0)"
        and s = "[0x2F, 0x61, 0x2F, 0x62]" and cs = "[[0x61], [0x62]]" and ids = "[[0x25, 0x32, 0x46]]"
        and ds = "[(1, [[0x25, 0x32, 0x46]])]"]
    by (auto simp: new_ok_def isxdigit_def isdigit_def hex_val_def list_all2_Cons2)
qed

text \<open>
  C40. A relative path without context is refused, but becomes the context of the next one all the same: two relative
  texts in a row, and the second is reported as a resolved absolute path.
\<close>

theorem relative_context:
  assumes "\<forall>n. mem n" and "new_ok new_char" and "comps_ok [a, b]" and "comps_ok [c]" and "b \<noteq> []" and "c \<noteq> []"
    and "0x25 \<notin> set a" and "0x25 \<notin> set c" and "length a + length b + length c < 2 ^ 60"
  shows "\<exists>p q. resolvePaths mem new_char [join [a, b], c] = Some [(p, KS_ERR_BADPATH), (q, KS_ERR_OK)] \<and>
               isAbsolute q \<and> components q = [a, c]"
proof -
  obtain x where x: "path_of mem [0x2F, 0x2F] = Some x" "\<not> valid x" using double_slash by blast
  obtain p where p: "path_of mem (join [a, b]) = Some p" "represents p 1 [a, b]" and lp: "layout p [] [a, b]"
    using parse_relative [OF assms(1,3), of "[]"] assms(9) by force
  obtain r where r: "path_of mem c = Some r" "represents r 1 [c]"
    using parse_relative [OF assms(1,4), of "[]"] assms(6,9) by auto
  have ac: "comps_ok [a, c]" using assms(3,4,6) by (auto simp: comps_ok_def)
  obtain pre' where lr: "layout r pre' [c]" using r(2) by (auto simp: represents_def)
  obtain q where q: "append_path mem p r = Some q" "layout q [] [a, c]" "go_up q = 0"
    using append_layout [OF assms(1) lp _ _ r(2)] p(2) assms(9) by (auto simp: represents_def)
  have res: "resolve mem p r = Some q" using resolve_appends [OF lp r(2)] q(1) by simp
  have no: "0x25 \<notin> set []" "decoded [a, c] [a, c]"
    using assms(7,8) no_percent [of a "[]" "[]"] no_percent [of c "[]" "[]"] by auto
  obtain q' where q': "decodePercents new_char q = Some (KS_ERR_OK, q')" "layout q' [] [a, c]" "go_up q' = go_up q"
    using decodePercents_layout [OF assms(2) q(2) no] by blast
  have "valid p" "valid r" "valid q" "\<not> isAbsolute p"
    using lp lr q(2) p(2) by (simp_all add: layout_def isAbsolute_def represents_def)
  then have "resolve_loop mem x [join [a, b], c] = Some [(p, KS_ERR_BADPATH), (q, KS_ERR_OK)]"
    using p(1) r(1) x(2) res by simp
  then have "resolvePaths mem new_char [join [a, b], c] = Some [(p, KS_ERR_BADPATH), (q', KS_ERR_OK)]"
    using x(1) q'(1) not_OK_BADPATH by (simp add: resolvePaths_def del: resolve_loop.simps)
  then show ?thesis using q' q(3) layout_components [OF q'(2)] by (auto simp: isAbsolute_def)
qed

theorem relative_context_witness:
  "\<exists>p q. resolvePaths (\<lambda>_. True) (\<lambda>n. Some (replicate n 0)) [[0x61, 0x2F, 0x62], [0x63]] =
           Some [(p, KS_ERR_BADPATH), (q, KS_ERR_OK)] \<and> components q = [[0x61], [0x63]]"
  using relative_context [where mem = "\<lambda>_. True" and new_char = "\<lambda>n. Some (replicate n 0)" and a = "[0x61]" and b = "[0x62]"
      and c = "[0x63]"]
  by (auto simp: new_ok_def comps_ok_def)


end
