(* ===== verification/KsRpcHeader.thy ===== *)
theory KsRpcHeader
  imports KsCodec
begin

text \<open>
  The header of an RPC message, ks/include/ks/rpcproto.h and ks/src/rpcproto.cpp. A header object is decoded in place: after a
  failure it holds what had been read. \<open>u_long\<close> has 32 bits.
\<close>

record rpc_header =
  xid :: u32
  msg_type :: u32
  rpc_version :: u32
  prog_number :: u32
  prog_version :: u32
  procedure :: u32
  reply_status :: u32
  accept_status :: u32
  low_version :: u32
  high_version :: u32
  auth_error :: u32
  reject_status :: u32

definition KsRpcCALL :: u32 where "KsRpcCALL = 0"
definition KsRpcREPLY :: u32 where "KsRpcREPLY = 1"
definition KsRpcMSGACCEPTED :: u32 where "KsRpcMSGACCEPTED = 0"
definition KsRpcMSGDENIED :: u32 where "KsRpcMSGDENIED = 1"
definition KsRpcSUCCESS :: u32 where "KsRpcSUCCESS = 0"
definition KsRpcPROGUNAVAIL :: u32 where "KsRpcPROGUNAVAIL = 1"
definition KsRpcPROGMISMATCH :: u32 where "KsRpcPROGMISMATCH = 2"
definition KsRpcPROCUNAVAIL :: u32 where "KsRpcPROCUNAVAIL = 3"
definition KsRpcGARBAGEARGS :: u32 where "KsRpcGARBAGEARGS = 4"
definition KsRpcSYSTEMERR :: u32 where "KsRpcSYSTEMERR = 5"
definition KsRpcRPCMISMATCH :: u32 where "KsRpcRPCMISMATCH = 0"
definition KsRpcAUTHERROR :: u32 where "KsRpcAUTHERROR = 1"
definition KsRpcAUTHNONE :: u32 where "KsRpcAUTHNONE = 0"

lemmas rpc_codes =
  KsRpcCALL_def KsRpcREPLY_def KsRpcMSGACCEPTED_def KsRpcMSGDENIED_def KsRpcSUCCESS_def KsRpcPROGUNAVAIL_def
  KsRpcPROGMISMATCH_def KsRpcPROCUNAVAIL_def KsRpcGARBAGEARGS_def KsRpcSYSTEMERR_def KsRpcRPCMISMATCH_def
  KsRpcAUTHERROR_def KsRpcAUTHNONE_def

definition rpc_new :: rpc_header where
  "rpc_new = \<lparr>xid = 0, msg_type = KsRpcCALL, rpc_version = 2, prog_number = 0, prog_version = 0, procedure = 0,
     reply_status = KsRpcMSGACCEPTED, accept_status = KsRpcSYSTEMERR, low_version = 0, high_version = 0,
     auth_error = KsRpcAUTHNONE, reject_status = KsRpcRPCMISMATCH\<rparr>"

subsection \<open>Decoding\<close>

text \<open>Steps of a decoder work on the header together with the stream and tell whether to go on.\<close>

definition read_field :: "'s xdr_ops \<Rightarrow> (u32 \<Rightarrow> rpc_header \<Rightarrow> rpc_header) \<Rightarrow> (rpc_header \<times> 's) coder" where
  "read_field ops upd hs =
     do { (ok, v, s) \<leftarrow> xdr_u_long ops XDR_DECODE 0 (snd hs); Some (ok, (if ok then upd v (fst hs) else fst hs), s) }"

definition require :: "(rpc_header \<Rightarrow> bool) \<Rightarrow> (rpc_header \<times> 's) coder" where
  "require P hs = Some (P (fst hs), hs)"

text \<open>An authentication field must have the flavour ``none'' and no data; both numbers are read before they are tested.\<close>

definition auth_none :: "'s xdr_ops \<Rightarrow> (rpc_header \<times> 's) coder" where
  "auth_none ops hs =
     do { (ok, dummy, s) \<leftarrow> xdr_u_long ops XDR_DECODE 0 (snd hs);
          if \<not> ok then Some (False, fst hs, s)
          else do { (ok, dummy2, s) \<leftarrow> xdr_u_long ops XDR_DECODE 0 s;
                    Some (ok \<and> dummy = KsRpcAUTHNONE \<and> dummy2 = 0, fst hs, s) } }"

definition read_versions :: "'s xdr_ops \<Rightarrow> (rpc_header \<times> 's) coder" where
  "read_versions ops =
     and_then (read_field ops (\<lambda>v. low_version_update (\<lambda>_. v))) (read_field ops (\<lambda>v. high_version_update (\<lambda>_. v)))"

definition read_call :: "'s xdr_ops \<Rightarrow> (rpc_header \<times> 's) coder" where
  "read_call ops =
     and_then (read_field ops (\<lambda>v. rpc_version_update (\<lambda>_. v)))
    (and_then (read_field ops (\<lambda>v. prog_number_update (\<lambda>_. v)))
    (and_then (read_field ops (\<lambda>v. prog_version_update (\<lambda>_. v)))
    (and_then (read_field ops (\<lambda>v. procedure_update (\<lambda>_. v)))
    (and_then (require (\<lambda>h. rpc_version h = 2))
    (and_then (auth_none ops) (auth_none ops))))))"

definition read_accepted :: "'s xdr_ops \<Rightarrow> (rpc_header \<times> 's) coder" where
  "read_accepted ops =
     and_then (auth_none ops)
    (and_then (read_field ops (\<lambda>v. accept_status_update (\<lambda>_. v)))
       (\<lambda>hs. let a = accept_status (fst hs)
             in if a = KsRpcSUCCESS \<or> a = KsRpcPROGUNAVAIL \<or> a = KsRpcPROCUNAVAIL \<or> a = KsRpcGARBAGEARGS \<or> a = KsRpcSYSTEMERR
                then Some (True, hs)
                else if a = KsRpcPROGMISMATCH then read_versions ops hs
                else Some (False, hs)))"

definition read_denied :: "'s xdr_ops \<Rightarrow> (rpc_header \<times> 's) coder" where
  "read_denied ops =
     and_then (read_field ops (\<lambda>v. reject_status_update (\<lambda>_. v)))
       (\<lambda>hs. let r = reject_status (fst hs)
             in if r = KsRpcRPCMISMATCH then read_versions ops hs
                else if r = KsRpcAUTHERROR then read_field ops (\<lambda>v. auth_error_update (\<lambda>_. v)) hs
                else Some (False, hs))"

definition read_reply :: "'s xdr_ops \<Rightarrow> (rpc_header \<times> 's) coder" where
  "read_reply ops =
     and_then (read_field ops (\<lambda>v. reply_status_update (\<lambda>_. v)))
       (\<lambda>hs. if reply_status (fst hs) = KsRpcMSGACCEPTED then read_accepted ops hs
             else if reply_status (fst hs) = KsRpcMSGDENIED then read_denied ops hs
             else Some (False, hs))"

definition rpc_decode :: "'s xdr_ops \<Rightarrow> (rpc_header \<times> 's) coder" where
  "rpc_decode ops hs =
     and_then (read_field ops (\<lambda>v. xid_update (\<lambda>_. v)))
    (and_then (read_field ops (\<lambda>v. msg_type_update (\<lambda>_. v)))
       (\<lambda>hs. if msg_type (fst hs) = KsRpcCALL then read_call ops hs
             else if msg_type (fst hs) = KsRpcREPLY then read_reply ops hs
             else Some (False, hs)))
     ((fst hs)\<lparr>rpc_version := 0\<rparr>, snd hs)"

subsection \<open>Encoding\<close>

definition write_field :: "'s xdr_ops \<Rightarrow> u32 \<Rightarrow> 's coder" where
  "write_field ops v = ks_xdre (xdr_u_long ops) v"

definition give_up :: "'s coder" where
  "give_up s = Some (False, s)"

definition write_auth_none :: "'s xdr_ops \<Rightarrow> 's coder" where
  "write_auth_none ops = and_then (write_field ops KsRpcAUTHNONE) (write_field ops 0)"

definition write_versions :: "'s xdr_ops \<Rightarrow> rpc_header \<Rightarrow> 's coder" where
  "write_versions ops h = and_then (write_field ops (low_version h)) (write_field ops (high_version h))"

definition write_call :: "'s xdr_ops \<Rightarrow> rpc_header \<Rightarrow> 's coder" where
  "write_call ops h =
     (if rpc_version h \<noteq> 2 then give_up
      else and_then (write_field ops (rpc_version h))
          (and_then (write_field ops (prog_number h))
          (and_then (write_field ops (prog_version h))
          (and_then (write_field ops (procedure h))
          (and_then (write_auth_none ops) (write_auth_none ops))))))"

definition write_accepted :: "'s xdr_ops \<Rightarrow> rpc_header \<Rightarrow> 's coder" where
  "write_accepted ops h =
     and_then (write_auth_none ops)
    (and_then (write_field ops (accept_status h))
       (let a = accept_status h
        in if a = KsRpcSUCCESS \<or> a = KsRpcPROGUNAVAIL \<or> a = KsRpcPROCUNAVAIL \<or> a = KsRpcGARBAGEARGS \<or> a = KsRpcSYSTEMERR
           then (\<lambda>s. Some (True, s))
           else if a = KsRpcPROGMISMATCH then write_versions ops h
           else give_up))"

definition write_denied :: "'s xdr_ops \<Rightarrow> rpc_header \<Rightarrow> 's coder" where
  "write_denied ops h =
     and_then (write_field ops (reject_status h))
       (if reject_status h = KsRpcRPCMISMATCH then write_versions ops h
        else if reject_status h = KsRpcAUTHERROR then write_field ops (auth_error h)
        else give_up)"

definition rpc_encode :: "'s xdr_ops \<Rightarrow> rpc_header \<Rightarrow> 's coder" where
  "rpc_encode ops h =
     and_then (write_field ops (xid h))
    (and_then (write_field ops (msg_type h))
       (if msg_type h = KsRpcCALL then write_call ops h
        else if msg_type h = KsRpcREPLY
        then and_then (write_field ops (reply_status h))
               (if reply_status h = KsRpcMSGACCEPTED then write_accepted ops h
                else if reply_status h = KsRpcMSGDENIED then write_denied ops h
                else give_up)
        else give_up))"

subsection \<open>Replies and requests\<close>

definition acceptCall :: "rpc_header \<Rightarrow> rpc_header" where
  "acceptCall h = h\<lparr>msg_type := KsRpcREPLY, reply_status := KsRpcMSGACCEPTED, accept_status := KsRpcSUCCESS\<rparr>"

definition setAuthRefusialError :: "u32 \<Rightarrow> rpc_header \<Rightarrow> rpc_header" where
  "setAuthRefusialError why h =
     h\<lparr>msg_type := KsRpcREPLY, reply_status := KsRpcMSGDENIED, reject_status := KsRpcAUTHERROR, auth_error := why\<rparr>"

definition setDecodeError :: "rpc_header \<Rightarrow> rpc_header" where
  "setDecodeError h = h\<lparr>msg_type := KsRpcREPLY, reply_status := KsRpcMSGACCEPTED, accept_status := KsRpcGARBAGEARGS\<rparr>"

definition setNoProcedureError :: "rpc_header \<Rightarrow> rpc_header" where
  "setNoProcedureError h = h\<lparr>msg_type := KsRpcREPLY, reply_status := KsRpcMSGACCEPTED, accept_status := KsRpcPROCUNAVAIL\<rparr>"

definition setNoProgrammError :: "rpc_header \<Rightarrow> rpc_header" where
  "setNoProgrammError h = h\<lparr>msg_type := KsRpcREPLY, reply_status := KsRpcMSGACCEPTED, accept_status := KsRpcPROGUNAVAIL\<rparr>"

definition setProgramVersionMismatchError :: "u32 \<Rightarrow> u32 \<Rightarrow> rpc_header \<Rightarrow> rpc_header" where
  "setProgramVersionMismatchError lo hi h =
     h\<lparr>msg_type := KsRpcREPLY, reply_status := KsRpcMSGACCEPTED, accept_status := KsRpcPROGMISMATCH,
       low_version := lo, high_version := hi\<rparr>"

definition setSystemError :: "rpc_header \<Rightarrow> rpc_header" where
  "setSystemError h = h\<lparr>msg_type := KsRpcREPLY, reply_status := KsRpcMSGACCEPTED, accept_status := KsRpcSYSTEMERR\<rparr>"

definition setRPCVersionMismatchError :: "u32 \<Rightarrow> u32 \<Rightarrow> rpc_header \<Rightarrow> rpc_header" where
  "setRPCVersionMismatchError lo hi h =
     h\<lparr>msg_type := KsRpcREPLY, reply_status := KsRpcMSGDENIED, reject_status := KsRpcRPCMISMATCH,
       low_version := lo, high_version := hi\<rparr>"

definition setRequest :: "u32 \<Rightarrow> u32 \<Rightarrow> u32 \<Rightarrow> u32 \<Rightarrow> rpc_header \<Rightarrow> rpc_header" where
  "setRequest x prog vers proc h =
     h\<lparr>xid := x, msg_type := KsRpcCALL, rpc_version := 2, prog_number := prog, prog_version := vers, procedure := proc\<rparr>"

subsection \<open>The external representation\<close>

definition versions_status :: "rpc_header \<Rightarrow> bool" where
  "versions_status h \<longleftrightarrow> (if reply_status h = KsRpcMSGACCEPTED then accept_status h = KsRpcPROGMISMATCH else reject_status h = KsRpcRPCMISMATCH)"

definition rpc_valid :: "rpc_header \<Rightarrow> bool" where
  "rpc_valid h \<longleftrightarrow>
     (msg_type h = KsRpcCALL \<and> rpc_version h = 2) \<or>
     (msg_type h = KsRpcREPLY \<and>
        ((reply_status h = KsRpcMSGACCEPTED \<and> accept_status h \<le> KsRpcSYSTEMERR) \<or>
         (reply_status h = KsRpcMSGDENIED \<and> (reject_status h = KsRpcRPCMISMATCH \<or> reject_status h = KsRpcAUTHERROR))))"

definition words :: "u32 list \<Rightarrow> byte list" where
  "words ws = concat (map be32 ws)"

definition rpc_words :: "rpc_header \<Rightarrow> u32 list" where
  "rpc_words h = [xid h, msg_type h] @
     (if msg_type h = KsRpcCALL then [2, prog_number h, prog_version h, procedure h, 0, 0, 0, 0]
      else [reply_status h] @
        (if reply_status h = KsRpcMSGACCEPTED then [0, 0, accept_status h] else [reject_status h]) @
        (if versions_status h then [low_version h, high_version h]
         else if reply_status h = KsRpcMSGACCEPTED then [] else [auth_error h]))"

text \<open>What a decoded header keeps of the object it was decoded into.\<close>

definition received :: "rpc_header \<Rightarrow> rpc_header \<Rightarrow> rpc_header" where
  "received h old =
     (let o1 = old\<lparr>rpc_version := 0, xid := xid h, msg_type := msg_type h\<rparr>
      in if msg_type h = KsRpcCALL
         then o1\<lparr>rpc_version := 2, prog_number := prog_number h, prog_version := prog_version h, procedure := procedure h\<rparr>
         else let o2 = o1\<lparr>reply_status := reply_status h\<rparr>;
                  o3 = (if reply_status h = KsRpcMSGACCEPTED then o2\<lparr>accept_status := accept_status h\<rparr>
                        else o2\<lparr>reject_status := reject_status h\<rparr>)
              in if versions_status h then o3\<lparr>low_version := low_version h, high_version := high_version h\<rparr>
                 else if reply_status h = KsRpcMSGACCEPTED then o3 else o3\<lparr>auth_error := auth_error h\<rparr>)"

lemma words_simps [simp]:
  "words [] = []"
  "words (w # ws) = be32 w @ words ws"
  "words (ws @ vs) = words ws @ words vs"
  by (simp_all add: words_def)

lemma length_words: "length (words ws) = 4 * length ws"
  by (induction ws) auto

lemma u32_le_5: "a \<le> (5 :: u32) \<Longrightarrow> a \<in> {0, 1, 2, 3, 4, 5}"
proof -
  assume "a \<le> 5"
  then have "unat a \<le> 5" by (simp add: word_le_nat_alt)
  then have "unat a \<in> {0, 1, 2, 3, 4, 5}" by auto
  then have "(of_nat (unat a) :: u32) \<in> of_nat ` {0, 1, 2, 3, 4, 5}" by blast
  then show ?thesis by simp
qed

context byte_sink
begin

lemma writes_field: "writes good room written (write_field ops v) (words [v])"
  using writes_u_long by (simp add: write_field_def)

lemma writes_done: "writes good room written (\<lambda>s. Some (True, s)) (words [])"
  by (simp add: writes_alt emits_Nil)

lemma writes_words:
  "writes good room written a (words us) \<Longrightarrow> writes good room written b (words vs) \<Longrightarrow>
   writes good room written (and_then a b) (words (us @ vs))"
  using writes_and by simp

lemma writes_Cons: "writes good room written b (words vs) \<Longrightarrow> writes good room written (and_then (write_field ops v) b) (words (v # vs))"
  using writes_words [OF writes_field] by simp

lemma writes_auth: "writes good room written b (words vs) \<Longrightarrow> writes good room written (and_then (write_auth_none ops) b) (words (0 # 0 # vs))"
  using writes_words [OF writes_Cons [OF writes_field]] by (simp add: write_auth_none_def KsRpcAUTHNONE_def)

lemma writes_auth_only: "writes good room written (write_auth_none ops) (words [0, 0])"
  using writes_Cons [OF writes_field] by (simp add: write_auth_none_def KsRpcAUTHNONE_def)

lemma writes_versions: "writes good room written (write_versions ops h) (words [low_version h, high_version h])"
  unfolding write_versions_def by (intro writes_Cons writes_field)

lemma writes_rpc:
  assumes "rpc_valid h"
  shows "writes good room written (rpc_encode ops h) (words (rpc_words h))"
proof -
  consider (call) "msg_type h = 0" "rpc_version h = 2" | (acc) "msg_type h = 1" "reply_status h = 0" "accept_status h \<le> 5"
    | (den) "msg_type h = 1" "reply_status h = 1" "reject_status h = 0 \<or> reject_status h = 1"
    using assms by (auto simp: rpc_valid_def rpc_codes)
  then show ?thesis
  proof cases
    case call
    then have "rpc_words h = [xid h, 0, rpc_version h, prog_number h, prog_version h, procedure h, 0, 0, 0, 0]"
      by (simp add: rpc_words_def rpc_codes)
    then show ?thesis using call
      by (simp add: rpc_encode_def write_call_def KsRpcCALL_def del: words_simps)
         (intro writes_Cons writes_auth writes_auth_only)
  next
    case acc
    have "writes good room written (write_accepted ops h)
        (words ([0, 0, accept_status h] @ (if accept_status h = 2 then [low_version h, high_version h] else [])))"
      using u32_le_5 [OF acc(3)]
      by (auto simp: write_accepted_def rpc_codes simp del: words_simps intro!: writes_auth writes_Cons writes_versions writes_done)
    then show ?thesis using acc
      by (simp add: rpc_encode_def rpc_words_def versions_status_def rpc_codes del: words_simps)
         (intro conjI impI; simp del: words_simps; intro writes_Cons; simp)
  next
    case den
    then show ?thesis
      by (auto simp: rpc_encode_def rpc_words_def versions_status_def write_denied_def rpc_codes simp del: words_simps
           intro!: writes_Cons writes_versions writes_field)
  qed
qed

end

subsection \<open>Reading it\<close>

definition hreads ::
  "('s \<Rightarrow> bool) \<Rightarrow> ('s \<Rightarrow> byte list) \<Rightarrow> rpc_header \<Rightarrow> (rpc_header \<times> 's) coder \<Rightarrow> rpc_header \<Rightarrow> u32 list \<Rightarrow> bool" where
  "hreads good rest h d h' ws \<longleftrightarrow>
     (\<forall>s r. good s \<and> rest s = words ws @ r \<and> 4 dvd length r \<longrightarrow>
        (\<exists>s'. d (h, s) = Some (True, h', s') \<and> good s' \<and> rest s' = r))"

lemma hreads_then:
  assumes a: "hreads good rest h a h1 us" and b: "hreads good rest h1 b h2 vs"
  shows "hreads good rest h (and_then a b) h2 (us @ vs)"
  unfolding hreads_def
proof (intro allI impI)
  fix s r
  assume s: "good s \<and> rest s = words (us @ vs) @ r \<and> 4 dvd length r"
  then obtain t where t: "a (h, s) = Some (True, h1, t)" "good t" "rest t = words vs @ r"
    using a unfolding hreads_def by (metis append_assoc dvd_add dvd_triv_left length_append length_words words_simps(3))
  then obtain u where "b (h1, t) = Some (True, h2, u)" "good u" "rest u = r"
    using b s unfolding hreads_def by blast
  with t show "\<exists>u. and_then a b (h, s) = Some (True, h2, u) \<and> good u \<and> rest u = r" by (simp add: and_then_def)
qed

lemma hreads_require: "P h \<Longrightarrow> hreads good rest h (require P) h []"
  by (simp add: hreads_def require_def)

lemma hreads_if:
  "(P h \<Longrightarrow> hreads good rest h a h' ws) \<Longrightarrow> (\<not> P h \<Longrightarrow> hreads good rest h b h' ws) \<Longrightarrow>
   hreads good rest h (\<lambda>hs. if P (fst hs) then a hs else b hs) h' ws"
  by (cases "P h") (auto simp: hreads_def)

lemma hreads_done: "hreads good rest h (\<lambda>hs. Some (True, hs)) h []"
  by (simp add: hreads_def)

context byte_source
begin

lemma hreads_field: "hreads good rest h (read_field ops upd) (upd v h) [v]"
  unfolding hreads_def
proof (intro allI impI)
  fix s r
  assume "good s \<and> rest s = words [v] @ r \<and> 4 dvd length r"
  then obtain s' where "xdr_u_long ops XDR_DECODE 0 s = Some (True, v, s')" "good s'" "rest s' = r"
    using decodesD [OF decodes_u_long [of 0 v], of s r] by auto
  then show "\<exists>s'. read_field ops upd (h, s) = Some (True, upd v h, s') \<and> good s' \<and> rest s' = r"
    by (simp add: read_field_def)
qed

lemma hreads_auth: "hreads good rest h (auth_none ops) h [0, 0]"
  unfolding hreads_def
proof (intro allI impI)
  fix s r
  assume s: "good s \<and> rest s = words [0, 0] @ r \<and> 4 dvd length r"
  then obtain t where t: "xdr_u_long ops XDR_DECODE 0 s = Some (True, 0, t)" "good t" "rest t = be32 0 @ r"
    using decodesD [OF decodes_u_long [of 0 0], of s "be32 0 @ r"] by auto
  then obtain u where "xdr_u_long ops XDR_DECODE 0 t = Some (True, 0, u)" "good u" "rest u = r"
    using decodesD [OF decodes_u_long [of 0 0], of t r] s by auto
  with t show "\<exists>u. auth_none ops (h, s) = Some (True, h, u) \<and> good u \<and> rest u = r"
    by (simp add: auth_none_def KsRpcAUTHNONE_def)
qed

lemma hreads_next: "hreads good rest (upd v h) b h' vs \<Longrightarrow> hreads good rest h (and_then (read_field ops upd) b) h' (v # vs)"
  by (metis append_Cons append_Nil hreads_field hreads_then)

lemma hreads_auth_then: "hreads good rest h b h' vs \<Longrightarrow> hreads good rest h (and_then (auth_none ops) b) h' (0 # 0 # vs)"
  using hreads_then [OF hreads_auth] by (metis append_Cons append_Nil)

lemma hreads_require_then: "P h \<Longrightarrow> hreads good rest h b h' vs \<Longrightarrow> hreads good rest h (and_then (require P) b) h' vs"
  using hreads_then [OF hreads_require] by fastforce

lemma hreads_versions:
  "hreads good rest h (read_versions ops) (h\<lparr>low_version := lo, high_version := hi\<rparr>) [lo, hi]"
  unfolding read_versions_def by (rule hreads_next) (use hreads_field [of _ "\<lambda>v. high_version_update (\<lambda>_. v)" hi] in simp)

lemma hreads_call:
  "hreads good rest h (read_call ops)
     (h\<lparr>rpc_version := 2, prog_number := p, prog_version := v, procedure := q\<rparr>) [2, p, v, q, 0, 0, 0, 0]"
  unfolding read_call_def
  by (intro hreads_next hreads_require_then hreads_auth_then) (use hreads_auth in simp_all)

lemma hreads_accepted:
  assumes "a \<le> KsRpcSYSTEMERR"
  shows "hreads good rest h (read_accepted ops)
     (if a = KsRpcPROGMISMATCH then h\<lparr>accept_status := a, low_version := lo, high_version := hi\<rparr> else h\<lparr>accept_status := a\<rparr>)
     ([0, 0, a] @ (if a = KsRpcPROGMISMATCH then [lo, hi] else []))"
proof -
  have "a \<in> {0, 1, 2, 3, 4, 5}" using assms u32_le_5 by (simp add: rpc_codes)
  then show ?thesis
    unfolding read_accepted_def Let_def append_Cons append_Nil
    by (intro hreads_auth_then hreads_next hreads_if)
       (auto simp: rpc_codes intro: hreads_versions hreads_done)
qed

lemma hreads_denied:
  assumes "a = KsRpcRPCMISMATCH \<or> a = KsRpcAUTHERROR"
  shows "hreads good rest h (read_denied ops)
     (if a = KsRpcRPCMISMATCH then h\<lparr>reject_status := a, low_version := lo, high_version := hi\<rparr>
      else h\<lparr>reject_status := a, auth_error := e\<rparr>)
     (a # (if a = KsRpcRPCMISMATCH then [lo, hi] else [e]))"
  unfolding read_denied_def Let_def
  by (intro hreads_next hreads_if)
     (use assms hreads_versions hreads_field [of _ "\<lambda>v. auth_error_update (\<lambda>_. v)" e] in \<open>auto simp: rpc_codes\<close>)

lemma hreads_rpc:
  assumes "rpc_valid h"
  shows "hreads good rest old (rpc_decode ops) (received h old) (rpc_words h)"
proof -
  let ?old = "old\<lparr>rpc_version := 0, xid := xid h, msg_type := msg_type h\<rparr>"
  have start: "hreads good rest old (rpc_decode ops) h' (xid h # msg_type h # ws)"
    if "hreads good rest ?old (\<lambda>hs. if msg_type (fst hs) = KsRpcCALL then read_call ops hs
           else if msg_type (fst hs) = KsRpcREPLY then read_reply ops hs else Some (False, hs)) h' ws" for h' ws
  proof -
    let ?b = "\<lambda>hs. if msg_type (fst hs) = KsRpcCALL then read_call ops hs
           else if msg_type (fst hs) = KsRpcREPLY then read_reply ops hs else Some (False, hs)"
    have "hreads good rest (old\<lparr>rpc_version := 0, xid := xid h\<rparr>) (and_then (read_field ops (\<lambda>v. msg_type_update (\<lambda>_. v))) ?b) h'
        (msg_type h # ws)" by (rule hreads_next) (use that in simp)
    then have "hreads good rest (old\<lparr>rpc_version := 0\<rparr>) (and_then (read_field ops (\<lambda>v. xid_update (\<lambda>_. v)))
        (and_then (read_field ops (\<lambda>v. msg_type_update (\<lambda>_. v))) ?b)) h' (xid h # msg_type h # ws)"
      by - (rule hreads_next, simp)
    then show ?thesis by (simp add: hreads_def rpc_decode_def)
  qed
  consider (call) "msg_type h = 0" | (acc) "msg_type h = 1" "reply_status h = 0" "accept_status h \<le> 5"
    | (den) "msg_type h = 1" "reply_status h = 1" "reject_status h = 0 \<or> reject_status h = 1"
    using assms by (auto simp: rpc_valid_def rpc_codes)
  then show ?thesis
  proof cases
    case call
    have "hreads good rest ?old (read_call ops) (received h old) [2, prog_number h, prog_version h, procedure h, 0, 0, 0, 0]"
      using hreads_call [of ?old "procedure h" "prog_version h" "prog_number h"] call by (simp add: received_def rpc_codes)
    moreover have "rpc_words h = xid h # msg_type h # [2, prog_number h, prog_version h, procedure h, 0, 0, 0, 0]"
      using call by (simp add: rpc_words_def KsRpcCALL_def)
    ultimately show ?thesis
      using start [of "received h old" "[2, prog_number h, prog_version h, procedure h, 0, 0, 0, 0]"] call
      by (simp add: hreads_def rpc_codes)
  next
    case acc
    have "hreads good rest (?old\<lparr>reply_status := reply_status h\<rparr>)
        (\<lambda>hs. if reply_status (fst hs) = KsRpcMSGACCEPTED then read_accepted ops hs
             else if reply_status (fst hs) = KsRpcMSGDENIED then read_denied ops hs else Some (False, hs))
        (received h old) (tl (tl (tl (rpc_words h))))"
      by (rule hreads_if; cases "accept_status h = 2") (use acc hreads_accepted [where a = "accept_status h" and h = "?old\<lparr>reply_status := reply_status h\<rparr>"
          and lo = "low_version h" and hi = "high_version h"] in
          \<open>simp_all add: received_def rpc_words_def versions_status_def rpc_codes\<close>)
    then have "hreads good rest ?old (read_reply ops) (received h old) (tl (tl (rpc_words h)))"
      using acc unfolding read_reply_def by (simp add: rpc_words_def rpc_codes hreads_next)
    moreover have "rpc_words h = xid h # msg_type h # tl (tl (rpc_words h))" by (simp add: rpc_words_def)
    ultimately show ?thesis using start [of "received h old" "tl (tl (rpc_words h))"] acc by (simp add: hreads_def rpc_codes)
  next
    case den
    have "hreads good rest (?old\<lparr>reply_status := reply_status h\<rparr>)
        (\<lambda>hs. if reply_status (fst hs) = KsRpcMSGACCEPTED then read_accepted ops hs
             else if reply_status (fst hs) = KsRpcMSGDENIED then read_denied ops hs else Some (False, hs))
        (received h old) (tl (tl (tl (rpc_words h))))"
      by (intro hreads_if; cases "reject_status h = 0") (use den hreads_denied [where a = "reject_status h" and h = "?old\<lparr>reply_status := reply_status h\<rparr>"
          and lo = "low_version h" and hi = "high_version h" and e = "auth_error h"] in
          \<open>simp_all add: received_def rpc_words_def versions_status_def rpc_codes\<close>)
    then have "hreads good rest ?old (read_reply ops) (received h old) (tl (tl (rpc_words h)))"
      using den unfolding read_reply_def by (simp add: rpc_words_def rpc_codes hreads_next)
    moreover have "rpc_words h = xid h # msg_type h # tl (tl (rpc_words h))" by (simp add: rpc_words_def)
    ultimately show ?thesis using start [of "received h old" "tl (tl (rpc_words h))"] den by (simp add: hreads_def rpc_codes)
  qed
qed

end

end
