(* ===== verification/KsTcpConnection.thy ===== *)
theory KsTcpConnection
  imports KsRpcHeader KsMemStream KsResult
begin

text \<open>
  The TCP connections of ACPLT/KS: ks/include/ks/connection.h, ks/src/connection.cpp, ks/include/ks/xdrtcpcon.h and
  ks/src/xdrtcpcon.cpp. A connection is an automaton the connection manager drives by calls of \<open>receive\<close>, \<open>send\<close>,
  \<open>timedOut\<close> and \<open>reset\<close>. An RPC message arrives as a record of fragments, each with a header of four bytes that
  tells its length and whether it is the last; the bodies are collected in a buffered stream.

  An operation works on the socket \<open>n\<close>, the fragment pool \<open>g\<close> shared by all streams and the connection \<open>c\<close>.
  \<open>rd\<close> and \<open>wr\<close> are \<open>read\<close> and \<open>write\<close> of the socket, \<open>conn_err\<close> tells whether \<open>getsockopt\<close> fails or reports an error.
\<close>

datatype cnx_state =
    CNX_IDLE
  | CNX_WAITING
  | CNX_PASSIVE
  | CNX_READY
  | CNX_READY_FAILED
  | CNX_RECEIVING
  | CNX_SENDING
  | CNX_CONNECTING
  | CNX_CONN_FAILED
  | CNX_CONNECTED
  | CNX_DEAD

datatype cnx_type = CNX_SERVER | CNX_CLIENT

datatype fragment_state = FRAGMENT_HEADER | FRAGMENT_BODY

definition CNX_IO_DORMANT :: u32 where "CNX_IO_DORMANT = 0x0000"
definition CNX_IO_READABLE :: u32 where "CNX_IO_READABLE = 0x0001"
definition CNX_IO_WRITEABLE :: u32 where "CNX_IO_WRITEABLE = 0x0002"
definition CNX_IO_ATTENTION :: u32 where "CNX_IO_ATTENTION = 0x0004"
definition CNX_IO_DEAD :: u32 where "CNX_IO_DEAD = 0x0008"
definition CNX_IO_NEED_TIMEOUT :: u32 where "CNX_IO_NEED_TIMEOUT = 0x8000"
definition CNX_IO_NO_FASTWRITE :: u32 where "CNX_IO_NO_FASTWRITE = 0x0800"
definition CNX_IO_HAD_ERROR :: u32 where "CNX_IO_HAD_ERROR = 0x4000"
definition CNX_IO_HAD_TX_ERROR :: u32 where "CNX_IO_HAD_TX_ERROR = 0x2000"
definition CNX_IO_HAD_RX_ERROR :: u32 where "CNX_IO_HAD_RX_ERROR = 0x1000"

lemmas cnx_io_defs =
  CNX_IO_DORMANT_def CNX_IO_READABLE_def CNX_IO_WRITEABLE_def CNX_IO_ATTENTION_def CNX_IO_DEAD_def
  CNX_IO_NEED_TIMEOUT_def CNX_IO_NO_FASTWRITE_def CNX_IO_HAD_ERROR_def CNX_IO_HAD_TX_ERROR_def CNX_IO_HAD_RX_ERROR_def

record tcpcon =
  cnx_type :: cnx_type
  auto_destroyable :: bool
  state :: cnx_state
  last_fragment :: bool
  fragment_state :: fragment_state
  remaining_len :: nat
  fragment_header :: "byte list"
  header_ptr :: nat
  rpc :: rpc_header
  cleanup_xdr_stream :: bool
  xdrs :: memstream

type_synonym 'n net = "'n \<times> msglob \<times> tcpcon"

unbundle bit_operations_syntax

fun io_mode :: "cnx_state \<Rightarrow> u32" where
  "io_mode CNX_DEAD = CNX_IO_DEAD"
| "io_mode CNX_IDLE = CNX_IO_READABLE"
| "io_mode CNX_WAITING = CNX_IO_READABLE OR CNX_IO_NEED_TIMEOUT"
| "io_mode CNX_READY = CNX_IO_DORMANT OR CNX_IO_ATTENTION"
| "io_mode CNX_READY_FAILED = CNX_IO_DORMANT OR CNX_IO_ATTENTION"
| "io_mode CNX_RECEIVING = CNX_IO_READABLE OR CNX_IO_NEED_TIMEOUT"
| "io_mode CNX_SENDING = CNX_IO_WRITEABLE OR CNX_IO_NEED_TIMEOUT"
| "io_mode CNX_CONNECTING = CNX_IO_READABLE OR CNX_IO_WRITEABLE OR CNX_IO_NEED_TIMEOUT OR CNX_IO_NO_FASTWRITE"
| "io_mode CNX_CONNECTED = CNX_IO_DORMANT"
| "io_mode CNX_CONN_FAILED = CNX_IO_DORMANT OR CNX_IO_ATTENTION"
| "io_mode CNX_PASSIVE = CNX_IO_DORMANT"

definition getIoMode :: "tcpcon \<Rightarrow> u32" where
  "getIoMode c = io_mode (state c)"

text \<open>The fragment automaton waits for the header of a fragment.\<close>

definition await_header :: "tcpcon \<Rightarrow> tcpcon" where
  "await_header c = c\<lparr>fragment_state := FRAGMENT_HEADER, remaining_len := 4, header_ptr := 0\<rparr>"

text \<open>After an i/o error a server connection dies, the failure of a client connection is left to its user.\<close>

definition broken :: "tcpcon \<Rightarrow> tcpcon" where
  "broken c = c\<lparr>state := (if cnx_type c = CNX_CLIENT then CNX_READY_FAILED else CNX_DEAD)\<rparr>"

subsection \<open>Creation\<close>

definition new_connection :: "bool \<Rightarrow> cnx_type \<Rightarrow> memstream \<Rightarrow> byte list \<Rightarrow> tcpcon" where
  "new_connection destroyable ty x hdr =
     \<lparr>cnx_type = ty, auto_destroyable = destroyable, state = (if ty = CNX_SERVER then CNX_IDLE else CNX_PASSIVE),
      last_fragment = False, fragment_state = FRAGMENT_HEADER, remaining_len = 0, fragment_header = hdr, header_ptr = 0,
      rpc = rpc_new, cleanup_xdr_stream = True, xdrs = x\<rparr>"

text \<open>
  \<open>prepared\<close> tells whether the socket could be made non-blocking and kept alive, \<open>conn\<close> is the error of \<open>connect\<close>, if any.
  \<open>hdr\<close> is what the header buffer holds.
\<close>

definition tcp_create ::
  "mallocf \<Rightarrow> bool \<Rightarrow> u32 \<Rightarrow> bool \<Rightarrow> errno option \<Rightarrow> cnx_type \<Rightarrow> byte list \<Rightarrow> mss \<Rightarrow> (msglob \<times> tcpcon) option" where
  "tcp_create mal info_ok junk prepared conn ty hdr s =
     do { (ok, g, x) \<leftarrow> ms_create mal info_ok junk s;
          let c = new_connection True ty x hdr;
          Some (g,
            if \<not> ok then c\<lparr>state := CNX_DEAD\<rparr>
            else if \<not> prepared then c\<lparr>state := CNX_DEAD\<rparr>
            else if ty = CNX_CLIENT
            then c\<lparr>auto_destroyable := False,
                   state := (case conn of
                               None \<Rightarrow> CNX_CONNECTING
                             | Some e \<Rightarrow> if e = EINPROGRESS \<or> e = EWOULDBLOCK then CNX_CONNECTING else CNX_DEAD)\<rparr>
            else await_header (c\<lparr>state := CNX_IDLE\<rparr>)) }"

text \<open>
  The stream is given back and the connection dies; closing the socket is not part of the model.
\<close>

definition shutdown :: "msglob \<times> tcpcon \<Rightarrow> (msglob \<times> tcpcon) option" where
  "shutdown = (\<lambda>(g, c).
     do { g \<leftarrow> (if cleanup_xdr_stream c then ms_destroy (g, xdrs c) else Some g);
          Some (g, c\<lparr>cleanup_xdr_stream := False, state := CNX_DEAD\<rparr>) })"

subsection \<open>Reset and timeout\<close>

definition clear_stream :: "msglob \<Rightarrow> tcpcon \<Rightarrow> (msglob \<times> tcpcon) option" where
  "clear_stream g c = do { (g, x) \<leftarrow> ms_clear (g, xdrs c); Some (g, c\<lparr>xdrs := x\<rparr>) }"

definition freeStreamMemory :: "msglob \<Rightarrow> tcpcon \<Rightarrow> (msglob \<times> tcpcon) option" where
  "freeStreamMemory = clear_stream"

text \<open>The ticket reads its trailer and gives its verdict by virtual functions.\<close>

definition finishRequestDeserialization ::
  "mss coder \<Rightarrow> ks_result \<Rightarrow> msglob \<times> tcpcon \<Rightarrow> (ks_result \<times> msglob \<times> tcpcon) option" where
  "finishRequestDeserialization trailer verdict = (\<lambda>(g, c).
     do { (ok, g, x) \<leftarrow> trailer (g, xdrs c);
          let c = c\<lparr>xdrs := x\<rparr>;
          if \<not> ok then Some (KS_ERR_GENERIC, g, c)
          else do { (g, c) \<leftarrow> freeStreamMemory g c; Some (verdict, g, c) } })"

definition reset_state :: "tcpcon \<Rightarrow> cnx_state" where
  "reset_state c =
     (if state c = CNX_SENDING \<or> state c = CNX_WAITING \<or> state c = CNX_RECEIVING
      then (if cnx_type c = CNX_CLIENT then CNX_READY_FAILED
            else if state c = CNX_SENDING then CNX_IDLE else CNX_DEAD)
      else if cnx_type c = CNX_CLIENT then CNX_CONNECTED else state c)"

definition reset :: "'n net \<Rightarrow> (u32 \<times> 'n net) option" where
  "reset = (\<lambda>(n, g, c).
     if state c = CNX_DEAD then Some (CNX_IO_DEAD, n, g, c)
     else do { (g, c) \<leftarrow> clear_stream g (c\<lparr>state := reset_state c\<rparr>);
               let c = await_header c;
               Some (getIoMode c, n, g, c) })"

definition timedOut :: "'n net \<Rightarrow> (u32 \<times> 'n net) option" where
  "timedOut = (\<lambda>(n, g, c).
     if state c = CNX_DEAD then Some (CNX_IO_DEAD, n, g, c)
     else do { (g, c) \<leftarrow> clear_stream g
                 (c\<lparr>state := (if cnx_type c = CNX_CLIENT
                              then (if state c = CNX_CONNECTING then CNX_CONN_FAILED else CNX_READY_FAILED)
                              else CNX_IDLE)\<rparr>);
               let c = await_header c;
               Some (getIoMode c, n, g, c) })"

definition personaNonGrata :: "'n net \<Rightarrow> 'n net option" where
  "personaNonGrata x = do { (_, n, g, c) \<leftarrow> reset x; Some (n, g, c\<lparr>state := CNX_DEAD\<rparr>) }"

subsection \<open>Sending\<close>

definition poke_long :: "nat \<times> nat \<Rightarrow> u32 \<Rightarrow> msglob \<Rightarrow> msglob option" where
  "poke_long a v g =
     do { f \<leftarrow> heap g (fst a);
          if snd a + 4 \<le> length (fdata f)
          then Some (g\<lparr>heap := (heap g)(fst a \<mapsto>
                 f\<lparr>fdata := take (snd a) (fdata f) @ be32 v @ drop (snd a + 4) (fdata f)\<rparr>)\<rparr>)
          else None }"

text \<open>The first word of the stream becomes the fragment header of the only fragment; the result is the length of the record.\<close>

definition mark_record :: "mallocf \<Rightarrow> mss \<Rightarrow> (u32 \<times> mss) option" where
  "mark_record mal s =
     do { s \<leftarrow> ms_rewind XDR_DECODE s;
          let len = ms_get_length s;
          (p, g, x) \<leftarrow> ms_inline mal 4 s;
          g \<leftarrow> poke_long p ((len - 4) OR 0x80000000) g;
          s \<leftarrow> ms_rewind XDR_DECODE (g, x);
          Some (len, s) }"

definition enterSendingState :: "mallocf \<Rightarrow> 'n net \<Rightarrow> (u32 \<times> 'n net) option" where
  "enterSendingState mal = (\<lambda>(n, g, c).
     do { (len, g, x) \<leftarrow> mark_record mal (g, xdrs c);
          let c = c\<lparr>state := CNX_SENDING, fragment_state := FRAGMENT_BODY, remaining_len := unat len, xdrs := x\<rparr>;
          Some (getIoMode c, n, g, c) })"

text \<open>Clear the stream, make room for the fragment header, write the message and start to send it.\<close>

definition encode_message :: "mallocf \<Rightarrow> mss coder \<Rightarrow> 'n net \<Rightarrow> (bool \<times> 'n net) option" where
  "encode_message mal msg = (\<lambda>(n, g, c).
     do { (g, c) \<leftarrow> clear_stream g c;
          (ok, g, x) \<leftarrow> and_then (ks_xdre (xdr_u_long (ms_ops mal)) 0x80000000) msg (g, xdrs c);
          Some (ok, n, g, c\<lparr>xdrs := x\<rparr>) })"

definition transmit :: "mallocf \<Rightarrow> mss coder \<Rightarrow> 'n net \<Rightarrow> 'n net option" where
  "transmit mal msg x =
     do { (ok, x) \<leftarrow> encode_message mal msg x;
          (_, x) \<leftarrow> (if ok then enterSendingState mal x else reset x);
          Some x }"

definition sendPingReply :: "mallocf \<Rightarrow> 'n net \<Rightarrow> 'n net option" where
  "sendPingReply mal = (\<lambda>(n, g, c).
     if state c = CNX_DEAD then Some (n, g, c)
     else let h = acceptCall (rpc c)
          in do { (ok, n, g, c) \<leftarrow> encode_message mal (rpc_encode (ms_ops mal) h) (n, g, c\<lparr>rpc := h\<rparr>);
                  (_, x) \<leftarrow> (if ok then enterSendingState mal (n, g, c\<lparr>state := CNX_SENDING\<rparr>) else reset (n, g, c));
                  Some x })"

text \<open>The ticket and the result serialize themselves by virtual functions.\<close>

definition sendErrorReply :: "mallocf \<Rightarrow> mss coder \<Rightarrow> mss coder \<Rightarrow> ks_result \<Rightarrow> 'n net \<Rightarrow> 'n net option" where
  "sendErrorReply mal avt trailer error = (\<lambda>(n, g, c).
     if state c = CNX_DEAD then Some (n, g, c)
     else let e = (if error = KS_ERR_OK then KS_ERR_GENERIC else error); h = acceptCall (rpc c)
          in transmit mal
               (and_then (rpc_encode (ms_ops mal) h)
                 (and_then avt (and_then (ks_xdre (xdr_u_long (ms_ops mal)) e) trailer))) (n, g, c\<lparr>rpc := h\<rparr>))"

definition sendReply :: "mallocf \<Rightarrow> mss coder \<Rightarrow> mss coder \<Rightarrow> mss coder \<Rightarrow> 'n net \<Rightarrow> 'n net option" where
  "sendReply mal avt result trailer = (\<lambda>(n, g, c).
     if state c = CNX_DEAD then Some (n, g, c)
     else let h = acceptCall (rpc c)
          in transmit mal (and_then (rpc_encode (ms_ops mal) h) (and_then avt (and_then result trailer)))
               (n, g, c\<lparr>rpc := h\<rparr>))"

definition beginRequest :: "mallocf \<Rightarrow> u32 \<Rightarrow> u32 \<Rightarrow> u32 \<Rightarrow> u32 \<Rightarrow> 'n net \<Rightarrow> (bool \<times> 'n net) option" where
  "beginRequest mal x prog vers proc = (\<lambda>(n, g, c).
     if state c = CNX_DEAD then Some (False, n, g, c)
     else let h = setRequest x prog vers proc (rpc c)
          in encode_message mal (rpc_encode (ms_ops mal) h) (n, g, c\<lparr>rpc := h\<rparr>))"

definition sendRequest :: "mallocf \<Rightarrow> 'n net \<Rightarrow> 'n net option" where
  "sendRequest mal x = do { (_, x) \<leftarrow> enterSendingState mal x; Some x }"

text \<open>A connection that is being established learns the outcome from the first event on its socket; later ones are ignored.\<close>

definition finish_connect :: "('n \<Rightarrow> bool) \<Rightarrow> 'n net \<Rightarrow> (u32 \<times> 'n net) option" where
  "finish_connect conn_err = (\<lambda>(n, g, c).
     if state c = CNX_CONNECTING
     then (if conn_err n
           then let c = c\<lparr>state := CNX_CONN_FAILED\<rparr> in Some (getIoMode c, n, g, c)
           else let c = c\<lparr>state := CNX_CONNECTED\<rparr> in Some (getIoMode c OR CNX_IO_ATTENTION, n, g, c))
     else Some (getIoMode c AND NOT CNX_IO_ATTENTION, n, g, c))"

definition in_connect :: "tcpcon \<Rightarrow> bool" where
  "in_connect c \<longleftrightarrow> state c = CNX_CONNECTING \<or> state c = CNX_CONNECTED \<or> state c = CNX_CONN_FAILED"

definition send ::
  "('n \<Rightarrow> bool) \<Rightarrow> (byte list \<Rightarrow> 'n \<Rightarrow> (errno + nat) \<times> 'n) \<Rightarrow> 'n net \<Rightarrow> (u32 \<times> 'n net) option" where
  "send conn_err wr = (\<lambda>(n, g, c).
     if in_connect c then finish_connect conn_err (n, g, c)
     else do { (ok, n, g, c) \<leftarrow>
                 (if fragment_state c = FRAGMENT_BODY
                  then do { (ok, _, rlen, n, g, x) \<leftarrow> write_to_fd wr (remaining_len c) n (g, xdrs c);
                            Some (ok, n, g, c\<lparr>remaining_len := rlen, xdrs := x\<rparr>) }
                  else Some (True, n, g, c));
               if \<not> ok then let c = broken c in Some (getIoMode c OR CNX_IO_HAD_TX_ERROR, n, g, c)
               else if remaining_len c = 0
               then (if cnx_type c = CNX_CLIENT
                     then do { (g, c) \<leftarrow> clear_stream g (await_header (c\<lparr>state := CNX_WAITING\<rparr>));
                               Some (getIoMode c, n, g, c) }
                     else reset (n, g, c))
               else Some (getIoMode c, n, g, c) })"

subsection \<open>Receiving\<close>

text \<open>\<open>read\<close>, repeated as long as it is interrupted.\<close>

partial_function (option) read_header ::
  "(nat \<Rightarrow> 'n \<Rightarrow> (errno + byte list) \<times> 'n) \<Rightarrow> nat \<Rightarrow> 'n \<Rightarrow> ((errno + byte list) \<times> 'n) option" where
  "read_header rd k n =
     (case rd k n of
        (Inl e, n') \<Rightarrow> if e = EINTR then read_header rd k n' else Some (Inl e, n')
      | (Inr b, n') \<Rightarrow> Some (Inr b, n'))"

text \<open>A complete header.\<close>

definition take_header :: "tcpcon \<Rightarrow> tcpcon" where
  "take_header c =
     (let l = un_be32 (fragment_header c);
          c = c\<lparr>last_fragment := (l AND 0x80000000 \<noteq> 0), remaining_len := unat (l AND 0x7FFFFFFF)\<rparr>
      in if remaining_len c \<noteq> 0 then c\<lparr>fragment_state := FRAGMENT_BODY\<rparr>
         else if \<not> last_fragment c then c\<lparr>remaining_len := 4, header_ptr := 0\<rparr>
         else c)"

text \<open>
  The part of \<open>receive\<close> for the fragment header; the result is the i/o mode if it returns from there.
\<close>

definition receive_header ::
  "(nat \<Rightarrow> 'n \<Rightarrow> (errno + byte list) \<times> 'n) \<Rightarrow> 'n net \<Rightarrow> (u32 option \<times> 'n net) option" where
  "receive_header rd = (\<lambda>(n, g, c).
     do { (r, n) \<leftarrow> read_header rd (remaining_len c) n;
          (case r of
             Inr [] \<Rightarrow>
               let c' = broken c
               in Some (Some (if remaining_len c < 4 then getIoMode c' OR CNX_IO_HAD_RX_ERROR else getIoMode c'), n, g, c')
           | Inr b \<Rightarrow>
               let c = c\<lparr>remaining_len := remaining_len c - length b,
                         fragment_header := take (header_ptr c) (fragment_header c) @ b @
                           drop (header_ptr c + length b) (fragment_header c),
                         header_ptr := header_ptr c + length b\<rparr>
               in Some (None, n, g, if remaining_len c = 0 then take_header c else c)
           | Inl e \<Rightarrow>
               if e = EWOULDBLOCK then Some (Some (getIoMode c), n, g, c)
               else do { (g, x) \<leftarrow> (if e = ECONNRESET \<and> remaining_len c = 4 then ms_rewind XDR_DECODE (g, xdrs c)
                                   else Some (g, xdrs c));
                         let c = broken (c\<lparr>xdrs := x\<rparr>);
                         Some (Some (getIoMode c), n, g, c) }) })"

definition receive_body ::
  "mallocf \<Rightarrow> (nat \<Rightarrow> 'n \<Rightarrow> (errno + byte list) \<times> 'n) \<Rightarrow> 'n net \<Rightarrow> (u32 option \<times> 'n net) option" where
  "receive_body mal rd = (\<lambda>(n, g, c).
     do { (ok, err, rlen, n, g, x) \<leftarrow> read_from_fd mal rd (remaining_len c) n (g, xdrs c);
          let c = c\<lparr>remaining_len := rlen, xdrs := x\<rparr>;
          if ok then Some (None, n, g, if rlen = 0 \<and> \<not> last_fragment c then await_header c else c)
          else if err = Some ENOMEM \<and> cnx_type c = CNX_SERVER
          then do { (m, y) \<leftarrow> reset (n, g, c); Some (Some m, y) }
          else let c = broken c in Some (Some (getIoMode c OR CNX_IO_HAD_RX_ERROR), n, g, c) })"

text \<open>What happens when the last fragment is complete. \<open>decode_rpc\<close> decodes the RPC header from the stream of the connection.\<close>

definition decode_rpc :: "mallocf \<Rightarrow> msglob \<Rightarrow> tcpcon \<Rightarrow> (bool \<times> msglob \<times> tcpcon) option" where
  "decode_rpc mal g c =
     do { (ok, h, g, x) \<leftarrow> rpc_decode (ms_ops mal) (rpc c, g, xdrs c); Some (ok, g, c\<lparr>rpc := h, xdrs := x\<rparr>) }"

definition record_complete :: "mallocf \<Rightarrow> 'n net \<Rightarrow> (u32 \<times> 'n net) option" where
  "record_complete mal = (\<lambda>(n, g, c).
     do { (g, x) \<leftarrow> ms_rewind XDR_DECODE (g, xdrs c);
          (ok, g, c') \<leftarrow> decode_rpc mal g (c\<lparr>xdrs := x\<rparr>);
          if cnx_type c = CNX_SERVER
          then (if \<not> ok
                then do { let h = setDecodeError (rpc c');
                          (g, c') \<leftarrow> clear_stream g (c'\<lparr>rpc := h, state := CNX_SENDING\<rparr>);
                          (ok, g, x) \<leftarrow> rpc_encode (ms_ops mal) h (g, xdrs c');
                          (m, y) \<leftarrow> (if \<not> ok then reset (n, g, c'\<lparr>xdrs := x\<rparr>) else enterSendingState mal (n, g, c'\<lparr>xdrs := x\<rparr>));
                          Some (m OR CNX_IO_HAD_ERROR, y) }
                else let c' = c'\<lparr>state := CNX_READY\<rparr> in Some (getIoMode c', n, g, c'))
          else let c' = c'\<lparr>state := (if \<not> ok \<or> xid (rpc c) \<noteq> xid (rpc c') then CNX_READY_FAILED else CNX_READY)\<rparr>
               in Some (getIoMode c', n, g, c') })"

definition receive_data ::
  "mallocf \<Rightarrow> (nat \<Rightarrow> 'n \<Rightarrow> (errno + byte list) \<times> 'n) \<Rightarrow> 'n net \<Rightarrow> (u32 option \<times> 'n net) option" where
  "receive_data mal rd = (\<lambda>(n, g, c).
     do { (m, n, g, c) \<leftarrow> (if fragment_state c = FRAGMENT_HEADER then receive_header rd (n, g, c) else Some (None, n, g, c));
          if m = None \<and> fragment_state c = FRAGMENT_BODY then receive_body mal rd (n, g, c) else Some (m, n, g, c) })"

definition receive ::
  "mallocf \<Rightarrow> ('n \<Rightarrow> bool) \<Rightarrow> (nat \<Rightarrow> 'n \<Rightarrow> (errno + byte list) \<times> 'n) \<Rightarrow> 'n net \<Rightarrow> (u32 \<times> 'n net) option" where
  "receive mal conn_err rd = (\<lambda>(n, g, c).
     if in_connect c then finish_connect conn_err (n, g, c)
     else do { (m, n, g, c) \<leftarrow> receive_data mal rd (n, g, c);
               (case m of
                  Some m \<Rightarrow> Some (m, n, g, c)
                | None \<Rightarrow>
                    if last_fragment c \<and> remaining_len c = 0 then record_complete mal (n, g, c)
                    else let c = c\<lparr>state := CNX_RECEIVING\<rparr> in Some (getIoMode c, n, g, c)) })"

end
