(* ===== verification/KsTcpInvariant.thy ===== *)
theory KsTcpInvariant
  imports KsTcpConnection
begin

text \<open>
  The invariant of the automaton of \<open>KsTcpConnection\<close>. The lemmas \<open>..._shape\<close> say which fields an operation may have changed, the
  lemmas \<open>..._inv\<close> that it keeps the invariant; \<open>con_step\<close> puts the operations together as the connection manager and the owner of
  a connection call them.
\<close>

lemma bind_net:
  "Option.bind a (\<lambda>(m, n, g, c). f m n g c) = Some y \<Longrightarrow> \<exists>m n g c. a = Some (m, n, g, c) \<and> f m n g c = Some y"
  by (cases a) auto

definition rx_inv :: "tcpcon \<Rightarrow> bool" where
  "rx_inv c \<longleftrightarrow> 0 < remaining_len c \<and>
     (case fragment_state c of
        FRAGMENT_HEADER \<Rightarrow> header_ptr c + remaining_len c = 4
      | FRAGMENT_BODY \<Rightarrow> remaining_len c < 2 ^ 31)"

definition base_inv :: "tcpcon \<Rightarrow> bool" where
  "base_inv c \<longleftrightarrow> length (fragment_header c) = 4 \<and>
     (cnx_type c = CNX_SERVER \<longrightarrow> state c \<in> {CNX_IDLE, CNX_RECEIVING, CNX_READY, CNX_SENDING, CNX_DEAD}) \<and>
     (cnx_type c = CNX_CLIENT \<longrightarrow> state c \<noteq> CNX_IDLE \<and> (state c = CNX_DEAD \<or> \<not> auto_destroyable c))"

definition con_inv :: "tcpcon \<Rightarrow> bool" where
  "con_inv c \<longleftrightarrow> base_inv c \<and>
     (state c \<in> {CNX_IDLE, CNX_WAITING, CNX_RECEIVING} \<longrightarrow> rx_inv c) \<and>
     (state c = CNX_SENDING \<longrightarrow> fragment_state c = FRAGMENT_BODY)"

definition keeps_inv :: "tcpcon \<Rightarrow> tcpcon \<Rightarrow> bool" where
  "keeps_inv c c' \<longleftrightarrow> con_inv c' \<and> cnx_type c' = cnx_type c \<and> auto_destroyable c' = auto_destroyable c"

lemma clear_stream_SomeD: "clear_stream g c = Some (g', c') \<Longrightarrow> \<exists>x. c' = c\<lparr>xdrs := x\<rparr>"
  by (auto simp: clear_stream_def bind_eq_Some_conv)

lemma rx_inv_await [simp]: "rx_inv (await_header c)"
  by (simp add: rx_inv_def await_header_def)

lemma reset_inv:
  assumes "reset (n, g, c) = Some (m, n', g', c')" "base_inv c"
  shows "keeps_inv c c'"
proof -
  consider "c' = c" "state c = CNX_DEAD" | x where "c' = await_header (c\<lparr>state := reset_state c, xdrs := x\<rparr>)"
    using assms(1) by (auto simp: reset_def Let_def bind_eq_Some_conv split: if_splits dest!: clear_stream_SomeD)
  then show ?thesis
  proof cases
    case 2
    then have "state c \<noteq> CNX_DEAD \<or> c' = c" using assms(1) by (auto simp: reset_def)
    then show ?thesis using assms(2) unfolding 2
      by (cases "cnx_type c"; cases "state c") (auto simp: keeps_inv_def con_inv_def base_inv_def await_header_def reset_state_def rx_inv_def)
  qed (use assms(2) in \<open>simp add: keeps_inv_def con_inv_def\<close>)
qed

lemma con_inv_base: "con_inv c \<Longrightarrow> base_inv c"
  by (simp add: con_inv_def)

lemma base_inv_update [simp]:
  "base_inv (c\<lparr>xdrs := x\<rparr>) = base_inv c" "base_inv (c\<lparr>rpc := h\<rparr>) = base_inv c" "base_inv (c\<lparr>remaining_len := k\<rparr>) = base_inv c"
  by (simp_all add: base_inv_def)

lemma con_state_inv:
  assumes "base_inv c" "cnx_type c' = cnx_type c" "auto_destroyable c' = auto_destroyable c" "length (fragment_header c') = 4"
    "cnx_type c = CNX_SERVER \<longrightarrow> state c' \<in> {CNX_IDLE, CNX_RECEIVING, CNX_READY, CNX_SENDING, CNX_DEAD}"
    "cnx_type c = CNX_CLIENT \<longrightarrow> state c' \<noteq> CNX_IDLE \<and> (state c \<noteq> CNX_DEAD \<or> state c' = CNX_DEAD)"
    "state c' \<in> {CNX_IDLE, CNX_WAITING, CNX_RECEIVING} \<longrightarrow> rx_inv c'"
    "state c' = CNX_SENDING \<longrightarrow> fragment_state c' = FRAGMENT_BODY"
  shows "keeps_inv c c'"
  using assms by (auto simp: keeps_inv_def con_inv_def base_inv_def)

lemma await_header_simps [simp]:
  "cnx_type (await_header c) = cnx_type c" "auto_destroyable (await_header c) = auto_destroyable c"
  "fragment_header (await_header c) = fragment_header c" "state (await_header c) = state c"
  by (simp_all add: await_header_def)

lemma timedOut_shape:
  assumes "timedOut (n, g, c) = Some (m, n', g', c')"
  shows "(c' = c \<and> state c = CNX_DEAD) \<or> (\<exists>x. state c \<noteq> CNX_DEAD \<and> c' = await_header (c\<lparr>state := (if cnx_type c = CNX_CLIENT
                              then (if state c = CNX_CONNECTING then CNX_CONN_FAILED else CNX_READY_FAILED)
                              else CNX_IDLE), xdrs := x\<rparr>))"
  using assms by (auto simp: timedOut_def Let_def bind_eq_Some_conv split: if_splits dest!: clear_stream_SomeD)

lemma timedOut_inv:
  assumes "timedOut (n, g, c) = Some (m, n', g', c')" "con_inv c"
  shows "keeps_inv c c'"
  using timedOut_shape [OF assms(1)]
proof (elim disjE exE conjE)
  fix x
  assume c': "c' = await_header (c\<lparr>state := (if cnx_type c = CNX_CLIENT then (if state c = CNX_CONNECTING then CNX_CONN_FAILED else CNX_READY_FAILED)
                              else CNX_IDLE), xdrs := x\<rparr>)" and "state c \<noteq> CNX_DEAD"
  then show ?thesis using assms(2) unfolding c'
    by (intro con_state_inv [OF con_inv_base [OF assms(2)]]) (auto simp: con_inv_def base_inv_def)
qed (use assms(2) in \<open>simp add: keeps_inv_def\<close>)

lemma enterSending_shape:
  assumes "enterSendingState mal (n, g, c) = Some (m, n', g', c')"
  shows "\<exists>k x. c' = c\<lparr>state := CNX_SENDING, fragment_state := FRAGMENT_BODY, remaining_len := k, xdrs := x\<rparr>"
  using assms by (auto simp: enterSendingState_def Let_def bind_eq_Some_conv)

lemma keeps_inv_trans: "keeps_inv a b \<Longrightarrow> keeps_inv b c \<Longrightarrow> keeps_inv a c"
  by (simp add: keeps_inv_def)

lemma keeps_inv_refl: "con_inv c \<Longrightarrow> keeps_inv c c"
  by (simp add: keeps_inv_def)

lemma enterSending_inv:
  assumes "enterSendingState mal (n, g, c) = Some (m, n', g', c')" "con_inv c" "state c \<noteq> CNX_DEAD"
  shows "keeps_inv c c'"
proof -
  obtain k x where c': "c' = c\<lparr>state := CNX_SENDING, fragment_state := FRAGMENT_BODY, remaining_len := k, xdrs := x\<rparr>"
    using enterSending_shape [OF assms(1)] by blast
  show ?thesis using assms(2,3) unfolding c' by (intro con_state_inv [OF con_inv_base [OF assms(2)]]) (auto simp: con_inv_def base_inv_def)
qed

lemma encode_message_shape:
  assumes "encode_message mal msg (n, g, c) = Some (ok, n', g', c')"
  shows "\<exists>x. c' = c\<lparr>xdrs := x\<rparr>"
  using assms by (auto simp: encode_message_def Let_def bind_eq_Some_conv dest!: clear_stream_SomeD)

lemma con_inv_update [simp]:
  "con_inv (c\<lparr>xdrs := x\<rparr>) = con_inv c" "con_inv (c\<lparr>rpc := h\<rparr>) = con_inv c"
  by (simp_all add: con_inv_def base_inv_def rx_inv_def cong: fragment_state.case_cong)

lemma keeps_inv_update [simp]:
  "keeps_inv (c\<lparr>xdrs := x\<rparr>) c' = keeps_inv c c'" "keeps_inv (c\<lparr>rpc := h\<rparr>) c' = keeps_inv c c'"
  "keeps_inv c (c'\<lparr>xdrs := x\<rparr>) = keeps_inv c c'" "keeps_inv c (c'\<lparr>rpc := h\<rparr>) = keeps_inv c c'"
  by (simp_all add: keeps_inv_def)

lemma transmit_inv:
  assumes "transmit mal msg (n, g, c) = Some (n', g', c')" "con_inv c" "state c \<noteq> CNX_DEAD"
  shows "keeps_inv c c'"
proof -
  note b = con_inv_base [OF assms(2)]
  obtain ok n1 g1 c1 m where e: "encode_message mal msg (n, g, c) = Some (ok, n1, g1, c1)"
    and r1: "(if ok then enterSendingState mal (n1, g1, c1) else reset (n1, g1, c1)) = Some (m, n', g', c')"
    using assms(1) by (auto simp: transmit_def bind_eq_Some_conv)
  obtain x where c1: "c1 = c\<lparr>xdrs := x\<rparr>" using encode_message_shape [OF e] by blast
  note r = r1 [unfolded c1]
  show ?thesis
    using r assms(2,3) b enterSending_inv [of mal n1 g1 "c\<lparr>xdrs := x\<rparr>" m n' g' c'] reset_inv [of n1 g1 "c\<lparr>xdrs := x\<rparr>" m n' g' c']
    by (cases ok) simp_all
qed

lemma sendReply_inv:
  assumes "sendReply mal avt result trailer (n, g, c) = Some (n', g', c')" "con_inv c"
  shows "keeps_inv c c'"
  using assms transmit_inv [where c = "c\<lparr>rpc := acceptCall (rpc c)\<rparr>"]
  by (auto simp: sendReply_def Let_def keeps_inv_refl split: if_splits)

lemma sendErrorReply_inv:
  assumes "sendErrorReply mal avt trailer err (n, g, c) = Some (n', g', c')" "con_inv c"
  shows "keeps_inv c c'"
  using assms transmit_inv [where c = "c\<lparr>rpc := acceptCall (rpc c)\<rparr>"]
  by (auto simp: sendErrorReply_def Let_def keeps_inv_refl split: if_splits)

lemma sendPingReply_inv:
  assumes "sendPingReply mal (n, g, c) = Some (n', g', c')" "con_inv c"
  shows "keeps_inv c c'"
proof (cases "state c = CNX_DEAD")
  case True
  then show ?thesis using assms by (simp add: sendPingReply_def keeps_inv_refl)
next
  case False
  let ?h = "acceptCall (rpc c)"
  obtain ok n1 g1 c1 m where e: "encode_message mal (rpc_encode (ms_ops mal) ?h) (n, g, c\<lparr>rpc := ?h\<rparr>) = Some (ok, n1, g1, c1)"
    and r: "(if ok then enterSendingState mal (n1, g1, c1\<lparr>state := CNX_SENDING\<rparr>) else reset (n1, g1, c1)) = Some (m, n', g', c')"
    using assms(1) False by (auto simp: sendPingReply_def Let_def bind_eq_Some_conv split: if_splits)
  obtain x where c1: "c1 = c\<lparr>rpc := ?h, xdrs := x\<rparr>" using encode_message_shape [OF e] by auto
  show ?thesis
  proof (cases ok)
    case True
    then obtain k x where "c' = c1\<lparr>state := CNX_SENDING, fragment_state := FRAGMENT_BODY, remaining_len := k, xdrs := x\<rparr>"
      using r enterSending_shape [of mal n1 g1 "c1\<lparr>state := CNX_SENDING\<rparr>"] by fastforce
    then show ?thesis using assms(2) False unfolding c1 by (intro con_state_inv [OF con_inv_base [OF assms(2)]]) (auto simp: con_inv_def base_inv_def)
  next
    case False
    then show ?thesis using r con_inv_base [OF assms(2)] reset_inv [of n1 g1 c1 m n' g' c'] by (simp add: c1)
  qed
qed

lemma finish_connect_shape:
  assumes "finish_connect conn_err (n, g, c) = Some (m, n', g', c')" "in_connect c"
  shows "c' = c \<or> c' = c\<lparr>state := CNX_CONN_FAILED\<rparr> \<or> c' = c\<lparr>state := CNX_CONNECTED\<rparr>"
  using assms by (auto simp: finish_connect_def Let_def split: if_splits)

lemma in_connect_client: "con_inv c \<Longrightarrow> in_connect c \<Longrightarrow> cnx_type c = CNX_CLIENT"
  by (cases "cnx_type c") (auto simp: con_inv_def base_inv_def in_connect_def)

lemma finish_connect_inv:
  assumes "finish_connect conn_err (n, g, c) = Some (m, n', g', c')" "con_inv c" "in_connect c"
  shows "keeps_inv c c'"
  using finish_connect_shape [OF assms(1,3)]
proof (elim disjE)
  have k: "keeps_inv c (c\<lparr>state := s\<rparr>)" if "s = CNX_CONN_FAILED \<or> s = CNX_CONNECTED" for s
    using that in_connect_client [OF assms(2,3)] assms(2,3) by (auto simp: keeps_inv_def con_inv_def base_inv_def in_connect_def)
  show "c' = c \<Longrightarrow> ?thesis" using assms(2) by (simp add: keeps_inv_refl)
  show "c' = c\<lparr>state := CNX_CONN_FAILED\<rparr> \<Longrightarrow> ?thesis" using k [of CNX_CONN_FAILED] by simp
  show "c' = c\<lparr>state := CNX_CONNECTED\<rparr> \<Longrightarrow> ?thesis" using k [of CNX_CONNECTED] by simp
qed

lemma broken_inv: "base_inv c \<Longrightarrow> state c \<noteq> CNX_DEAD \<Longrightarrow> keeps_inv c (broken c)"
  by (intro con_state_inv) (auto simp: con_inv_def base_inv_def broken_def)

lemma send_inv:
  assumes "send conn_err wr (n, g, c) = Some (m, n', g', c')" "con_inv c" "state c = CNX_SENDING \<or> in_connect c"
  shows "keeps_inv c c'"
proof (cases "in_connect c")
  case True
  then show ?thesis using assms finish_connect_inv by (simp add: send_def)
next
  case False
  then have s: "state c = CNX_SENDING" "fragment_state c = FRAGMENT_BODY" using assms(2,3) by (simp_all add: con_inv_def base_inv_def)
  obtain ok e rlen n1 g1 x where w: "write_to_fd wr (remaining_len c) n (g, xdrs c) = Some (ok, e, rlen, n1, g1, x)"
    and r: "(let c = c\<lparr>remaining_len := rlen, xdrs := x\<rparr> in
         if \<not> ok then let c = broken c in Some (getIoMode c OR CNX_IO_HAD_TX_ERROR, n1, g1, c)
               else if remaining_len c = 0
               then (if cnx_type c = CNX_CLIENT
                     then do { (g, c) \<leftarrow> clear_stream g1 (await_header (c\<lparr>state := CNX_WAITING\<rparr>));
                               Some (getIoMode c, n1, g, c) }
                     else reset (n1, g1, c))
               else Some (getIoMode c, n1, g1, c)) = Some (m, n', g', c')"
    using assms(1) False s(2) by (auto simp: send_def Let_def bind_eq_Some_conv)
  let ?c = "c\<lparr>remaining_len := rlen, xdrs := x\<rparr>"
  have k: "keeps_inv c ?c" using assms(2) s by (intro con_state_inv [OF con_inv_base [OF assms(2)]]) (auto simp: con_inv_def base_inv_def)
  then have i: "con_inv ?c" by (simp add: keeps_inv_def)
  have "keeps_inv ?c c'"
  proof (cases "ok \<and> rlen = 0")
    case False
    then have "c' = broken ?c \<or> c' = ?c" using r by (auto simp: Let_def split: if_splits)
    then show ?thesis using broken_inv [OF con_inv_base [OF i]] keeps_inv_refl [OF i] s(1) by auto
  next
    case True
    show ?thesis
    proof (cases "cnx_type c")
      case CNX_SERVER
      then show ?thesis using True r reset_inv [OF _ con_inv_base [OF i]] by (auto simp: Let_def)
    next
      case CNX_CLIENT
      then obtain y where "c' = c\<lparr>state := CNX_WAITING, fragment_state := FRAGMENT_HEADER, remaining_len := 4, header_ptr := 0, xdrs := y\<rparr>"
        using True r by (auto simp: Let_def bind_eq_Some_conv await_header_def dest!: clear_stream_SomeD)
      then show ?thesis using CNX_CLIENT i s(1) by (intro con_state_inv [OF con_inv_base [OF i]]) (auto simp: con_inv_def base_inv_def rx_inv_def)
    qed
  qed
  with k show ?thesis by (rule keeps_inv_trans)
qed


lemma read_loop_le: "read_loop mal rd m n s = Some (ok, e, m', n', s') \<Longrightarrow> m' \<le> m"
proof (induction m arbitrary: n s rule: less_induct)
  case (less m)
  show ?case
  proof (cases "m = 0")
    case True
    then show ?thesis using less.prems by (simp add: read_loop.simps [of mal rd 0])
  next
    case False
    obtain ok1 g x where t: "refill_put mal s = Some (ok1, g, x)" using less.prems False
      by (subst (asm) read_loop.simps) (auto simp: bind_eq_Some_conv)
    let ?k = "min m (unat (handy x))"
    obtain r n1 where r: "rd ?k n = (r, n1)" by (metis surj_pair)
    have tc: "transfer_count m (handy x) = Some ?k" if ok1
      using less.prems t that False by (subst (asm) read_loop.simps) (auto simp: transfer_count_def split: if_splits)
    show ?thesis
    proof (cases "\<not> ok1 \<or> (\<exists>e. r = Inl e) \<or> r = Inr []")
      case True
      then show ?thesis using less.prems t r False tc
        by (cases ok1; subst (asm) read_loop.simps) auto
    next
      case b: False
      then obtain b where b': "r = Inr b" "b \<noteq> []" ok1 by (cases r) auto
      obtain u where u: "frag_write b (g, x) = Some u" using less.prems t r False b' tc
        by (subst (asm) read_loop.simps) (auto simp: bind_eq_Some_conv)
      show ?thesis
      proof (cases "?k = length b")
        case ne: False
        then show ?thesis using less.prems t r False b' u tc
          by (subst (asm) read_loop.simps) auto
      next
        case True
        then have "read_loop mal rd (m - length b) n1 (step (length b) u) = Some (ok, e, m', n', s')"
          using less.prems t r False b' u tc by (subst (asm) read_loop.simps) simp
        moreover have "m - length b < m" using False b'(2) by simp
        ultimately show ?thesis using less.IH by fastforce
      qed
    qed
  qed
qed

lemma read_from_fd_le: "read_from_fd mal rd m n s = Some (ok, e, m', n', s') \<Longrightarrow> m' \<le> m"
  using read_loop_le by (fastforce simp: read_from_fd_def split: if_splits)

text \<open>What \<open>read\<close> promises: never more than it was asked for.\<close>

definition short_reads :: "(nat \<Rightarrow> 'n \<Rightarrow> (errno + byte list) \<times> 'n) \<Rightarrow> bool" where
  "short_reads rd \<longleftrightarrow> (\<forall>k n. case rd k n of (Inl _, _) \<Rightarrow> True | (Inr b, _) \<Rightarrow> length b \<le> k)"

definition same_state :: "tcpcon \<Rightarrow> tcpcon \<Rightarrow> bool" where
  "same_state c c' \<longleftrightarrow> cnx_type c' = cnx_type c \<and> auto_destroyable c' = auto_destroyable c \<and> state c' = state c \<and>
     length (fragment_header c') = length (fragment_header c)"

lemma read_header_result:
  assumes "read_header rd k n = Some y"
  shows "fst y \<noteq> Inl EINTR \<and> (\<exists>n0. rd k n0 = y \<and> (\<forall>pend. read_ok rd pend \<longrightarrow> pend n0 = pend n))"
proof (rule read_header.raw_induct
    [where P = "\<lambda>rd k n y. fst y \<noteq> Inl EINTR \<and> (\<exists>n0. rd k n0 = y \<and> (\<forall>pend. read_ok rd pend \<longrightarrow> pend n0 = pend n))", OF _ assms],
    goal_cases)
  case (1 self rd k n y)
  obtain r n1 where r: "rd k n = (r, n1)" by (metis surj_pair)
  show ?case
  proof (cases "r = Inl EINTR")
    case True
    have "fst y \<noteq> Inl EINTR \<and> (\<exists>n0. rd k n0 = y \<and> (\<forall>pend. read_ok rd pend \<longrightarrow> pend n0 = pend n1))"
      using 1 r True by simp
    then obtain n0 where n0: "fst y \<noteq> Inl EINTR" "rd k n0 = y" "\<And>pend. read_ok rd pend \<Longrightarrow> pend n0 = pend n1" by blast
    have "read_ok rd pend \<Longrightarrow> pend n0 = pend n" for pend
      using read_okD(1) [of rd pend k n EINTR n1] n0(3) [of pend] r True by simp
    with n0(1,2) show ?thesis by blast
  next
    case False
    then have "y = (r, n1)" using 1(2) r by (auto split: sum.splits if_splits)
    then show ?thesis using False r by auto
  qed
qed

lemma read_header_short: "short_reads rd \<Longrightarrow> read_header rd k n = Some (Inr b, n') \<Longrightarrow> length b \<le> k"
  using read_header_result [of rd k n "(Inr b, n')"] unfolding short_reads_def by (metis (no_types, lifting) case_prod_conv sum.case(2))


lemma last_31_bits: "unat (l AND 0x7FFFFFFF :: u32) < 2 ^ 31"
proof -
  have "l AND 0x7FFFFFFF \<le> 0x7FFFFFFF" by (rule word_and_le1)
  then have "unat (l AND 0x7FFFFFFF) \<le> unat (0x7FFFFFFF :: u32)" by (simp add: word_le_nat_alt)
  then show ?thesis by simp
qed

text \<open>What holds after a part of a message has been taken: more of it is to come, or it is complete.\<close>

definition in_progress :: "tcpcon \<Rightarrow> bool" where
  "in_progress c \<longleftrightarrow> rx_inv c \<or> (last_fragment c \<and> remaining_len c = 0)"

lemma take_header_progress:
  assumes "fragment_state c = FRAGMENT_HEADER" "header_ptr c = 4"
  shows "in_progress (take_header c)" "same_state c (take_header c)"
    "fragment_state (take_header c) = FRAGMENT_BODY \<longrightarrow> rx_inv (take_header c)"
  using assms last_31_bits [of "un_be32 (fragment_header c)"]
  by (auto simp: take_header_def Let_def in_progress_def rx_inv_def same_state_def)

lemma receive_header_inv:
  assumes e: "receive_header rd (n, g, c) = Some (m, n', g', c')" and "short_reads rd" "con_inv c" "rx_inv c"
    "fragment_state c = FRAGMENT_HEADER" "state c \<noteq> CNX_DEAD"
  shows "(m \<noteq> None \<and> keeps_inv c c') \<or>
    (m = None \<and> same_state c c' \<and> in_progress c' \<and> (fragment_state c' = FRAGMENT_BODY \<longrightarrow> rx_inv c'))"
proof -
  obtain r n1 where r: "read_header rd (remaining_len c) n = Some (r, n1)"
    using e by (auto simp: receive_header_def bind_eq_Some_conv)
  have pos: "header_ptr c + remaining_len c = 4" "0 < remaining_len c" "length (fragment_header c) = 4"
    using assms(3-5) by (simp_all add: rx_inv_def con_inv_def base_inv_def)
  show ?thesis
  proof (cases r)
    case (Inl err)
    then have m: "m \<noteq> None" "c' = c \<or> c' = broken c \<or> (\<exists>x. c' = broken (c\<lparr>xdrs := x\<rparr>))"
      using e r by (auto simp: receive_header_def Let_def bind_eq_Some_conv split: if_splits)
    have "keeps_inv c (broken (c\<lparr>xdrs := x\<rparr>))" for x
      using broken_inv [of "c\<lparr>xdrs := x\<rparr>"] con_inv_base [OF assms(3)] assms(6) by simp
    then show ?thesis using m broken_inv [of c] con_inv_base [OF assms(3)] keeps_inv_refl assms(3,6) by auto
  next
    case (Inr b)
    show ?thesis
    proof (cases b)
      case Nil
      then have "m \<noteq> None" "c' = broken c"
        using e r Inr by (auto simp: receive_header_def Let_def bind_eq_Some_conv split: if_splits)
      then show ?thesis using broken_inv con_inv_base assms(3,6) by blast
    next
      case (Cons y ys)
      let ?c = "c\<lparr>remaining_len := remaining_len c - length b,
                  fragment_header := take (header_ptr c) (fragment_header c) @ b @ drop (header_ptr c + length b) (fragment_header c),
                  header_ptr := header_ptr c + length b\<rparr>"
      have le: "length b \<le> remaining_len c" using read_header_short [OF assms(2)] r Inr by blast
      have c': "m = None" "c' = (if remaining_len ?c = 0 then take_header ?c else ?c)"
        using e r Inr Cons by (auto simp: receive_header_def Let_def bind_eq_Some_conv)
      have s: "same_state c ?c" "fragment_state ?c = FRAGMENT_HEADER" "header_ptr ?c + remaining_len ?c = 4"
        using le pos assms(5) by (auto simp: same_state_def min_def)
      show ?thesis
      proof (cases "remaining_len ?c = 0")
        case True
        then have "c' = take_header ?c" "header_ptr ?c = 4" using c'(2) s(3) by auto
        then show ?thesis using take_header_progress [OF s(2)] s(1) c'(1) by (simp add: same_state_def)
      next
        case False
        then have "c' = ?c" "rx_inv ?c" using c'(2) s(2,3) by (auto simp: rx_inv_def)
        then show ?thesis using s c'(1) by (simp add: in_progress_def)
      qed
    qed
  qed
qed

lemma same_state_update [simp]: "same_state (c\<lparr>remaining_len := k, xdrs := x\<rparr>) c' = same_state c c'"
  by (simp add: same_state_def)

lemma same_state_trans: "same_state a b \<Longrightarrow> same_state b c \<Longrightarrow> same_state a c"
  by (simp add: same_state_def)

lemma same_state_base: "same_state c c' \<Longrightarrow> base_inv c' = base_inv c"
  by (simp add: same_state_def base_inv_def)

lemma same_state_keeps: "same_state c c1 \<Longrightarrow> keeps_inv c1 c' \<Longrightarrow> keeps_inv c c'"
  by (simp add: same_state_def keeps_inv_def)

lemma receive_body_inv:
  assumes e: "receive_body mal rd (n, g, c) = Some (m, n', g', c')" and "base_inv c" "rx_inv c"
    "fragment_state c = FRAGMENT_BODY" "state c \<noteq> CNX_DEAD"
  shows "(m \<noteq> None \<and> keeps_inv c c') \<or> (m = None \<and> same_state c c' \<and> in_progress c')"
proof -
  obtain ok err rlen n1 g1 x where r: "read_from_fd mal rd (remaining_len c) n (g, xdrs c) = Some (ok, err, rlen, n1, g1, x)"
    and q: "(let c = c\<lparr>remaining_len := rlen, xdrs := x\<rparr>
          in if ok then Some (None, n1, g1, if rlen = 0 \<and> \<not> last_fragment c then await_header c else c)
          else if err = Some ENOMEM \<and> cnx_type c = CNX_SERVER
          then do { (m, y) \<leftarrow> reset (n1, g1, c); Some (Some m, y) }
          else let c = broken c in Some (Some (getIoMode c OR CNX_IO_HAD_RX_ERROR), n1, g1, c)) = Some (m, n', g', c')"
    using e by (auto simp: receive_body_def bind_eq_Some_conv)
  let ?c = "c\<lparr>remaining_len := rlen, xdrs := x\<rparr>"
  have c: "base_inv ?c" "same_state c ?c" "rlen \<le> remaining_len c"
    using assms(2) read_from_fd_le [OF r] by (simp_all add: same_state_def base_inv_def)
  show ?thesis
  proof (cases ok)
    case True
    then have m: "m = None" "c' = (if rlen = 0 \<and> \<not> last_fragment c then await_header ?c else ?c)"
      using q by (auto simp: Let_def)
    have "same_state c c'" using m(2) c(2) by (simp add: same_state_def)
    moreover have "in_progress c'"
      using m(2) assms(3,4) c(3) by (auto simp: in_progress_def) (auto simp: rx_inv_def)
    ultimately show ?thesis using m(1) by simp
  next
    case False
    show ?thesis
    proof (cases "err = Some ENOMEM \<and> cnx_type c = CNX_SERVER")
      case True
      then obtain y where "m = Some y" "reset (n1, g1, ?c) = Some (y, n', g', c')"
        using q False by (auto simp: Let_def bind_eq_Some_conv)
      then show ?thesis using reset_inv [of n1 g1 ?c y n' g' c'] c(1,2) same_state_keeps by blast
    next
      case h: False
      then have "m \<noteq> None" "c' = broken ?c" using q False by (auto simp: Let_def)
      then show ?thesis using broken_inv [of ?c] c(1,2) same_state_keeps assms(5) by fastforce
    qed
  qed
qed

lemma receive_data_inv:
  assumes e: "receive_data mal rd (n, g, c) = Some (m, n', g', c')" and "short_reads rd" "con_inv c" "rx_inv c" "state c \<noteq> CNX_DEAD"
  shows "(m \<noteq> None \<and> keeps_inv c c') \<or> (m = None \<and> same_state c c' \<and> in_progress c')"
proof (cases "fragment_state c")
  case FRAGMENT_BODY
  then have "receive_body mal rd (n, g, c) = Some (m, n', g', c')" using e by (simp add: receive_data_def)
  from receive_body_inv [OF this con_inv_base [OF assms(3)] assms(4) FRAGMENT_BODY assms(5)] show ?thesis .
next
  case FRAGMENT_HEADER
  then obtain m1 n1 g1 c1 where h: "receive_header rd (n, g, c) = Some (m1, n1, g1, c1)"
    and b: "(if m1 = None \<and> fragment_state c1 = FRAGMENT_BODY then receive_body mal rd (n1, g1, c1) else Some (m1, n1, g1, c1)) =
      Some (m, n', g', c')"
    using e unfolding receive_data_def prod.case FRAGMENT_HEADER by (simp only: refl if_True) (drule bind_net, blast)
  note i = receive_header_inv [OF h assms(2-4) FRAGMENT_HEADER assms(5)]
  show ?thesis
  proof (cases "m1 = None \<and> fragment_state c1 = FRAGMENT_BODY")
    case True
    then have c1: "same_state c c1" "rx_inv c1" using i by auto
    have "base_inv c1" "state c1 \<noteq> CNX_DEAD" using same_state_base [OF c1(1)] c1(1) con_inv_base [OF assms(3)] assms(5) by (simp_all add: same_state_def)
    then have "(m \<noteq> None \<and> keeps_inv c1 c') \<or> (m = None \<and> same_state c1 c' \<and> in_progress c')"
      using receive_body_inv [of mal rd n1 g1 c1 m n' g' c'] b True c1(2) by auto
    then show ?thesis using c1(1) same_state_keeps same_state_trans by blast
  next
    case False
    then show ?thesis using i b by (auto simp: split: if_splits)
  qed
qed


lemma ready_keeps:
  assumes "base_inv c" "state c \<noteq> CNX_DEAD" "s = CNX_READY \<or> (cnx_type c = CNX_CLIENT \<and> s = CNX_READY_FAILED)"
  shows "keeps_inv c (c\<lparr>state := s\<rparr>)"
  using assms by (auto simp: keeps_inv_def con_inv_def base_inv_def)

lemma sending_keeps:
  assumes "base_inv c" "state c \<noteq> CNX_DEAD"
  shows "keeps_inv c (c\<lparr>state := CNX_SENDING, fragment_state := FRAGMENT_BODY, remaining_len := k, xdrs := x\<rparr>)"
  using assms by (auto simp: keeps_inv_def con_inv_def base_inv_def)

lemma decode_rpc_shape: "decode_rpc mal g c = Some (ok, g', c') \<Longrightarrow> \<exists>h x. c' = c\<lparr>rpc := h, xdrs := x\<rparr>"
  by (auto simp: decode_rpc_def bind_eq_Some_conv)

lemma record_complete_inv:
  assumes e: "record_complete mal (n, g, c) = Some (m, n', g', c')" and "base_inv c" "state c \<noteq> CNX_DEAD"
  shows "keeps_inv c c'"
proof -
  obtain g1 x ok g2 c2 where r: "ms_rewind XDR_DECODE (g, xdrs c) = Some (g1, x)" "decode_rpc mal g1 (c\<lparr>xdrs := x\<rparr>) = Some (ok, g2, c2)"
    using e by (auto simp: record_complete_def bind_eq_Some_conv)
  obtain h y where c2: "c2 = c\<lparr>rpc := h, xdrs := y\<rparr>" using decode_rpc_shape [OF r(2)] by auto
  show ?thesis
  proof (cases "cnx_type c = CNX_SERVER \<and> \<not> ok")
    case False
    then obtain s where "s = CNX_READY \<or> (cnx_type c = CNX_CLIENT \<and> s = CNX_READY_FAILED)" "c' = c2\<lparr>state := s\<rparr>"
      using e r by (cases "cnx_type c") (auto simp: record_complete_def Let_def split: if_splits)
    then show ?thesis using ready_keeps [of c2 s] assms(2,3) by (simp add: c2)
  next
    case True
    let ?h = "setDecodeError (rpc c2)"
    obtain g3 c3 ok2 g4 z m4 where q: "clear_stream g2 (c2\<lparr>rpc := ?h, state := CNX_SENDING\<rparr>) = Some (g3, c3)"
        "(if \<not> ok2 then reset (n, g4, c3\<lparr>xdrs := z\<rparr>) else enterSendingState mal (n, g4, c3\<lparr>xdrs := z\<rparr>)) = Some (m4, n', g', c')"
      using e r True by (simp add: record_complete_def Let_def bind_eq_Some_conv) blast
    obtain w where c3: "c3 = c\<lparr>rpc := ?h, state := CNX_SENDING, xdrs := w\<rparr>"
      using clear_stream_SomeD [OF q(1)] by (auto simp: c2)
    have b: "base_inv (c3\<lparr>xdrs := z\<rparr>)" "cnx_type c3 = cnx_type c" "auto_destroyable c3 = auto_destroyable c"
      using assms(2,3) True by (auto simp: c3 base_inv_def)
    then have "keeps_inv (c3\<lparr>xdrs := z\<rparr>) c'"
      using q(2) reset_inv [of n g4 "c3\<lparr>xdrs := z\<rparr>" m4 n' g' c'] enterSending_shape [of mal n g4 "c3\<lparr>xdrs := z\<rparr>" m4 n' g' c']
        sending_keeps [of "c3\<lparr>xdrs := z\<rparr>"] by (cases ok2) (auto simp: c3)
    then show ?thesis using b(2,3) by (simp add: keeps_inv_def)
  qed
qed

lemma receive_inv:
  assumes e: "receive mal conn_err rd (n, g, c) = Some (m, n', g', c')" and "short_reads rd" "con_inv c"
    and s: "in_connect c \<or> state c \<in> {CNX_IDLE, CNX_WAITING, CNX_RECEIVING}"
  shows "keeps_inv c c'"
proof (cases "in_connect c")
  case True
  then show ?thesis using assms finish_connect_inv by (simp add: receive_def)
next
  case False
  then have st: "state c \<in> {CNX_IDLE, CNX_WAITING, CNX_RECEIVING}" "rx_inv c" "state c \<noteq> CNX_DEAD" using s assms(3) by (auto simp: con_inv_def)
  obtain m1 n1 g1 c1 where d: "receive_data mal rd (n, g, c) = Some (m1, n1, g1, c1)"
    and r: "(case m1 of Some m \<Rightarrow> Some (m, n1, g1, c1)
       | None \<Rightarrow> if last_fragment c1 \<and> remaining_len c1 = 0 then record_complete mal (n1, g1, c1)
                 else let c = c1\<lparr>state := CNX_RECEIVING\<rparr> in Some (getIoMode c, n1, g1, c)) = Some (m, n', g', c')"
    using e False unfolding receive_def prod.case by (simp only: if_False) (drule bind_net, blast)
  consider (over) "m1 \<noteq> None" "keeps_inv c c1" | (more) "m1 = None" "same_state c c1" "in_progress c1"
    using receive_data_inv [OF d assms(2,3) st(2,3)] by blast
  then show ?thesis
  proof cases
    case over
    then show ?thesis using r by auto
  next
    case more
    have b: "base_inv c1" "state c1 \<noteq> CNX_DEAD"
      using same_state_base [OF more(2)] more(2) con_inv_base [OF assms(3)] st(3) by (simp_all add: same_state_def)
    show ?thesis
    proof (cases "last_fragment c1 \<and> remaining_len c1 = 0")
      case True
      then have "record_complete mal (n1, g1, c1) = Some (m, n', g', c')" using r more(1) by simp
      from record_complete_inv [OF this b] show ?thesis using more(2) same_state_keeps by blast
    next
      case False
      then have c': "c' = c1\<lparr>state := CNX_RECEIVING\<rparr>" "rx_inv c1" using r more(1,3) by (auto simp: Let_def in_progress_def)
      have "keeps_inv c1 c'"
        using c' b by (auto simp: keeps_inv_def con_inv_def base_inv_def rx_inv_def cong: fragment_state.case_cong)
      then show ?thesis using more(2) same_state_keeps by blast
    qed
  qed
qed

lemma beginRequest_inv:
  assumes "beginRequest mal x prog vers proc (n, g, c) = Some (ok, n', g', c')" "con_inv c"
  shows "keeps_inv c c'"
proof (cases "state c = CNX_DEAD")
  case True
  then show ?thesis using assms by (simp add: beginRequest_def keeps_inv_refl)
next
  case False
  then have "encode_message mal (rpc_encode (ms_ops mal) (setRequest x prog vers proc (rpc c))) (n, g, c\<lparr>rpc := setRequest x prog vers proc (rpc c)\<rparr>) =
      Some (ok, n', g', c')" using assms(1) by (simp add: beginRequest_def Let_def)
  from encode_message_shape [OF this] show ?thesis using assms(2) by (auto simp: keeps_inv_refl)
qed

lemma personaNonGrata_inv:
  assumes "personaNonGrata (n, g, c) = Some (n', g', c')" "con_inv c"
  shows "con_inv c'" "cnx_type c' = cnx_type c"
proof -
  obtain m c1 where r: "reset (n, g, c) = Some (m, n', g', c1)" "c' = c1\<lparr>state := CNX_DEAD\<rparr>"
    using assms(1) by (auto simp: personaNonGrata_def bind_eq_Some_conv)
  have "keeps_inv c c1" by (rule reset_inv [OF r(1) con_inv_base [OF assms(2)]])
  then show "con_inv c'" "cnx_type c' = cnx_type c" unfolding r(2) by (auto simp: keeps_inv_def con_inv_def base_inv_def)
qed


lemma shutdown_inv:
  assumes "shutdown (g, c) = Some (g', c')" "con_inv c"
  shows "con_inv c'" "cnx_type c' = cnx_type c"
proof -
  have "c' = c\<lparr>cleanup_xdr_stream := False, state := CNX_DEAD\<rparr>" using assms(1) by (auto simp: shutdown_def bind_eq_Some_conv)
  then show "con_inv c'" "cnx_type c' = cnx_type c" using assms(2) by (auto simp: con_inv_def base_inv_def)
qed

lemma finishRequest_shape:
  assumes "finishRequestDeserialization trailer verdict (g, c) = Some (r, g', c')"
  shows "\<exists>x. c' = c\<lparr>xdrs := x\<rparr>"
  using assms by (auto simp: finishRequestDeserialization_def freeStreamMemory_def bind_eq_Some_conv Let_def split: if_splits
    dest!: clear_stream_SomeD)

lemma tcp_create_inv:
  assumes "tcp_create mal info_ok junk prepared conn ty hdr s = Some (g, c)" "length hdr = 4"
  shows "con_inv c" "cnx_type c = ty"
proof -
  have c: "cnx_type c = ty \<and> length (fragment_header c) = 4 \<and>
      (state c = CNX_DEAD \<or> (ty = CNX_SERVER \<and> state c = CNX_IDLE \<and> rx_inv c) \<or> (ty = CNX_CLIENT \<and> \<not> auto_destroyable c \<and> state c = CNX_CONNECTING))"
    using assms by (cases ty) (auto simp: tcp_create_def new_connection_def Let_def bind_eq_Some_conv split: if_splits option.splits)
  then show "cnx_type c = ty" by simp
  from c show "con_inv c" by (auto simp: con_inv_def base_inv_def)
qed

subsection \<open>Runs\<close>

text \<open>
  Who calls the operations: the connection manager tells the connection that its socket is readable or writable if it asked for
  that, or that time is up; the owner sends a request or a reply, resets or rejects the connection or shuts it down. In between
  other connections use the pool and the socket goes on.
\<close>

inductive con_step ::
  "mallocf \<Rightarrow> ('n \<Rightarrow> bool) \<Rightarrow> (nat \<Rightarrow> 'n \<Rightarrow> (errno + byte list) \<times> 'n) \<Rightarrow> (byte list \<Rightarrow> 'n \<Rightarrow> (errno + nat) \<times> 'n) \<Rightarrow>
   'n net \<Rightarrow> 'n net \<Rightarrow> bool"
  for mal conn_err rd wr where
  readable: "getIoMode c AND CNX_IO_READABLE \<noteq> 0 \<Longrightarrow> receive mal conn_err rd (n, g, c) = Some (m, y) \<Longrightarrow> con_step mal conn_err rd wr (n, g, c) y"
| writeable: "getIoMode c AND CNX_IO_WRITEABLE \<noteq> 0 \<Longrightarrow> send conn_err wr (n, g, c) = Some (m, y) \<Longrightarrow> con_step mal conn_err rd wr (n, g, c) y"
| timeout: "timedOut x = Some (m, y) \<Longrightarrow> con_step mal conn_err rd wr x y"
| reset: "reset x = Some (m, y) \<Longrightarrow> con_step mal conn_err rd wr x y"
| request_read: "finishRequestDeserialization trailer verdict (g, c) = Some (r, g', c') \<Longrightarrow> con_step mal conn_err rd wr (n, g, c) (n, g', c')"
| ping_reply: "sendPingReply mal x = Some y \<Longrightarrow> con_step mal conn_err rd wr x y"
| error_reply: "sendErrorReply mal avt trailer err x = Some y \<Longrightarrow> con_step mal conn_err rd wr x y"
| reply: "sendReply mal avt result trailer x = Some y \<Longrightarrow> con_step mal conn_err rd wr x y"
| begin_request: "beginRequest mal i prog vers proc x = Some (ok, y) \<Longrightarrow> con_step mal conn_err rd wr x y"
| request: "state c \<noteq> CNX_DEAD \<Longrightarrow> sendRequest mal (n, g, c) = Some y \<Longrightarrow> con_step mal conn_err rd wr (n, g, c) y"
| reject: "personaNonGrata x = Some y \<Longrightarrow> con_step mal conn_err rd wr x y"
| close: "shutdown (g, c) = Some (g', c') \<Longrightarrow> con_step mal conn_err rd wr (n, g, c) (n, g', c')"
| others: "con_step mal conn_err rd wr (n, g, c) (n', g', c)"

inductive con_reach ::
  "mallocf \<Rightarrow> ('n \<Rightarrow> bool) \<Rightarrow> (nat \<Rightarrow> 'n \<Rightarrow> (errno + byte list) \<times> 'n) \<Rightarrow> (byte list \<Rightarrow> 'n \<Rightarrow> (errno + nat) \<times> 'n) \<Rightarrow>
   cnx_type \<Rightarrow> 'n net \<Rightarrow> bool"
  for mal conn_err rd wr ty where
  created: "length hdr = 4 \<Longrightarrow> tcp_create mal info_ok junk prepared conn ty hdr s = Some (g, c) \<Longrightarrow> con_reach mal conn_err rd wr ty (n, g, c)"
| stepped: "con_reach mal conn_err rd wr ty x \<Longrightarrow> con_step mal conn_err rd wr x y \<Longrightarrow> con_reach mal conn_err rd wr ty y"

lemma io_readable: "getIoMode c AND CNX_IO_READABLE \<noteq> 0 \<longleftrightarrow> state c \<in> {CNX_IDLE, CNX_WAITING, CNX_RECEIVING, CNX_CONNECTING}"
  by (cases "state c") (simp_all add: getIoMode_def cnx_io_defs)

lemma io_writeable: "getIoMode c AND CNX_IO_WRITEABLE \<noteq> 0 \<longleftrightarrow> state c \<in> {CNX_SENDING, CNX_CONNECTING}"
  by (cases "state c") (simp_all add: getIoMode_def cnx_io_defs)

lemma keeps_invD: "keeps_inv c c' \<Longrightarrow> con_inv c' \<and> cnx_type c' = cnx_type c"
  by (simp add: keeps_inv_def)

lemma con_step_inv:
  assumes "con_step mal conn_err rd wr (n, g, c) (n', g', c')" "short_reads rd" "con_inv c"
  shows "con_inv c' \<and> cnx_type c' = cnx_type c"
  using assms
proof (induction "(n, g, c)" "(n', g', c')" rule: con_step.induct)
  case (readable m)
  then have "in_connect c \<or> state c \<in> {CNX_IDLE, CNX_WAITING, CNX_RECEIVING}" by (auto simp: io_readable in_connect_def)
  from keeps_invD [OF receive_inv [OF readable.hyps(2) readable.prems this]] show ?case .
next
  case (writeable m)
  then have "state c = CNX_SENDING \<or> in_connect c" by (auto simp: io_writeable in_connect_def)
  from keeps_invD [OF send_inv [OF writeable.hyps(2) writeable.prems(2) this]] show ?case .
next
  case (timeout m)
  from keeps_invD [OF timedOut_inv [OF timeout.hyps(1) timeout.prems(2)]] show ?case .
next
  case (reset m)
  from keeps_invD [OF reset_inv [OF reset.hyps(1) con_inv_base [OF reset.prems(2)]]] show ?case .
next
  case (request_read trailer verdict r)
  then show ?case using finishRequest_shape by fastforce
next
  case ping_reply
  from keeps_invD [OF sendPingReply_inv [OF ping_reply.hyps(1) ping_reply.prems(2)]] show ?case .
next
  case (error_reply avt trailer err)
  from keeps_invD [OF sendErrorReply_inv [OF error_reply.hyps(1) error_reply.prems(2)]] show ?case .
next
  case (reply avt result trailer)
  from keeps_invD [OF sendReply_inv [OF reply.hyps(1) reply.prems(2)]] show ?case .
next
  case (begin_request i prog vers proc ok)
  from keeps_invD [OF beginRequest_inv [OF begin_request.hyps(1) begin_request.prems(2)]] show ?case .
next
  case request
  then obtain m where "enterSendingState mal (n, g, c) = Some (m, n', g', c')" by (auto simp: sendRequest_def bind_eq_Some_conv)
  from keeps_invD [OF enterSending_inv [OF this request.prems(2) request.hyps(1)]] show ?case .
next
  case reject
  from personaNonGrata_inv [OF reject.hyps(1) reject.prems(2)] show ?case by simp
next
  case close
  from shutdown_inv [OF close.hyps(1) close.prems(2)] show ?case by simp
qed simp_all

lemma con_reach_inv:
  assumes "con_reach mal conn_err rd wr ty (n, g, c)" "short_reads rd"
  shows "con_inv c \<and> cnx_type c = ty"
  using assms
proof (induction "(n, g, c)" arbitrary: n g c rule: con_reach.induct)
  case created
  then show ?case using tcp_create_inv by blast
next
  case (stepped x)
  obtain n1 g1 c1 where x: "x = (n1, g1, c1)" by (cases x)
  have "con_inv c1 \<and> cnx_type c1 = ty" by (rule stepped.hyps(2) [OF x stepped.prems])
  with con_step_inv [OF stepped.hyps(3) [unfolded x] stepped.prems] show ?case by simp
qed

text \<open>
  C5. Whatever the peer sends, whenever it closes and in whatever order the connection is used: a connection that asks to be told
  of data waits for at least one byte, and a fragment header never leaves its four bytes; while it sends it is inside a fragment.
  A server connection stays in the states of a server, a client connection is never idle and is never destroyed automatically
  as long as it lives.
\<close>

theorem connection_invariant:
  assumes "con_reach mal conn_err rd wr ty (n, g, c)" "short_reads rd"
  shows "cnx_type c = ty \<and> length (fragment_header c) = 4 \<and>
    (state c \<in> {CNX_IDLE, CNX_WAITING, CNX_RECEIVING} \<longrightarrow> 0 < remaining_len c \<and>
       (if fragment_state c = FRAGMENT_HEADER then header_ptr c + remaining_len c = 4 else remaining_len c < 2 ^ 31)) \<and>
    (state c = CNX_SENDING \<longrightarrow> fragment_state c = FRAGMENT_BODY) \<and>
    (if ty = CNX_SERVER then state c \<in> {CNX_IDLE, CNX_RECEIVING, CNX_READY, CNX_SENDING, CNX_DEAD}
     else state c \<noteq> CNX_IDLE \<and> (auto_destroyable c \<longrightarrow> state c = CNX_DEAD))"
proof -
  have i: "con_inv c" "cnx_type c = ty" using con_reach_inv [OF assms] by simp_all
  then have "state c \<in> {CNX_IDLE, CNX_WAITING, CNX_RECEIVING} \<longrightarrow> 0 < remaining_len c \<and>
       (if fragment_state c = FRAGMENT_HEADER then header_ptr c + remaining_len c = 4 else remaining_len c < 2 ^ 31)"
    unfolding con_inv_def rx_inv_def by (cases "fragment_state c") auto
  moreover have "length (fragment_header c) = 4 \<and> (state c = CNX_SENDING \<longrightarrow> fragment_state c = FRAGMENT_BODY) \<and>
      (if ty = CNX_SERVER then state c \<in> {CNX_IDLE, CNX_RECEIVING, CNX_READY, CNX_SENDING, CNX_DEAD}
       else state c \<noteq> CNX_IDLE \<and> (auto_destroyable c \<longrightarrow> state c = CNX_DEAD))"
    using i by (cases ty) (auto simp: con_inv_def base_inv_def)
  ultimately show ?thesis using i(2) by blast
qed


text \<open>A socket on which bytes wait, of which it gives two at a time.\<close>

definition two_bytes :: "nat \<Rightarrow> byte list \<Rightarrow> (errno + byte list) \<times> byte list" where
  "two_bytes k n = (Inr (take (min k 2) n), drop (min k 2) n)"

theorem connection_invariant_witness:
  "\<exists>g c. con_reach mal_lowest (\<lambda>_. False) two_bytes (\<lambda>b n. (Inr 0, n)) CNX_SERVER ([0], g, c) \<and>
     state c = CNX_RECEIVING \<and> remaining_len c = 2 \<and> cnx_type c = CNX_SERVER \<and> length (fragment_header c) = 4 \<and>
     header_ptr c + remaining_len c = 4"
proof -
  let ?reach = "con_reach mal_lowest (\<lambda>_. False) two_bytes (\<lambda>b n. (Inr 0, n)) CNX_SERVER"
  define s where "s = (two_free, on_frag 1 0)"
  obtain g c where c: "tcp_create mal_lowest True 0 True None CNX_SERVER [0, 0, 0, 0] s = Some (g, c)"
      "state c = CNX_IDLE" "fragment_state c = FRAGMENT_HEADER" "remaining_len c = 4" "header_ptr c = 0" "fragment_header c = [0, 0, 0, 0]"
    by (simp add: s_def tcp_create_def ms_create_def new_connection_def await_header_def two_free_def two_frags_def on_frag_def
        alloc_fragment_def link_fragment_def Let_def)
  then have r: "?reach ([0x80, 0, 0], g, c)" by (intro created) simp_all
  have rd: "two_bytes 4 [0x80, 0, 0] = (Inr [0x80, 0], [0])" by (simp add: two_bytes_def)
  let ?c = "c\<lparr>remaining_len := 2, fragment_header := [0x80, 0, 0, 0], header_ptr := 2, state := CNX_RECEIVING\<rparr>"
  have "receive mal_lowest (\<lambda>_. False) two_bytes ([0x80, 0, 0], g, c) = Some (getIoMode ?c, [0], g, ?c)"
    using c by (simp add: receive_def in_connect_def receive_data_def receive_header_def read_header.simps [of two_bytes 4] rd Let_def getIoMode_def)
  then have "con_step mal_lowest (\<lambda>_. False) two_bytes (\<lambda>b n. (Inr 0, n)) ([0x80, 0, 0], g, c) ([0], g, ?c)"
    by (rule readable [rotated]) (simp add: io_readable c(2))
  then have e: "?reach ([0], g, ?c)" by (rule stepped [OF r])
  have "short_reads two_bytes" by (auto simp: short_reads_def two_bytes_def)
  from connection_invariant [OF e this] show ?thesis using e by (intro exI [of _ g] exI [of _ ?c]) simp
qed

end
