(* ===== verification/KsTcpReceive.thy ===== *)
theory KsTcpReceive
  imports KsTcpInvariant
begin

text \<open>
  Reception of a message by \<open>KssTCPXDRConnection::receive\<close>. \<open>wire\<close> is the record marking standard; \<open>rx_rel\<close> relates a
  connection in the middle of a message to the bytes still to come, \<open>drive\<close> is the connection manager that calls \<open>receive\<close>.
\<close>

subsection \<open>Record marking\<close>

text \<open>The bytes of a message sent in the given fragments.\<close>

fun wire :: "byte list list \<Rightarrow> byte list" where
  "wire [] = []"
| "wire (f # fs) = be32 (of_nat (length f) OR (if fs = [] then 0x80000000 else 0)) @ f @ wire fs"

lemma fragment_length:
  assumes "n < 2 ^ 31"
  shows "unat (((of_nat n :: u32) OR (if b then 0x80000000 else 0)) AND 0x7FFFFFFF) = n"
    and "((of_nat n :: u32) OR (if b then 0x80000000 else 0)) AND 0x80000000 \<noteq> 0 \<longleftrightarrow> b"
proof -
  have m: "(0x7FFFFFFF :: u32) = mask 31" "(0x80000000 :: u32) = push_bit 31 1" by (simp_all add: mask_eq_exp_minus_1)
  have t: "take_bit 31 (of_nat n :: u32) = of_nat n" by (simp only: take_bit_of_nat take_bit_nat_eq_self [OF assms])
  have hi: "\<not> bit (of_nat n :: u32) 31"
    using t by (metis bit_take_bit_iff less_irrefl)
  have "((of_nat n :: u32) OR (if b then 0x80000000 else 0)) AND 0x7FFFFFFF = of_nat n"
  proof -
    have a: "x AND 0x7FFFFFFF = take_bit 31 x" for x :: u32 unfolding m(1) by (rule take_bit_eq_mask [symmetric])
    have "take_bit 31 (0x80000000 :: u32) = 0" by simp
    then show ?thesis unfolding a take_bit_or t by (cases b) simp_all
  qed
  then show "unat (((of_nat n :: u32) OR (if b then 0x80000000 else 0)) AND 0x7FFFFFFF) = n"
    using assms by (simp add: unat_of_nat)
  have z: "(of_nat n :: u32) AND 0x80000000 = 0"
  proof (intro bit_word_eqI notI iffI)
    fix j
    assume "bit ((of_nat n :: u32) AND 0x80000000) j"
    then have j: "bit (of_nat n :: u32) j" "bit (push_bit 31 1 :: u32) j" unfolding m(2) by (simp_all only: bit_and_iff)
    then have "j = 31" by (simp only: bit_push_bit_iff bit_1_iff) simp
    with j(1) hi show "bit (0 :: u32) j" by simp
  qed simp
  show "((of_nat n :: u32) OR (if b then 0x80000000 else 0)) AND 0x80000000 \<noteq> 0 \<longleftrightarrow> b"
    using z by (auto simp: word_ao_dist)
qed

lemma length_wire: "length (wire fs) = 4 * length fs + length (concat fs)"
  by (induction fs) auto

subsection \<open>What is still to come\<close>

text \<open>
  \<open>rx_header\<close> and \<open>rx_body\<close>: the bytes \<open>w\<close> complete a message of which \<open>got\<close> has been collected, in the middle of a header or of a
  fragment. \<open>rx_rel\<close> adds that the stream holds what has been collected and has room for the rest; \<open>cap\<close> is the size of its
  fragments, which an \<open>int\<close> can hold, and the number of bytes it can hold at least.
\<close>

definition rx_header :: "byte list \<Rightarrow> byte list \<Rightarrow> byte list \<Rightarrow> tcpcon \<Rightarrow> bool" where
  "rx_header msg got w c \<longleftrightarrow> fragment_state c = FRAGMENT_HEADER \<and> header_ptr c + remaining_len c = 4 \<and> 0 < remaining_len c \<and>
     (\<exists>fs. fs \<noteq> [] \<and> (\<forall>f\<in>set fs. length f < 2 ^ 31) \<and> take (header_ptr c) (fragment_header c) @ w = wire fs \<and> msg = got @ concat fs)"

definition rx_body :: "byte list \<Rightarrow> byte list \<Rightarrow> byte list \<Rightarrow> tcpcon \<Rightarrow> bool" where
  "rx_body msg got w c \<longleftrightarrow> fragment_state c = FRAGMENT_BODY \<and> 0 < remaining_len c \<and>
     (\<exists>b fs. length b = remaining_len c \<and> (\<forall>f\<in>set fs. length f < 2 ^ 31) \<and> (last_fragment c \<longleftrightarrow> fs = []) \<and> w = b @ wire fs \<and>
        msg = got @ b @ concat fs)"

definition rx_end :: "byte list \<Rightarrow> byte list \<Rightarrow> byte list \<Rightarrow> tcpcon \<Rightarrow> bool" where
  "rx_end msg got w c \<longleftrightarrow> last_fragment c \<and> remaining_len c = 0 \<and> w = [] \<and> msg = got"

definition stream_ready :: "u32 \<times> nat \<Rightarrow> byte list \<Rightarrow> msglob \<Rightarrow> tcpcon \<Rightarrow> bool" where
  "stream_ready cap msg g c \<longleftrightarrow> ms_good (g, xdrs c) \<and> length msg \<le> snd cap \<and>
     snd cap \<le> length (ms_written (g, xdrs c)) + ms_room (g, xdrs c) \<and> buf_size g = fst cap \<and> unat (fst cap) < 2 ^ 31 \<and>
     length (fragment_header c) = 4"

definition rx_rel :: "u32 \<times> nat \<Rightarrow> byte list \<Rightarrow> byte list \<Rightarrow> msglob \<Rightarrow> tcpcon \<Rightarrow> bool" where
  "rx_rel cap msg w g c \<longleftrightarrow> stream_ready cap msg g c \<and>
     (rx_header msg (ms_written (g, xdrs c)) w c \<or> rx_body msg (ms_written (g, xdrs c)) w c)"

definition rx_complete :: "u32 \<times> nat \<Rightarrow> byte list \<Rightarrow> byte list \<Rightarrow> msglob \<Rightarrow> tcpcon \<Rightarrow> bool" where
  "rx_complete cap msg w g c \<longleftrightarrow> stream_ready cap msg g c \<and> rx_end msg (ms_written (g, xdrs c)) w c"

text \<open>A socket without errors: it gives data, or says that there is none or that it was interrupted, but not without end.\<close>

definition healthy :: "(nat \<Rightarrow> 'n \<Rightarrow> (errno + byte list) \<times> 'n) \<Rightarrow> bool" where
  "healthy rd \<longleftrightarrow> (\<forall>k n. 0 < k \<longrightarrow> read_header rd k n \<noteq> None \<and>
     (case fst (rd k n) of Inl e \<Rightarrow> e = EINTR \<or> e = EWOULDBLOCK | Inr b \<Rightarrow> b \<noteq> []))"

text \<open>A socket on which data wait gives some of them at once.\<close>

definition delivers :: "(nat \<Rightarrow> 'n \<Rightarrow> (errno + byte list) \<times> 'n) \<Rightarrow> ('n \<Rightarrow> byte list) \<Rightarrow> bool" where
  "delivers rd pend \<longleftrightarrow> (\<forall>k n. 0 < k \<and> pend n \<noteq> [] \<longrightarrow> (\<exists>b. fst (rd k n) = Inr b))"

lemma healthyD:
  assumes "healthy rd" "0 < k"
  shows "rd k n = (Inl e, n') \<Longrightarrow> e = EINTR \<or> e = EWOULDBLOCK" "rd k n \<noteq> (Inr [], n')" "\<exists>y. read_header rd k n = Some y"
  using assms(1) [unfolded healthy_def, rule_format, OF assms(2), of n] by auto

lemma wire_Cons_split:
  assumes "h @ w = wire fs" "fs \<noteq> []" "length h \<le> 4"
  shows "4 - length h \<le> length w"
proof -
  have "length h + length w = length (wire fs)" using assms(1) by (metis length_append)
  then show ?thesis using assms(2) by (cases fs) (auto simp: length_wire)
qed

text \<open>A complete header.\<close>

lemma take_header_rx:
  assumes "fragment_state c = FRAGMENT_HEADER" "fragment_header c @ w = wire fs" "fs \<noteq> []" "\<forall>f\<in>set fs. length f < 2 ^ 31"
    "length (fragment_header c) = 4" "msg = got @ concat fs"
  shows "(rx_header msg got w (take_header c) \<or> rx_body msg got w (take_header c) \<or> rx_end msg got w (take_header c))"
proof -
  obtain f fs' where fs: "fs = f # fs'" using assms(3) by (cases fs) auto
  let ?l = "of_nat (length f) OR (if fs' = [] then 0x80000000 else 0) :: u32"
  have h: "fragment_header c = be32 ?l" "w = f @ wire fs'"
    using assms(2,5) unfolding fs by (simp_all add: append_eq_append_conv)
  have len: "length f < 2 ^ 31" using assms(4) fs by simp
  note l = fragment_length [OF len, of "fs' = []"]
  let ?c = "c\<lparr>last_fragment := (fs' = []), remaining_len := length f\<rparr>"
  have c: "take_header c = (if length f \<noteq> 0 then ?c\<lparr>fragment_state := FRAGMENT_BODY\<rparr>
      else if fs' \<noteq> [] then ?c\<lparr>remaining_len := 4, header_ptr := 0\<rparr> else ?c)"
    unfolding take_header_def h(1) un_be32_be32 Let_def using l by simp
  consider (body) "f \<noteq> []" | (again) "f = []" "fs' \<noteq> []" | (over) "f = []" "fs' = []" by blast
  then show ?thesis
  proof cases
    case body
    then have "rx_body msg got w (take_header c)"
      unfolding c rx_body_def using assms(4,6) h(2) fs by (auto intro!: exI [of _ f] exI [of _ fs'])
    then show ?thesis by simp
  next
    case again
    then have "rx_header msg got w (take_header c)"
      unfolding c rx_header_def using assms(1,4,6) h(2) fs by (auto intro!: exI [of _ fs'])
    then show ?thesis by simp
  next
    case over
    then have "rx_end msg got w (take_header c)" unfolding c rx_end_def using assms(6) h(2) fs by simp
    then show ?thesis by simp
  qed
qed


text \<open>A part \<open>u\<close> of what is to come has been taken.\<close>

definition same_rpc :: "tcpcon \<Rightarrow> tcpcon \<Rightarrow> bool" where
  "same_rpc c c' \<longleftrightarrow> cnx_type c' = cnx_type c \<and> state c' = state c \<and> rpc c' = rpc c"

lemma rx_header_need:
  assumes "rx_header msg got w c" "length (fragment_header c) = 4"
  shows "remaining_len c \<le> length w"
proof -
  obtain fs where "fs \<noteq> []" "take (header_ptr c) (fragment_header c) @ w = wire fs" "header_ptr c + remaining_len c = 4"
    using assms(1) by (auto simp: rx_header_def)
  then show ?thesis using wire_Cons_split [of "take (header_ptr c) (fragment_header c)" w fs] assms(2) by simp
qed

lemma rx_header_some:
  assumes h: "rx_header msg got w c" "length (fragment_header c) = 4" and b: "length b \<le> remaining_len c" "w @ beyond = b @ p'"
    and c': "c' = c\<lparr>remaining_len := remaining_len c - length b,
               fragment_header := take (header_ptr c) (fragment_header c) @ b @ drop (header_ptr c + length b) (fragment_header c),
               header_ptr := header_ptr c + length b\<rparr>"
  shows "\<exists>w'. w = b @ w' \<and> p' = w' @ beyond \<and> length (fragment_header c') = 4 \<and>
    (if remaining_len c' = 0
     then rx_header msg got w' (take_header c') \<or> rx_body msg got w' (take_header c') \<or> rx_end msg got w' (take_header c')
     else rx_header msg got w' c')"
proof -
  obtain fs where fs: "fs \<noteq> []" "\<forall>f\<in>set fs. length f < 2 ^ 31" "take (header_ptr c) (fragment_header c) @ w = wire fs"
      "msg = got @ concat fs" and pos: "fragment_state c = FRAGMENT_HEADER" "header_ptr c + remaining_len c = 4"
    using h(1) by (auto simp: rx_header_def)
  have "remaining_len c \<le> length w"
    by (rule rx_header_need [OF h])
  then have "length b \<le> length w" using b(1) by simp
  then obtain w' where w': "w = b @ w'" "p' = w' @ beyond" using b(2) by (auto simp: append_eq_append_conv2)
  have l: "length (fragment_header c') = 4" using b(1) h(2) pos(2) by (simp add: c')
  have t: "take (header_ptr c') (fragment_header c') @ w' = wire fs"
    using fs(3) h(2) pos(2) b(1) by (simp add: c' w'(1))
  show ?thesis
  proof (cases "remaining_len c' = 0")
    case True
    then have "header_ptr c' = 4" using b(1) pos(2) by (simp add: c')
    then have f: "fragment_header c' @ w' = wire fs" using t l by simp
    have "fragment_state c' = FRAGMENT_HEADER" using pos(1) by (simp add: c')
    from take_header_rx [OF this f fs(1,2) l fs(4)] show ?thesis using True w' l by auto
  next
    case False
    then have "rx_header msg got w' c'"
      unfolding rx_header_def using t fs pos b(1) by (auto simp: c' intro!: exI [of _ fs])
    then show ?thesis using False w' l by auto
  qed
qed

lemma take_header_same [simp]: "xdrs (take_header c) = xdrs c" "rpc (take_header c) = rpc c" "state (take_header c) = state c"
  "cnx_type (take_header c) = cnx_type c" "fragment_header (take_header c) = fragment_header c"
  by (simp_all add: take_header_def Let_def)

lemma receive_header_rx:
  assumes r: "read_ok rd pend" "healthy rd" and h: "rx_rel cap msg w g c" "fragment_state c = FRAGMENT_HEADER" and p: "pend n = w @ beyond"
  shows "\<exists>m n' c' u w'. receive_header rd (n, g, c) = Some (m, n', g, c') \<and> same_rpc c c' \<and> w = u @ w' \<and> pend n' = w' @ beyond \<and>
    (rx_rel cap msg w' g c' \<or> (m = None \<and> rx_complete cap msg w' g c' \<and> fragment_state c' = FRAGMENT_HEADER)) \<and>
    (delivers rd pend \<longrightarrow> m = None \<and> u \<noteq> [])"
proof -
  let ?k = "remaining_len c"
  have hd: "rx_header msg (ms_written (g, xdrs c)) w c" "stream_ready cap msg g c" "length (fragment_header c) = 4"
    using h by (auto simp: rx_rel_def rx_body_def stream_ready_def)
  have k: "0 < ?k" using hd(1) by (simp add: rx_header_def)
  obtain y where y: "read_header rd ?k n = Some y" using healthyD(3) [OF r(2) k] by blast
  obtain q n' where yq: "y = (q, n')" by (cases y)
  obtain n0 where n0: "q \<noteq> Inl EINTR" "rd ?k n0 = (q, n')" "pend n0 = w @ beyond"
    using read_header_result [OF y] r(1) p by (auto simp: yq)
  show ?thesis
  proof (cases q)
    case (Inl e)
    then have e: "e = EWOULDBLOCK" using healthyD(1) [OF r(2) k] n0(1,2) by auto
    have pend: "pend n' = w @ beyond" using read_okD(1) [OF r(1)] n0(2,3) Inl by metis
    have "receive_header rd (n, g, c) = Some (Some (getIoMode c), n', g, c)"
      using y yq Inl e by (simp add: receive_header_def)
    moreover have "\<not> delivers rd pend"
    proof
      assume d: "delivers rd pend"
      have "w \<noteq> []" using rx_header_need [OF hd(1,3)] k by auto
      then have "\<exists>b. fst (rd ?k n0) = Inr b" using d [unfolded delivers_def, rule_format, of ?k n0] k n0(3) by simp
      then show False using n0(2) Inl by simp
    qed
    ultimately show ?thesis using pend h(1) by (auto simp: same_rpc_def)
  next
    case (Inr b)
    then have b: "b \<noteq> []" "length b \<le> ?k" "w @ beyond = b @ pend n'"
      using healthyD(2) [OF r(2) k, of n0 n'] read_okD(2) [OF r(1), of ?k n0 b n'] n0(2,3) Inr by auto
    let ?c = "c\<lparr>remaining_len := remaining_len c - length b,
               fragment_header := take (header_ptr c) (fragment_header c) @ b @ drop (header_ptr c + length b) (fragment_header c),
               header_ptr := header_ptr c + length b\<rparr>"
    obtain w' where w': "w = b @ w'" "pend n' = w' @ beyond" "length (fragment_header ?c) = 4"
        "if remaining_len ?c = 0
         then rx_header msg (ms_written (g, xdrs c)) w' (take_header ?c) \<or> rx_body msg (ms_written (g, xdrs c)) w' (take_header ?c) \<or>
           rx_end msg (ms_written (g, xdrs c)) w' (take_header ?c)
         else rx_header msg (ms_written (g, xdrs c)) w' ?c"
      using rx_header_some [OF hd(1,3) b(2,3) refl] by blast
    let ?d = "if remaining_len ?c = 0 then take_header ?c else ?c"
    have e: "receive_header rd (n, g, c) = Some (None, n', g, ?d)"
      using y yq Inr b(1) by (cases b) (simp_all add: receive_header_def Let_def)
    have sr: "stream_ready cap msg g ?d" using hd(2) w'(3) by (simp add: stream_ready_def)
    have "same_rpc c ?d" by (simp add: same_rpc_def)
    moreover have "rx_rel cap msg w' g ?d \<or> (rx_complete cap msg w' g ?d \<and> fragment_state ?d = FRAGMENT_HEADER)"
    proof (cases "remaining_len ?c = 0")
      case True
      then have d: "?d = take_header ?c" by simp
      have "rx_header msg (ms_written (g, xdrs c)) w' ?d \<or> rx_body msg (ms_written (g, xdrs c)) w' ?d \<or> rx_end msg (ms_written (g, xdrs c)) w' ?d"
        using w'(4) True by simp
      moreover have "rx_end msg (ms_written (g, xdrs c)) w' ?d \<Longrightarrow> fragment_state ?d = FRAGMENT_HEADER"
        unfolding d rx_end_def using h(2) by (auto simp: take_header_def Let_def split: if_splits)
      moreover have "xdrs ?d = xdrs c" unfolding d by simp
      ultimately show ?thesis using sr unfolding rx_rel_def rx_complete_def by metis
    next
      case False
      then show ?thesis using w'(4) sr by (simp add: rx_rel_def)
    qed
    ultimately show ?thesis using e w' b(1) by blast
  qed
qed


text \<open>A call that has read nothing has been told so at once.\<close>

lemma read_loop_progress:
  assumes m: "mal_ok mal" "ms_good s" "m \<le> ms_room s" "0 < m" "unat (buf_size (fst s)) < 2 ^ 31" and l: "read_loop mal rd m n s = Some (ok, e, m, n', s')"
  shows "\<exists>k r n2. 0 < k \<and> rd k n = (r, n2) \<and> (r = Inr [] \<or> (\<exists>e. r = Inl e))"
proof -
  obtain fl ps where "enc_state s fl ps" using m(2) by (auto simp: ms_good_def)
  then obtain t fl' ps' where t: "refill_put mal s = Some (True, t)" "0 < unat (handy (snd t))" and
      e: "enc_state t fl' ps'" "buf_size (fst t) = buf_size (fst s)"
    using refill_put_spec [OF _ _ m(1)] m(3,4) by (metis gr0I le_zero_eq)
  let ?k = "min m (unat (handy (snd t)))"
  have tc: "transfer_count m (handy (snd t)) = Some ?k"
    by (rule transfer_count_small) (use handy_le [OF e(1)] e(2) m(5) in simp)
  have k: "0 < ?k" using t(2) m(4) by simp
  obtain r n2 where r: "rd ?k n = (r, n2)" by (metis surj_pair)
  have "r = Inr [] \<or> (\<exists>e. r = Inl e)"
  proof (rule ccontr)
    assume "\<not> (r = Inr [] \<or> (\<exists>e. r = Inl e))"
    then obtain b where b: "r = Inr b" "b \<noteq> []" by (cases r) auto
    obtain u where u: "frag_write b t = Some u" using l t tc r b m(4)
      by (subst (asm) read_loop.simps) (auto simp: bind_eq_Some_conv)
    have "m \<le> m - length b"
    proof (cases "?k = length b")
      case False
      then show ?thesis using l t tc r b m(4) u by (subst (asm) read_loop.simps) auto
    next
      case True
      then have "read_loop mal rd (m - length b) n2 (step (length b) u) = Some (ok, e, m, n', s')"
        using l t tc r b m(4) u by (subst (asm) read_loop.simps) simp
      then show ?thesis by (rule read_loop_le)
    qed
    then show False using b(2) m(4) by (cases b) auto
  qed
  then show ?thesis using k r by blast
qed

lemma await_header_more [simp]: "xdrs (await_header c) = xdrs c" "rpc (await_header c) = rpc c"
  by (simp_all add: await_header_def)

lemma ms_good_op: "ms_good s \<Longrightarrow> ms_op (snd s) = XDR_ENCODE"
  by (auto simp: ms_good_def enc_state_def writing_def)

lemma receive_body_rx:
  assumes r: "read_ok rd pend" "healthy rd" "mal_ok mal"
    and h: "rx_body msg (ms_written (g, xdrs c)) w c" "stream_ready cap msg g c" and p: "pend n = w @ beyond"
  shows "\<exists>n' g' c' u w'. receive_body mal rd (n, g, c) = Some (None, n', g', c') \<and> same_rpc c c' \<and> w = u @ w' \<and> pend n' = w' @ beyond \<and>
    (rx_rel cap msg w' g' c' \<or> rx_complete cap msg w' g' c') \<and> (delivers rd pend \<longrightarrow> u \<noteq> [])"
proof -
  let ?s = "(g, xdrs c)" and ?m = "remaining_len c"
  obtain b0 fs where b0: "length b0 = ?m" "\<forall>f\<in>set fs. length f < 2 ^ 31" "last_fragment c \<longleftrightarrow> fs = []" "w = b0 @ wire fs"
      "msg = ms_written ?s @ b0 @ concat fs" and fsb: "fragment_state c = FRAGMENT_BODY" "0 < ?m"
    using h(1) by (auto simp: rx_body_def)
  have s: "ms_good ?s" "length msg \<le> length (ms_written ?s) + ms_room ?s" "length (fragment_header c) = 4"
      "snd cap \<le> length (ms_written ?s) + ms_room ?s" "length msg \<le> snd cap" "buf_size g = fst cap" "unat (fst cap) < 2 ^ 31"
    using h(2) by (simp_all add: stream_ready_def)
  have bs: "unat (buf_size (fst ?s)) < 2 ^ 31" using s(6,7) by simp
  have m: "?m \<le> ms_room ?s" using s(2) b0(1,5) by simp
  obtain ok e m' n' s' b where l: "read_loop mal rd ?m n ?s = Some (ok, e, m', n', s')" "ms_good s'" "m' + length b = ?m"
      "pend n = b @ pend n'" "ms_written s' = ms_written ?s @ b" "ms_room ?s \<le> ms_room s' + length b"
      "ok \<or> (\<exists>k n1 n2. 0 < k \<and> (rd k n1 = (Inr [], n2) \<or> (\<exists>e. rd k n1 = (Inl e, n2) \<and> \<not> transient e)))"
      "buf_size (fst s') = buf_size (fst ?s)"
    using read_loop_spec [OF r(1,3) s(1) m bs, of n] by blast
  have ok: ok
  proof (rule ccontr)
    assume "\<not> ok"
    then obtain k n1 n2 where k: "0 < k" "rd k n1 = (Inr [], n2) \<or> (\<exists>e. rd k n1 = (Inl e, n2) \<and> \<not> transient e)" using l(7) by blast
    then show False using healthyD(1,2) [OF r(2) k(1), of n1] by (auto simp: transient_def)
  qed
  obtain g' x where s': "s' = (g', x)" by (cases s')
  let ?c = "c\<lparr>remaining_len := m', xdrs := x\<rparr>"
  let ?d = "if m' = 0 \<and> \<not> last_fragment c then await_header ?c else ?c"
  have e: "receive_body mal rd (n, g, c) = Some (None, n', g', ?d)"
    using l(1) ok ms_good_op [OF s(1)] by (simp add: receive_body_def read_from_fd_def s' Let_def)
  have "b0 @ wire fs @ beyond = b @ pend n'" using p l(4) b0(4) by simp
  moreover have "length b \<le> length b0" using l(3) b0(1) by simp
  ultimately obtain b1 where b1: "b0 = b @ b1" "pend n' = b1 @ wire fs @ beyond" by (auto simp: append_eq_append_conv2)
  have m': "m' = length b1" using l(3) b0(1) b1(1) by simp
  have sr: "stream_ready cap msg g' ?d" using s l(2,5,6,8) by (auto simp: stream_ready_def s')
  have wr: "ms_written (g', x) = ms_written ?s @ b" using l(5) s' by simp
  have "rx_rel cap msg (b1 @ wire fs) g' ?d \<or> rx_complete cap msg (b1 @ wire fs) g' ?d"
  proof (cases "m' = 0")
    case False
    then have "rx_body msg (ms_written (g', x)) (b1 @ wire fs) ?d"
      unfolding rx_body_def using fsb b0 b1(1) m' wr by (auto intro!: exI [of _ b1] exI [of _ fs])
    then show ?thesis using sr False by (simp add: rx_rel_def)
  next
    case True
    show ?thesis
    proof (cases "fs = []")
      case l: True
      then have "rx_end msg (ms_written (g', x)) (b1 @ wire fs) ?d" using True m' b0(3,5) b1(1) wr by (simp add: rx_end_def)
      then show ?thesis using sr l b0(3) by (simp add: rx_complete_def)
    next
      case l: False
      then have "rx_header msg (ms_written (g', x)) (b1 @ wire fs) ?d"
        using True m' b0(2,3,5) b1(1) wr by (auto simp: rx_header_def await_header_def intro!: exI [of _ fs])
      then show ?thesis using sr l b0(3) True by (simp add: rx_rel_def await_header_def)
    qed
  qed
  moreover have "delivers rd pend \<longrightarrow> b \<noteq> []"
  proof (intro impI notI)
    assume d: "delivers rd pend" "b = []"
    then have m: "m' = ?m" using l(3) by simp
    from read_loop_progress [OF r(3) s(1) \<open>?m \<le> ms_room ?s\<close> fsb(2) bs l(1) [unfolded m]]
    obtain k q n2 where k: "0 < k" "rd k n = (q, n2)" "q = Inr [] \<or> (\<exists>e. q = Inl e)" by blast
    have "pend n \<noteq> []" using p b0(1,4) fsb(2) by auto
    then have "\<exists>b. q = Inr b" using d(1) [unfolded delivers_def, rule_format, of k n] k(1,2) by simp
    then show False using k healthyD(2) [OF assms(2) k(1), of n n2] by auto
  qed
  moreover have "same_rpc c ?d" by (simp add: same_rpc_def await_header_def)
  moreover have "w = b @ b1 @ wire fs" using b0(4) b1(1) by simp
  ultimately show ?thesis using e b1(2) by (metis append.assoc)
qed


lemma same_rpc_trans: "same_rpc a b \<Longrightarrow> same_rpc b c \<Longrightarrow> same_rpc a c"
  by (simp add: same_rpc_def)

lemma receive_data_rx:
  assumes r: "read_ok rd pend" "healthy rd" "mal_ok mal" and h: "rx_rel cap msg w g c" and p: "pend n = w @ beyond"
  shows "\<exists>m n' g' c' u w'. receive_data mal rd (n, g, c) = Some (m, n', g', c') \<and> same_rpc c c' \<and> w = u @ w' \<and> pend n' = w' @ beyond \<and>
    (rx_rel cap msg w' g' c' \<or> (m = None \<and> rx_complete cap msg w' g' c')) \<and> (delivers rd pend \<longrightarrow> u \<noteq> [])"
proof (cases "fragment_state c")
  case FRAGMENT_BODY
  then have "rx_body msg (ms_written (g, xdrs c)) w c" "stream_ready cap msg g c" using h by (auto simp: rx_rel_def rx_header_def)
  from receive_body_rx [OF r this p] obtain n' g' c' u w' where b: "receive_body mal rd (n, g, c) = Some (None, n', g', c')"
      "same_rpc c c'" "w = u @ w'" "pend n' = w' @ beyond" "rx_rel cap msg w' g' c' \<or> rx_complete cap msg w' g' c'"
      "delivers rd pend \<longrightarrow> u \<noteq> []" by blast
  have "receive_data mal rd (n, g, c) = Some (None, n', g', c')" using FRAGMENT_BODY b(1) by (simp add: receive_data_def)
  with b show ?thesis by blast
next
  case FRAGMENT_HEADER
  obtain m n1 c1 u1 w1 where hd: "receive_header rd (n, g, c) = Some (m, n1, g, c1)" "same_rpc c c1" "w = u1 @ w1" "pend n1 = w1 @ beyond"
      "rx_rel cap msg w1 g c1 \<or> (m = None \<and> rx_complete cap msg w1 g c1 \<and> fragment_state c1 = FRAGMENT_HEADER)"
      "delivers rd pend \<longrightarrow> m = None \<and> u1 \<noteq> []"
    using receive_header_rx [OF r(1,2) h FRAGMENT_HEADER p] by blast
  show ?thesis
  proof (cases "m = None \<and> fragment_state c1 = FRAGMENT_BODY")
    case True
    then have "rx_body msg (ms_written (g, xdrs c1)) w1 c1" "stream_ready cap msg g c1" using hd(5) by (auto simp: rx_rel_def rx_header_def)
    from receive_body_rx [OF r this hd(4)] obtain n' g' c' u w' where b: "receive_body mal rd (n1, g, c1) = Some (None, n', g', c')"
        "same_rpc c1 c'" "w1 = u @ w'" "pend n' = w' @ beyond" "rx_rel cap msg w' g' c' \<or> rx_complete cap msg w' g' c'" by blast
    have "receive_data mal rd (n, g, c) = Some (None, n', g', c')" using FRAGMENT_HEADER hd(1) True b(1) by (simp add: receive_data_def)
    moreover have "w = (u1 @ u) @ w'" using hd(3) b(3) by simp
    moreover have "delivers rd pend \<longrightarrow> u1 @ u \<noteq> []" using hd(6) by simp
    ultimately show ?thesis using same_rpc_trans [OF hd(2) b(2)] b(4,5) by blast
  next
    case False
    then have "receive_data mal rd (n, g, c) = Some (m, n1, g, c1)" using FRAGMENT_HEADER hd(1) by (auto simp: receive_data_def)
    then show ?thesis using hd by blast
  qed
qed

subsection \<open>Complete messages\<close>

lemma record_complete_rx:
  assumes h: "rx_complete cap msg w g c" and msg: "msg = words (rpc_words h) @ args" "rpc_valid h" "4 dvd length args"
  shows "\<exists>m g' c'. record_complete mal (n, g, c) = Some (m, n, g', c') \<and> rpc c' = received h (rpc c) \<and> ms_rest (g', xdrs c') = args \<and>
    ms_rgood (g', xdrs c') \<and> (\<exists>r\<ge>snd cap. chain (g', xdrs c') r) \<and> buf_size g' = fst cap \<and> length (fragment_header c') = 4 \<and>
    cnx_type c' = cnx_type c \<and> state c' = (if cnx_type c = CNX_SERVER \<or> xid (rpc c) = xid h then CNX_READY else CNX_READY_FAILED)"
proof -
  obtain fl ps where e: "enc_state (g, xdrs c) fl ps" using h by (auto simp: rx_complete_def stream_ready_def ms_good_def)
  have wr: "ms_written (g, xdrs c) = msg" and cap: "buf_size g = fst cap" "snd cap \<le> length (ms_written (g, xdrs c)) + ms_room (g, xdrs c)"
    and fh: "length (fragment_header c) = 4"
    using h by (simp_all add: rx_complete_def rx_end_def stream_ready_def)
  have "4 dvd length msg" using msg(1,3) by (simp add: length_words)
  then obtain g1 x where r: "ms_rewind XDR_DECODE (g, xdrs c) = Some (g1, x)" "rewound (g1, x) fl ps"
      "concat (map (used_bytes (heap g1)) ps) = msg" "buf_size g1 = buf_size g" "pool_room g1 = pool_room g"
    using rewind_rewound [OF e] wr by auto
  obtain p qs where ps: "ps = p # qs" using r(2) by (cases ps) (auto simp: rewound_def)
  have at: "at_stream g1 (first_frag x) (g1, x)" "ms_rest (g1, x) = msg"
    using rewound_reading [OF r(2) [unfolded ps]] r(3) ps by (auto simp: at_stream_def ms_rgood_def)
  obtain s2 where d: "rpc_decode (ms_ops mal) (rpc c, g1, x) = Some (True, received h (rpc c), s2)" "at_stream g1 (first_frag x) s2" "ms_rest s2 = args"
    using byte_source.hreads_rpc [OF ms_source_at msg(2), of g1 "first_frag x" "rpc c" mal] at msg(1,3) unfolding hreads_def by blast
  obtain g2 y where s2: "s2 = (g2, y)" by (cases s2)
  have g2: "g2 = g1" "ms_rgood (g2, y)" "first_frag y = first_frag x" using d(2) unfolding at_stream_def s2 by auto
  have ch: "chain (g2, y) (unat (buf_size g) * (pool_room g + length ps))"
    by (rule chain_frozen [OF rewound_chain [OF r(2), unfolded r(4,5)]]) (use g2 in simp_all)
  have "snd cap \<le> unat (buf_size g) * (pool_room g + length ps)" using cap(2) enc_chain(2) [OF e] by simp
  then have "\<exists>r\<ge>snd cap. chain (g2, y) r" using ch by blast
  moreover have "xid (received h (rpc c)) = xid h" by (simp add: received_def Let_def)
  moreover have "buf_size g2 = fst cap" using g2(1) r(4) cap(1) by simp
  ultimately show ?thesis
    using r(1) d(1,3) s2 g2(2) fh by (auto simp: record_complete_def decode_rpc_def Let_def)
qed

definition waits :: "tcpcon \<Rightarrow> bool" where
  "waits c \<longleftrightarrow> state c = CNX_IDLE \<or> state c = CNX_WAITING \<or> state c = CNX_RECEIVING"

text \<open>The state in which a complete message leaves the connection.\<close>

definition arrived :: "u32 \<times> nat \<Rightarrow> rpc_header \<Rightarrow> rpc_header \<Rightarrow> byte list \<Rightarrow> msglob \<Rightarrow> tcpcon \<Rightarrow> bool" where
  "arrived cap old h args g c \<longleftrightarrow> rpc c = received h old \<and> ms_rgood (g, xdrs c) \<and> ms_rest (g, xdrs c) = args \<and>
     (\<exists>r\<ge>snd cap. chain (g, xdrs c) r) \<and> buf_size g = fst cap \<and> length (fragment_header c) = 4 \<and>
     state c = (if cnx_type c = CNX_SERVER \<or> xid old = xid h then CNX_READY else CNX_READY_FAILED)"

lemma rx_state [simp]: "rx_rel cap msg w g (c\<lparr>state := s\<rparr>) = rx_rel cap msg w g c"
  by (simp add: rx_rel_def rx_header_def rx_body_def stream_ready_def)

lemma receive_rx:
  assumes r: "read_ok rd pend" "healthy rd" "mal_ok mal" and h: "rx_rel cap msg w g c" "waits c" and p: "pend n = w @ beyond"
    and msg: "msg = words (rpc_words h) @ args" "rpc_valid h" "4 dvd length args"
  shows "\<exists>m n' g' c' u w'. receive mal conn_err rd (n, g, c) = Some (m, n', g', c') \<and> w = u @ w' \<and> pend n' = w' @ beyond \<and>
    (delivers rd pend \<longrightarrow> u \<noteq> []) \<and> cnx_type c' = cnx_type c \<and>
    ((rx_rel cap msg w' g' c' \<and> waits c' \<and> rpc c' = rpc c) \<or> (arrived cap (rpc c) h args g' c' \<and> w' = []))"
proof -
  have nc: "\<not> in_connect c" using h(2) by (auto simp: waits_def in_connect_def)
  obtain m n' g1 c1 u w' where d: "receive_data mal rd (n, g, c) = Some (m, n', g1, c1)" "same_rpc c c1" "w = u @ w'" "pend n' = w' @ beyond"
      "rx_rel cap msg w' g1 c1 \<or> (m = None \<and> rx_complete cap msg w' g1 c1)" "delivers rd pend \<longrightarrow> u \<noteq> []"
    using receive_data_rx [OF r h(1) p] by blast
  have w1: "waits c1" "rpc c1 = rpc c" "cnx_type c1 = cnx_type c" using d(2) h(2) by (simp_all add: same_rpc_def waits_def)
  show ?thesis
  proof (cases "rx_rel cap msg w' g1 c1")
    case True
    have ne: "\<not> (last_fragment c1 \<and> remaining_len c1 = 0)" using True by (auto simp: rx_rel_def rx_header_def rx_body_def)
    show ?thesis
    proof (cases m)
      case (Some y)
      then have "receive mal conn_err rd (n, g, c) = Some (y, n', g1, c1)" using d(1) nc by (simp add: receive_def)
      then show ?thesis using d w1 True by blast
    next
      case None
      let ?c = "c1\<lparr>state := CNX_RECEIVING\<rparr>"
      have "receive mal conn_err rd (n, g, c) = Some (getIoMode ?c, n', g1, ?c)"
        using d(1) nc ne None by (cases "last_fragment c1") (simp_all add: receive_def Let_def)
      moreover have "rx_rel cap msg w' g1 ?c \<and> waits ?c \<and> rpc ?c = rpc c \<and> cnx_type ?c = cnx_type c" using True w1 by (simp add: waits_def)
      ultimately show ?thesis using d by blast
    qed
  next
    case False
    then have f: "m = None" "rx_complete cap msg w' g1 c1" using d(5) by auto
    then have z: "last_fragment c1" "remaining_len c1 = 0" "w' = []" by (auto simp: rx_complete_def rx_end_def)
    obtain k g' c' where q: "record_complete mal (n', g1, c1) = Some (k, n', g', c')" "rpc c' = received h (rpc c1)" "ms_rest (g', xdrs c') = args"
        "ms_rgood (g', xdrs c')" "\<exists>r\<ge>snd cap. chain (g', xdrs c') r" "buf_size g' = fst cap" "length (fragment_header c') = 4" "cnx_type c' = cnx_type c1" "state c' = (if cnx_type c1 = CNX_SERVER \<or> xid (rpc c1) = xid h then CNX_READY else CNX_READY_FAILED)"
      using record_complete_rx [OF f(2) msg, of mal n'] by blast
    have "receive mal conn_err rd (n, g, c) = Some (k, n', g', c')"
      using d(1) nc f(1) z q(1) by (simp add: receive_def)
    then show ?thesis using d(3,4,6) q w1 z(3) by (auto simp: arrived_def)
  qed
qed


subsection \<open>The connection manager at work\<close>

text \<open>\<open>k\<close> rounds of a connection manager that calls \<open>receive\<close> as long as the connection wants to read.\<close>

fun drive ::
  "mallocf \<Rightarrow> ('n \<Rightarrow> bool) \<Rightarrow> (nat \<Rightarrow> 'n \<Rightarrow> (errno + byte list) \<times> 'n) \<Rightarrow> nat \<Rightarrow> 'n net \<Rightarrow> 'n net option" where
  "drive mal conn_err rd 0 x = Some x"
| "drive mal conn_err rd (Suc k) x =
     (if getIoMode (snd (snd x)) AND CNX_IO_READABLE \<noteq> 0
      then do { (_, x) \<leftarrow> receive mal conn_err rd x; drive mal conn_err rd k x }
      else Some x)"

lemma waits_readable: "waits c \<Longrightarrow> getIoMode c AND CNX_IO_READABLE \<noteq> 0"
  by (auto simp: io_readable waits_def)

lemma arrived_unreadable: "arrived cap old h args g c \<Longrightarrow> getIoMode c AND CNX_IO_READABLE = 0"
proof -
  assume "arrived cap old h args g c"
  then have "state c = CNX_READY \<or> state c = CNX_READY_FAILED" by (auto simp: arrived_def)
  then show ?thesis using io_readable [of c] by auto
qed

lemma drive_arrived: "arrived cap old h args g c \<Longrightarrow> drive mal conn_err rd k (n, g, c) = Some (n, g, c)"
  by (cases k) (simp_all add: arrived_unreadable)

lemma rx_rel_more: "rx_rel cap msg w g c \<Longrightarrow> w \<noteq> []"
  using rx_header_need by (fastforce simp: rx_rel_def rx_body_def rx_header_def stream_ready_def)

lemma drive_rx:
  assumes r: "read_ok rd pend" "healthy rd" "mal_ok mal"
    and msg: "msg = words (rpc_words h) @ args" "rpc_valid h" "4 dvd length args"
    and "rx_rel cap msg w g c" "waits c" "pend n = w @ beyond"
  shows "\<exists>n' g' c'. drive mal conn_err rd k (n, g, c) = Some (n', g', c') \<and> cnx_type c' = cnx_type c \<and>
    ((\<exists>u w'. w = u @ w' \<and> pend n' = w' @ beyond \<and> rx_rel cap msg w' g' c' \<and> waits c' \<and> rpc c' = rpc c \<and>
        (delivers rd pend \<longrightarrow> k + length w' \<le> length w)) \<or>
     (arrived cap (rpc c) h args g' c' \<and> pend n' = beyond))"
  using assms(7-)
proof (induction k arbitrary: n g c w)
  case 0
  then show ?case by auto
next
  case (Suc k)
  obtain m n1 g1 c1 u w1 where s: "receive mal conn_err rd (n, g, c) = Some (m, n1, g1, c1)" "w = u @ w1" "pend n1 = w1 @ beyond"
      "delivers rd pend \<longrightarrow> u \<noteq> []" "cnx_type c1 = cnx_type c"
      "(rx_rel cap msg w1 g1 c1 \<and> waits c1 \<and> rpc c1 = rpc c) \<or> (arrived cap (rpc c) h args g1 c1 \<and> w1 = [])"
    using receive_rx [OF r Suc.prems msg, of conn_err] by blast
  have d: "drive mal conn_err rd (Suc k) (n, g, c) = drive mal conn_err rd k (n1, g1, c1)"
    using s(1) waits_readable [OF Suc.prems(2)] by simp
  show ?case
  proof (cases "arrived cap (rpc c) h args g1 c1 \<and> w1 = []")
    case True
    then show ?thesis using drive_arrived s(3,5) d by fastforce
  next
    case False
    then have q: "rx_rel cap msg w1 g1 c1" "waits c1" "rpc c1 = rpc c" using s(6) by auto
    obtain n' g' c' where i: "drive mal conn_err rd k (n1, g1, c1) = Some (n', g', c')" "cnx_type c' = cnx_type c1"
        "(\<exists>u w'. w1 = u @ w' \<and> pend n' = w' @ beyond \<and> rx_rel cap msg w' g' c' \<and> waits c' \<and> rpc c' = rpc c1 \<and>
            (delivers rd pend \<longrightarrow> k + length w' \<le> length w1)) \<or> (arrived cap (rpc c1) h args g' c' \<and> pend n' = beyond)"
      using Suc.IH [OF q(1,2) s(3)] by blast
    from i(3) show ?thesis
    proof (elim disjE exE conjE)
      fix v w'
      assume v: "w1 = v @ w'" "pend n' = w' @ beyond" "rx_rel cap msg w' g' c'" "waits c'" "rpc c' = rpc c1"
        "delivers rd pend \<longrightarrow> k + length w' \<le> length w1"
      have "delivers rd pend \<longrightarrow> Suc k + length w' \<le> length w" using v(6) s(2,4) by (cases u) auto
      moreover have "w = (u @ v) @ w'" using s(2) v(1) by simp
      ultimately show ?thesis using d i(1,2) s(5) v(2-5) q(3) by metis
    next
      assume "arrived cap (rpc c1) h args g' c'" "pend n' = beyond"
      then show ?thesis using d i(1,2) s(5) q(3) by metis
    qed
  qed
qed

lemma rx_start:
  assumes "ms_good (g, xdrs c)" "ms_written (g, xdrs c) = []" "length (concat fs) \<le> ms_room (g, xdrs c)" "length (fragment_header c) = 4"
    "fs \<noteq> []" "\<forall>f\<in>set fs. length f < 2 ^ 31" "c = await_header c" "unat (buf_size g) < 2 ^ 31"
  shows "rx_rel (buf_size g, ms_room (g, xdrs c)) (concat fs) (wire fs) g c"
proof -
  have a: "fragment_state c = FRAGMENT_HEADER" "remaining_len c = 4" "header_ptr c = 0"
    by (subst assms(7), simp add: await_header_def)+
  show ?thesis using assms(1-6,8) a by (auto simp: rx_rel_def stream_ready_def rx_header_def intro!: exI [of _ fs])
qed

subsection \<open>Properties\<close>

text \<open>A socket that gives up to three bytes at once, and an idle server connection on it.\<close>

definition three_bytes :: "nat \<Rightarrow> byte list \<Rightarrow> (errno + byte list) \<times> byte list" where
  "three_bytes k n = (if n = [] then (Inl EWOULDBLOCK, []) else (Inr (take (min k 3) n), drop (min k 3) n))"

definition idle_server :: tcpcon where
  "idle_server = await_header (new_connection True CNX_SERVER (on_frag 1 0) [0, 0, 0, 0])"

definition ping_request :: "byte list list" where
  "ping_request = [take 5 (words (rpc_words rpc_new)), [], drop 5 (words (rpc_words rpc_new)) @ be32 7]"

lemma three_bytes_ok: "read_ok three_bytes id" "healthy three_bytes" "delivers three_bytes id"
proof -
  show "read_ok three_bytes id" by (auto simp: read_ok_def three_bytes_def split: if_splits)
  show "delivers three_bytes id" by (simp add: delivers_def three_bytes_def)
  show "healthy three_bytes"
    unfolding healthy_def
  proof (intro allI impI conjI)
    fix k :: nat and n :: "byte list"
    assume k: "0 < k"
    show "read_header three_bytes k n \<noteq> None" by (subst read_header.simps) (simp add: three_bytes_def)
    show "case fst (three_bytes k n) of Inl e \<Rightarrow> e = EINTR \<or> e = EWOULDBLOCK | Inr b \<Rightarrow> b \<noteq> []"
      using k by (simp add: three_bytes_def)
  qed
qed

lemma idle_server_ok:
  "ms_good (two_frags, xdrs idle_server)" "ms_written (two_frags, xdrs idle_server) = []"
  "ms_room (two_frags, xdrs idle_server) = 64" "length (fragment_header idle_server) = 4" "idle_server = await_header idle_server"
  "state idle_server = CNX_IDLE" "cnx_type idle_server = CNX_SERVER"
proof -
  have e: "enc_state (two_frags, on_frag 1 0) [] [1]"
    by (simp add: two_frags_def on_frag_def enc_state_def pool_ok_def writing_def blocks_def)
  then show "ms_good (two_frags, xdrs idle_server)" by (auto simp: ms_good_def idle_server_def new_connection_def)
  from written_content [OF e] show "ms_written (two_frags, xdrs idle_server) = []"
    by (simp add: idle_server_def new_connection_def content_def on_frag_def)
qed (simp_all add: idle_server_def new_connection_def await_header_def ms_room_def two_frags_def on_frag_def)

lemma two_frags_size: "unat (buf_size two_frags) < 2 ^ 31"
  by (simp add: two_frags_def)

lemma ping_request_ok:
  "concat ping_request = words (rpc_words rpc_new) @ be32 7" "length (concat ping_request) \<le> 64" "rpc_valid rpc_new"
  "ping_request \<noteq> []" "\<forall>f\<in>set ping_request. length f < 2 ^ 31"
proof -
  have l: "length (words (rpc_words rpc_new)) = 40" by (simp add: length_words rpc_words_def rpc_new_def rpc_codes)
  show "concat ping_request = words (rpc_words rpc_new) @ be32 7"
    by (simp only: ping_request_def concat.simps append_Nil append_Nil2 append_assoc [symmetric] append_take_drop_id)
  then show "length (concat ping_request) \<le> 64" using l by simp
  show "rpc_valid rpc_new" by (simp add: rpc_valid_def rpc_new_def)
  show "ping_request \<noteq> []" "\<forall>f\<in>set ping_request. length f < 2 ^ 31" using l by (simp_all add: ping_request_def)
qed

text \<open>
  C2. Reception refines the abstract view of a message as a list of fragments, empty ones included: however the socket splits the
  bytes, as often as the connection manager calls \<open>receive\<close> the connection either still waits, with a part of the message not
  yet taken from the socket, or is ready with the RPC header decoded, the arguments next in its stream, and nothing taken from
  the socket that belongs to the next message. A client whose transaction number does not match is told of the failure.
  The fragments of the stream are shorter than \<open>2 ^ 31\<close> bytes: the code keeps the number of bytes for one \<open>read\<close> in an \<open>int\<close>.
\<close>

theorem request_assembled:
  assumes "read_ok rd pend" "healthy rd" "mal_ok mal"
    and "ms_good (g, xdrs c)" "ms_written (g, xdrs c) = []" "length (concat fs) \<le> ms_room (g, xdrs c)"
    and "length (fragment_header c) = 4" "c = await_header c" "state c = CNX_IDLE \<or> state c = CNX_WAITING"
    and "fs \<noteq> []" "\<forall>f\<in>set fs. length f < 2 ^ 31" "pend n = wire fs @ next_msg"
    and "concat fs = words (rpc_words h) @ args" "rpc_valid h" "4 dvd length args" "unat (buf_size g) < 2 ^ 31"
  shows "\<exists>n' g' c'. drive mal conn_err rd k (n, g, c) = Some (n', g', c') \<and>
    ((state c' \<in> {CNX_IDLE, CNX_WAITING, CNX_RECEIVING} \<and> rpc c' = rpc c \<and>
        (\<exists>u w. wire fs = u @ w \<and> w \<noteq> [] \<and> pend n' = w @ next_msg)) \<or>
     (state c' = (if cnx_type c = CNX_SERVER \<or> xid (rpc c) = xid h then CNX_READY else CNX_READY_FAILED) \<and>
        rpc c' = received h (rpc c) \<and> ms_rest (g', xdrs c') = args \<and> pend n' = next_msg))"
proof -
  have "rx_rel (buf_size g, ms_room (g, xdrs c)) (concat fs) (wire fs) g c" by (rule rx_start [OF assms(4-7,10,11,8,16)])
  moreover have "waits c" using assms(9) by (auto simp: waits_def)
  ultimately obtain n' g' c' where d: "drive mal conn_err rd k (n, g, c) = Some (n', g', c')" "cnx_type c' = cnx_type c"
      "(\<exists>u w'. wire fs = u @ w' \<and> pend n' = w' @ next_msg \<and> rx_rel (buf_size g, ms_room (g, xdrs c)) (concat fs) w' g' c' \<and> waits c' \<and> rpc c' = rpc c) \<or>
       (arrived (buf_size g, ms_room (g, xdrs c)) (rpc c) h args g' c' \<and> pend n' = next_msg)"
    using drive_rx [OF assms(1-3,13-15), of "(buf_size g, ms_room (g, xdrs c))" "wire fs" g c n next_msg conn_err k] assms(12) by blast
  show ?thesis
  proof (cases "arrived (buf_size g, ms_room (g, xdrs c)) (rpc c) h args g' c' \<and> pend n' = next_msg")
    case True
    then show ?thesis using d(1,2) by (auto simp: arrived_def)
  next
    case False
    then obtain u w' where "wire fs = u @ w'" "pend n' = w' @ next_msg" "rx_rel (buf_size g, ms_room (g, xdrs c)) (concat fs) w' g' c'" "waits c'" "rpc c' = rpc c"
      using d(3) by blast
    then show ?thesis using d(1) rx_rel_more by (auto simp: waits_def)
  qed
qed

theorem request_assembled_witness:
  "\<exists>n' g' c'. drive mal_lowest (\<lambda>_. False) three_bytes 7 (wire ping_request @ [0x80], two_frags, idle_server) = Some (n', g', c') \<and>
    ((state c' \<in> {CNX_IDLE, CNX_WAITING, CNX_RECEIVING} \<and> rpc c' = rpc idle_server \<and>
        (\<exists>u w. wire ping_request = u @ w \<and> w \<noteq> [] \<and> n' = w @ [0x80])) \<or>
     (state c' = CNX_READY \<and> rpc c' = received rpc_new (rpc idle_server) \<and> ms_rest (g', xdrs c') = be32 7 \<and> n' = [0x80]))"
  using request_assembled [where pend = id and k = 7 and fs = ping_request and h = rpc_new and args = "be32 7" and next_msg = "[0x80]"
      and n = "wire ping_request @ [0x80]" and conn_err = "\<lambda>_. False", OF three_bytes_ok(1,2) mal_lowest_ok idle_server_ok(1,2) _ idle_server_ok(4,5)]
    ping_request_ok idle_server_ok(3,6,7) two_frags_size by simp

text \<open>
  C4. If the socket always gives some of the data that wait, a message is complete after at most as many calls of \<open>receive\<close> as it
  has bytes on the wire. As in C2 the fragments of the stream are shorter than \<open>2 ^ 31\<close> bytes.
\<close>

theorem request_arrives:
  assumes "read_ok rd pend" "healthy rd" "mal_ok mal" "delivers rd pend"
    and "ms_good (g, xdrs c)" "ms_written (g, xdrs c) = []" "length (concat fs) \<le> ms_room (g, xdrs c)"
    and "length (fragment_header c) = 4" "c = await_header c" "state c = CNX_IDLE \<or> state c = CNX_WAITING"
    and "fs \<noteq> []" "\<forall>f\<in>set fs. length f < 2 ^ 31" "pend n = wire fs @ next_msg"
    and "concat fs = words (rpc_words h) @ args" "rpc_valid h" "4 dvd length args" "unat (buf_size g) < 2 ^ 31"
  shows "\<exists>n' g' c'. drive mal conn_err rd (length (wire fs)) (n, g, c) = Some (n', g', c') \<and> pend n' = next_msg \<and>
    state c' = (if cnx_type c = CNX_SERVER \<or> xid (rpc c) = xid h then CNX_READY else CNX_READY_FAILED) \<and>
    rpc c' = received h (rpc c) \<and> ms_rest (g', xdrs c') = args"
proof -
  have "rx_rel (buf_size g, ms_room (g, xdrs c)) (concat fs) (wire fs) g c" by (rule rx_start [OF assms(5-8,11,12,9,17)])
  moreover have "waits c" using assms(10) by (auto simp: waits_def)
  ultimately obtain n' g' c' where d: "drive mal conn_err rd (length (wire fs)) (n, g, c) = Some (n', g', c')" "cnx_type c' = cnx_type c"
      "(\<exists>w'. rx_rel (buf_size g, ms_room (g, xdrs c)) (concat fs) w' g' c' \<and> length (wire fs) + length w' \<le> length (wire fs)) \<or>
       (arrived (buf_size g, ms_room (g, xdrs c)) (rpc c) h args g' c' \<and> pend n' = next_msg)"
    using drive_rx [OF assms(1-3,14-16), of "(buf_size g, ms_room (g, xdrs c))" "wire fs" g c n next_msg conn_err "length (wire fs)"] assms(4,13) by blast
  then have "arrived (buf_size g, ms_room (g, xdrs c)) (rpc c) h args g' c' \<and> pend n' = next_msg" using rx_rel_more by fastforce
  then show ?thesis using d(1,2) by (auto simp: arrived_def)
qed

theorem request_arrives_witness:
  "\<exists>n' g' c'. drive mal_lowest (\<lambda>_. False) three_bytes (length (wire ping_request)) (wire ping_request @ [0x80], two_frags, idle_server) =
      Some (n', g', c') \<and> n' = [0x80] \<and> state c' = CNX_READY \<and> rpc c' = received rpc_new (rpc idle_server) \<and>
    ms_rest (g', xdrs c') = be32 7"
  using request_arrives [where pend = id and fs = ping_request and h = rpc_new and args = "be32 7" and next_msg = "[0x80]"
      and n = "wire ping_request @ [0x80]" and conn_err = "\<lambda>_. False", OF three_bytes_ok(1,2) mal_lowest_ok three_bytes_ok(3) idle_server_ok(1,2) _ idle_server_ok(4,5)]
    ping_request_ok idle_server_ok(3,6,7) two_frags_size by simp

end
