(* ===== verification/KsTcpSend.thy ===== *)
theory KsTcpSend
  imports KsTcpReceive
begin

text \<open>
  Sending by \<open>KssTCPXDRConnection::send\<close>: what \<open>enterSendingState\<close> makes of the serialized message, the connection manager
  \<open>drive_out\<close> that calls \<open>send\<close>, and the whole cycle of requests and replies of a server connection.
\<close>

subsection \<open>The record\<close>

lemma first_used:
  assumes r: "rewound (g, x) fl ps" and "4 \<le> length (ms_rest (g, x))"
  shows "4 \<le> unat (handy x)"
proof -
  obtain p qs where ps: "ps = p # qs" using r by (cases ps) (auto simp: rewound_def)
  obtain f where f: "heap g p = Some f" "first_frag x = p" "handy x = used f" using r ps by (auto simp: rewound_def)
  have d: "4 dvd unat (used f)" using rewound_frag(2) [OF r _ f(1)] ps by simp
  have "used f \<noteq> 0"
  proof (cases "qs = []")
    case True
    then show ?thesis using rewound_reading(2) [OF r [unfolded ps]] assms(2) f by (auto simp: used_bytes_def)
  next
    case False
    then show ?thesis using rewound_frag(4) [OF r _ f(1)] ps by simp
  qed
  then have "0 < unat (used f)" by (simp add: unat_gt_0)
  then show ?thesis using d f(3) by (auto dest: dvd_imp_le)
qed

text \<open>The first word of the stream is replaced.\<close>

lemma poke_first:
  assumes r: "rewound (g, x) fl ps" and l: "4 \<le> length (ms_rest (g, x))"
  shows "\<exists>g' x'. poke_long (first_frag x, 0) v g = Some g' \<and> ms_rewind XDR_DECODE (g', x\<lparr>off := k, handy := j\<rparr>) = Some (g', x') \<and>
    rewound (g', x') fl ps \<and> ms_rest (g', x') = be32 v @ drop 4 (ms_rest (g, x)) \<and> first_frag x' = first_frag x \<and>
    buf_size g' = buf_size g \<and> pool_room g' = pool_room g"
proof -
  obtain p qs where ps: "ps = p # qs" using r by (cases ps) (auto simp: rewound_def)
  obtain f where f: "heap g p = Some f" "first_frag x = p" "handy x = used f" using r ps by (auto simp: rewound_def)
  have u: "4 \<le> unat (used f)" using first_used [OF r l] f(3) by simp
  have len: "unat (used f) \<le> length (fdata f)" "length (fdata f) = unat (buf_size g)" using rewound_frag(1,3) [OF r _ f(1)] ps by simp_all
  let ?f = "f\<lparr>fdata := be32 v @ drop 4 (fdata f)\<rparr>"
  let ?g = "g\<lparr>heap := (heap g)(p \<mapsto> ?f)\<rparr>"
  let ?x = "x\<lparr>off := 0, handy := used f, current := p, ptr := p, ms_op := XDR_DECODE\<rparr>"
  have pk: "poke_long (first_frag x, 0) v g = Some ?g" using f(1,2) u len by (simp add: poke_long_def)
  have x: "x\<lparr>off := 0\<rparr> = x" "ms_op x = XDR_DECODE" "current x = p" "ptr x = p" using r f(2) by (simp_all add: rewound_def)
  have rw: "ms_rewind XDR_DECODE (?g, x\<lparr>off := k, handy := j\<rparr>) = Some (?g, ?x)"
    using x(2) f(2) by (simp add: ms_rewind_def)
  have pool: "pool_ok ?g fl" by (rule pool_frame) (use r ps f(1) in \<open>auto simp: rewound_def\<close>)
  have seg: "seg (heap ?g) p ps 0" using r f(2) seg_cong [of ps "heap ?g" "heap g" p 0] f(1) by (auto simp: rewound_def)
  have bl: "blocks ?g (set ps)" using r len u f(1) by (auto simp: rewound_def blocks_def)
  have R: "rewound (?g, ?x) fl ps"
    using r pool seg bl f(1,2) by (auto simp: rewound_def)
  have "used_bytes (heap ?g) q = used_bytes (heap g) q" if "q \<noteq> p" for q using that by (simp add: used_bytes_def)
  moreover have "p \<notin> set qs" using r ps by (simp add: rewound_def)
  ultimately have "\<forall>q\<in>set qs. used_bytes (heap ?g) q = used_bytes (heap g) q" by metis
  then have tl: "concat (map (used_bytes (heap ?g)) qs) = concat (map (used_bytes (heap g)) qs)"
    by (simp cong: map_cong)
  have "used_bytes (heap ?g) p = be32 v @ drop 4 (used_bytes (heap g) p)"
    using f(1) u by (simp add: used_bytes_def drop_take)
  moreover have "4 \<le> length (used_bytes (heap g) p)" using f(1) u len by (simp add: used_bytes_def)
  ultimately have "ms_rest (?g, ?x) = be32 v @ drop 4 (ms_rest (g, x))"
    unfolding rewound_reading(2) [OF R [unfolded ps]] rewound_reading(2) [OF r [unfolded ps]] using tl by simp
  then show ?thesis using pk rw R f(2) by (auto simp: pool_room_def)
qed


lemma written_size:
  assumes e: "enc_state (g, x) fl ps" and l: "length (ms_written (g, x)) < 2 ^ 32"
  shows "unat (info_count x * buf_size g - handy x) = length (ms_written (g, x))"
proof -
  have w: "writing g x ps" using e by (simp add: enc_state_def)
  have "\<forall>p\<in>set ps. length (bytes_of (heap g) p) = unat (buf_size g)"
    using e by (auto simp: enc_state_def writing_def bytes_of_def dest: blocksD)
  moreover have o: "ps \<noteq> []" "off x + unat (handy x) = unat (buf_size g)" using w by (auto simp: writing_def)
  moreover have "\<forall>p\<in>set (butlast ps). p \<in> set ps" by (auto dest: in_set_butlastD)
  ultimately have n: "length (ms_written (g, x)) = length (butlast ps) * unat (buf_size g) + off x"
    unfolding written_content [OF e] by (simp add: content_def length_concat comp_def sum_list_triv cong: map_cong)
  have "length ps * unat (buf_size g) = length (ms_written (g, x)) + unat (handy x)"
    using o unfolding n by (cases ps) (simp_all add: algebra_simps)
  then have "(of_nat (unat (info_count x) * unat (buf_size g)) :: u32) = of_nat (length (ms_written (g, x)) + unat (handy x))"
    using w by (simp only: writing_def)
  then have "info_count x * buf_size g = of_nat (length (ms_written (g, x))) + handy x" by simp
  then have "info_count x * buf_size g - handy x = of_nat (length (ms_written (g, x)))" by simp
  then show ?thesis using l by (simp add: unat_of_nat)
qed

lemma mark_record_spec:
  assumes e: "enc_state (g, x) fl ps" and wr: "ms_written (g, x) = hd4 @ bs" "length hd4 = 4" "4 dvd length bs"
    and l: "length bs < 2 ^ 31 - 4" "unat (buf_size g) < 2 ^ 31"
  shows "\<exists>g' x'. mark_record mal (g, x) = Some (of_nat (4 + length bs), g', x') \<and> rewound (g', x') fl ps \<and>
    ms_rest (g', x') = be32 (of_nat (length bs) OR 0x80000000) @ bs \<and> buf_size g' = buf_size g \<and> pool_room g' = pool_room g"
proof -
  have "4 dvd length (ms_written (g, x))" using wr by simp
  then obtain g1 x1 where r: "ms_rewind XDR_DECODE (g, x) = Some (g1, x1)" "rewound (g1, x1) fl ps"
      "concat (map (used_bytes (heap g1)) ps) = hd4 @ bs" "info_length x1 = info_count x * buf_size g - handy x"
      "buf_size g1 = buf_size g" "pool_room g1 = pool_room g"
    using rewind_rewound [OF e] wr(1) by auto
  obtain p qs where ps: "ps = p # qs" using r(2) by (cases ps) (auto simp: rewound_def)
  have rest: "ms_rest (g1, x1) = hd4 @ bs" using rewound_reading(2) [OF r(2) [unfolded ps]] r(3) ps by simp
  have "unat (info_length x1) = 4 + length bs" using written_size [OF e] wr l(1) r(4) by simp
  then have "(of_nat (unat (info_length x1)) :: u32) = of_nat (4 + length bs)" by (simp only:)
  then have len: "info_length x1 = of_nat (4 + length bs)" by simp
  have u: "4 \<le> unat (handy x1)" using first_used [OF r(2)] rest wr(2) by simp
  obtain f where f: "heap g1 p = Some f" "first_frag x1 = p" "handy x1 = used f" using r(2) ps by (auto simp: rewound_def)
  have "unat (handy x1) < 2 ^ 31" using rewound_frag(1,3) [OF r(2) _ f(1)] ps f(3) l(2) r(5) by simp
  then have "sint (handy x1) = int (unat (handy x1))" by (rule sint_positive)
  then have s: "int 4 \<le> sint (handy x1)" using u by (simp only: of_nat_le_iff)
  have h0: "handy x1 \<noteq> 0" using u by auto
  have o: "ptr x1 = first_frag x1" "off x1 = 0" using r(2) by (simp_all add: rewound_def)
  have i: "ms_inline mal 4 (g1, x1) = Some ((first_frag x1, 0), g1, x1\<lparr>off := 4, handy := handy x1 - 4\<rparr>)"
    using h0 s o by (simp add: ms_inline_def refill_put_def step_def)
  have v: "info_length x1 - 4 = of_nat (length bs)" using len by simp
  obtain g2 x2 where k: "poke_long (first_frag x1, 0) (of_nat (length bs) OR 0x80000000) g1 = Some g2"
      "ms_rewind XDR_DECODE (g2, x1\<lparr>off := 4, handy := handy x1 - 4\<rparr>) = Some (g2, x2)" "rewound (g2, x2) fl ps"
      "ms_rest (g2, x2) = be32 (of_nat (length bs) OR 0x80000000) @ drop 4 (ms_rest (g1, x1))"
      "buf_size g2 = buf_size g1" "pool_room g2 = pool_room g1"
    using poke_first [OF r(2), of "of_nat (length bs) OR 0x80000000" "handy x1 - 4" 4] rest wr(2) by auto
  have "mark_record mal (g, x) = Some (of_nat (4 + length bs), g2, x2)"
    using r(1) i k(1,2) len v by (simp add: mark_record_def ms_get_length_def Let_def)
  then show ?thesis using k(3-6) r(5,6) rest wr(2) by auto
qed

text \<open>
  A connection that sends: \<open>w\<close> is what is left of the record, short enough for the \<open>int\<close> the code counts it with; the stream could be cleared to hold \<open>snd cap\<close> bytes.
\<close>

definition tx :: "u32 \<times> nat \<Rightarrow> byte list \<Rightarrow> msglob \<Rightarrow> tcpcon \<Rightarrow> bool" where
  "tx cap w g c \<longleftrightarrow> state c = CNX_SENDING \<and> fragment_state c = FRAGMENT_BODY \<and> ms_rgood (g, xdrs c) \<and> ms_op (xdrs c) = XDR_DECODE \<and>
     ms_rest (g, xdrs c) = w \<and> remaining_len c = length w \<and> w \<noteq> [] \<and> length w < 2 ^ 31 \<and> length (fragment_header c) = 4 \<and>
     (\<exists>r\<ge>snd cap. chain (g, xdrs c) r) \<and> buf_size g = fst cap"

text \<open>A connection at the beginning of a message, with an empty stream.\<close>

definition at_rest :: "u32 \<times> nat \<Rightarrow> msglob \<Rightarrow> tcpcon \<Rightarrow> bool" where
  "at_rest cap g c \<longleftrightarrow> ms_good (g, xdrs c) \<and> ms_written (g, xdrs c) = [] \<and> snd cap \<le> ms_room (g, xdrs c) \<and> buf_size g = fst cap \<and>
     length (fragment_header c) = 4 \<and> c = await_header c"

lemma rewound_tx:
  assumes r: "rewound (g, x) fl ps" and "ms_rest (g, x) = w" "w \<noteq> []" "length w < 2 ^ 31" and cap: "snd cap \<le> unat (buf_size g) * (pool_room g + length ps)" "buf_size g = fst cap"
    and "length (fragment_header c) = 4"
  shows "tx cap w g (c\<lparr>state := CNX_SENDING, fragment_state := FRAGMENT_BODY, remaining_len := length w, xdrs := x\<rparr>)"
proof -
  obtain p qs where ps: "ps = p # qs" using r by (cases ps) (auto simp: rewound_def)
  have "ms_rgood (g, x)" using rewound_reading(1) [OF r [unfolded ps]] by (auto simp: ms_rgood_def)
  moreover have "ms_op x = XDR_DECODE" using r by (simp add: rewound_def)
  moreover have "\<exists>r\<ge>snd cap. chain (g, x) r" using rewound_chain [OF r] cap(1) by blast
  ultimately show ?thesis using assms by (simp add: tx_def)
qed

lemma clear_stream_chain:
  assumes "chain (g, xdrs c) r" "snd cap \<le> r" "buf_size g = fst cap"
  shows "\<exists>g' x'. clear_stream g c = Some (g', c\<lparr>xdrs := x'\<rparr>) \<and> good_sized (fst cap) (g', x') \<and> ms_written (g', x') = [] \<and> snd cap \<le> ms_room (g', x')"
  using clear_chain [OF assms(1)] assms(2,3) by (auto simp: clear_stream_def)

lemma encode_message_spec:
  assumes "chain (g, xdrs c) r" "snd cap \<le> r" "buf_size g = fst cap" and m: "mal_ok mal"
    and wr: "writes (good_sized (fst cap)) ms_room ms_written msg bs" and fit: "4 + length bs \<le> snd cap"
  shows "\<exists>g' x'. encode_message mal msg (n, g, c) = Some (True, n, g', c\<lparr>xdrs := x'\<rparr>) \<and> good_sized (fst cap) (g', x') \<and>
    ms_written (g', x') = be32 0x80000000 @ bs \<and> snd cap \<le> length (ms_written (g', x')) + ms_room (g', x')"
proof -
  obtain g1 x1 where c: "clear_stream g c = Some (g1, c\<lparr>xdrs := x1\<rparr>)" "good_sized (fst cap) (g1, x1)" "ms_written (g1, x1) = []"
      "snd cap \<le> ms_room (g1, x1)"
    using clear_stream_chain [OF assms(1-3)] by blast
  have "writes (good_sized (fst cap)) ms_room ms_written (ks_xdre (xdr_u_long (ms_ops mal)) 0x80000000) (be32 0x80000000)"
    using byte_sink.writes_u_long [OF ms_sink_sized [OF m], of "fst cap" "0x80000000"] by simp
  from writes_and [OF this wr]
  have W: "writes (good_sized (fst cap)) ms_room ms_written (and_then (ks_xdre (xdr_u_long (ms_ops mal)) 0x80000000) msg) (be32 0x80000000 @ bs)" .
  then obtain s where s: "and_then (ks_xdre (xdr_u_long (ms_ops mal)) 0x80000000) msg (g1, x1) = Some (True, s)"
      "emits (good_sized (fst cap)) ms_room ms_written (g1, x1) (be32 0x80000000 @ bs) s"
    using W [unfolded writes_alt, THEN conjunct2, rule_format, of "(g1, x1)"] c(2-4) fit by fastforce
  obtain g2 x2 where s2: "s = (g2, x2)" by (cases s)
  have "encode_message mal msg (n, g, c) = Some (True, n, g2, c\<lparr>xdrs := x2\<rparr>)"
    using c(1) s(1) s2 by (simp add: encode_message_def)
  then show ?thesis using s(2) s2 c(3,4) by (auto simp: emits_def)
qed

lemma enter_sending_tx:
  assumes g: "good_sized (fst cap) (g, xdrs c)" "ms_written (g, xdrs c) = be32 v @ bs" "snd cap \<le> length (ms_written (g, xdrs c)) + ms_room (g, xdrs c)"
    and l: "4 dvd length bs" "length bs < 2 ^ 31 - 4" "unat (fst cap) < 2 ^ 31" "length (fragment_header c) = 4"
  shows "\<exists>m g' c'. enterSendingState mal (n, g, c) = Some (m, n, g', c') \<and> tx cap (wire [bs]) g' c' \<and> cnx_type c' = cnx_type c \<and> rpc c' = rpc c"
proof -
  obtain fl ps where e: "enc_state (g, xdrs c) fl ps" and B: "buf_size g = fst cap" using g(1) by (auto simp: good_sized_def ms_good_def)
  obtain g1 x1 where k: "mark_record mal (g, xdrs c) = Some (of_nat (4 + length bs), g1, x1)" "rewound (g1, x1) fl ps"
      "ms_rest (g1, x1) = be32 (of_nat (length bs) OR 0x80000000) @ bs" "buf_size g1 = buf_size g" "pool_room g1 = pool_room g"
    using mark_record_spec [OF e g(2) _ l(1,2), of mal] l(3) B by auto
  have w: "ms_rest (g1, x1) = wire [bs]" using k(3) by simp
  have "unat (of_nat (4 + length bs) :: u32) = length (wire [bs])" using l(2) by (simp only: unat_of_nat) simp
  then have "enterSendingState mal (n, g, c) = Some (getIoMode (c\<lparr>state := CNX_SENDING, fragment_state := FRAGMENT_BODY, remaining_len := length (wire [bs]), xdrs := x1\<rparr>), n, g1,
      c\<lparr>state := CNX_SENDING, fragment_state := FRAGMENT_BODY, remaining_len := length (wire [bs]), xdrs := x1\<rparr>)"
    using k(1) by (simp add: enterSendingState_def Let_def)
  moreover have "tx cap (wire [bs]) g1 (c\<lparr>state := CNX_SENDING, fragment_state := FRAGMENT_BODY, remaining_len := length (wire [bs]), xdrs := x1\<rparr>)"
    by (rule rewound_tx [OF k(2) w]) (use g(3) enc_chain(2) [OF e] k(4,5) B l(2,4) in simp_all)
  ultimately show ?thesis by fastforce
qed

lemma transmit_tx:
  assumes "chain (g, xdrs c) r" "snd cap \<le> r" "buf_size g = fst cap" "mal_ok mal"
    and "writes (good_sized (fst cap)) ms_room ms_written msg bs" "4 + length bs \<le> snd cap"
    and l: "length bs < 2 ^ 31 - 4" "unat (fst cap) < 2 ^ 31" "length (fragment_header c) = 4"
  shows "\<exists>g' c'. transmit mal msg (n, g, c) = Some (n, g', c') \<and> tx cap (wire [bs]) g' c' \<and> cnx_type c' = cnx_type c \<and> rpc c' = rpc c"
proof -
  obtain g1 x1 where e: "encode_message mal msg (n, g, c) = Some (True, n, g1, c\<lparr>xdrs := x1\<rparr>)" "good_sized (fst cap) (g1, x1)"
      "ms_written (g1, x1) = be32 0x80000000 @ bs" "snd cap \<le> length (ms_written (g1, x1)) + ms_room (g1, x1)"
    using encode_message_spec [OF assms(1-6), of n] by blast
  obtain m g2 c2 where t: "enterSendingState mal (n, g1, c\<lparr>xdrs := x1\<rparr>) = Some (m, n, g2, c2)" "tx cap (wire [bs]) g2 c2"
      "cnx_type c2 = cnx_type c" "rpc c2 = rpc c"
    using enter_sending_tx [of cap g1 "c\<lparr>xdrs := x1\<rparr>" "0x80000000" bs mal n] e(2-4) writes_unit [OF assms(5)] l by auto
  then show ?thesis using e(1) by (auto simp: transmit_def)
qed

subsection \<open>The connection manager at work\<close>

text \<open>A socket whose \<open>write\<close> never fails for good, and one that always takes something.\<close>

definition obliging :: "(byte list \<Rightarrow> 'n \<Rightarrow> (errno + nat) \<times> 'n) \<Rightarrow> bool" where
  "obliging wr \<longleftrightarrow> (\<forall>b n. b \<noteq> [] \<longrightarrow> \<not> refused (wr b n))"

definition accepting :: "(byte list \<Rightarrow> 'n \<Rightarrow> (errno + nat) \<times> 'n) \<Rightarrow> bool" where
  "accepting wr \<longleftrightarrow> (\<forall>b n. b \<noteq> [] \<longrightarrow> accepted (wr b n))"

definition after_send :: "tcpcon \<Rightarrow> cnx_state" where
  "after_send c = (if cnx_type c = CNX_CLIENT then CNX_WAITING else CNX_IDLE)"

lemma await_header_idem: "await_header (c\<lparr>state := s\<rparr>) = (await_header c)\<lparr>state := s\<rparr>" "await_header (await_header c) = await_header c"
  "await_header (c\<lparr>xdrs := x\<rparr>) = (await_header c)\<lparr>xdrs := x\<rparr>"
  by (simp_all add: await_header_def)

lemma sent_all:
  assumes "chain (g, xdrs c) r" "snd cap \<le> r" "buf_size g = fst cap" "length (fragment_header c) = 4" "state c = CNX_SENDING"
  shows "\<exists>m g' c'. (if cnx_type c = CNX_CLIENT
      then do { (g, c) \<leftarrow> clear_stream g (await_header (c\<lparr>state := CNX_WAITING\<rparr>)); Some (getIoMode c, n, g, c) }
      else reset (n, g, c)) = Some (m, n, g', c') \<and> at_rest cap g' c' \<and> state c' = after_send c \<and> cnx_type c' = cnx_type c \<and> rpc c' = rpc c"
proof (cases "cnx_type c = CNX_CLIENT")
  case True
  let ?c = "await_header (c\<lparr>state := CNX_WAITING\<rparr>)"
  have "chain (g, xdrs ?c) r" using assms(1) by simp
  from clear_stream_chain [OF this assms(2,3)] obtain g' x' where c: "clear_stream g ?c = Some (g', ?c\<lparr>xdrs := x'\<rparr>)" "good_sized (fst cap) (g', x')"
      "ms_written (g', x') = []" "snd cap \<le> ms_room (g', x')" by blast
  then have "at_rest cap g' (?c\<lparr>xdrs := x'\<rparr>)"
    using assms(4) by (auto simp: at_rest_def good_sized_def await_header_def)
  then show ?thesis using True c(1) by (auto simp: after_send_def await_header_def)
next
  case False
  let ?c = "c\<lparr>state := CNX_IDLE\<rparr>"
  have "chain (g, xdrs ?c) r" using assms(1) by simp
  from clear_stream_chain [OF this assms(2,3)] obtain g' x' where c: "clear_stream g ?c = Some (g', ?c\<lparr>xdrs := x'\<rparr>)" "good_sized (fst cap) (g', x')"
      "ms_written (g', x') = []" "snd cap \<le> ms_room (g', x')" by blast
  then have "at_rest cap g' (await_header (?c\<lparr>xdrs := x'\<rparr>))"
    using assms(4) by (auto simp: at_rest_def good_sized_def await_header_def)
  moreover have "reset (n, g, c) = Some (getIoMode (await_header (?c\<lparr>xdrs := x'\<rparr>)), n, g', await_header (?c\<lparr>xdrs := x'\<rparr>))"
    using False assms(5) c(1) by (simp add: reset_def reset_state_def Let_def)
  ultimately show ?thesis using False by (auto simp: after_send_def await_header_def)
qed

lemma send_tx:
  assumes w: "write_ok wr sent" "obliging wr" and t: "tx cap w g c"
  shows "\<exists>m n' g' c' u w'. send conn_err wr (n, g, c) = Some (m, n', g', c') \<and> w = u @ w' \<and> sent n' = sent n @ u \<and>
    cnx_type c' = cnx_type c \<and> rpc c' = rpc c \<and> (accepting wr \<longrightarrow> u \<noteq> []) \<and>
    ((w' \<noteq> [] \<and> tx cap w' g' c') \<or> (w' = [] \<and> at_rest cap g' c' \<and> state c' = after_send c))"
proof -
  obtain r where T: "state c = CNX_SENDING" "fragment_state c = FRAGMENT_BODY" "ms_op (xdrs c) = XDR_DECODE" "ms_rest (g, xdrs c) = w"
      "remaining_len c = length w" "w \<noteq> []" "length (fragment_header c) = 4" "snd cap \<le> r" "chain (g, xdrs c) r" "buf_size g = fst cap"
      "length w < 2 ^ 31"
    using t by (auto simp: tx_def)
  obtain qs where rd: "reading (g, xdrs c) qs" using t by (auto simp: tx_def ms_rgood_def)
  have z: "int_sized (g, xdrs c)" using T(4,11) by (simp add: int_sized_def)
  note W = write_loop_spec [OF w(1) rd, of "length w" n, unfolded T(4)]
  from W [OF le_refl z]
  obtain ok e m' n' s' where l: "write_loop wr (length w) n (g, xdrs c) = Some (ok, e, m', n', s')" "ms_rgood s'" "m' \<le> length w"
      "sent n' = sent n @ take (length w - m') w" "ms_rest s' = drop (length w - m') w" "ms_op (snd s') = ms_op (snd (g, xdrs c))" "fst s' = fst (g, xdrs c)"
      "first_frag (snd s') = first_frag (snd (g, xdrs c))" "ok \<or> (\<exists>b n1. b \<noteq> [] \<and> refused (wr b n1))"
      "m' = length w \<and> w \<noteq> [] \<longrightarrow> (\<exists>b. b \<noteq> [] \<and> \<not> accepted (wr b n))"
    by blast
  obtain x where s': "s' = (g, x)" using l(7) by (cases s') simp
  let ?c = "c\<lparr>remaining_len := m', xdrs := x\<rparr>"
  have ok: ok using l(9) w(2) by (auto simp: obliging_def)
  have e: "write_to_fd wr (remaining_len c) n (g, xdrs c) = Some (True, e, m', n', g, x)"
    using l(1) ok s' T(3,5) by (simp add: write_to_fd_def)
  have ch: "chain (g, x) r" by (rule chain_frozen [OF T(9)]) (use l(8) s' in simp_all)
  let ?u = "take (length w - m') w" and ?w = "drop (length w - m') w"
  have u: "w = ?u @ ?w" "sent n' = sent n @ ?u" using l(4) by simp_all
  have p: "accepting wr \<longrightarrow> ?u \<noteq> []" using l(3,10) T(6) by (auto simp: accepting_def)
  show ?thesis
  proof (cases "m' = 0")
    case True
    obtain m g' c' where q: "(if cnx_type ?c = CNX_CLIENT
          then do { (g, c) \<leftarrow> clear_stream g (await_header (?c\<lparr>state := CNX_WAITING\<rparr>)); Some (getIoMode c, n', g, c) }
          else reset (n', g, ?c)) = Some (m, n', g', c')" "at_rest cap g' c'" "state c' = after_send ?c" "cnx_type c' = cnx_type ?c" "rpc c' = rpc ?c"
      using sent_all [of g ?c r cap n'] ch T by auto
    have "send conn_err wr (n, g, c) = Some (m, n', g', c')"
      using T(1,2) e q(1) [unfolded True] True
      by (cases "cnx_type c = CNX_CLIENT") (simp_all add: send_def in_connect_def)
    moreover have "state c' = after_send c" "?w = []" using q(3) True by (simp_all add: after_send_def)
    moreover have "cnx_type c' = cnx_type c" "rpc c' = rpc c" using q(4,5) by simp_all
    ultimately show ?thesis using u p q(2) by blast
  next
    case False
    have "send conn_err wr (n, g, c) = Some (getIoMode ?c, n', g, ?c)"
      using T(1,2) e False by (simp add: send_def in_connect_def)
    moreover have "?w \<noteq> []" "m' = length ?w" using False l(3) by auto
    moreover have "tx cap ?w g ?c" using T ch l(2,5,6) rd s' \<open>?w \<noteq> []\<close> \<open>m' = length ?w\<close> by (auto simp: tx_def)
    moreover have "cnx_type ?c = cnx_type c" "rpc ?c = rpc c" by simp_all
    ultimately show ?thesis using u p by blast
  qed
qed

text \<open>\<open>k\<close> rounds of a connection manager that calls \<open>send\<close> as long as the connection wants to write.\<close>

fun drive_out ::
  "('n \<Rightarrow> bool) \<Rightarrow> (byte list \<Rightarrow> 'n \<Rightarrow> (errno + nat) \<times> 'n) \<Rightarrow> nat \<Rightarrow> 'n net \<Rightarrow> 'n net option" where
  "drive_out conn_err wr 0 x = Some x"
| "drive_out conn_err wr (Suc k) x =
     (if getIoMode (snd (snd x)) AND CNX_IO_WRITEABLE \<noteq> 0
      then do { (_, x) \<leftarrow> send conn_err wr x; drive_out conn_err wr k x }
      else Some x)"

lemma tx_writeable: "tx cap w g c \<Longrightarrow> getIoMode c AND CNX_IO_WRITEABLE \<noteq> 0"
  by (simp add: tx_def io_writeable)

lemma drive_out_rest: "state c = after_send d \<Longrightarrow> drive_out conn_err wr k (n, g, c) = Some (n, g, c)"
  by (cases k) (auto simp: after_send_def io_writeable)

lemma drive_out_tx:
  assumes w: "write_ok wr sent" "obliging wr" and "tx cap w g c"
  shows "\<exists>n' g' c' u w'. drive_out conn_err wr k (n, g, c) = Some (n', g', c') \<and> w = u @ w' \<and> sent n' = sent n @ u \<and>
    cnx_type c' = cnx_type c \<and> rpc c' = rpc c \<and> (accepting wr \<longrightarrow> k \<le> length u \<or> w' = []) \<and>
    ((w' \<noteq> [] \<and> tx cap w' g' c') \<or> (w' = [] \<and> at_rest cap g' c' \<and> state c' = after_send c))"
  using assms(3)
proof (induction k arbitrary: n g c w)
  case 0
  then show ?case by (intro exI [of _ n] exI [of _ g] exI [of _ c] exI [of _ "[]"] exI [of _ w]) (simp add: tx_def)
next
  case (Suc k)
  obtain m n1 g1 c1 u w1 where s: "send conn_err wr (n, g, c) = Some (m, n1, g1, c1)" "w = u @ w1" "sent n1 = sent n @ u"
      "cnx_type c1 = cnx_type c" "rpc c1 = rpc c" "accepting wr \<longrightarrow> u \<noteq> []"
      "(w1 \<noteq> [] \<and> tx cap w1 g1 c1) \<or> (w1 = [] \<and> at_rest cap g1 c1 \<and> state c1 = after_send c)"
    using send_tx [OF w Suc.prems, of conn_err n] by blast
  have d: "drive_out conn_err wr (Suc k) (n, g, c) = drive_out conn_err wr k (n1, g1, c1)"
    using s(1) tx_writeable [OF Suc.prems] by simp
  show ?case
  proof (cases "w1 = []")
    case True
    then show ?thesis using s d drive_out_rest [of c1 c conn_err wr k n1 g1] by auto
  next
    case False
    then have "tx cap w1 g1 c1" using s(7) by simp
    from Suc.IH [OF this, of n1] obtain n' g' c' v w' where i: "drive_out conn_err wr k (n1, g1, c1) = Some (n', g', c')" "w1 = v @ w'"
        "sent n' = sent n1 @ v" "cnx_type c' = cnx_type c1" "rpc c' = rpc c1" "accepting wr \<longrightarrow> k \<le> length v \<or> w' = []"
        "(w' \<noteq> [] \<and> tx cap w' g' c') \<or> (w' = [] \<and> at_rest cap g' c' \<and> state c' = after_send c1)" by blast
    have "accepting wr \<longrightarrow> Suc k \<le> length (u @ v) \<or> w' = []" using s(6) i(6) by (cases u) auto
    moreover have "w = (u @ v) @ w'" "sent n' = sent n @ (u @ v)" "after_send c1 = after_send c" using s i by (simp_all add: after_send_def)
    ultimately show ?thesis using d i(1,4,5,7) s(4,5) by metis
  qed
qed

subsection \<open>A server connection\<close>

text \<open>
  A request with its fragments, header and argument bytes, the decoder of the arguments and the trailer of the ticket, and the
  reply to it: the coders for the ticket, the result and the trailer, which write \<open>body\<close>.
\<close>

record job =
  frags :: "byte list list"
  hdr :: rpc_header
  args :: "byte list"
  dec :: "mss coder"
  avt :: "mss coder"
  result :: "mss coder"
  trailer :: "mss coder"
  body :: "byte list"

definition reply_bytes :: "job \<Rightarrow> byte list" where
  "reply_bytes j = words [xid (hdr j), KsRpcREPLY, KsRpcMSGACCEPTED, KsRpcAUTHNONE, 0, KsRpcSUCCESS] @ body j"

definition job_ok :: "u32 \<times> nat \<Rightarrow> job \<Rightarrow> bool" where
  "job_ok cap j \<longleftrightarrow> frags j \<noteq> [] \<and> (\<forall>f\<in>set (frags j). length f < 2 ^ 31) \<and> concat (frags j) = words (rpc_words (hdr j)) @ args j \<and>
     length (concat (frags j)) \<le> snd cap \<and> rpc_valid (hdr j) \<and> 4 dvd length (args j) \<and>
     (\<forall>g p s. at_stream g p s \<and> ms_rest s = args j \<longrightarrow> (\<exists>s'. dec j s = Some (True, s') \<and> at_stream g p s')) \<and>
     writes (good_sized (fst cap)) ms_room ms_written (and_then (avt j) (and_then (result j) (trailer j))) (body j) \<and>
     4 + length (reply_bytes j) \<le> snd cap \<and> length (reply_bytes j) < 2 ^ 31 - 4"

text \<open>
  The connection receives a request, the dispatcher takes its arguments from the stream and replies, the connection sends the
  reply: \<open>k\<close> calls of \<open>receive\<close> and of \<open>send\<close> at most. The two directions of the socket are independent.
\<close>

fun serve ::
  "mallocf \<Rightarrow> (nat \<Rightarrow> 'i \<Rightarrow> (errno + byte list) \<times> 'i) \<Rightarrow> (byte list \<Rightarrow> 'j \<Rightarrow> (errno + nat) \<times> 'j) \<Rightarrow> nat \<Rightarrow> job list \<Rightarrow>
   'i \<times> 'j \<times> msglob \<times> tcpcon \<Rightarrow> ('i \<times> 'j \<times> msglob \<times> tcpcon) option" where
  "serve mal rd wr k [] x = Some x"
| "serve mal rd wr k (q # qs) (i, j, g, c) =
     do { (i, g, c) \<leftarrow> drive mal (\<lambda>_. False) rd k (i, g, c);
          (_, g, c) \<leftarrow> finishRequestDeserialization (dec q) KS_ERR_OK (g, c);
          (j, g, c) \<leftarrow> sendReply mal (avt q) (result q) (trailer q) (j, g, c);
          (j, g, c) \<leftarrow> drive_out (\<lambda>_. False) wr k (j, g, c);
          serve mal rd wr k qs (i, j, g, c) }"

lemma accepted_words: "rpc_valid h \<Longrightarrow> rpc_words (acceptCall (received h old)) = [xid h, KsRpcREPLY, KsRpcMSGACCEPTED, KsRpcAUTHNONE, 0, KsRpcSUCCESS]"
  by (simp add: rpc_words_def acceptCall_def received_def versions_status_def Let_def rpc_codes)

lemma accepted_valid: "rpc_valid (acceptCall h)"
  by (simp add: rpc_valid_def acceptCall_def rpc_codes)

lemma at_rest_rx:
  assumes "at_rest cap g c" "length (concat fs) \<le> snd cap" "fs \<noteq> []" "\<forall>f\<in>set fs. length f < 2 ^ 31"
    "unat (fst cap) < 2 ^ 31"
  shows "rx_rel cap (concat fs) (wire fs) g c"
proof -
  have "rx_rel (buf_size g, ms_room (g, xdrs c)) (concat fs) (wire fs) g c"
    by (rule rx_start) (use assms in \<open>auto simp: at_rest_def\<close>)
  then show ?thesis using assms(1,2) by (auto simp: rx_rel_def stream_ready_def at_rest_def)
qed

text \<open>The reply to a request whose arguments have been taken.\<close>

lemma reply_tx:
  assumes "rpc c = received (hdr q) old" "job_ok cap q" "chain (g, xdrs c) r" "snd cap \<le> r" "buf_size g = fst cap" "length (fragment_header c) = 4"
    and m: "mal_ok mal" "unat (fst cap) < 2 ^ 31" and "state c \<noteq> CNX_DEAD"
  shows "\<exists>g' c'. sendReply mal (avt q) (result q) (trailer q) (n, g, c) = Some (n, g', c') \<and> tx cap (wire [reply_bytes q]) g' c' \<and>
    cnx_type c' = cnx_type c"
proof -
  let ?h = "acceptCall (rpc c)"
  have J: "rpc_valid (hdr q)" "writes (good_sized (fst cap)) ms_room ms_written (and_then (avt q) (and_then (result q) (trailer q))) (body q)"
      "4 + length (reply_bytes q) \<le> snd cap" "length (reply_bytes q) < 2 ^ 31 - 4"
    using assms(2) by (simp_all add: job_ok_def)
  have "writes (good_sized (fst cap)) ms_room ms_written (rpc_encode (ms_ops mal) ?h) (words (rpc_words ?h))"
    by (rule byte_sink.writes_rpc [OF ms_sink_sized [OF m(1)] accepted_valid])
  moreover have "words (rpc_words ?h) @ body q = reply_bytes q"
    unfolding assms(1) accepted_words [OF J(1)] reply_bytes_def ..
  ultimately have w: "writes (good_sized (fst cap)) ms_room ms_written
      (and_then (rpc_encode (ms_ops mal) ?h) (and_then (avt q) (and_then (result q) (trailer q)))) (reply_bytes q)"
    using writes_and [OF _ J(2)] by metis
  have c: "chain (g, xdrs (c\<lparr>rpc := ?h\<rparr>)) r" "length (fragment_header (c\<lparr>rpc := ?h\<rparr>)) = 4" using assms(3,6) by simp_all
  from transmit_tx [OF c(1) assms(4,5) m(1) w J(3,4) m(2) c(2), of n]
  show ?thesis using assms(9) by (fastforce simp: sendReply_def Let_def)
qed

lemma serve_one:
  assumes rd: "read_ok rd pend" "healthy rd" "delivers rd pend" and wr: "write_ok wr sent" "obliging wr" "accepting wr"
    and m: "mal_ok mal" "unat (fst cap) < 2 ^ 31" and q: "job_ok cap q" "length (wire (frags q)) \<le> k" "length (wire [reply_bytes q]) \<le> k"
    and c: "at_rest cap g c" "state c = CNX_IDLE" "cnx_type c = CNX_SERVER" and p: "pend i = wire (frags q) @ beyond"
  shows "\<exists>i' j' g' c'. serve mal rd wr k (q # qs) (i, j, g, c) = serve mal rd wr k qs (i', j', g', c') \<and>
    pend i' = beyond \<and> sent j' = sent j @ wire [reply_bytes q] \<and> at_rest cap g' c' \<and> state c' = CNX_IDLE \<and> cnx_type c' = CNX_SERVER"
proof -
  have J: "frags q \<noteq> []" "\<forall>f\<in>set (frags q). length f < 2 ^ 31" "concat (frags q) = words (rpc_words (hdr q)) @ args q"
      "length (concat (frags q)) \<le> snd cap" "rpc_valid (hdr q)" "4 dvd length (args q)"
      "\<And>g p s. at_stream g p s \<and> ms_rest s = args q \<Longrightarrow> \<exists>s'. dec q s = Some (True, s') \<and> at_stream g p s'"
    using q(1) unfolding job_ok_def by blast+
  have rx: "rx_rel cap (concat (frags q)) (wire (frags q)) g c" by (rule at_rest_rx [OF c(1) J(4,1,2) m(2)])
  have w: "waits c" using c(2) by (simp add: waits_def)
  obtain i1 g1 c1 where d: "drive mal (\<lambda>_. False) rd k (i, g, c) = Some (i1, g1, c1)" "cnx_type c1 = cnx_type c"
      "(\<exists>u w'. wire (frags q) = u @ w' \<and> pend i1 = w' @ beyond \<and> rx_rel cap (concat (frags q)) w' g1 c1 \<and> waits c1 \<and> rpc c1 = rpc c \<and>
          (delivers rd pend \<longrightarrow> k + length w' \<le> length (wire (frags q)))) \<or>
       (arrived cap (rpc c) (hdr q) (args q) g1 c1 \<and> pend i1 = beyond)"
    using drive_rx [OF rd(1,2) m(1) J(3,5,6) rx w p, of "\<lambda>_. False" k] by blast
  have "arrived cap (rpc c) (hdr q) (args q) g1 c1 \<and> pend i1 = beyond"
  proof (rule ccontr)
    assume n: "\<not> ?thesis"
    then obtain w' where w': "rx_rel cap (concat (frags q)) w' g1 c1" "k + length w' \<le> length (wire (frags q))" using d(3) rd(3) by blast
    have "length w' = 0" using w'(2) q(2) by linarith
    then show False using rx_rel_more [OF w'(1)] by simp
  qed
  then have a: "arrived cap (rpc c) (hdr q) (args q) g1 c1" "pend i1 = beyond" by simp_all
  obtain r where A: "rpc c1 = received (hdr q) (rpc c)" "at_stream g1 (first_frag (xdrs c1)) (g1, xdrs c1)" "ms_rest (g1, xdrs c1) = args q"
      "snd cap \<le> r" "chain (g1, xdrs c1) r" "buf_size g1 = fst cap" "length (fragment_header c1) = 4" "state c1 = CNX_READY"
    using a(1) c(3) d(2) by (auto simp: arrived_def at_stream_def)
  obtain s where s: "dec q (g1, xdrs c1) = Some (True, s)" "at_stream g1 (first_frag (xdrs c1)) s" using J(7) A(2,3) by blast
  obtain x where x: "s = (g1, x)" "first_frag x = first_frag (xdrs c1)" using s(2) by (cases s) (simp add: at_stream_def)
  have "chain (g1, xdrs (c1\<lparr>xdrs := x\<rparr>)) r" by (rule chain_frozen [OF A(5)]) (use x in simp_all)
  from clear_stream_chain [OF this A(4,6)] obtain g2 y where y: "clear_stream g1 (c1\<lparr>xdrs := x\<rparr>) = Some (g2, c1\<lparr>xdrs := y\<rparr>)"
      "good_sized (fst cap) (g2, y)" "ms_written (g2, y) = []" "snd cap \<le> ms_room (g2, y)" by auto
  have f: "finishRequestDeserialization (dec q) KS_ERR_OK (g1, c1) = Some (KS_ERR_OK, g2, c1\<lparr>xdrs := y\<rparr>)"
    using s(1) x(1) y(1) by (simp add: finishRequestDeserialization_def freeStreamMemory_def Let_def)
  obtain fl ps where e: "enc_state (g2, y) fl ps" using y(2) by (auto simp: good_sized_def ms_good_def)
  have "chain (g2, xdrs (c1\<lparr>xdrs := y\<rparr>)) (ms_room (g2, y))" using enc_chain(1) [OF e] y(3) by simp
  moreover have "buf_size g2 = fst cap" using y(2) by (simp add: good_sized_def)
  moreover have "rpc (c1\<lparr>xdrs := y\<rparr>) = received (hdr q) (rpc c)" "length (fragment_header (c1\<lparr>xdrs := y\<rparr>)) = 4" "state (c1\<lparr>xdrs := y\<rparr>) \<noteq> CNX_DEAD"
    using A(1,7,8) by simp_all
  ultimately obtain g3 c3 where t: "sendReply mal (avt q) (result q) (trailer q) (j, g2, c1\<lparr>xdrs := y\<rparr>) = Some (j, g3, c3)"
      "tx cap (wire [reply_bytes q]) g3 c3" "cnx_type c3 = cnx_type c1"
    using reply_tx [of "c1\<lparr>xdrs := y\<rparr>" q "rpc c" cap g2 "ms_room (g2, y)" mal j] q(1) y(4) m by auto
  obtain j4 g4 c4 u w4 where o4: "drive_out (\<lambda>_. False) wr k (j, g3, c3) = Some (j4, g4, c4)" "wire [reply_bytes q] = u @ w4" "sent j4 = sent j @ u"
      "cnx_type c4 = cnx_type c3" "accepting wr \<longrightarrow> k \<le> length u \<or> w4 = []"
      "(w4 \<noteq> [] \<and> tx cap w4 g4 c4) \<or> (w4 = [] \<and> at_rest cap g4 c4 \<and> state c4 = after_send c3)"
    using drive_out_tx [OF wr(1,2) t(2), of "\<lambda>_. False" k j] by blast
  have "length u + length w4 \<le> k" using o4(2) q(3) by (metis length_append)
  then have "w4 = []" using o4(5) wr(3) by (cases w4) auto
  then have "sent j4 = sent j @ wire [reply_bytes q]" "at_rest cap g4 c4" "state c4 = CNX_IDLE" "cnx_type c4 = CNX_SERVER"
    using o4(2,3,4,6) t(3) d(2) c(3) by (simp_all add: after_send_def)
  moreover have "serve mal rd wr k (q # qs) (i, j, g, c) = serve mal rd wr k qs (i1, j4, g4, c4)"
    using d(1) f t(1) o4(1) by simp
  ultimately show ?thesis using a(2) by blast
qed

lemma serve_all:
  assumes "read_ok rd pend" "healthy rd" "delivers rd pend" "write_ok wr sent" "obliging wr" "accepting wr" "mal_ok mal" "unat (fst cap) < 2 ^ 31"
    and "\<forall>q\<in>set qs. job_ok cap q \<and> length (wire (frags q)) \<le> k \<and> length (wire [reply_bytes q]) \<le> k"
    and "at_rest cap g c" "state c = CNX_IDLE" "cnx_type c = CNX_SERVER" "pend i = concat (map (wire \<circ> frags) qs) @ beyond"
  shows "\<exists>i' j' g' c'. serve mal rd wr k qs (i, j, g, c) = Some (i', j', g', c') \<and> pend i' = beyond \<and>
    sent j' = sent j @ concat (map (\<lambda>q. wire [reply_bytes q]) qs) \<and> at_rest cap g' c' \<and> state c' = CNX_IDLE"
  using assms(9-)
proof (induction qs arbitrary: i j g c)
  case Nil
  then show ?case by simp
next
  case (Cons q qs)
  have q: "job_ok cap q" "length (wire (frags q)) \<le> k" "length (wire [reply_bytes q]) \<le> k"
      "pend i = wire (frags q) @ concat (map (wire \<circ> frags) qs) @ beyond"
    using Cons.prems(1,5) by (simp_all add: comp_def)
  obtain i1 j1 g1 c1 where s: "serve mal rd wr k (q # qs) (i, j, g, c) = serve mal rd wr k qs (i1, j1, g1, c1)"
      "pend i1 = concat (map (wire \<circ> frags) qs) @ beyond" "sent j1 = sent j @ wire [reply_bytes q]" "at_rest cap g1 c1" "state c1 = CNX_IDLE" "cnx_type c1 = CNX_SERVER"
    using serve_one [OF assms(1-8) q(1-3) Cons.prems(2-4) q(4), of qs j] by blast
  have "\<forall>q\<in>set qs. job_ok cap q \<and> length (wire (frags q)) \<le> k \<and> length (wire [reply_bytes q]) \<le> k" using Cons.prems(1) by simp
  from Cons.IH [OF this s(4-6,2), of j1] show ?case unfolding s(1,3) by (simp del: wire.simps)
qed

subsection \<open>Properties\<close>

text \<open>A socket that takes up to three bytes at once, and a request with its reply.\<close>

definition three_taken :: "byte list \<Rightarrow> byte list \<Rightarrow> (errno + nat) \<times> byte list" where
  "three_taken b n = (Inr (min 3 (length b)), n @ take 3 b)"

definition ping_job :: job where
  "ping_job = \<lparr>frags = ping_request, hdr = rpc_new, args = be32 7,
     dec = (\<lambda>s. do { (v, s) \<leftarrow> x_getlong (ms_ops mal_lowest) s; Some (v \<noteq> None, s) }), avt = (\<lambda>s. Some (True, s)),
     result = ks_xdre (xdr_u_long (ms_ops mal_lowest)) 5, trailer = (\<lambda>s. Some (True, s)), body = be32 5\<rparr>"

lemma three_taken_ok: "write_ok three_taken id" "obliging three_taken" "accepting three_taken"
  by (auto simp: write_ok_def obliging_def accepting_def refused_def accepted_def three_taken_def min_def)

lemma ping_body:
  "writes (good_sized B) ms_room ms_written
     (and_then (\<lambda>s. Some (True, s)) (and_then (ks_xdre (xdr_u_long (ms_ops mal_lowest)) 5) (\<lambda>s. Some (True, s)))) (be32 5)"
proof -
  note S = ms_sink_sized [OF mal_lowest_ok, of B]
  have n: "writes (good_sized B) ms_room ms_written (\<lambda>s. Some (True, s)) []"
    using byte_sink.writes_done [OF S] by simp
  have "writes (good_sized B) ms_room ms_written (ks_xdre (xdr_u_long (ms_ops mal_lowest)) 5) (be32 5)"
    using byte_sink.writes_u_long [OF S, of 5] by simp
  from writes_and [OF n writes_and [OF this n]] show ?thesis by simp
qed

lemma ping_job_ok: "job_ok (8, 64) ping_job" "length (wire (frags ping_job)) \<le> 60" "length (wire [reply_bytes ping_job]) \<le> 60"
proof -
  have l: "length (words (rpc_words rpc_new)) = 40" by (simp add: length_words rpc_words_def rpc_new_def rpc_codes)
  have r: "length (reply_bytes ping_job) = 28" by (simp add: reply_bytes_def ping_job_def length_words)
  have d: "\<exists>s'. dec ping_job s = Some (True, s') \<and> at_stream g p s'" if "at_stream g p s" "ms_rest s = args ping_job" for g p s
  proof -
    have "ms_rest s = be32 7 @ []" using that(2) by (simp add: ping_job_def)
    from byte_source.axioms(1) [OF ms_source_at [where mal = mal_lowest], THEN long_source.get_long, OF that(1) this]
    show ?thesis by (auto simp: ping_job_def)
  qed
  show "job_ok (8, 64) ping_job"
    unfolding job_ok_def using d r ping_request_ok l ping_body [of 8] by (simp add: ping_job_def)
  have "length (concat (frags ping_job)) = 44" using ping_request_ok(1) l by (simp add: ping_job_def)
  then show "length (wire (frags ping_job)) \<le> 60" by (simp add: length_wire ping_job_def ping_request_def)
  show "length (wire [reply_bytes ping_job]) \<le> 60" using r by simp
qed

text \<open>
  C1. A server connection answers every request, in the order in which they arrive: if the socket gives data as long as some wait, and
  always takes some, then from any sequence of requests, in any fragments, whose arguments the dispatcher can read and whose
  replies it can write, the bytes sent are the replies, each one record with the transaction number of its request, and nothing
  else; the connection is idle again, its stream empty and as large as before, and nothing behind the last request has been read.
\<close>

theorem served:
  assumes "read_ok rd pend" "healthy rd" "delivers rd pend" "write_ok wr sent" "obliging wr" "accepting wr" "mal_ok mal"
    and "ms_good (g, xdrs c)" "ms_written (g, xdrs c) = []" "length (fragment_header c) = 4" "c = await_header c" "unat (buf_size g) < 2 ^ 31"
    and "state c = CNX_IDLE" "cnx_type c = CNX_SERVER"
    and "\<forall>q\<in>set qs. job_ok (buf_size g, ms_room (g, xdrs c)) q \<and> length (wire (frags q)) \<le> k \<and> length (wire [reply_bytes q]) \<le> k"
    and "pend i = concat (map (wire \<circ> frags) qs) @ beyond"
  shows "\<exists>i' j' g' c'. serve mal rd wr k qs (i, j, g, c) = Some (i', j', g', c') \<and> pend i' = beyond \<and>
    sent j' = sent j @ concat (map (\<lambda>q. wire [reply_bytes q]) qs) \<and> state c' = CNX_IDLE \<and>
    ms_written (g', xdrs c') = [] \<and> ms_room (g, xdrs c) \<le> ms_room (g', xdrs c')"
proof -
  have "at_rest (buf_size g, ms_room (g, xdrs c)) g c" using assms(8-11) by (simp add: at_rest_def)
  from serve_all [OF assms(1-7) _ assms(15) this assms(13,14,16), of j] assms(12)
  show ?thesis by (auto simp: at_rest_def)
qed

theorem served_witness:
  "\<exists>i' j' g' c'. serve mal_lowest three_bytes three_taken 60 [ping_job, ping_job]
      (wire ping_request @ wire ping_request @ [0x80], [], two_frags, idle_server) = Some (i', j', g', c') \<and> i' = [0x80] \<and>
    j' = wire [reply_bytes ping_job] @ wire [reply_bytes ping_job] \<and> state c' = CNX_IDLE \<and>
    ms_written (g', xdrs c') = [] \<and> 64 \<le> ms_room (g', xdrs c')"
proof -
  have b: "buf_size two_frags = 8" by (simp add: two_frags_def)
  have f: "frags ping_job = ping_request" by (simp add: ping_job_def)
  have q: "\<forall>q\<in>set [ping_job, ping_job]. job_ok (buf_size two_frags, ms_room (two_frags, xdrs idle_server)) q \<and>
      length (wire (frags q)) \<le> 60 \<and> length (wire [reply_bytes q]) \<le> 60"
    using ping_job_ok unfolding b idle_server_ok(3) by simp
  have p: "id (wire ping_request @ wire ping_request @ [0x80]) = concat (map (wire \<circ> frags) [ping_job, ping_job]) @ [0x80]" by (simp add: f)
  show ?thesis
    using served [OF three_bytes_ok three_taken_ok mal_lowest_ok idle_server_ok(1,2,4,5) _ idle_server_ok(6,7) q p, of "[]"] b idle_server_ok(3)
    by simp
qed

text \<open>
  C3. A reply leaves as one record: \<open>sendReply\<close> makes the fragment header, with the length and the mark of the last fragment, the
  RPC header and the result one sequence of bytes; however the socket takes them, after any number of calls of \<open>send\<close> a first part
  of them has been sent and the connection is still sending, or all of them, and it is ready for the next message with an
  empty stream.
\<close>

theorem reply_sent:
  assumes "write_ok wr sent" "obliging wr" "mal_ok mal" "ms_good (g, xdrs c)" "unat (buf_size g) < 2 ^ 31" "state c \<noteq> CNX_DEAD" "length (fragment_header c) = 4"
    and "writes (good_sized (buf_size g)) ms_room ms_written (and_then a (and_then r t)) bs" "rec = words (rpc_words (acceptCall (rpc c))) @ bs"
    and "4 + length rec \<le> length (ms_written (g, xdrs c)) + ms_room (g, xdrs c)" "length rec < 2 ^ 31 - 4"
  shows "\<exists>g1 c1. sendReply mal a r t (n, g, c) = Some (n, g1, c1) \<and>
    (\<exists>n' g' c' u w. drive_out conn_err wr k (n, g1, c1) = Some (n', g', c') \<and>
       be32 (of_nat (length rec) OR 0x80000000) @ rec = u @ w \<and> sent n' = sent n @ u \<and>
       (if w = [] then state c' = (if cnx_type c = CNX_CLIENT then CNX_WAITING else CNX_IDLE) \<and> ms_written (g', xdrs c') = []
        else state c' = CNX_SENDING))"
proof -
  let ?h = "acceptCall (rpc c)" and ?cap = "(buf_size g, length (ms_written (g, xdrs c)) + ms_room (g, xdrs c))"
  obtain fl ps where e: "enc_state (g, xdrs c) fl ps" using assms(4) by (auto simp: ms_good_def)
  have "writes (good_sized (buf_size g)) ms_room ms_written (rpc_encode (ms_ops mal) ?h) (words (rpc_words ?h))"
    by (rule byte_sink.writes_rpc [OF ms_sink_sized [OF assms(3)] accepted_valid])
  from writes_and [OF this assms(8)]
  have w: "writes (good_sized (fst ?cap)) ms_room ms_written (and_then (rpc_encode (ms_ops mal) ?h) (and_then a (and_then r t))) rec"
    using assms(9) by simp
  have ch: "chain (g, xdrs (c\<lparr>rpc := ?h\<rparr>)) (snd ?cap)" using enc_chain(1) [OF e] by simp
  obtain g1 c1 where t: "transmit mal (and_then (rpc_encode (ms_ops mal) ?h) (and_then a (and_then r t))) (n, g, c\<lparr>rpc := ?h\<rparr>) = Some (n, g1, c1)"
      "tx ?cap (wire [rec]) g1 c1" "cnx_type c1 = cnx_type c"
    using transmit_tx [OF ch le_refl _ assms(3) w _ assms(11), of n] assms(5,7,10) by auto
  have "sendReply mal a r t (n, g, c) = Some (n, g1, c1)" using t(1) assms(6) by (simp add: sendReply_def Let_def)
  with drive_out_tx [OF assms(1,2) t(2), of conn_err k n] t(3) show ?thesis
    by (fastforce simp: tx_def at_rest_def after_send_def)
qed

text \<open>A \<open>write\<close> that is interrupted once, and a reply to the idle server's client.\<close>

theorem reply_sent_witness:
  "\<exists>g1 c1. sendReply mal_lowest (\<lambda>s. Some (True, s)) (ks_xdre (xdr_u_long (ms_ops mal_lowest)) 5) (\<lambda>s. Some (True, s)) ([] :: byte list, two_frags, idle_server) = Some ([], g1, c1) \<and>
    (\<exists>n' g' c' u w. drive_out (\<lambda>_. False) three_taken 5 ([], g1, c1) = Some (n', g', c') \<and>
       be32 (of_nat (length (words (rpc_words (acceptCall (rpc idle_server))) @ be32 5)) OR 0x80000000) @
         words (rpc_words (acceptCall (rpc idle_server))) @ be32 5 = u @ w \<and> id n' = id [] @ u \<and>
       (if w = [] then state c' = CNX_IDLE \<and> ms_written (g', xdrs c') = []
        else state c' = CNX_SENDING))"
proof -
  have l: "length (words (rpc_words (acceptCall (rpc idle_server))) @ be32 5) = 28"
    by (simp add: length_words rpc_words_def acceptCall_def versions_status_def rpc_codes)
  have d: "state idle_server \<noteq> CNX_DEAD" using idle_server_ok(6) by simp
  have b: "unat (buf_size two_frags) < 2 ^ 31" by (simp add: two_frags_def)
  have e: "(if cnx_type idle_server = CNX_CLIENT then CNX_WAITING else CNX_IDLE) = CNX_IDLE" by (simp add: idle_server_ok(7))
  show ?thesis
    using reply_sent [OF three_taken_ok(1,2) mal_lowest_ok idle_server_ok(1) b d idle_server_ok(4) ping_body refl, where n = "[]" and k = 5 and conn_err = "\<lambda>_. False"]
     l idle_server_ok(2,3) unfolding e by (simp split del: if_split)
qed


text \<open>
  A message of the words \<open>ws\<close> has a readable header if it is a reply, or a call of RPC version 2 without credentials and verifier. Other
  calls, messages of another type and messages that end within the header are not.
\<close>

definition readable_header :: "u32 list \<Rightarrow> bool" where
  "readable_header ws \<longleftrightarrow> (case ws of
     x # t # ws \<Rightarrow> t = KsRpcREPLY \<or>
       t = KsRpcCALL \<and> 8 \<le> length ws \<and> ws ! 0 = 2 \<and> take 4 (drop 4 ws) = [KsRpcAUTHNONE, 0, KsRpcAUTHNONE, 0]
   | _ \<Rightarrow> False)"

text \<open>\<open>hfails h d ws\<close>: reading the words \<open>ws\<close> into \<open>h\<close> with \<open>d\<close> fails, whatever is in the stream after them is left.\<close>

definition hfails :: "rpc_header \<Rightarrow> (rpc_header \<times> mss) coder \<Rightarrow> u32 list \<Rightarrow> bool" where
  "hfails h d ws \<longleftrightarrow> (\<forall>g p s. at_stream g p s \<and> ms_rest s = words ws \<longrightarrow>
     (\<exists>h' s'. d (h, s) = Some (False, h', s') \<and> fst s' = g \<and> first_frag (snd s') = p))"

lemma getlong_end:
  assumes "at_stream g p s" "ms_rest s = []"
  shows "\<exists>s'. ms_getlong s = Some (None, s') \<and> fst s' = g \<and> first_frag (snd s') = p"
proof -
  obtain x where s: "s = (g, x)" "first_frag x = p" using assms(1) by (cases s) (simp add: at_stream_def)
  obtain qs where r: "reading (g, x) qs" using assms(1) s by (auto simp: at_stream_def ms_rgood_def)
  then obtain f where f: "heap g (current x) = Some f" "off x + unat (handy x) \<le> length (fdata f)" "seg (heap g) (nxt f) qs 0"
    by (auto simp: reading_def)
  have rest: "take (unat (handy x)) (drop (off x) (fdata f)) = []" "concat (map (used_bytes (heap g)) qs) = []"
    using assms(2) rest_reading [OF r] f(1) s by (simp_all add: bytes_of_def)
  have "unat (handy x) = 0" using rest(1) f(2) by (auto simp: take_eq_Nil)
  then have h: "handy x = 0" by (simp add: unat_eq_0)
  show ?thesis
  proof (cases qs)
    case Nil
    then show ?thesis using f(1,3) h s by (simp add: ms_getlong_def refill_get_def advance_def)
  next
    case (Cons q qs')
    then obtain e where e: "nxt f = q" "q \<noteq> 0" "heap g q = Some e" using f(3) by auto
    have "unat (used e) \<le> length (fdata e)" using r e(3) Cons by (auto simp: reading_def)
    moreover have "take (unat (used e)) (fdata e) = []" using rest(2) e(3) Cons by (simp add: used_bytes_def)
    ultimately have "unat (used e) = 0" by (auto simp: take_eq_Nil)
    then have "used e = 0" by (simp add: unat_eq_0)
    then show ?thesis using f(1) e h s by (simp add: ms_getlong_def refill_get_def advance_def)
  qed
qed

lemma u_long_end:
  assumes "at_stream g p s" "ms_rest s = words []"
  shows "\<exists>s'. xdr_u_long (ms_ops mal) XDR_DECODE v s = Some (False, v, s') \<and> fst s' = g \<and> first_frag (snd s') = p"
  using getlong_end [OF assms(1)] assms(2) by (auto simp: xdr_u_long_def ms_ops_def)

lemma u_long_next:
  assumes "at_stream g p s" "ms_rest s = words (w # ws)"
  shows "\<exists>s'. xdr_u_long (ms_ops mal) XDR_DECODE v s = Some (True, w, s') \<and> at_stream g p s' \<and> ms_rest s' = words ws"
proof -
  obtain s' where s': "ms_getlong s = Some (Some w, s')" "ms_rgood s'" "ms_rest s' = words ws"
    using getlong_spec [of s w "words ws"] assms by (auto simp: at_stream_def length_words)
  with getlong_frozen [OF s'(1)] assms(1) show ?thesis by (auto simp: xdr_u_long_def ms_ops_def at_stream_def)
qed

lemma hfails_end: "hfails h (and_then (read_field (ms_ops mal) upd) b) []"
  unfolding hfails_def
proof (intro allI impI)
  fix g p s
  assume "at_stream g p s \<and> ms_rest s = words []"
  then show "\<exists>h' s'. and_then (read_field (ms_ops mal) upd) b (h, s) = Some (False, h', s') \<and> fst s' = g \<and> first_frag (snd s') = p"
    using u_long_end [of g p s mal 0] by (auto simp: and_then_def read_field_def)
qed

lemma hfails_next:
  assumes "hfails (upd v h) b ws"
  shows "hfails h (and_then (read_field (ms_ops mal) upd) b) (v # ws)"
  unfolding hfails_def
proof (intro allI impI)
  fix g p s
  assume "at_stream g p s \<and> ms_rest s = words (v # ws)"
  then obtain t where t: "xdr_u_long (ms_ops mal) XDR_DECODE 0 s = Some (True, v, t)" "at_stream g p t" "ms_rest t = words ws"
    using u_long_next [of g p s v ws mal 0] by blast
  with assms obtain h' s' where "b (upd v h, t) = Some (False, h', s')" "fst s' = g" "first_frag (snd s') = p"
    unfolding hfails_def by blast
  with t(1) show "\<exists>h' s'. and_then (read_field (ms_ops mal) upd) b (h, s) = Some (False, h', s') \<and> fst s' = g \<and> first_frag (snd s') = p"
    by (simp add: and_then_def read_field_def)
qed

lemma hfails_field:
  "(\<And>v vs. ws = v # vs \<Longrightarrow> hfails (upd v h) b vs) \<Longrightarrow> hfails h (and_then (read_field (ms_ops mal) upd) b) ws"
  by (cases ws) (simp_all add: hfails_end hfails_next)

lemma hfails_require: "(P h \<Longrightarrow> hfails h b ws) \<Longrightarrow> hfails h (and_then (require P) b) ws"
  by (cases "P h") (auto simp: hfails_def and_then_def require_def at_stream_def)

lemma auth_words:
  assumes "at_stream g p s" "ms_rest s = words ws"
  shows "\<exists>s'. if take 2 ws = [KsRpcAUTHNONE, 0]
    then auth_none (ms_ops mal) (h, s) = Some (True, h, s') \<and> at_stream g p s' \<and> ms_rest s' = words (drop 2 ws)
    else auth_none (ms_ops mal) (h, s) = Some (False, h, s') \<and> fst s' = g \<and> first_frag (snd s') = p"
proof (cases ws)
  case Nil
  then show ?thesis using u_long_end [of g p s mal 0] assms by (auto simp: auth_none_def)
next
  case (Cons v vs)
  then obtain t where t: "xdr_u_long (ms_ops mal) XDR_DECODE 0 s = Some (True, v, t)" "at_stream g p t" "ms_rest t = words vs"
    using u_long_next [of g p s v vs mal 0] assms by blast
  show ?thesis
  proof (cases vs)
    case Nil
    then show ?thesis using u_long_end [of g p t mal 0] t Cons by (auto simp: auth_none_def)
  next
    case l: (Cons l us)
    then obtain u where "xdr_u_long (ms_ops mal) XDR_DECODE 0 t = Some (True, l, u)" "at_stream g p u" "ms_rest u = words us"
      using u_long_next [of g p t l us mal 0] t by blast
    then show ?thesis using t(1) Cons l by (intro exI [of _ u]) (simp add: auth_none_def at_stream_def)
  qed
qed

lemma hfails_auth: "take 2 ws \<noteq> [KsRpcAUTHNONE, 0] \<Longrightarrow> hfails h (auth_none (ms_ops mal)) ws"
  using auth_words [of _ _ _ ws mal h] unfolding hfails_def by (simp only: if_False) blast

lemma hfails_auth_then:
  assumes "take 2 ws = [KsRpcAUTHNONE, 0] \<Longrightarrow> hfails h b (drop 2 ws)"
  shows "hfails h (and_then (auth_none (ms_ops mal)) b) ws"
  unfolding hfails_def
proof (intro allI impI)
  fix g p s
  assume "at_stream g p s \<and> ms_rest s = words ws"
  with auth_words [of g p s ws mal h] assms
  show "\<exists>h' s'. and_then (auth_none (ms_ops mal)) b (h, s) = Some (False, h', s') \<and> fst s' = g \<and> first_frag (snd s') = p"
    by (cases "take 2 ws = [KsRpcAUTHNONE, 0]") (fastforce simp: hfails_def and_then_def)+
qed

lemma hfails_call:
  assumes "\<not> (8 \<le> length ws \<and> ws ! 0 = 2 \<and> take 4 (drop 4 ws) = [KsRpcAUTHNONE, 0, KsRpcAUTHNONE, 0])"
  shows "hfails h (read_call (ms_ops mal)) ws"
  unfolding read_call_def
proof (intro hfails_field hfails_require hfails_auth_then hfails_auth notI, goal_cases)
  case (1 v ws1 p ws2 q ws3 r ws4)
  have "take 4 ws4 = take 2 ws4 @ take 2 (drop 2 ws4)" by (metis take_add numeral_Bit0)
  then have a: "take 4 ws4 = [KsRpcAUTHNONE, 0, KsRpcAUTHNONE, 0]" using 1 by simp
  then have "length (take 4 ws4) = 4" by simp
  then have "4 \<le> length ws4" by simp
  then show False using assms a 1 by simp
qed

lemma hfails_header:
  assumes "\<not> readable_header ws"
  shows "hfails h (rpc_decode (ms_ops mal)) ws"
proof -
  let ?t = "\<lambda>hs. if msg_type (fst hs) = KsRpcCALL then read_call (ms_ops mal) hs
       else if msg_type (fst hs) = KsRpcREPLY then read_reply (ms_ops mal) hs else Some (False, hs)"
  have "hfails (h\<lparr>rpc_version := 0\<rparr>) (and_then (read_field (ms_ops mal) (\<lambda>v. xid_update (\<lambda>_. v)))
      (and_then (read_field (ms_ops mal) (\<lambda>v. msg_type_update (\<lambda>_. v))) ?t)) ws"
  proof (intro hfails_field, goal_cases)
    case (1 x us t vs)
    then show ?case using assms hfails_call [of vs _ mal]
      by (auto simp: hfails_def readable_header_def rpc_codes at_stream_def)
  qed
  then show ?thesis by (simp add: hfails_def rpc_decode_def)
qed

text \<open>
  C25. The reply of a server to a message whose header cannot be decoded is broken: \<open>receive\<close> serializes it without the room
  for the fragment header that every other reply begins with, so \<open>enterSendingState\<close> writes the fragment header over the
  transaction number, and the record that is sent begins with the message type. Such messages (\<open>\<not> readable_header\<close>) are calls of another
  RPC version or with credentials or a verifier, messages that are neither call nor reply, and messages that end within the header of a
  call; they consist of whole words, and the stream can hold the reply of six words.
\<close>

theorem decode_error_loses_xid:
  assumes "ms_good (g, xdrs c)" "ms_written (g, xdrs c) = words ws" "\<not> readable_header ws" "24 \<le> length (words ws) + ms_room (g, xdrs c)"
    and "unat (buf_size g) < 2 ^ 31" "length (fragment_header c) = 4" "cnx_type c = CNX_SERVER" "mal_ok mal"
  shows "\<exists>m g' c'. record_complete mal (n, g, c) = Some (m, n, g', c') \<and> state c' = CNX_SENDING \<and>
    ms_rest (g', xdrs c') = wire [words [KsRpcREPLY, KsRpcMSGACCEPTED, KsRpcAUTHNONE, 0, KsRpcGARBAGEARGS]]"
proof -
  let ?cap = "(buf_size g, length (ms_written (g, xdrs c)) + ms_room (g, xdrs c))"
  obtain fl ps where e: "enc_state (g, xdrs c) fl ps" using assms(1) by (auto simp: ms_good_def)
  have "4 dvd length (ms_written (g, xdrs c))" unfolding assms(2) by (simp add: length_words)
  then obtain g1 y where rw: "ms_rewind XDR_DECODE (g, xdrs c) = Some (g1, y)" "rewound (g1, y) fl ps"
      "concat (map (used_bytes (heap g1)) ps) = ms_written (g, xdrs c)" "buf_size g1 = buf_size g" "pool_room g1 = pool_room g"
    using rewind_rewound [OF e] by auto
  obtain p' qs where ps: "ps = p' # qs" using rw(2) by (cases ps) (auto simp: rewound_def)
  have at: "at_stream g1 (first_frag y) (g1, y)" "ms_rest (g1, y) = words ws"
    using rewound_reading [OF rw(2) [unfolded ps]] rw(3) ps assms(2) by (auto simp: at_stream_def ms_rgood_def simp del: words_simps)
  obtain h' s where d: "rpc_decode (ms_ops mal) (rpc c, g1, y) = Some (False, h', s)" "fst s = g1" "first_frag (snd s) = first_frag y"
    using hfails_header [OF assms(3), of "rpc c" mal] at unfolding hfails_def by blast
  obtain z where s: "s = (g1, z)" "first_frag z = first_frag y" using d(2,3) by (cases s) simp
  let ?h = "setDecodeError h'"
  let ?c = "c\<lparr>xdrs := z, rpc := ?h, state := CNX_SENDING\<rparr>"
  have ch: "chain (g1, xdrs ?c) (snd ?cap)"
  proof (rule chain_frozen)
    show "chain (g1, y) (snd ?cap)" using rewound_chain [OF rw(2)] enc_chain(2) [OF e] rw(4,5) by simp
  qed (use s in simp_all)
  have B: "buf_size g1 = fst ?cap" using rw(4) by simp
  from clear_stream_chain [OF ch le_refl B] obtain g2 x2 where cl: "clear_stream g1 ?c = Some (g2, ?c\<lparr>xdrs := x2\<rparr>)"
      "good_sized (fst ?cap) (g2, x2)" "ms_written (g2, x2) = []" "snd ?cap \<le> ms_room (g2, x2)" by blast
  have valid: "rpc_valid ?h" by (simp add: rpc_valid_def setDecodeError_def rpc_codes)
  have hw: "rpc_words ?h = [xid h', KsRpcREPLY, KsRpcMSGACCEPTED, KsRpcAUTHNONE, 0, KsRpcGARBAGEARGS]"
    by (simp add: rpc_words_def setDecodeError_def versions_status_def rpc_codes)
  have len: "length (words (rpc_words ?h)) = 24" unfolding hw by (simp add: length_words)
  have "24 \<le> ms_room (g2, x2)" using cl(4) assms(2,4) by simp
  then have "\<exists>s'. rpc_encode (ms_ops mal) ?h (g2, x2) = Some (True, s') \<and>
      emits (good_sized (fst ?cap)) ms_room ms_written (g2, x2) (words (rpc_words ?h)) s'"
    using byte_sink.writes_rpc [OF ms_sink_sized [OF assms(8), of "fst ?cap"] valid, unfolded writes_alt, THEN conjunct2, rule_format, of "(g2, x2)"]
      cl(2,3) len by simp
  then obtain g3 x3 where en: "rpc_encode (ms_ops mal) ?h (g2, x2) = Some (True, g3, x3)"
      "emits (good_sized (fst ?cap)) ms_room ms_written (g2, x2) (words (rpc_words ?h)) (g3, x3)" by auto
  have wr: "ms_written (g3, x3) = be32 (xid h') @ words (tl (rpc_words ?h))" using en(2) cl(3) unfolding hw by (simp add: emits_def)
  have rm: "snd ?cap \<le> length (ms_written (g3, x3)) + ms_room (g3, x3)" using en(2) cl(3,4) by (simp add: emits_def)
  obtain m g4 c4 where t: "enterSendingState mal (n, g3, ?c\<lparr>xdrs := x3\<rparr>) = Some (m, n, g4, c4)" "tx ?cap (wire [words (tl (rpc_words ?h))]) g4 c4"
    using enter_sending_tx [of ?cap g3 "?c\<lparr>xdrs := x3\<rparr>" "xid h'" "words (tl (rpc_words ?h))" mal n] en(2) wr rm assms(5,6)
    by (auto simp: emits_def length_words hw)
  have "record_complete mal (n, g, c) = Some (m OR CNX_IO_HAD_ERROR, n, g4, c4)"
    using rw(1) d(1) s(1) cl(1) en(1) t(1) assms(7) by (simp add: record_complete_def decode_rpc_def Let_def)
  then show ?thesis using t(2) by (auto simp: tx_def hw)
qed

theorem decode_error_loses_xid_witness:
  "\<exists>g c. ms_written (g, xdrs c) = words [9, KsRpcCALL, 1, 2, 3, 4] \<and> (\<exists>m g' c'. record_complete mal_lowest ((), g, c) = Some (m, (), g', c') \<and>
    state c' = CNX_SENDING \<and> ms_rest (g', xdrs c') = wire [words [KsRpcREPLY, KsRpcMSGACCEPTED, KsRpcAUTHNONE, 0, KsRpcGARBAGEARGS]])"
proof -
  let ?w = "words [9, KsRpcCALL, 1, 2, 3, 4]"
  have g: "good_sized 8 (two_frags, xdrs idle_server)" using idle_server_ok(1) by (simp add: good_sized_def two_frags_def)
  moreover have "length ?w \<le> ms_room (two_frags, xdrs idle_server)" unfolding idle_server_ok(3) by (simp add: length_words)
  ultimately obtain s where s: "emits (good_sized 8) ms_room ms_written (two_frags, xdrs idle_server) ?w s"
    using byte_sink.put_bytes [OF ms_sink_sized [OF mal_lowest_ok]] by blast
  obtain h x where h: "s = (h, x)" by (cases s)
  let ?c = "idle_server\<lparr>xdrs := x\<rparr>"
  have w: "ms_good (h, xdrs ?c)" "ms_written (h, xdrs ?c) = ?w" "unat (buf_size h) < 2 ^ 31" "length (fragment_header ?c) = 4" "cnx_type ?c = CNX_SERVER"
    using s idle_server_ok unfolding h by (simp_all add: emits_def good_sized_def)
  have n: "\<not> readable_header [9, KsRpcCALL, 1, 2, 3, 4]" by (simp add: readable_header_def rpc_codes)
  have "24 \<le> length ?w + ms_room (h, xdrs ?c)" by (simp add: length_words)
  from decode_error_loses_xid [OF w(1,2) n this w(3-5) mal_lowest_ok, of "()"] w(2) show ?thesis
    by (intro exI [of _ h] exI [of _ ?c]) simp
qed

end
