(* ===== verification/KsMask.thy ===== *)
theory KsMask
  imports KsPrelude "HOL-Library.Monad_Syntax"
begin

text \<open>
  Name masks (\<open>KsMask\<close> in ks/src/mask.cpp), with which a client selects the children of a domain: \<open>*\<close>, \<open>?\<close>, sets of
  characters and a backslash before a character that stands for itself. \<open>m_loop\<close> and \<open>joker\<close> call each other, so they
  are one function over the places the search can be at; it may run for ever.
\<close>

subsection \<open>The sources\<close>

text \<open>The mask is a string with a terminating null character.\<close>

definition chr_at :: "byte list \<Rightarrow> nat \<Rightarrow> byte" where
  "chr_at pat i = (if i < length pat then pat ! i else 0)"

definition is_digit :: "byte \<Rightarrow> bool" where "is_digit c \<longleftrightarrow> 0x30 \<le> c \<and> c \<le> 0x39"
definition is_upper :: "byte \<Rightarrow> bool" where "is_upper c \<longleftrightarrow> 0x41 \<le> c \<and> c \<le> 0x5A"
definition is_lower :: "byte \<Rightarrow> bool" where "is_lower c \<longleftrightarrow> 0x61 \<le> c \<and> c \<le> 0x7A"

text \<open>The characters of a range, if its bounds make one.\<close>

definition span_chars :: "byte \<Rightarrow> byte \<Rightarrow> (byte \<Rightarrow> bool) option" where
  "span_chars a b =
     (if (is_digit a \<and> is_digit b) \<or> (is_upper a \<and> is_upper b) \<or> (is_lower a \<and> is_lower b)
      then Some (\<lambda>c. a \<le> c \<and> c \<le> b)
      else if is_upper a \<and> is_lower b then Some (\<lambda>c. (a \<le> c \<and> c \<le> 0x5A) \<or> (0x61 \<le> c \<and> c \<le> b))
      else if is_lower a \<and> is_upper b then Some (\<lambda>c. (a \<le> c \<and> c \<le> 0x7A) \<or> (0x41 \<le> c \<and> c \<le> b))
      else None)"

text \<open>The search for a character in an enumerated set: whether it was found, and where the search ended.\<close>

function scan_set :: "byte list \<Rightarrow> byte \<Rightarrow> nat \<Rightarrow> bool \<times> nat" where
  "scan_set pat c i =
     (if i < length pat \<and> chr_at pat i \<noteq> 0x5D
      then (if chr_at pat i = c then (True, i) else scan_set pat c (i + 1))
      else (False, i))"
  by auto
termination by (relation "measure (\<lambda>(pat, c, i). length pat - i)") auto

function find_close :: "byte list \<Rightarrow> nat \<Rightarrow> nat" where
  "find_close pat i = (if i < length pat \<and> chr_at pat i \<noteq> 0x5D then find_close pat (i + 1) else i)"
  by auto
termination by (relation "measure (\<lambda>(pat, i). length pat - i)") auto

declare scan_set.simps [simp del] find_close.simps [simp del]

text \<open>
  \<open>set\<close>: the result, and \<open>n\<close> and \<open>m\<close> as it leaves them. A character that a negated set accepts leaves both where they are.
\<close>

definition set_at :: "byte list \<Rightarrow> byte list \<Rightarrow> nat \<Rightarrow> nat \<Rightarrow> int \<times> nat \<times> nat" where
  "set_at pat name n m =
     (let l = length pat; c = chr_at name n; err = (- (int m + 1), n, m)
      in if l \<le> m + 2 then err
         else if chr_at pat (m + 1) \<noteq> 0x5E
         then (if m + 5 \<le> l \<and> chr_at pat (m + 2) = 0x2D
               then (case (if chr_at pat (m + 4) = 0x5D then span_chars (chr_at pat (m + 1)) (chr_at pat (m + 3)) else None) of
                       None \<Rightarrow> err
                     | Some R \<Rightarrow> if R c then (1, n + 1, m + 5) else (0, n, m))
               else (case scan_set pat c (m + 1) of
                       (True, i) \<Rightarrow> (let i = find_close pat i
                                    in if chr_at pat i = 0x5D then (1, n + 1, i + 1) else err)
                     | (False, i) \<Rightarrow> if chr_at pat i = 0x5D then (0, n, m) else err))
         else (if m + 6 \<le> l \<and> chr_at pat (m + 3) = 0x2D
               then (case (if chr_at pat (m + 5) = 0x5D then span_chars (chr_at pat (m + 2)) (chr_at pat (m + 4)) else None) of
                       None \<Rightarrow> err
                     | Some R \<Rightarrow> if R c then (0, n + 1, m + 6) else (1, n, m))
               else (case scan_set pat c (m + 2) of
                       (True, i) \<Rightarrow> (let i = find_close pat i
                                    in if chr_at pat i = 0x5D then (0, n + 1, i + 1) else err)
                     | (False, i) \<Rightarrow> if chr_at pat i = 0x5D then (1, n, m) else err)))"

text \<open>The beginning of \<open>joker\<close>: further jokers are skipped; \<open>None\<close> where it returns 0.\<close>

function joker_skip :: "byte list \<Rightarrow> nat \<Rightarrow> nat \<Rightarrow> nat \<Rightarrow> (nat \<times> nat) option" where
  "joker_skip pat k n m =
     (if m + 1 < length pat \<and> (chr_at pat (m + 1) = 0x3F \<or> chr_at pat (m + 1) = 0x2A)
      then (if chr_at pat (m + 1) = 0x3F
            then (if n < k then joker_skip pat k (n + 1) (m + 1) else None)
            else joker_skip pat k n (m + 1))
      else Some (n, m))"
  by auto
termination by (relation "measure (\<lambda>(pat, k, n, m). length pat - m)") auto

declare joker_skip.simps [simp del]

text \<open>How many characters the rest of the mask needs; \<open>prev\<close> is the character before it.\<close>

fun rest_len :: "byte \<Rightarrow> bool \<Rightarrow> byte list \<Rightarrow> nat" where
  "rest_len prev inset [] = 0"
| "rest_len prev inset (c # cs) =
     (if c = 0x5B \<and> prev \<noteq> 0x5C then rest_len c True cs
      else if c = 0x5D \<and> prev \<noteq> 0x5C then Suc (rest_len c False cs)
      else if \<not> inset \<and> c \<noteq> 0x5C \<and> (c \<noteq> 0x2A \<or> prev = 0x5C) then Suc (rest_len c inset cs)
      else rest_len c inset cs)"

text \<open>The places of the search: in the loop of \<open>m_loop\<close>, and in the two loops of \<open>joker\<close> at the index \<open>i\<close> of the name.\<close>

datatype look = In_loop nat nat | In_joker int nat nat | In_joker_set int nat nat

definition joker :: "byte list \<Rightarrow> byte list \<Rightarrow> nat \<Rightarrow> nat \<Rightarrow> int + look" where
  "joker pat name n m =
     (case joker_skip pat (length name) n m of
        None \<Rightarrow> Inl 0
      | Some (n, m) \<Rightarrow>
          if n = length name \<and> m + 1 \<noteq> length pat then Inl 0
          else if length pat \<le> m + 1 then Inl 1
          else let l_rest = rest_len (chr_at pat m) False (drop (m + 1) pat);
                   m' = (if chr_at pat (m + 1) = 0x5C then m + 1 else m);
                   i = int (length name) - int l_rest
               in if l_rest = 0 then Inl (- (int m + 1))
                  else if chr_at pat (m' + 1) \<noteq> 0x5B then Inr (In_joker i n m') else Inr (In_joker_set i n m'))"

partial_function (option) search :: "byte list \<Rightarrow> byte list \<Rightarrow> look \<Rightarrow> int option" where
  "search pat name st =
     (case st of
        In_loop n m \<Rightarrow>
          if n < length name \<and> m < length pat
          then (if chr_at pat m = 0x5B
                then (case set_at pat name n m of (r, n, m) \<Rightarrow> if r = 0 then Some r else search pat name (In_loop n m))
                else if chr_at pat m = 0x2A
                then (case joker pat name n m of Inl r \<Rightarrow> Some r | Inr st \<Rightarrow> search pat name st)
                else if chr_at pat m = 0x3F then search pat name (In_loop (n + 1) (m + 1))
                else let m = (if chr_at pat m = 0x5C then m + 1 else m)
                     in if length pat \<le> m \<or> chr_at pat m \<noteq> chr_at name n then Some 0
                        else search pat name (In_loop (n + 1) (m + 1)))
          else if n = length name \<and> m = length pat then Some 1
          else if m < length pat \<and> chr_at pat m = 0x2A
          then (case joker pat name n m of Inl r \<Rightarrow> Some r | Inr st \<Rightarrow> search pat name st)
          else Some 0
      | In_joker i n m \<Rightarrow>
          if i < int n then Some 0
          else if chr_at pat (m + 1) = chr_at name (nat i)
          then do { r \<leftarrow> search pat name (In_loop (nat i + 1) (m + 2));
                    if r \<noteq> 0 then Some r else search pat name (In_joker (i - 1) n m) }
          else search pat name (In_joker (i - 1) n m)
      | In_joker_set i n m \<Rightarrow>
          if i < int n then Some 0
          else (case set_at pat name (nat i) (m + 1) of (r, h1, h2) \<Rightarrow>
                  if r = 1
                  then do { r \<leftarrow> search pat name (In_loop h1 h2);
                            if r \<noteq> 0 then Some r else search pat name (In_joker_set (i - 1) n m) }
                  else if r < 0 then Some r
                  else search pat name (In_joker_set (i - 1) n m)))"

text \<open>\<open>matches\<close>: 1 if the name matches, 0 if it does not, and the negated position of an error in the pat.\<close>

definition matches :: "byte list \<Rightarrow> byte list \<Rightarrow> int option" where
  "matches pat name = search pat name (In_loop 0 0)"

text \<open>
  The children of a domain as its iterator gives them, type code and name, or a null handle; \<open>skipWhileNotMatching\<close> of the masked
  iterator, and what it iterates over.
\<close>

type_synonym child = "(u32 \<times> byte list) option"

unbundle bit_operations_syntax

fun skipWhileNotMatching :: "byte list \<Rightarrow> u32 \<Rightarrow> child list \<Rightarrow> child list option" where
  "skipWhileNotMatching pat types [] = Some []"
| "skipWhileNotMatching pat types (None # cs) = skipWhileNotMatching pat types cs"
| "skipWhileNotMatching pat types (Some (ty, name) # cs) =
     (if ty AND types \<noteq> 0
      then do { r \<leftarrow> matches pat name; if r = 1 then Some (Some (ty, name) # cs) else skipWhileNotMatching pat types cs }
      else skipWhileNotMatching pat types cs)"

lemma skip_shorter: "skipWhileNotMatching pat types cs = Some cs' \<Longrightarrow> length cs' \<le> length cs"
  by (induction pat types cs rule: skipWhileNotMatching.induct) (auto simp: bind_eq_Some_conv split: if_splits)

function masked_children :: "byte list \<Rightarrow> u32 \<Rightarrow> child list \<Rightarrow> child list option" where
  "masked_children pat types cs =
     do { cs \<leftarrow> skipWhileNotMatching pat types cs;
          (case cs of [] \<Rightarrow> Some [] | c # cs \<Rightarrow> do { r \<leftarrow> masked_children pat types cs; Some (c # r) }) }"
  by auto
termination by (relation "measure (\<lambda>(pat, types, cs). length cs)") (auto dest: skip_shorter)

declare masked_children.simps [simp del]

subsection \<open>Masks as they are meant\<close>

datatype tok = Chr byte | Any | Star | OneOf byte "byte list" | Range byte byte

fun hits :: "tok \<Rightarrow> byte \<Rightarrow> bool" where
  "hits (Chr d) c \<longleftrightarrow> c = d"
| "hits Any c \<longleftrightarrow> True"
| "hits Star c \<longleftrightarrow> False"
| "hits (OneOf d ds) c \<longleftrightarrow> c = d \<or> c \<in> set ds"
| "hits (Range a b) c \<longleftrightarrow> (case span_chars a b of None \<Rightarrow> False | Some R \<Rightarrow> R c)"

fun glob :: "tok list \<Rightarrow> byte list \<Rightarrow> bool" where
  "glob [] s \<longleftrightarrow> s = []"
| "glob (t # ts) s \<longleftrightarrow>
     (if t = Star then glob ts s \<or> (case s of [] \<Rightarrow> False | c # s' \<Rightarrow> glob (t # ts) s')
      else (case s of [] \<Rightarrow> False | c # s' \<Rightarrow> hits t c \<and> glob ts s'))"

declare glob.simps(2) [simp del]

lemma glob_simps [simp]:
  "glob (t # ts) [] \<longleftrightarrow> t = Star \<and> glob ts []"
  "glob (t # ts) (c # s) \<longleftrightarrow> (if t = Star then glob ts (c # s) \<or> glob (t # ts) s else hits t c \<and> glob ts s)"
  by (simp_all add: glob.simps(2))

fun render :: "tok \<Rightarrow> byte list" where
  "render (Chr c) = (if c = 0x2A \<or> c = 0x3F then [0x5C, c] else [c])"
| "render Any = [0x3F]"
| "render Star = [0x2A]"
| "render (OneOf d ds) = 0x5B # d # ds @ [0x5D]"
| "render (Range a b) = [0x5B, a, 0x2D, b, 0x5D]"

fun tok_ok :: "tok \<Rightarrow> bool" where
  "tok_ok (Chr c) \<longleftrightarrow> c \<noteq> 0x5B \<and> c \<noteq> 0x5C"
| "tok_ok Any \<longleftrightarrow> True"
| "tok_ok Star \<longleftrightarrow> True"
| "tok_ok (OneOf d ds) \<longleftrightarrow> d \<noteq> 0x5E \<and> 0x5D \<notin> set (d # ds) \<and> 0x5C \<notin> set (d # ds) \<and> (ds \<noteq> [] \<longrightarrow> hd ds \<noteq> 0x2D)"
| "tok_ok (Range a b) \<longleftrightarrow> span_chars a b \<noteq> None"

definition render_all :: "tok list \<Rightarrow> byte list" where
  "render_all ts = concat (map render ts)"

definition min_len :: "tok list \<Rightarrow> nat" where
  "min_len ts = length (filter (\<lambda>t. t \<noteq> Star) ts)"

lemma render_all_simps [simp]: "render_all [] = []" "render_all (t # ts) = render t @ render_all ts"
  by (simp_all add: render_all_def)

lemma min_len_simps [simp]: "min_len [] = 0" "min_len (t # ts) = (if t = Star then 0 else 1) + min_len ts"
  by (simp_all add: min_len_def)

lemma chr_at_append: "chr_at (xs @ ys) (length xs + i) = chr_at ys i"
  by (simp add: chr_at_def nth_append)

lemma chr_at_here [simp]: "chr_at (xs @ y # ys) (length xs) = y"
  using chr_at_append [of xs "y # ys" 0] by (simp add: chr_at_def)

text \<open>The children a mask selects.\<close>

definition selected :: "tok list \<Rightarrow> u32 \<Rightarrow> child \<Rightarrow> bool" where
  "selected ts types c \<longleftrightarrow> (case c of None \<Rightarrow> False | Some (ty, name) \<Rightarrow> ty AND types \<noteq> 0 \<and> glob ts name)"

lemma glob_star: "glob (Star # ts) s \<longleftrightarrow> (\<exists>j\<le>length s. glob ts (drop j s))"
proof (induction s)
  case Nil
  then show ?case by simp
next
  case (Cons c s)
  have "(\<exists>j\<le>length (c # s). glob ts (drop j (c # s))) \<longleftrightarrow> glob ts (c # s) \<or> (\<exists>j\<le>length s. glob ts (drop j s))"
  proof
    assume "\<exists>j\<le>length (c # s). glob ts (drop j (c # s))"
    then obtain j where "j \<le> length (c # s)" "glob ts (drop j (c # s))" by blast
    then show "glob ts (c # s) \<or> (\<exists>j\<le>length s. glob ts (drop j s))" by (cases j) auto
  next
    assume "glob ts (c # s) \<or> (\<exists>j\<le>length s. glob ts (drop j s))"
    then show "\<exists>j\<le>length (c # s). glob ts (drop j (c # s))"
    proof
      assume "glob ts (c # s)"
      then show ?thesis by (intro exI [of _ 0]) simp
    next
      assume "\<exists>j\<le>length s. glob ts (drop j s)"
      then obtain j where "j \<le> length s" "glob ts (drop j s)" by blast
      then show ?thesis by (intro exI [of _ "Suc j"]) simp
    qed
  qed
  then show ?case using Cons by simp
qed

lemma glob_min_len: "glob ts s \<Longrightarrow> min_len ts \<le> length s"
proof (induction ts arbitrary: s)
  case (Cons t ts)
  show ?case
  proof (cases "t = Star")
    case True
    then obtain j where "glob ts (drop j s)" using Cons.prems glob_star by auto
    from Cons.IH [OF this] show ?thesis using True by simp
  next
    case False
    then show ?thesis using Cons by (cases s) auto
  qed
qed simp

lemma glob_drop: "t \<noteq> Star \<Longrightarrow> glob (t # ts) (drop j s) \<longleftrightarrow> j < length s \<and> hits t (chr_at s j) \<and> glob ts (drop (j + 1) s)"
  by (cases "j < length s") (simp_all add: drop_eq_nth_Cons chr_at_def)

text \<open>A star before a token that is no joker: the search over the positions of the name, from the last possible one.\<close>

lemma glob_search:
  assumes "t \<noteq> Star"
  shows "glob (Star # t # ts) (drop n s) \<longleftrightarrow>
    (\<exists>j. n \<le> j \<and> int j \<le> int (length s) - int (min_len (t # ts)) \<and> hits t (chr_at s j) \<and> glob ts (drop (j + 1) s))"
proof -
  have "glob (Star # t # ts) (drop n s) \<longleftrightarrow> (\<exists>i\<le>length s - n. glob (t # ts) (drop (n + i) s))"
    unfolding glob_star by (simp add: add.commute)
  also have "\<dots> \<longleftrightarrow> (\<exists>j. n \<le> j \<and> j < length s \<and> hits t (chr_at s j) \<and> glob ts (drop (j + 1) s))" (is "?l \<longleftrightarrow> ?r")
  proof
    assume ?l
    then obtain i where "glob (t # ts) (drop (n + i) s)" by blast
    then show ?r unfolding glob_drop [OF assms] by (intro exI [of _ "n + i"]) simp
  next
    assume ?r
    then obtain j where "n \<le> j" "j < length s" "hits t (chr_at s j)" "glob ts (drop (j + 1) s)" by blast
    then show ?l unfolding glob_drop [OF assms] by (intro exI [of _ "j - n"]) simp
  qed
  also have "\<dots> \<longleftrightarrow> (\<exists>j. n \<le> j \<and> int j \<le> int (length s) - int (min_len (t # ts)) \<and> hits t (chr_at s j) \<and> glob ts (drop (j + 1) s))"
  proof -
    have "j < length s \<longleftrightarrow> int j \<le> int (length s) - int (min_len (t # ts))" if "glob ts (drop (j + 1) s)" for j
      using glob_min_len [OF that] assms by auto
    then show ?thesis by blast
  qed
  finally show ?thesis .
qed

subsection \<open>What the search does on a mask\<close>

lemma rest_len_in_set:
  assumes "0x5C \<notin> set cs" "0x5D \<notin> set cs" "q \<noteq> 0x5C"
  shows "rest_len q True (cs @ 0x5D # r) = Suc (rest_len 0x5D False r)"
  using assms by (induction cs arbitrary: q) auto

lemma special_class:
  assumes "c \<in> {0x5B, 0x5C, 0x5D, 0x5E, 0x2A, 0x3F}"
  shows "\<not> is_digit c" "\<not> is_upper c" "\<not> is_lower c"
  using assms by (elim insertE emptyE; simp add: is_digit_def is_upper_def is_lower_def)+

lemma span_class:
  assumes "span_chars a b = Some R"
  shows "is_digit a \<or> is_upper a \<or> is_lower a" "is_digit b \<or> is_upper b \<or> is_lower b"
  using assms unfolding span_chars_def by (auto split: if_splits)

lemma span_bounds:
  assumes "span_chars a b = Some R"
  shows "a \<notin> {0x5B, 0x5C, 0x5D, 0x5E, 0x2A, 0x3F}" "b \<notin> {0x5B, 0x5C, 0x5D, 0x5E, 0x2A, 0x3F}"
  using span_class [OF assms] special_class by blast+

lemma rest_len_tok:
  assumes "tok_ok t" "q \<noteq> 0x5C"
  shows "\<exists>q'. q' \<noteq> 0x5C \<and> rest_len q False (render t @ r) = (if t = Star then 0 else 1) + rest_len q' False r"
proof (cases t)
  case (OneOf d ds)
  then have "rest_len q False (render t @ r) = rest_len 0x5B True ((d # ds) @ 0x5D # r)" using assms by simp
  also have "\<dots> = Suc (rest_len 0x5D False r)" by (rule rest_len_in_set) (use OneOf assms in auto)
  finally show ?thesis using OneOf by (intro exI [of _ "0x5D"]) simp
next
  case (Range a b)
  then obtain R where R: "span_chars a b = Some R" using assms by auto
  have "rest_len q False (render t @ r) = rest_len 0x5B True ([a, 0x2D, b] @ 0x5D # r)" using assms Range by simp
  also have "\<dots> = Suc (rest_len 0x5D False r)" by (rule rest_len_in_set) (use span_bounds [OF R] in auto)
  finally show ?thesis using Range by (intro exI [of _ "0x5D"]) simp
next
  case (Chr c)
  then show ?thesis using assms by (intro exI [of _ c]) auto
qed (use assms in \<open>auto intro: exI [of _ "0x3F"] exI [of _ "0x2A"]\<close>)

lemma rest_len_all:
  assumes "\<forall>t\<in>set ts. tok_ok t" "q \<noteq> 0x5C"
  shows "rest_len q False (render_all ts) = min_len ts"
  using assms
proof (induction ts arbitrary: q)
  case (Cons t ts)
  then obtain q' where "q' \<noteq> 0x5C" "rest_len q False (render t @ render_all ts) = (if t = Star then 0 else 1) + rest_len q' False (render_all ts)"
    using rest_len_tok [of t q "render_all ts"] by auto
  then show ?case using Cons by simp
qed simp

text \<open>The tokens behind a star that are skipped: \<open>?\<close> and \<open>*\<close>.\<close>

fun skip_wild :: "tok list \<Rightarrow> nat \<times> tok list" where
  "skip_wild (Any # ts) = (case skip_wild ts of (q, ts') \<Rightarrow> (Suc q, ts'))"
| "skip_wild (Star # ts) = skip_wild ts"
| "skip_wild ts = (0, ts)"

lemma skip_wild_rest:
  "skip_wild ts = (q, ts') \<Longrightarrow> (\<exists>us. ts = us @ ts' \<and> set us \<subseteq> {Any, Star}) \<and> (ts' = [] \<or> (\<exists>t us. ts' = t # us \<and> t \<noteq> Any \<and> t \<noteq> Star))"
proof (induction ts arbitrary: q rule: skip_wild.induct)
  case (1 ts)
  then obtain p where "skip_wild ts = (p, ts')" by (auto split: prod.splits)
  from "1.IH" [OF this] show ?case by (metis append_Cons insert_iff insert_subset list.simps(15))
next
  case (2 ts)
  then have "skip_wild ts = (q, ts')" by simp
  from "2.IH" [OF this] show ?case by (metis append_Cons insert_iff insert_subset list.simps(15))
qed (auto intro: exI [of _ "[]"])

lemma skip_wild_glob:
  "skip_wild ts = (q, ts') \<Longrightarrow> glob (Star # ts) s \<longleftrightarrow> q \<le> length s \<and> glob (Star # ts') (drop q s)"
proof (induction ts arbitrary: q s rule: skip_wild.induct)
  case (1 ts)
  then obtain p where p: "skip_wild ts = (p, ts')" "q = Suc p" by (auto split: prod.splits)
  have "glob (Star # Any # ts) s \<longleftrightarrow> (\<exists>j\<le>length s. glob (Any # ts) (drop j s))" by (rule glob_star)
  also have "\<dots> \<longleftrightarrow> s \<noteq> [] \<and> glob (Star # ts) (tl s)"
  proof
    assume "\<exists>j\<le>length s. glob (Any # ts) (drop j s)"
    then obtain j where "glob (Any # ts) (drop j s)" by blast
    then have "j < length s" "glob ts (drop j (tl s))" using glob_drop [of Any ts j s] by (auto simp: drop_Suc)
    then show "s \<noteq> [] \<and> glob (Star # ts) (tl s)" unfolding glob_star by (auto intro!: exI [of _ j])
  next
    assume a: "s \<noteq> [] \<and> glob (Star # ts) (tl s)"
    then obtain j where "j \<le> length (tl s)" "glob ts (drop j (tl s))" unfolding glob_star by blast
    then show "\<exists>j\<le>length s. glob (Any # ts) (drop j s)" using a glob_drop [of Any ts j s]
      by (intro exI [of _ j]) (cases s; auto simp: drop_Suc)
  qed
  finally show ?case using "1.IH" [OF p(1), of "tl s"] p(2) by (cases s) auto
next
  case (2 ts)
  have "glob (Star # Star # ts) s \<longleftrightarrow> glob (Star # ts) s"
    by (induction s) auto
  then show ?case using "2.IH" [of q s] "2.prems" by simp
qed simp_all

lemma joker_skip_wild:
  assumes "pat = pre @ render_all ts" "length pre = m + 1" "skip_wild ts = (q, ts')" "n \<le> k" "\<forall>t\<in>set ts. tok_ok t" "chr_at pat m \<noteq> 0x5C"
  shows "joker_skip pat k n m =
    (if n + q \<le> k then Some (n + q, length pat - length (render_all ts') - 1) else None) \<and>
    (n + q \<le> k \<longrightarrow> chr_at pat (length pat - length (render_all ts') - 1) \<noteq> 0x5C)"
  using assms
proof (induction ts arbitrary: q n m pre rule: skip_wild.induct)
  case (1 ts)
  then obtain p where p: "skip_wild ts = (p, ts')" "q = Suc p" by (auto split: prod.splits)
  have c: "chr_at pat (m + 1) = 0x3F" "m + 1 < length pat" using "1.prems"(1,2) chr_at_here [of pre "0x3F" "render_all ts"] by simp_all
  have e: "joker_skip pat k n m = (if n < k then joker_skip pat k (n + 1) (m + 1) else None)"
    using c by (subst joker_skip.simps) simp
  show ?case
  proof (cases "n < k")
    case True
    have "pat = (pre @ [0x3F]) @ render_all ts" "length (pre @ [0x3F]) = (m + 1) + 1" using "1.prems"(1,2) by simp_all
    from "1.IH" [OF this p(1), of "n + 1"] True c(1) "1.prems"(5) show ?thesis unfolding e p(2) by simp
  next
    case False
    then show ?thesis using e p(2) "1.prems"(4) by simp
  qed
next
  case (2 ts)
  have c: "chr_at pat (m + 1) = 0x2A" "m + 1 < length pat" using "2.prems"(1,2) chr_at_here [of pre "0x2A" "render_all ts"] by simp_all
  have e: "joker_skip pat k n m = joker_skip pat k n (m + 1)"
    using c by (subst joker_skip.simps) simp
  have "pat = (pre @ [0x2A]) @ render_all ts" "length (pre @ [0x2A]) = (m + 1) + 1" "skip_wild ts = (q, ts')" using "2.prems"(1-3) by simp_all
  from "2.IH" [OF this "2.prems"(4)] c(1) "2.prems"(5) show ?case unfolding e by simp
next
  case "3_1"
  then show ?case by (subst joker_skip.simps) auto
next
  case "3_2"
  have "\<not> (m + 1 < length pat \<and> (chr_at pat (m + 1) = 0x3F \<or> chr_at pat (m + 1) = 0x2A))"
    using "3_2.prems"(1,2) chr_at_here [of pre] by (auto split: if_splits)
  then show ?case using "3_2.prems" by (subst joker_skip.simps) auto
next
  case "3_3"
  have "\<not> (m + 1 < length pat \<and> (chr_at pat (m + 1) = 0x3F \<or> chr_at pat (m + 1) = 0x2A))"
    using "3_3.prems"(1,2) chr_at_here [of pre "0x5B"] by auto
  then show ?case using "3_3.prems" by (subst joker_skip.simps) auto
next
  case "3_4"
  have "\<not> (m + 1 < length pat \<and> (chr_at pat (m + 1) = 0x3F \<or> chr_at pat (m + 1) = 0x2A))"
    using "3_4.prems"(1,2) chr_at_here [of pre "0x5B"] by auto
  then show ?case using "3_4.prems" by (subst joker_skip.simps) auto
qed

lemma scan_set_list:
  assumes "pat = pre @ cs @ 0x5D # r" "length pre = i" "0x5D \<notin> set cs"
  shows "(c \<in> set cs \<longrightarrow> (\<exists>j\<ge>i. scan_set pat c i = (True, j) \<and> find_close pat j = i + length cs)) \<and>
    (c \<notin> set cs \<longrightarrow> scan_set pat c i = (False, i + length cs))"
  using assms
proof (induction cs arbitrary: pre i)
  case Nil
  then have "chr_at pat i = 0x5D" using chr_at_here [of pre] by auto
  then show ?case by (simp add: scan_set.simps [of pat c i])
next
  case (Cons d cs)
  have d: "chr_at pat i = d" "i < length pat" using Cons.prems(1,2) chr_at_here [of pre d] by auto
  have dn: "d \<noteq> 0x5D" using Cons.prems(3) by auto
  have IH: "pat = (pre @ [d]) @ cs @ 0x5D # r" "length (pre @ [d]) = i + 1" "0x5D \<notin> set cs" using Cons.prems by simp_all
  note I = Cons.IH [OF IH]
  show ?case
  proof (cases "d = c")
    case True
    have "find_close pat i = i + length (d # cs)"
    proof -
      have "find_close pat j = j + length es" if "pat = qre @ es @ 0x5D # r" "length qre = j" "0x5D \<notin> set es" for qre es j
        using that
      proof (induction es arbitrary: qre j)
        case Nil
        then have "chr_at pat j = 0x5D" using chr_at_here [of qre] by auto
        then show ?case by (simp add: find_close.simps [of pat j])
      next
        case (Cons e es)
        have e: "chr_at pat j = e" "j < length pat" using Cons.prems(1,2) chr_at_here [of qre e] by auto
        have "pat = (qre @ [e]) @ es @ 0x5D # r" "length (qre @ [e]) = j + 1" "0x5D \<notin> set es" using Cons.prems by simp_all
        from Cons.IH [OF this] show ?case using e Cons.prems(3) by (simp add: find_close.simps [of pat j])
      qed
      from this [OF Cons.prems(1,2,3)] show ?thesis .
    qed
    moreover have "scan_set pat c i = (True, i)" using d dn True by (simp add: scan_set.simps [of pat c i])
    ultimately show ?thesis using True by auto
  next
    case False
    then have "scan_set pat c i = scan_set pat c (i + 1)" using d dn by (simp add: scan_set.simps [of pat c i])
    then show ?thesis using I False by (auto intro: le_trans)
  qed
qed

lemma set_at_tok:
  assumes "pat = pre @ render t @ r" "length pre = m" "tok_ok t" "t = OneOf d ds \<or> t = Range a b"
  shows "set_at pat name n m = (if hits t (chr_at name n) then (1, n + 1, m + length (render t)) else (0, n, m))"
proof -
  have at: "chr_at pat (m + i) = chr_at (render t @ r) i" for i using assms(1,2) chr_at_append by metis
  from assms(4) show ?thesis
  proof
    assume t: "t = OneOf d ds"
    have ok: "d \<noteq> 0x5E" "0x5D \<notin> set (d # ds)" "ds \<noteq> [] \<longrightarrow> hd ds \<noteq> 0x2D" using assms(3) t by simp_all
    have c1: "chr_at pat (m + 1) = d" using at [of 1] t by (simp add: chr_at_def)
    have c2: "chr_at pat (m + 2) \<noteq> 0x2D" using at [of 2] t ok(3) by (cases ds) (simp_all add: chr_at_def)
    have cl: "chr_at pat (m + 1 + length (d # ds)) = 0x5D" using at [of "1 + length (d # ds)"] t by (simp add: chr_at_def nth_append)
    have l: "m + 2 < length pat" using assms(1,2) t by simp
    have "pat = (pre @ [0x5B]) @ (d # ds) @ 0x5D # r" "length (pre @ [0x5B]) = m + 1" using assms(1,2) t by simp_all
    from scan_set_list [OF this ok(2), of "chr_at name n"]
    have S: "chr_at name n \<in> set (d # ds) \<Longrightarrow> \<exists>j. scan_set pat (chr_at name n) (m + 1) = (True, j) \<and> find_close pat j = m + 1 + length (d # ds)"
      "chr_at name n \<notin> set (d # ds) \<Longrightarrow> scan_set pat (chr_at name n) (m + 1) = (False, m + 1 + length (d # ds))" by blast+
    show ?thesis
    proof (cases "chr_at name n \<in> set (d # ds)")
      case True
      then obtain j where "scan_set pat (chr_at name n) (m + 1) = (True, j)" "find_close pat j = m + 1 + length (d # ds)" using S(1) by blast
      then show ?thesis using True ok(1) c1 c2 cl l t by (simp add: set_at_def Let_def)
    next
      case False
      then show ?thesis using S(2) ok(1) c1 c2 cl l t by (simp add: set_at_def Let_def)
    qed
  next
    assume t: "t = Range a b"
    then obtain R where R: "span_chars a b = Some R" using assms(3) by auto
    have "chr_at pat (m + 1) = a" "chr_at pat (m + 2) = 0x2D" "chr_at pat (m + 3) = b" "chr_at pat (m + 4) = 0x5D"
      using at [of 1] at [of 2] at [of 3] at [of 4] t by (simp_all add: chr_at_def)
    moreover have "m + 5 \<le> length pat" using assms(1,2) t by simp
    ultimately show ?thesis using span_bounds(1) [OF R] R t by (simp add: set_at_def Let_def)
  qed
qed

lemma upto_split:
  assumes "int n \<le> i"
  shows "(\<exists>j. n \<le> j \<and> int j \<le> i \<and> P j) \<longleftrightarrow> P (nat i) \<or> (\<exists>j. n \<le> j \<and> int j \<le> i - 1 \<and> P j)" (is "?l \<longleftrightarrow> ?r")
proof
  assume ?l
  then obtain j where j: "n \<le> j" "int j \<le> i" "P j" by blast
  show ?r
  proof (cases "j = nat i")
    case False
    then have "int j \<le> i - 1" using j(2) by linarith
    then show ?thesis using j by blast
  qed (use j in simp)
next
  assume r: ?r
  have "n \<le> nat i" "int (nat i) \<le> i" using assms by simp_all
  then show ?l using r by (metis diff_add_cancel less_le_not_le zle_diff1_eq)
qed

lemma search_joker:
  assumes "\<And>j. n \<le> j \<Longrightarrow> int j \<le> i0 \<Longrightarrow> search pat name (In_loop (j + 1) (m + 2)) = Some (of_bool (G j))"
    and "chr_at pat (m + 1) = c" "i \<le> i0"
  shows "search pat name (In_joker i n m) = Some (of_bool (\<exists>j. n \<le> j \<and> int j \<le> i \<and> chr_at name j = c \<and> G j))"
  using assms(3)
proof (induction "nat (i + 1 - int n)" arbitrary: i)
  case 0
  then have "i < int n" by simp
  then show ?case by (subst search.simps) auto
next
  case (Suc x)
  have i: "int n \<le> i" "nat i \<ge> n" using Suc.hyps(2) by linarith+
  have IH: "search pat name (In_joker (i - 1) n m) = Some (of_bool (\<exists>j. n \<le> j \<and> int j \<le> i - 1 \<and> chr_at name j = c \<and> G j))"
    by (rule Suc.hyps(1)) (use Suc.hyps(2) Suc.prems in simp_all)
  have L: "search pat name (In_loop (nat i + 1) (m + 2)) = Some (of_bool (G (nat i)))"
    by (rule assms(1)) (use i Suc.prems in simp_all)
  have "search pat name (In_joker i n m) =
      (if chr_at name (nat i) = c then do { r \<leftarrow> Some (of_bool (G (nat i))); if r \<noteq> 0 then Some r else search pat name (In_joker (i - 1) n m) }
       else search pat name (In_joker (i - 1) n m))"
    using i(1) assms(2) by (subst search.simps) (simp add: L [simplified])
  then show ?case unfolding IH upto_split [OF i(1)] by (cases "G (nat i)") auto
qed

lemma search_joker_set:
  assumes "\<And>j. n \<le> j \<Longrightarrow> int j \<le> i0 \<Longrightarrow> search pat name (In_loop (j + 1) M) = Some (of_bool (G j))"
    and "\<And>j. set_at pat name j (m + 1) = (if H j then (1, j + 1, M) else (0, j, m + 1))" "i \<le> i0"
  shows "search pat name (In_joker_set i n m) = Some (of_bool (\<exists>j. n \<le> j \<and> int j \<le> i \<and> H j \<and> G j))"
  using assms(3)
proof (induction "nat (i + 1 - int n)" arbitrary: i)
  case 0
  then have "i < int n" by simp
  then show ?case by (subst search.simps) auto
next
  case (Suc x)
  have i: "int n \<le> i" "nat i \<ge> n" using Suc.hyps(2) by linarith+
  have IH: "search pat name (In_joker_set (i - 1) n m) = Some (of_bool (\<exists>j. n \<le> j \<and> int j \<le> i - 1 \<and> H j \<and> G j))"
    by (rule Suc.hyps(1)) (use Suc.hyps(2) Suc.prems in simp_all)
  have L: "search pat name (In_loop (nat i + 1) M) = Some (of_bool (G (nat i)))"
    by (rule assms(1)) (use i Suc.prems in simp_all)
  have "search pat name (In_joker_set i n m) =
      (if H (nat i) then do { r \<leftarrow> Some (of_bool (G (nat i))); if r \<noteq> 0 then Some r else search pat name (In_joker_set (i - 1) n m) }
       else search pat name (In_joker_set (i - 1) n m))"
    using i(1) assms(2) by (subst search.simps) (simp add: L [simplified])
  then show ?case unfolding IH upto_split [OF i(1)] by (cases "G (nat i)") auto
qed

text \<open>What \<open>joker\<close> decides, and where it starts to search.\<close>

lemma joker_star:
  assumes "pat = pre @ 0x2A # render_all ts" "length pre = m" "\<forall>t\<in>set ts. tok_ok t" "n \<le> length name"
  shows "(\<exists>b. joker pat name n m = Inl (of_bool b) \<and> glob (Star # ts) (drop n name) = b) \<or>
    (\<exists>us u vs k M. ts = us @ u # vs \<and> u \<noteq> Star \<and> u \<noteq> Any \<and> glob (Star # ts) (drop n name) = glob (Star # u # vs) (drop k name) \<and>
       n \<le> k \<and> k \<le> length name \<and> length pat = M + length (render_all (u # vs)) + 1 \<and>
       joker pat name n m =
         (let i = int (length name) - int (min_len (u # vs))
          in case u of Chr c \<Rightarrow> Inr (In_joker i k (M + length (render u) - 1)) | _ \<Rightarrow> Inr (In_joker_set i k M)))"
proof -
  obtain q ts' where w: "skip_wild ts = (q, ts')" by force
  have p: "pat = (pre @ [0x2A]) @ render_all ts" "length (pre @ [0x2A]) = m + 1" "chr_at pat m \<noteq> 0x5C"
    using assms(1,2) chr_at_here [of pre "0x2A"] by auto
  define M where "M = length pat - length (render_all ts') - 1"
  note sk = joker_skip_wild [OF p(1,2) w assms(4,3) p(3), folded M_def]
  obtain us where us: "ts = us @ ts'" and hd: "ts' = [] \<or> (\<exists>u vs. ts' = u # vs \<and> u \<noteq> Any \<and> u \<noteq> Star)" using skip_wild_rest [OF w] by blast
  have G: "glob (Star # ts) (drop n name) \<longleftrightarrow> n + q \<le> length name \<and> glob (Star # ts') (drop (n + q) name)"
    using skip_wild_glob [OF w, of "drop n name"] assms(4) by (auto simp: add.commute)
  show ?thesis
  proof (cases "n + q \<le> length name")
    case False
    then show ?thesis using sk G by (intro disjI1 exI [of _ False]) (simp add: joker_def)
  next
    case k: True
    have js: "joker_skip pat (length name) n m = Some (n + q, M)" "chr_at pat M \<noteq> 0x5C" using sk k by simp_all
    have lp: "length pat = M + length (render_all ts') + 1" using assms(1) us by (simp add: M_def render_all_def)
    from hd show ?thesis
    proof (elim disjE exE conjE)
      assume e: "ts' = []"
      then have "glob (Star # ts') (drop (n + q) name)" unfolding e glob_star by (intro exI [of _ "length name - (n + q)"]) simp
      moreover have "joker pat name n m = Inl 1" using js lp e by (simp add: joker_def)
      ultimately show ?thesis using G k by (intro disjI1 exI [of _ True]) simp
    next
      fix u vs
      assume e: "ts' = u # vs" "u \<noteq> Any" "u \<noteq> Star"
      have ok: "\<forall>t\<in>set (u # vs). tok_ok t" using assms(3) us e by simp
      have ml: "min_len (u # vs) = Suc (min_len vs)" using e by simp
      let ?q = "pre @ 0x2A # render_all us"
      have pq: "pat = ?q @ render_all (u # vs)" using assms(1) us e(1) by (simp add: render_all_def)
      have lq: "length ?q = M + 1" using arg_cong [OF pq, of length] lp unfolding e(1) length_append by linarith
      have dr: "drop (M + 1) pat = render_all (u # vs)" using pq lq by (metis append_eq_conv_conj)
      have at: "chr_at pat (M + 1 + j) = chr_at (render_all (u # vs)) j" for j
        unfolding lq [symmetric] by (subst pq) (rule chr_at_append)
      have rl: "rest_len (chr_at pat M) False (drop (M + 1) pat) = min_len (u # vs)"
        unfolding dr by (rule rest_len_all [OF ok js(2)])
      have len: "length (render_all ts') \<noteq> 0" unfolding e(1) by (cases u) simp_all
      have ne: "M + 1 \<noteq> length pat" using lp len by linarith
      show ?thesis
      proof (cases "n + q = length name")
        case True
        then have "joker pat name n m = Inl 0" using js(1) ne by (simp add: joker_def)
        moreover have "\<not> glob (Star # ts') (drop (n + q) name)" using glob_min_len [of "Star # ts'" "drop (n + q) name"] True e ml by auto
        ultimately show ?thesis using G by (intro disjI1 exI [of _ False]) simp
      next
        case False
        let ?i = "int (length name) - int (min_len (u # vs))"
        let ?m = "if chr_at pat (M + 1) = 0x5C then M + 1 else M"
        have J: "joker pat name n m = (if chr_at pat (?m + 1) \<noteq> 0x5B then Inr (In_joker ?i (n + q) ?m) else Inr (In_joker_set ?i (n + q) ?m))"
          using js(1) lp e(1) ne False rl ml by (simp add: joker_def Let_def)
        have "joker pat name n m =
          (case u of Chr c \<Rightarrow> Inr (In_joker ?i (n + q) (M + length (render u) - 1)) | _ \<Rightarrow> Inr (In_joker_set ?i (n + q) M))"
          unfolding J using at [of 0] at [of 1] e(2,3) ok by (cases u) (auto simp: chr_at_def)
        then have "joker pat name n m =
          (let i = ?i in case u of Chr c \<Rightarrow> Inr (In_joker i (n + q) (M + length (render u) - 1)) | _ \<Rightarrow> Inr (In_joker_set i (n + q) M))"
          by (simp only: Let_def)
        moreover have "glob (Star # ts) (drop n name) = glob (Star # u # vs) (drop (n + q) name)" using G k e(1) by simp
        ultimately show ?thesis using k us e lp le_add1 by blast
      qed
    qed
  qed
qed

text \<open>The whole search.\<close>

lemma search_glob:
  assumes "\<forall>t\<in>set ts. tok_ok t" "pat = pre @ render_all ts" "n \<le> length name"
  shows "search pat name (In_loop n (length pre)) = Some (of_bool (glob ts (drop n name)))"
  using assms
proof (induction "length ts" arbitrary: ts pre n rule: less_induct)
  case less
  note ok = less.prems(1) and pat = less.prems(2) and n = less.prems(3)
  let ?m = "length pre"
  show ?case
  proof (cases ts)
    case Nil
    then have "?m = length pat" using pat by simp
    then show ?thesis using Nil n by (subst search.simps) auto
  next
    case (Cons t us)
    have m: "?m < length pat" using pat Cons by (cases t) simp_all
    have next_tok: "search pat name (In_loop k (?m + length (render t))) = Some (of_bool (glob us (drop k name)))" if "k \<le> length name" for k
      using less.hyps [of us "pre @ render t" k] Cons ok pat that by simp
    have at: "chr_at pat (?m + i) = chr_at (render_all ts) i" for i unfolding pat by (rule chr_at_append)
    show ?thesis
    proof (cases "t = Star")
      case True
      have p: "pat = pre @ 0x2A # render_all us" "\<forall>t\<in>set us. tok_ok t" using pat Cons True ok by simp_all
      have c: "chr_at pat ?m = 0x2A" using p(1) by simp
      have e: "search pat name (In_loop n ?m) = (case joker pat name n ?m of Inl r \<Rightarrow> Some r | Inr st \<Rightarrow> search pat name st)"
        using c m n by (subst search.simps) auto
      from joker_star [OF p(1) refl p(2) n] show ?thesis
      proof (elim disjE exE conjE)
        fix b
        assume "joker pat name n ?m = Inl (of_bool b)" "glob (Star # us) (drop n name) = b"
        then show ?thesis using e Cons True by simp
      next
        fix us0 u vs k M
        assume j: "us = us0 @ u # vs" "u \<noteq> Star" "u \<noteq> Any" "glob (Star # us) (drop n name) = glob (Star # u # vs) (drop k name)"
          "n \<le> k" "k \<le> length name" "length pat = M + length (render_all (u # vs)) + 1"
          "joker pat name n ?m = (let i = int (length name) - int (min_len (u # vs))
             in case u of Chr c \<Rightarrow> Inr (In_joker i k (M + length (render u) - 1)) | _ \<Rightarrow> Inr (In_joker_set i k M))"
        let ?i = "int (length name) - int (min_len (u # vs))"
        let ?q = "pre @ 0x2A # render_all us0"
        have pq: "pat = ?q @ render_all (u # vs)" using p(1) j(1) by (simp add: render_all_def)
        have lq: "length ?q = M + 1" using arg_cong [OF pq, of length] j(7) unfolding length_append by linarith
        have rest: "search pat name (In_loop (l + 1) (M + 1 + length (render u))) = Some (of_bool (glob vs (drop (l + 1) name)))"
          if "k \<le> l" "int l \<le> ?i" for l
        proof -
          have "length vs < length ts" using Cons j(1) by simp
          moreover have "\<forall>t\<in>set vs. tok_ok t" using p(2) j(1) by simp
          moreover have "pat = (?q @ render u) @ render_all vs" using pq by simp
          moreover have "l + 1 \<le> length name" using that j(2) by simp
          ultimately have "search pat name (In_loop (l + 1) (length (?q @ render u))) = Some (of_bool (glob vs (drop (l + 1) name)))"
            by (rule less.hyps)
          then show ?thesis using lq by (simp only: length_append)
        qed
        have uok: "tok_ok u" using p(2) j(1) by simp
        have atu: "chr_at pat (M + 1 + i) = chr_at (render_all (u # vs)) i" for i unfolding pq lq [symmetric] by (rule chr_at_append)
        have R: "search pat name (case u of Chr c \<Rightarrow> In_joker ?i k (M + length (render u) - 1) | _ \<Rightarrow> In_joker_set ?i k M) =
            Some (of_bool (\<exists>l. k \<le> l \<and> int l \<le> ?i \<and> hits u (chr_at name l) \<and> glob vs (drop (l + 1) name)))"
        proof (cases u)
          case (Chr c)
          have L: "M + 1 + length (render u) = M + length (render u) - 1 + 2" using Chr by simp
          have C: "chr_at pat (M + length (render u) - 1 + 1) = c"
            using atu [of "length (render u) - 1"] Chr by (auto simp: chr_at_def nth_append)
          from search_joker [OF rest [unfolded L] C order_refl, of k] show ?thesis using Chr by simp
        next
          case (OneOf d ds)
          have pq': "pat = ?q @ render u @ render_all vs" using pq by simp
          have S: "set_at pat name l (M + 1) = (if hits u (chr_at name l) then (1, l + 1, M + 1 + length (render u)) else (0, l, M + 1))" for l
            by (rule set_at_tok [OF pq' lq uok]) (use OneOf in blast)
          from search_joker_set [OF rest S order_refl] show ?thesis using OneOf by simp
        next
          case (Range a b)
          have pq': "pat = ?q @ render u @ render_all vs" using pq by simp
          have S: "set_at pat name l (M + 1) = (if hits u (chr_at name l) then (1, l + 1, M + 1 + length (render u)) else (0, l, M + 1))" for l
            by (rule set_at_tok [OF pq' lq uok]) (use Range in blast)
          from search_joker_set [OF rest S order_refl] show ?thesis using Range by simp
        qed (use j(2,3) in simp_all)
        have "search pat name (In_loop n ?m) = search pat name (case u of Chr c \<Rightarrow> In_joker ?i k (M + length (render u) - 1) | _ \<Rightarrow> In_joker_set ?i k M)"
          unfolding e j(8) Let_def by (cases u) simp_all
        then show ?thesis unfolding R using j(4) glob_search [OF j(2), of vs k name] Cons True by simp
      qed
    next
      case False
      note g = glob_drop [OF False, of us n name]
      show ?thesis
      proof (cases "n < length name")
        case n: False
        then have "chr_at pat ?m \<noteq> 0x2A" using at [of 0] Cons False ok by (cases t) (auto simp: chr_at_def)
        then have "search pat name (In_loop n ?m) = Some 0" using n m by (subst search.simps) auto
        then show ?thesis using g n Cons by simp
      next
        case n: True
        show ?thesis
        proof (cases "\<exists>d ds a b. t = OneOf d ds \<or> t = Range a b")
          case True
          then obtain d ds a b where t: "t = OneOf d ds \<or> t = Range a b" by blast
          have "pat = pre @ render t @ render_all us" "tok_ok t" using pat Cons ok by simp_all
          note S = set_at_tok [OF this(1) refl this(2) t, of name n]
          have "chr_at pat ?m = 0x5B" using at [of 0] Cons t by (auto simp: chr_at_def)
          then have "search pat name (In_loop n ?m) =
              (if hits t (chr_at name n) then search pat name (In_loop (n + 1) (?m + length (render t))) else Some 0)"
            using n m by (subst search.simps) (simp add: S)
          then show ?thesis using next_tok [of "n + 1"] g n Cons by simp
        next
          case s: False
          have "search pat name (In_loop n ?m) =
              (if hits t (chr_at name n) then search pat name (In_loop (n + 1) (?m + length (render t))) else Some 0)"
          proof (cases t)
            case (Chr c)
            then show ?thesis using n m at [of 0] at [of 1] Cons ok pat by (subst search.simps) (auto simp: chr_at_def)
          next
            case Any
            then show ?thesis using n m at [of 0] Cons by (subst search.simps) (auto simp: chr_at_def)
          qed (use s False in auto)
          then show ?thesis using next_tok [of "n + 1"] g n Cons by simp
        qed
      qed
    qed
  qed
qed

lemma matches_glob:
  "\<forall>t\<in>set ts. tok_ok t \<Longrightarrow> matches (render_all ts) name = Some (if glob ts name then 1 else 0)"
  using search_glob [of ts "render_all ts" "[]" 0 name] by (simp add: matches_def)

lemma skip_glob:
  assumes "\<forall>t\<in>set ts. tok_ok t"
  shows "skipWhileNotMatching (render_all ts) types cs =
    Some (dropWhile (\<lambda>c. \<not> selected ts types c) cs)"
  by (induction "render_all ts" types cs rule: skipWhileNotMatching.induct) (simp_all add: matches_glob [OF assms] selected_def)

lemma masked_children_glob:
  assumes "\<forall>t\<in>set ts. tok_ok t"
  shows "masked_children (render_all ts) types cs =
    Some (filter (selected ts types) cs)"
proof (induction "length cs" arbitrary: cs rule: less_induct)
  case less
  have f: "filter (selected ts types) cs = filter (selected ts types) (dropWhile (\<lambda>c. \<not> selected ts types c) cs)" by (induction cs) auto
  show ?case
  proof (cases "dropWhile (\<lambda>c. \<not> selected ts types c) cs")
    case Nil
    then show ?thesis by (subst f, subst masked_children.simps) (simp only: skip_glob [OF assms] bind.bind_lunit list.case filter.simps)
  next
    case (Cons d ds)
    have "length (d # ds) \<le> length cs" unfolding Cons [symmetric] by (rule length_dropWhile_le)
    then have "masked_children (render_all ts) types ds = Some (filter (selected ts types) ds)" by (intro less.hyps) simp
    moreover have "selected ts types d" using hd_dropWhile [of "\<lambda>c. \<not> selected ts types c" cs] Cons by simp
    ultimately show ?thesis by (subst f, subst masked_children.simps) (simp only: skip_glob [OF assms] bind.bind_lunit Cons list.case filter.simps if_True)
  qed
qed

subsection \<open>Masks that never return\<close>

lemma search_stuck:
  assumes "set_at pat name n m = (r, n, m)" "r \<noteq> 0" "n < length name" "m < length pat" "chr_at pat m = 0x5B"
  shows "search pat name (In_loop n m) = None"
proof (rule ccontr)
  assume "\<not> ?thesis"
  then obtain v where v: "search pat name (In_loop n m) = Some v" by blast
  have "pat = pat \<and> name = name \<longrightarrow> In_loop n m \<noteq> In_loop n m"
  proof (rule search.raw_induct [where P = "\<lambda>p q st v. p = pat \<and> q = name \<longrightarrow> st \<noteq> In_loop n m", OF _ v], goal_cases)
    case (1 f p q st v)
    show ?case
    proof (intro impI notI)
      assume e: "p = pat \<and> q = name" "st = In_loop n m"
      then have "f pat name (In_loop n m) = Some v" using 1(2) assms by simp
      then show False using 1(1) by blast
    qed
  qed
  then show False by simp
qed

lemma set_at_open:
  assumes "\<And>i. chr_at pat i \<noteq> 0x5D"
  shows "set_at pat name n m = (- (int m + 1), n, m)"
  using assms by (auto simp: set_at_def Let_def split: prod.splits bool.splits)

lemma set_at_negated:
  assumes "pat = pre @ [0x5B, 0x5E] @ cs @ 0x5D # r" "length pre = m" "0x5D \<notin> set cs" "chr_at name n \<notin> set cs" "cs \<noteq> []" "tl cs \<noteq> [] \<longrightarrow> hd (tl cs) \<noteq> 0x2D"
  shows "set_at pat name n m = (1, n, m)"
proof -
  have at: "chr_at pat (m + i) = chr_at ([0x5B, 0x5E] @ cs @ 0x5D # r) i" for i using assms(1,2) chr_at_append by metis
  have l: "m + 2 < length pat" using assms(1,2) by simp
  have c1: "chr_at pat (m + 1) = 0x5E" using at [of 1] by (simp add: chr_at_def)
  have c3: "chr_at pat (m + 3) \<noteq> 0x2D"
    using at [of 3] assms(5,6) by (cases cs; cases "tl cs") (auto simp: chr_at_def)
  have p: "pat = (pre @ [0x5B, 0x5E]) @ cs @ 0x5D # r" "length (pre @ [0x5B, 0x5E]) = m + 2" using assms(1,2) by simp_all
  have S: "scan_set pat (chr_at name n) (m + 2) = (False, m + 2 + length cs)"
    using scan_set_list [OF p assms(3)] assms(4) by blast
  have c: "chr_at pat (m + 2 + length cs) = 0x5D" using at [of "2 + length cs"] by (simp add: chr_at_def nth_append)
  show ?thesis using l c1 c3 S c by (simp add: set_at_def Let_def)
qed

subsection \<open>Properties\<close>

text \<open>
  C15. A mask of characters, jokers, sets and ranges (written without escaped brackets and backslashes) always gives an answer, and it
  is 1 for the names that match and 0 for the others: the search from the last possible position, with the length of the rest as a
  bound, misses no match.
\<close>

theorem mask_matches:
  assumes "\<forall>t\<in>set ts. tok_ok t"
  shows "matches (render_all ts) name = Some (if glob ts name then 1 else 0)"
  by (rule matches_glob [OF assms])

text \<open>The mask \<open>a*[0-9]?\<close> and the names \<open>ab7c\<close> and \<open>abc\<close>.\<close>

theorem mask_matches_witness:
  "matches [0x61, 0x2A, 0x5B, 0x30, 0x2D, 0x39, 0x5D, 0x3F] [0x61, 0x62, 0x37, 0x63] = Some 1 \<and>
   matches [0x61, 0x2A, 0x5B, 0x30, 0x2D, 0x39, 0x5D, 0x3F] [0x61, 0x62, 0x63] = Some 0"
proof -
  let ?ts = "[Chr 0x61, Star, Range 0x30 0x39, Any]"
  have R: "span_chars 0x30 0x39 = Some (\<lambda>c. 0x30 \<le> c \<and> c \<le> 0x39)" by (simp add: span_chars_def is_digit_def)
  then have ok: "\<forall>t\<in>set ?ts. tok_ok t" by simp
  show ?thesis using mask_matches [OF ok, of "[0x61, 0x62, 0x37, 0x63]"] mask_matches [OF ok, of "[0x61, 0x62, 0x63]"] by (simp add: R)
qed

text \<open>
  With such a mask the iterator over the children of a domain gives exactly those with a type of the type mask and a name that
  matches, in their order, and no null handle.
\<close>

theorem masked_children_filtered:
  assumes "\<forall>t\<in>set ts. tok_ok t"
  shows "masked_children (render_all ts) types cs =
    Some (filter (selected ts types) cs)"
  by (rule masked_children_glob [OF assms])

theorem masked_children_filtered_witness:
  "masked_children [0x61, 0x2A] 3 [Some (1, [0x61, 0x62]), None, Some (4, [0x61]), Some (2, [0x62]), Some (2, [0x61])] =
    Some [Some (1, [0x61, 0x62]), Some (2, [0x61])]"
  using masked_children_filtered [of "[Chr 0x61, Star]" 3 "[Some (1, [0x61, 0x62]), None, Some (4, [0x61]), Some (2, [0x62]), Some (2, [0x61])]"]
  by (simp add: selected_def)

text \<open>
  C27. Two masks never return: when a negated set accepts a character the search stays where it is, and so it does when a set has no closing
  bracket, because the error is only reported behind a joker. A client can send such a mask with a request for the children of a
  domain.
\<close>

theorem mask_hangs:
  "(cs \<noteq> [] \<and> 0x5D \<notin> set cs \<and> c \<notin> set cs \<and> (tl cs \<noteq> [] \<longrightarrow> hd (tl cs) \<noteq> 0x2D) \<longrightarrow>
      matches (0x5B # 0x5E # cs @ 0x5D # r) (c # s) = None) \<and>
   (0x5D \<notin> set cs \<longrightarrow> matches (0x5B # cs) (c # s) = None)"
proof (intro conjI impI)
  assume a: "cs \<noteq> [] \<and> 0x5D \<notin> set cs \<and> c \<notin> set cs \<and> (tl cs \<noteq> [] \<longrightarrow> hd (tl cs) \<noteq> 0x2D)"
  have "set_at (0x5B # 0x5E # cs @ 0x5D # r) (c # s) 0 0 = (1, 0, 0)"
    by (rule set_at_negated [where pre = "[]" and cs = cs and r = r]) (use a in \<open>simp_all add: chr_at_def\<close>)
  then show "matches (0x5B # 0x5E # cs @ 0x5D # r) (c # s) = None"
    unfolding matches_def by (rule search_stuck) (simp_all add: chr_at_def)
next
  assume a: "0x5D \<notin> set cs"
  have "chr_at (0x5B # cs) i \<noteq> 0x5D" for i
    using a nth_mem [of "i - 1" cs] by (cases i) (auto simp: chr_at_def simp del: nth_mem dest: nth_mem)
  from set_at_open [OF this]
  have "set_at (0x5B # cs) (c # s) 0 0 = (- (int 0 + 1), 0, 0)" by blast
  then show "matches (0x5B # cs) (c # s) = None"
    unfolding matches_def by (rule search_stuck) (simp_all add: chr_at_def)
qed

theorem mask_hangs_witness:
  "matches [0x5B, 0x5E, 0x61, 0x5D] [0x62] = None \<and> matches [0x5B, 0x61] [0x62] = None"
  using mask_hangs [of "[0x61]" "0x62" "[]" "[]"] by simp

text \<open>Behind a star an escaped bracket opens a set: the mask \<open>*\[x\<close> is reported as wrong at its third character.\<close>

lemma escaped_bracket_behind_star: "matches [0x2A, 0x5C, 0x5B, 0x78] [0x5B, 0x78] = Some (- 3)"
proof -
  have j: "joker [0x2A, 0x5C, 0x5B, 0x78] [0x5B, 0x78] 0 0 = Inr (In_joker_set 0 0 1)"
    by (simp add: joker_def joker_skip.simps chr_at_def)
  have "search [0x2A, 0x5C, 0x5B, 0x78] [0x5B, 0x78] (In_joker_set 0 0 1) = Some (- 3)"
    by (subst search.simps) (simp add: set_at_def)
  then show ?thesis unfolding matches_def by (subst search.simps) (simp add: j chr_at_def)
qed

end
