(* ===== verification/KsRegister.thy ===== *)
theory KsRegister
  imports KsValue KsResult PltHashTable
begin

text \<open>
  What servers and clients tell the manager (ks/include/ks/register.h, ks/src/register.cpp): server descriptions, the parameters
  of a registration and the result of a query, their serialization, and the keys of the tables of the manager: the hash value of
  a string and the string for a number (plt/src/string.cpp).
\<close>

subsection \<open>Server descriptions\<close>

record server_desc =
  sd_name :: "byte list"
  protocol_version :: "16 word"

record registration =
  reg_server :: server_desc
  reg_port :: "16 word"
  reg_time_to_live :: u32

record get_server_result =
  gs_result :: ks_result
  gs_server :: server_desc
  gs_port :: "16 word"
  gs_expires_at :: timeval
  gs_living :: bool

definition desc_encode :: "'s xdr_ops \<Rightarrow> server_desc \<Rightarrow> 's coder" where
  "desc_encode ops d = and_then (string_encode ops (sd_name d)) (ks_xdre (xdr_u_short ops) (protocol_version d))"

definition desc_decode :: "alloc_env \<Rightarrow> 's xdr_ops \<Rightarrow> ('s, server_desc) decoder" where
  "desc_decode env ops =
     then_with (string_decode env ops) (\<lambda>n.
       then_with (ks_xdrd (xdr_u_short ops) 0) (\<lambda>v. deliver \<lparr>sd_name = n, protocol_version = v\<rparr>))"

definition registration_encode :: "'s xdr_ops \<Rightarrow> registration \<Rightarrow> 's coder" where
  "registration_encode ops r =
     and_then (desc_encode ops (reg_server r))
    (and_then (ks_xdre (xdr_u_short ops) (reg_port r)) (ks_xdre (xdr_u_long ops) (reg_time_to_live r)))"

definition registration_decode :: "alloc_env \<Rightarrow> 's xdr_ops \<Rightarrow> ('s, registration) decoder" where
  "registration_decode env ops =
     then_with (desc_decode env ops) (\<lambda>d.
       then_with (ks_xdrd (xdr_u_short ops) 0) (\<lambda>p.
         then_with (ks_xdrd (xdr_u_long ops) 0) (\<lambda>t.
           deliver \<lparr>reg_server = d, reg_port = p, reg_time_to_live = t\<rparr>)))"

definition unregistration_encode :: "'s xdr_ops \<Rightarrow> server_desc \<Rightarrow> 's coder" where
  "unregistration_encode = desc_encode"

definition unregistration_decode :: "alloc_env \<Rightarrow> 's xdr_ops \<Rightarrow> ('s, server_desc) decoder" where
  "unregistration_decode = desc_decode"

text \<open>The rest of a result is sent only when it is \<open>KS_ERR_OK\<close>; \<open>old\<close> is what the object held before.\<close>

definition get_result_encode :: "'s xdr_ops \<Rightarrow> get_server_result \<Rightarrow> 's coder" where
  "get_result_encode ops r =
     and_then (ks_xdre (xdr_enum ops) (gs_result r))
       (if gs_result r \<noteq> KS_ERR_OK then (\<lambda>s. Some (True, s))
        else and_then (desc_encode ops (gs_server r))
            (and_then (ks_xdre (xdr_u_short ops) (gs_port r))
            (and_then (time_encode ops (gs_expires_at r)) (ks_xdre_bool ops (gs_living r)))))"

definition get_result_decode :: "alloc_env \<Rightarrow> 's xdr_ops \<Rightarrow> get_server_result \<Rightarrow> ('s, get_server_result) decoder" where
  "get_result_decode env ops old =
     then_with (ks_xdrd (xdr_enum ops) 0) (\<lambda>res.
       if res \<noteq> KS_ERR_OK then deliver (old\<lparr>gs_result := res\<rparr>)
       else then_with (desc_decode env ops) (\<lambda>d.
              then_with (ks_xdrd (xdr_u_short ops) 0) (\<lambda>p.
                then_with (time_decode ops) (\<lambda>t.
                  then_with (ks_xdrd_bool ops) (\<lambda>l.
                    deliver \<lparr>gs_result = res, gs_server = d, gs_port = p, gs_expires_at = t, gs_living = l\<rparr>)))))"

subsection \<open>Keys\<close>

unbundle bit_operations_syntax

text \<open>\<open>PltString::hash\<close>; \<open>sg\<close> tells whether plain \<open>char\<close> is signed. It stops at a null character.\<close>

fun hash_loop :: "bool \<Rightarrow> u32 \<Rightarrow> byte list \<Rightarrow> u32" where
  "hash_loop sg res [] = res"
| "hash_loop sg res (c # cs) =
     (if c = 0 then res
      else let res = push_bit 4 res + (if sg then scast c else ucast c);
               g = res AND 0xF0000000
           in hash_loop sg (if g \<noteq> 0 then (res XOR drop_bit 24 g) XOR g else res) cs)"

definition string_hash :: "bool \<Rightarrow> byte list \<Rightarrow> nat" where
  "string_hash sg s = unat (hash_loop sg 0 s)"

definition desc_hash :: "bool \<Rightarrow> server_desc \<Rightarrow> nat" where
  "desc_hash sg d = unat (hash_loop sg 0 (sd_name d) XOR ucast (protocol_version d))"

text \<open>\<open>PltString::fromInt\<close>, that is \<open>sprintf\<close> with \<open>%d\<close>.\<close>

fun decimal :: "nat \<Rightarrow> byte list" where
  "decimal n = (if n < 10 then [of_nat (48 + n)] else decimal (n div 10) @ [of_nat (48 + n mod 10)])"

declare decimal.simps [simp del]

definition fromInt :: "int \<Rightarrow> byte list" where
  "fromInt i = (if i < 0 then 0x2D # decimal (nat (- i)) else decimal (nat i))"

definition number :: "byte list \<Rightarrow> nat" where
  "number cs = foldl (\<lambda>a c. 10 * a + (unat c - 48)) 0 cs"

lemma number_decimal: "number (decimal n) = n"
proof (induction n rule: decimal.induct)
  case (1 n)
  have d: "unat (of_nat (48 + k) :: byte) = 48 + k" if "k < 10" for k using that by (simp only: unat_of_nat) simp
  show ?case
  proof (cases "n < 10")
    case True
    then show ?thesis using d [of n] by (subst decimal.simps) (simp add: number_def)
  next
    case False
    have "number (decimal n) = 10 * number (decimal (n div 10)) + n mod 10"
      using False d [of "n mod 10"] by (subst decimal.simps) (simp add: number_def)
    then show ?thesis using "1.IH" [OF False] by simp
  qed
qed

text \<open>The identifiers of the versions of a server are different.\<close>

definition version_id :: "16 word \<Rightarrow> byte list" where
  "version_id v = fromInt (int (unat v))"

lemma version_id_inj: "version_id v = version_id w \<longleftrightarrow> v = w"
proof -
  have "number (version_id v) = unat v" for v by (simp add: version_id_def fromInt_def number_decimal)
  then show ?thesis by (metis word_unat_eq_iff)
qed

subsection \<open>Round trips\<close>

definition bytes_desc :: "server_desc \<Rightarrow> byte list" where
  "bytes_desc d = bytes_string (sd_name d) @ be32 (ucast (protocol_version d))"

definition bytes_registration :: "registration \<Rightarrow> byte list" where
  "bytes_registration r = bytes_desc (reg_server r) @ be32 (ucast (reg_port r)) @ be32 (reg_time_to_live r)"

definition bytes_get_result :: "get_server_result \<Rightarrow> byte list" where
  "bytes_get_result r = be32 (gs_result r) @
     (if gs_result r \<noteq> KS_ERR_OK then []
      else bytes_desc (gs_server r) @ be32 (ucast (gs_port r)) @ bytes_time (gs_expires_at r) @ be32 (if gs_living r then 1 else 0))"

lemma ucast_u16: "ucast (ucast (v :: 16 word) :: u32) = v"
  by (rule bit_word_eqI) (simp add: bit_simps)

definition desc_sendable :: "server_desc \<Rightarrow> bool" where
  "desc_sendable d \<longleftrightarrow> length (sd_name d) < 2 ^ 32 - 1"

context byte_sink
begin

lemma writes_u_short [xdr_simps]: "writes good room written (ks_xdre (xdr_u_short ops) v) (be32 (ucast v))"
  by (rule writes_xdre [OF encodes_u_short])

lemma writes_desc: "desc_sendable d \<Longrightarrow> writes good room written (desc_encode ops d) (bytes_desc d)"
  unfolding desc_encode_def bytes_desc_def desc_sendable_def by (intro writes_and writes_string writes_u_short) simp

lemma writes_registration:
  "desc_sendable (reg_server r) \<Longrightarrow> writes good room written (registration_encode ops r) (bytes_registration r)"
  unfolding registration_encode_def bytes_registration_def by (intro writes_and writes_desc writes_u_short writes_u_long)

lemma writes_get_result:
  assumes "desc_sendable (gs_server r)"
  shows "writes good room written (get_result_encode ops r) (bytes_get_result r)"
proof (cases "gs_result r = KS_ERR_OK")
  case True
  have "writes good room written (get_result_encode ops r)
      (be32 (gs_result r) @ (bytes_desc (gs_server r) @ be32 (ucast (gs_port r)) @ bytes_time (gs_expires_at r) @
        be32 (if gs_living r then 1 else 0)))"
    unfolding get_result_encode_def if_not_P [of "gs_result r \<noteq> KS_ERR_OK", unfolded not_not, OF True]
    by (intro writes_and writes_desc writes_u_short writes_time writes_bool writes_enum assms)
  then show ?thesis using True by (simp add: bytes_get_result_def)
next
  case False
  then show ?thesis
    using writes_and [OF writes_enum writes_nothing, of "gs_result r"] by (simp add: get_result_encode_def bytes_get_result_def)
qed

end

context byte_source
begin

lemma reads_u_short [xdr_simps]: "reads good rest (ks_xdrd (xdr_u_short ops) old) v (be32 (ucast v))"
  using reads_xdrd [OF decodes_u_short [of old "ucast v"]] by (simp add: ucast_u16)

lemma reads_desc: "desc_sendable d \<Longrightarrow> alloc_ok env \<Longrightarrow> reads good rest (desc_decode env ops) d (bytes_desc d)"
  unfolding desc_decode_def bytes_desc_def desc_sendable_def
  by (cases d; intro reads_then [OF reads_string] reads_map [OF reads_u_short]) simp_all

lemma reads_registration:
  "desc_sendable (reg_server r) \<Longrightarrow> alloc_ok env \<Longrightarrow> reads good rest (registration_decode env ops) r (bytes_registration r)"
  unfolding registration_decode_def bytes_registration_def
  by (cases r; intro reads_then [OF reads_desc] reads_then [OF reads_u_short] reads_map [OF reads_u_long]) simp_all

lemma reads_get_result:
  assumes d: "desc_sendable (gs_server r)" "time_sendable (gs_expires_at r)" and env: "alloc_ok env"
    and other: "gs_result r \<noteq> KS_ERR_OK \<Longrightarrow> old\<lparr>gs_result := gs_result r\<rparr> = r"
  shows "reads good rest (get_result_decode env ops old) r (bytes_get_result r)"
proof (cases "gs_result r = KS_ERR_OK")
  case True
  have "reads good rest (get_result_decode env ops old) r
      (be32 (gs_result r) @ (bytes_desc (gs_server r) @ be32 (ucast (gs_port r)) @ bytes_time (gs_expires_at r) @
        be32 (if gs_living r then 1 else 0)))"
    unfolding get_result_decode_def
    by (intro reads_then [OF reads_enum], unfold if_not_P [of "gs_result r \<noteq> KS_ERR_OK", unfolded not_not, OF True],
        intro reads_then [OF reads_desc] reads_then [OF reads_u_short] reads_then [OF reads_time] reads_map [OF reads_bool] d env)
       (cases r; simp)
  then show ?thesis using True by (simp add: bytes_get_result_def)
next
  case False
  then show ?thesis
    using other unfolding get_result_decode_def bytes_get_result_def
    by (simp only: not_False_eq_True if_True) (intro reads_then [OF reads_enum], simp add: reads_deliver)
qed

end

text \<open>
  C38. What a server sends to the manager when it registers, and what the manager answers to a query, is understood by the other
  side: the parameters of a registration and every result of \<open>KS_GETSERVER\<close> are decoded to what was encoded, a result other
  than \<open>KS_ERR_OK\<close> to a result that leaves the rest of the receiving object as it was.
\<close>

theorem manager_messages_roundtrip:
  assumes "pool_ok g fl" "mal_ok mal" "alloc_ok env" "0 < pool_room g"
    and "length (bytes_registration r) \<le> unat (buf_size g) * pool_room g" "desc_sendable (reg_server r)"
    and "length (bytes_get_result q) \<le> unat (buf_size g) * pool_room g" "desc_sendable (gs_server q)" "time_sendable (gs_expires_at q)"
    and "gs_result q \<noteq> KS_ERR_OK \<Longrightarrow> q = old\<lparr>gs_result := gs_result q\<rparr>"
  shows "(\<exists>s t u w. ms_create mal True junk (g, x) = Some (True, s) \<and> registration_encode (ms_ops mal) r s = Some (True, t) \<and>
      ms_written t = bytes_registration r \<and> ms_rewind XDR_DECODE t = Some u \<and> registration_decode env (ms_ops mal) u = Some (Some r, w)) \<and>
    (\<exists>s t u w. ms_create mal True junk (g, x) = Some (True, s) \<and> get_result_encode (ms_ops mal) q s = Some (True, t) \<and>
      ms_written t = bytes_get_result q \<and> ms_rewind XDR_DECODE t = Some u \<and> get_result_decode env (ms_ops mal) old u = Some (Some q, w))"
  by (intro conjI
      ms_value_roundtrip [OF assms(1,2) byte_sink.writes_registration [OF ms_sink [OF assms(2)] assms(6)]
        msr.reads_registration [OF assms(6,3)] assms(5,4)]
      ms_value_roundtrip [OF assms(1,2) byte_sink.writes_get_result [OF ms_sink [OF assms(2)] assms(8)]
        msr.reads_get_result [OF assms(8,9,3) assms(10) [symmetric]] assms(7,4)])

definition unknown_server :: get_server_result where
  "unknown_server = \<lparr>gs_result = KS_ERR_SERVERUNKNOWN, gs_server = \<lparr>sd_name = [], protocol_version = 0\<rparr>, gs_port = 0,
     gs_expires_at = \<lparr>tv_sec = 0, tv_usec = 0\<rparr>, gs_living = False\<rparr>"

definition sample_registration :: registration where
  "sample_registration = \<lparr>reg_server = \<lparr>sd_name = [0x6B, 0x73], protocol_version = 2\<rparr>, reg_port = 7509, reg_time_to_live = 20\<rparr>"

theorem manager_messages_roundtrip_witness:
  "(\<exists>s t u w. ms_create mal_lowest True 0 (two_free, on_frag 1 0) = Some (True, s) \<and>
      registration_encode (ms_ops mal_lowest) sample_registration s = Some (True, t) \<and>
      ms_written t = bytes_registration sample_registration \<and> ms_rewind XDR_DECODE t = Some u \<and>
      registration_decode unlimited (ms_ops mal_lowest) u = Some (Some sample_registration, w)) \<and>
    (\<exists>s t u w. ms_create mal_lowest True 0 (two_free, on_frag 1 0) = Some (True, s) \<and>
      get_result_encode (ms_ops mal_lowest) unknown_server s = Some (True, t) \<and>
      ms_written t = bytes_get_result unknown_server \<and> ms_rewind XDR_DECODE t = Some u \<and>
      get_result_decode unlimited (ms_ops mal_lowest) unknown_server u = Some (Some unknown_server, w))"
  by (rule manager_messages_roundtrip [where fl = "[1, 2]"])
     (simp_all add: two_free_def two_frags_def pool_ok_def blocks_def mal_lowest_ok unlimited_ok pool_room_def
       bytes_registration_def bytes_desc_def bytes_get_result_def bytes_string_def padded_def pad_len_def sample_registration_def
       unknown_server_def desc_sendable_def ks_result_defs time_sendable_def time_invariant_def)

end
