(* ===== verification/KsManager.thy ===== *)
theory KsManager
  imports KsRegister KsMemStream PltPriorityQueue "HOL-Library.Product_Lexorder"
begin

text \<open>
  The manager (ks/src/manager.cpp): the table of the servers of a host, its timers, and the tree below \<open>/servers\<close>, with the
  parts of the server base class (ks/src/svrbase.cpp), of timer events (ks/src/event.cpp) and of simple domains
  (ks/src/svrsimpleobjects.cpp) these operations use.

  Objects live at addresses: server registrations, timer events and domains have a heap each, with one counter for fresh
  addresses, the null pointer is 0. Using a pointer to no object, and an assertion that fails, have no result (\<open>None\<close>).
  Whether the allocations of an operation succeed is a parameter \<open>avail\<close>, by the number of the allocation in it; the time
  \<open>now\<close> and the answers of the portmapper are parameters. \<open>sg\<close> tells whether plain \<open>char\<close> is signed (the hash function depends on it).
\<close>

subsection \<open>State\<close>

record server_entry =
  sv_desc :: server_desc
  sv_port :: "16 word"
  sv_expires_at :: timeval
  sv_time_to_live :: u32
  sv_living :: bool
  sv_pevent :: nat

datatype timer_event =
    ExpireServer (trigger_at: timeval) (ev_pserver: nat)
  | ExpireManager (trigger_at: timeval)
  | GarbageTimer (trigger_at: timeval) (ev_interval: u32)

record domain =
  dm_id :: "byte list"
  dm_children :: "(byte list, nat) htab"

record manager =
  servers :: "nat \<rightharpoonup> server_entry"
  events :: "nat \<rightharpoonup> timer_event"
  domains :: "nat \<rightharpoonup> domain"
  next_addr :: nat
  timer_queue :: "nat pq"
  server_table :: "(server_desc, nat) htab"
  servers_domain :: "(byte list, nat) htab"
  registered :: bool
  going_down :: bool
  stream_pool :: msglob

subsection \<open>Strings and times\<close>

text \<open>Strings are compared with \<open>strcmp\<close>, which sees the characters before the first null character.\<close>

definition cstr :: "byte list \<Rightarrow> byte list" where
  "cstr s = takeWhile (\<lambda>c. c \<noteq> 0) s"

definition str_eq :: "byte list \<Rightarrow> byte list \<Rightarrow> bool" where
  "str_eq a b \<longleftrightarrow> cstr a = cstr b"

definition desc_key :: "server_desc \<Rightarrow> server_desc" where
  "desc_key d = d\<lparr>sd_name := cstr (sd_name d)\<rparr>"

definition isalnum :: "byte \<Rightarrow> bool" where
  "isalnum c \<longleftrightarrow> 0x30 \<le> c \<and> c \<le> 0x39 \<or> 0x41 \<le> c \<and> c \<le> 0x5A \<or> 0x61 \<le> c \<and> c \<le> 0x7A"

definition isValidManagerName :: "byte list \<Rightarrow> bool" where
  "isValidManagerName name \<longleftrightarrow> list_all (\<lambda>c. isalnum c \<or> c = 0x5F) name"

text \<open>\<open>getServerName\<close>, ``MANAGER'', and the protocol version.\<close>

definition getServerName :: "byte list" where
  "getServerName = [0x4D, 0x41, 0x4E, 0x41, 0x47, 0x45, 0x52]"

definition KS_PROTOCOL_VERSION :: "16 word" where
  "KS_PROTOCOL_VERSION = 2"

text \<open>
  \<open>KsTime::now\<close>, \<open>secs\<close> seconds ahead; a \<open>u_long\<close> is passed as a \<open>long\<close>. The sum of the seconds is a \<open>long\<close> of 32 bits and wraps
  around: with a \<open>secs\<close> that is too large the result lies in the past.
\<close>

definition time_now :: "timeval \<Rightarrow> u32 \<Rightarrow> timeval" where
  "time_now now secs = time_normalize (now\<lparr>tv_sec := sint (word_of_int (tv_sec now + sint secs) :: u32)\<rparr>)"

subsection \<open>Timer events\<close>

text \<open>The order of timer events is that of their times, seconds first.\<close>

definition event_key :: "(nat \<rightharpoonup> timer_event) \<Rightarrow> nat \<Rightarrow> int \<times> int" where
  "event_key E a = (case E a of Some e \<Rightarrow> (tv_sec (trigger_at e), tv_usec (trigger_at e)) | None \<Rightarrow> (0, 0))"

text \<open>Queue operations compare the events the queue points to: all of them must exist.\<close>

definition timers_exist :: "manager \<Rightarrow> bool" where
  "timers_exist st \<longleftrightarrow> list_all (\<lambda>a. events st a \<noteq> None) (pq_list (timer_queue st))"

definition addTimerEvent :: "bool \<Rightarrow> nat \<Rightarrow> manager \<Rightarrow> (bool \<times> manager) option" where
  "addTimerEvent avail a st =
     (if \<not> timers_exist st \<or> events st a = None then None
      else do { (ok, q) \<leftarrow> pq_add (event_key (events st)) avail a (timer_queue st); Some (ok, st\<lparr>timer_queue := q\<rparr>) })"

definition peekNextTimerEvent :: "manager \<Rightarrow> nat" where
  "peekNextTimerEvent st = (case pq_peek (timer_queue st) of Some a \<Rightarrow> a | None \<Rightarrow> 0)"

definition removeNextTimerEvent :: "manager \<Rightarrow> (nat \<times> manager) option" where
  "removeNextTimerEvent st =
     (if \<not> timers_exist st then None
      else do { (a, q) \<leftarrow> pq_removeFirst (event_key (events st)) (timer_queue st); Some (a, st\<lparr>timer_queue := q\<rparr>) })"

definition remainingTime :: "timeval \<Rightarrow> timer_event \<Rightarrow> timeval" where
  "remainingTime now e =
     (if time_lt now (trigger_at e) then time_sub (trigger_at e) now else \<lparr>tv_sec = 0, tv_usec = 0\<rparr>)"

definition new_event :: "timer_event \<Rightarrow> manager \<Rightarrow> nat \<times> manager" where
  "new_event e st = (next_addr st, st\<lparr>events := (events st)(next_addr st \<mapsto> e), next_addr := next_addr st + 1\<rparr>)"

definition delete_event :: "nat \<Rightarrow> manager \<Rightarrow> manager option" where
  "delete_event a st = (if events st a = None then None else Some (st\<lparr>events := (events st)(a := None)\<rparr>))"

text \<open>\<open>pevent->pserver = p\<close>\<close>

definition set_pserver :: "nat \<Rightarrow> nat \<Rightarrow> manager \<Rightarrow> manager option" where
  "set_pserver a p st = (case events st a of
     Some (ExpireServer t _) \<Rightarrow> Some (st\<lparr>events := (events st)(a \<mapsto> ExpireServer t p)\<rparr>)
   | _ \<Rightarrow> None)"

subsection \<open>Simple domains\<close>

definition new_server :: "server_entry \<Rightarrow> manager \<Rightarrow> nat \<times> manager" where
  "new_server sv st = (next_addr st, st\<lparr>servers := (servers st)(next_addr st \<mapsto> sv), next_addr := next_addr st + 1\<rparr>)"

definition delete_server :: "nat \<Rightarrow> manager \<Rightarrow> manager option" where
  "delete_server p st = (if servers st p = None then None else Some (st\<lparr>servers := (servers st)(p := None)\<rparr>))"

text \<open>The constructor of a domain makes its table of children.\<close>

definition new_domain :: "bool \<Rightarrow> bool \<Rightarrow> byte list \<Rightarrow> manager \<Rightarrow> (nat \<times> manager) option" where
  "new_domain sg avail i st =
     do { t \<leftarrow> ht_new (string_hash sg) avail 11 (f32 (4/5)) (f32 (2/5));
          Some (next_addr st, st\<lparr>domains := (domains st)(next_addr st \<mapsto> \<lparr>dm_id = i, dm_children = t\<rparr>), next_addr := next_addr st + 1\<rparr>) }"

text \<open>Dropping the last handle of a domain deletes it, and with it the children only it refers to.\<close>

definition children_of :: "domain \<Rightarrow> nat set" where
  "children_of d = set (map snd (assocs (ht_table (dm_children d))))"

definition delete_domain :: "nat \<Rightarrow> manager \<Rightarrow> manager option" where
  "delete_domain a st =
     do { d \<leftarrow> domains st a;
          Some (st\<lparr>domains := (domains st)(a := None), servers := servers st |` (- children_of d)\<rparr>) }"

definition getIdentifier :: "server_entry \<Rightarrow> byte list" where
  "getIdentifier sv = version_id (protocol_version (sv_desc sv))"

text \<open>\<open>addChild\<close> of the domain of \<open>/servers\<close>, for a domain, and of a version domain, for a server.\<close>

definition servers_addChild :: "bool \<Rightarrow> bool \<Rightarrow> bool \<Rightarrow> nat \<Rightarrow> manager \<Rightarrow> (bool \<times> manager) option" where
  "servers_addChild sg avail0 avail1 a st =
     do { d \<leftarrow> domains st a;
          (ok, t) \<leftarrow> ht_add (string_hash sg) avail0 avail1 (dm_id d) a (servers_domain st);
          Some (ok, st\<lparr>servers_domain := t\<rparr>) }"

definition domain_addChild :: "bool \<Rightarrow> bool \<Rightarrow> bool \<Rightarrow> nat \<Rightarrow> byte list \<Rightarrow> nat \<Rightarrow> manager \<Rightarrow> (bool \<times> manager) option" where
  "domain_addChild sg avail0 avail1 ps i p st =
     do { d \<leftarrow> domains st ps;
          (ok, t) \<leftarrow> ht_add (string_hash sg) avail0 avail1 i p (dm_children d);
          Some (ok, st\<lparr>domains := (domains st)(ps \<mapsto> d\<lparr>dm_children := t\<rparr>)\<rparr>) }"

definition version_addChild :: "bool \<Rightarrow> bool \<Rightarrow> bool \<Rightarrow> nat \<Rightarrow> nat \<Rightarrow> manager \<Rightarrow> (bool \<times> manager) option" where
  "version_addChild sg avail0 avail1 ps p st =
     do { sv \<leftarrow> servers st p; domain_addChild sg avail0 avail1 ps (getIdentifier sv) p st }"

text \<open>\<open>removeChild\<close>: the handle it returns is dropped by the callers.\<close>

definition servers_removeChild :: "bool \<Rightarrow> bool \<Rightarrow> byte list \<Rightarrow> manager \<Rightarrow> manager option" where
  "servers_removeChild sg avail i st =
     do { (r, t) \<leftarrow> ht_remove (string_hash sg) avail i (servers_domain st);
          let st = st\<lparr>servers_domain := t\<rparr>;
          case r of None \<Rightarrow> Some st | Some a \<Rightarrow> delete_domain a st }"

definition version_removeChild :: "bool \<Rightarrow> bool \<Rightarrow> nat \<Rightarrow> byte list \<Rightarrow> manager \<Rightarrow> manager option" where
  "version_removeChild sg avail ps i st =
     do { d \<leftarrow> domains st ps;
          (r, t) \<leftarrow> ht_remove (string_hash sg) avail i (dm_children d);
          let st = st\<lparr>domains := (domains st)(ps \<mapsto> d\<lparr>dm_children := t\<rparr>)\<rparr>;
          case r of None \<Rightarrow> Some st | Some p \<Rightarrow> delete_server p st }"

subsection \<open>Registration\<close>

text \<open>The branch for a known server: the registration is renewed and its old event disabled.\<close>

definition refresh :: "registration \<Rightarrow> timeval \<Rightarrow> nat \<Rightarrow> manager \<Rightarrow> manager option" where
  "refresh params expire_at p st =
     do { sv \<leftarrow> servers st p;
          let st = st\<lparr>servers := (servers st)(p \<mapsto> sv\<lparr>sv_port := reg_port params, sv_expires_at := expire_at, sv_living := True\<rparr>)\<rparr>;
          set_pserver (sv_pevent sv) 0 st }"

text \<open>
  The domains for a new server. The result tells whether the operation goes on. A handle that goes out of scope deletes the object it
  is bound to, unless a table holds another handle.
\<close>

definition name_domain :: "bool \<Rightarrow> (nat \<Rightarrow> bool) \<Rightarrow> byte list \<Rightarrow> manager \<Rightarrow> ((nat \<times> bool) option \<times> manager) option" where
  "name_domain sg avail name st =
     do { hs \<leftarrow> ht_query (string_hash sg) name (servers_domain st);
          case hs of
            Some ps \<Rightarrow> if domains st ps = None then None else Some (Some (ps, False), st)
          | None \<Rightarrow>
              if \<not> avail 5 then Some (None, st)
              else do { (ps, st) \<leftarrow> new_domain sg (avail 6) name st;
                if \<not> avail 7 then Some (None, st)
                else do { (ok, st) \<leftarrow> servers_addChild sg (avail 8) (avail 9) ps st;
                  if ok then Some (Some (ps, True), st)
                  else do { st \<leftarrow> delete_domain ps st; Some (None, st) } } } }"

definition version_entry :: "bool \<Rightarrow> (nat \<Rightarrow> bool) \<Rightarrow> nat \<Rightarrow> bool \<Rightarrow> nat \<Rightarrow> manager \<Rightarrow> (bool \<times> manager) option" where
  "version_entry sg avail ps fresh p st =
     do { sv \<leftarrow> servers st p;
          (ok, st) \<leftarrow> (if \<not> avail 10 then Some (False, st) else version_addChild sg (avail 11) (avail 12) ps p st);
          if ok then Some (True, st)
          else do {
            st \<leftarrow> (if fresh then servers_removeChild sg (avail 13) (sd_name (sv_desc sv)) st else Some st);
            st \<leftarrow> (if avail 10 then delete_server p st else Some st);
            Some (\<not> fresh, st) } }"

definition enter_tree :: "bool \<Rightarrow> (nat \<Rightarrow> bool) \<Rightarrow> nat \<Rightarrow> manager \<Rightarrow> (bool \<times> manager) option" where
  "enter_tree sg avail p st =
     do { sv \<leftarrow> servers st p;
          (r, st) \<leftarrow> name_domain sg avail (sd_name (sv_desc sv)) st;
          case r of None \<Rightarrow> Some (False, st) | Some (ps, fresh) \<Rightarrow> version_entry sg avail ps fresh p st }"

text \<open>The branch for an unknown server; the pointer is 0 when the operation fails.\<close>

definition enter :: "bool \<Rightarrow> (nat \<Rightarrow> bool) \<Rightarrow> registration \<Rightarrow> timeval \<Rightarrow> manager \<Rightarrow> (nat \<times> manager) option" where
  "enter sg avail params expire_at st =
     (if \<not> avail 2 then Some (0, st)
      else do {
        let (p, st) = new_server \<lparr>sv_desc = reg_server params, sv_port = reg_port params, sv_expires_at = expire_at,
              sv_time_to_live = reg_time_to_live params, sv_living = True, sv_pevent = 0\<rparr> st;
        (ok, t) \<leftarrow> ht_add (desc_hash sg) (avail 3) (avail 4) (desc_key (reg_server params)) p (server_table st);
        let st = st\<lparr>server_table := t\<rparr>;
        if \<not> ok then do { st \<leftarrow> delete_server p st; Some (0, st) }
        else do { (ok, st) \<leftarrow> enter_tree sg avail p st; Some (if ok then p else 0, st) } })"

text \<open>\<open>pserver->pevent = pevent; pevent->pserver = pserver\<close>\<close>

definition connect :: "nat \<Rightarrow> nat \<Rightarrow> manager \<Rightarrow> manager option" where
  "connect p a st =
     do { sv \<leftarrow> servers st p;
          set_pserver a p (st\<lparr>servers := (servers st)(p \<mapsto> sv\<lparr>sv_pevent := a\<rparr>)\<rparr>) }"

definition registerServer :: "bool \<Rightarrow> (nat \<Rightarrow> bool) \<Rightarrow> timeval \<Rightarrow> registration \<Rightarrow> manager \<Rightarrow> (ks_result \<times> manager) option" where
  "registerServer sg avail now params st =
     (if \<not> isValidManagerName (sd_name (reg_server params)) \<or> protocol_version (reg_server params) < 1
      then Some (KS_ERR_BADPARAM, st)
      else if str_eq (sd_name (reg_server params)) getServerName then Some (KS_ERR_BADPARAM, st)
      else if \<not> avail 0 then Some (KS_ERR_GENERIC, st)
      else do {
        let expire_at = time_now now (reg_time_to_live params);
        let (a, st) = new_event (ExpireServer expire_at 0) st;
        (ok, st) \<leftarrow> addTimerEvent (avail 1) a st;
        if \<not> ok then do { st \<leftarrow> delete_event a st; Some (KS_ERR_GENERIC, st) }
        else do {
          r \<leftarrow> ht_query (desc_hash sg) (desc_key (reg_server params)) (server_table st);
          (p, st) \<leftarrow> (case r of
              Some p \<Rightarrow> do { st \<leftarrow> refresh params expire_at p st; Some (p, st) }
            | None \<Rightarrow> enter sg avail params expire_at st);
          if p = 0 then Some (KS_ERR_GENERIC, st)
          else do { st \<leftarrow> connect p a st; Some (KS_ERR_OK, st) } } })"

subsection \<open>Removal\<close>

definition removeServer :: "bool \<Rightarrow> (nat \<Rightarrow> bool) \<Rightarrow> nat \<Rightarrow> manager \<Rightarrow> manager option" where
  "removeServer sg avail p st =
     do { sv \<leftarrow> servers st p;
          (removed, t) \<leftarrow> ht_remove (desc_hash sg) (avail 0) (desc_key (sv_desc sv)) (server_table st);
          let st = st\<lparr>server_table := t\<rparr>;
          if removed \<noteq> Some p then None
          else do {
            st \<leftarrow> set_pserver (sv_pevent sv) 0 st;
            hs \<leftarrow> ht_query (string_hash sg) (cstr (sd_name (sv_desc sv))) (servers_domain st);
            ps \<leftarrow> hs;
            d \<leftarrow> domains st ps;
            if ht_size (dm_children d) = 0 then None
            else if ht_size (dm_children d) = 1 then servers_removeChild sg (avail 1) (cstr (sd_name (sv_desc sv))) st
            else version_removeChild sg (avail 1) ps (version_id (protocol_version (sv_desc sv))) st } }"

definition unregisterServer :: "bool \<Rightarrow> (nat \<Rightarrow> bool) \<Rightarrow> server_desc \<Rightarrow> manager \<Rightarrow> (ks_result \<times> manager) option" where
  "unregisterServer sg avail d st =
     (if str_eq (sd_name d) getServerName then Some (KS_ERR_BADPARAM, st)
      else do {
        r \<leftarrow> ht_query (desc_hash sg) (desc_key d) (server_table st);
        case r of
          Some p \<Rightarrow> do { st \<leftarrow> removeServer sg avail p st; Some (KS_ERR_OK, st) }
        | None \<Rightarrow> Some (KS_ERR_SERVERUNKNOWN, st) })"

subsection \<open>Queries\<close>

text \<open>The body of the loop of \<open>getServer\<close>; the best match so far and its version.\<close>

definition match_entry :: "manager \<Rightarrow> server_desc \<Rightarrow> (server_desc, nat) slot \<Rightarrow> nat \<times> u32 \<Rightarrow> (nat \<times> u32) option" where
  "match_entry st req s best = (case s of
     Used k p \<Rightarrow>
       do { sv \<leftarrow> servers st p;
            if protocol_version (sv_desc sv) \<ge> protocol_version req \<and> str_eq (sd_name (sv_desc sv)) (sd_name req) \<and>
               snd best < ucast (protocol_version (sv_desc sv))
            then Some (p, ucast (protocol_version (sv_desc sv))) else Some best }
   | _ \<Rightarrow> None)"

fun best_match :: "manager \<Rightarrow> server_desc \<Rightarrow> (server_desc, nat) slot list \<Rightarrow> nat \<times> u32 \<Rightarrow> (nat \<times> u32) option" where
  "best_match st req [] best = Some best"
| "best_match st req (s # ss) best = do { best \<leftarrow> match_entry st req s best; best_match st req ss best }"

definition LONG_MAX :: int where "LONG_MAX = 2147483647"

definition getServer :: "16 word \<Rightarrow> server_desc \<Rightarrow> manager \<Rightarrow> get_server_result \<Rightarrow> get_server_result option" where
  "getServer tcp_port req st result =
     (if protocol_version req < 1 then Some (result\<lparr>gs_result := KS_ERR_BADPARAM\<rparr>)
      else if str_eq (sd_name req) getServerName
      then Some \<lparr>gs_result = KS_ERR_OK, gs_server = \<lparr>sd_name = getServerName, protocol_version = KS_PROTOCOL_VERSION\<rparr>,
             gs_port = tcp_port, gs_expires_at = mk_time LONG_MAX 0, gs_living = True\<rparr>
      else do {
        (pbest, _) \<leftarrow> best_match st req (ht_iterate (server_table st) (ht_toStart (server_table st))) (0, 0);
        if pbest \<noteq> 0
        then do { sv \<leftarrow> servers st pbest;
               Some \<lparr>gs_result = KS_ERR_OK, gs_server = sv_desc sv, gs_port = sv_port sv,
                 gs_expires_at = sv_expires_at sv, gs_living = sv_living sv\<rparr> }
        else Some (result\<lparr>gs_result := KS_ERR_SERVERUNKNOWN\<rparr>) })"

subsection \<open>Timers\<close>

definition expire_server :: "bool \<Rightarrow> (nat \<Rightarrow> bool) \<Rightarrow> timeval \<Rightarrow> nat \<Rightarrow> manager \<Rightarrow> manager option" where
  "expire_server sg avail now a st = (case events st a of
     Some (ExpireServer t p) \<Rightarrow>
       if p \<noteq> 0
       then do {
         sv \<leftarrow> servers st p;
         if sv_pevent sv \<noteq> a then None
         else if sv_living sv
         then do {
           let st = st\<lparr>servers := (servers st)(p \<mapsto> sv\<lparr>sv_living := False\<rparr>),
                       events := (events st)(a \<mapsto> ExpireServer (time_now now (sv_time_to_live sv)) p)\<rparr>;
           (ok, st) \<leftarrow> addTimerEvent (avail 0) a st;
           Some st }
         else do { st \<leftarrow> removeServer sg avail p st; delete_event a st } }
       else delete_event a st
   | _ \<Rightarrow> None)"

text \<open>
  What the portmapper answers: whether the two calls of \<open>pmap_set\<close> succeed, the port \<open>pmap_getport\<close> returns and whether it failed.
\<close>

record portmapper =
  pmap_set_tcp :: bool
  pmap_set_udp :: bool
  pmap_port :: "16 word"
  pmap_failed :: bool

definition reschedule :: "bool \<Rightarrow> timeval \<Rightarrow> nat \<Rightarrow> manager \<Rightarrow> manager option" where
  "reschedule avail t a st =
     do { (ok, st) \<leftarrow> addTimerEvent avail a (st\<lparr>events := (events st)(a \<mapsto> ExpireManager t)\<rparr>); Some st }"

definition expire_manager :: "(nat \<Rightarrow> bool) \<Rightarrow> timeval \<Rightarrow> portmapper \<Rightarrow> 16 word \<Rightarrow> nat \<Rightarrow> manager \<Rightarrow> manager option" where
  "expire_manager avail now pm tcp_port a st =
     do {
       let st = (if \<not> registered st then st\<lparr>registered := pmap_set_tcp pm \<or> pmap_set_udp pm\<rparr> else st);
       if \<not> registered st then reschedule (avail 0) (time_now now 60) a st
       else if pmap_port pm = 0 \<and> pmap_failed pm
       then reschedule (avail 0) (time_now now 10) a (st\<lparr>registered := False\<rparr>)
       else if pmap_port pm = tcp_port then reschedule (avail 0) (time_now now 30) a st
       else delete_event a (st\<lparr>registered := False, going_down := True\<rparr>) }"

text \<open>\<open>KsGarbageTimerEvent::trigger\<close>: one step of garbage collection in the pool of fragments, again after the interval.\<close>

definition collect_garbage :: "bool \<Rightarrow> timeval \<Rightarrow> nat \<Rightarrow> manager \<Rightarrow> manager option" where
  "collect_garbage avail now a st = (case events st a of
     Some (GarbageTimer t interval) \<Rightarrow>
       do { g \<leftarrow> ms_freegarbage (stream_pool st);
            let st = st\<lparr>stream_pool := g, events := (events st)(a \<mapsto> GarbageTimer (time_now now interval) interval)\<rparr>;
            (ok, st) \<leftarrow> addTimerEvent avail a st;
            Some st }
   | _ \<Rightarrow> None)"

definition trigger :: "bool \<Rightarrow> (nat \<Rightarrow> bool) \<Rightarrow> timeval \<Rightarrow> portmapper \<Rightarrow> 16 word \<Rightarrow> nat \<Rightarrow> manager \<Rightarrow> manager option" where
  "trigger sg avail now pm tcp_port a st = (case events st a of
     Some (ExpireServer _ _) \<Rightarrow> expire_server sg avail now a st
   | Some (ExpireManager _) \<Rightarrow> expire_manager avail now pm tcp_port a st
   | Some (GarbageTimer _ _) \<Rightarrow> collect_garbage (avail 0) now a st
   | None \<Rightarrow> None)"

text \<open>
  The timer branch of \<open>servePendingEvents\<close>; \<open>None\<close> in the first place of the result tells that no timer is due and it waits for
  requests, at most for the time it is given. The clock is read again when the event is triggered (\<open>now'\<close>).
\<close>

definition serve_timers ::
  "bool \<Rightarrow> (nat \<Rightarrow> bool) \<Rightarrow> timeval \<Rightarrow> timeval \<Rightarrow> portmapper \<Rightarrow> 16 word \<Rightarrow> manager \<Rightarrow> (timeval option \<times> bool \<times> manager) option" where
  "serve_timers sg avail now now' pm tcp_port st =
     (if peekNextTimerEvent st = 0 then Some (None, False, st)
      else do {
        e \<leftarrow> events st (peekNextTimerEvent st);
        if \<not> time_is_zero (remainingTime now e) then Some (Some (remainingTime now e), False, st)
        else do { (a, st) \<leftarrow> removeNextTimerEvent st; st \<leftarrow> trigger sg avail now' pm tcp_port a st; Some (None, True, st) } })"

subsection \<open>Start\<close>

text \<open>
  The part of the constructor that makes \<open>/servers\<close>. Its results are not checked: a null pointer is followed, a child that
  cannot be added is missing. The three variables below the version domain are only addresses here.
\<close>

definition manager_new :: "bool \<Rightarrow> (nat \<Rightarrow> bool) \<Rightarrow> msglob \<Rightarrow> manager option" where
  "manager_new sg avail pool =
     do {
       table \<leftarrow> ht_new (desc_hash sg) (avail 0) 11 (f32 (4/5)) (f32 (2/5));
       top \<leftarrow> ht_new (string_hash sg) (avail 1) 11 (f32 (4/5)) (f32 (2/5));
       let st = \<lparr>servers = Map.empty, events = Map.empty, domains = Map.empty, next_addr = 1, timer_queue = pq_new (avail 2) 16,
         server_table = table, servers_domain = top, registered = False, going_down = False, stream_pool = pool\<rparr>;
       if \<not> (avail 3 \<and> avail 5) then None
       else do {
         (m, st) \<leftarrow> new_domain sg (avail 4) getServerName st;
         (v, st) \<leftarrow> new_domain sg (avail 6) (version_id KS_PROTOCOL_VERSION) st;
         let (port, expires_at, living) = (next_addr st, next_addr st + 1, next_addr st + 2);
         let st = st\<lparr>next_addr := next_addr st + 3\<rparr>;
         (_, st) \<leftarrow> domain_addChild sg (avail 7) (avail 8) v [0x6C, 0x69, 0x76, 0x69, 0x6E, 0x67] living st;
         (_, st) \<leftarrow> domain_addChild sg (avail 9) (avail 10) v [0x70, 0x6F, 0x72, 0x74] port st;
         (_, st) \<leftarrow> domain_addChild sg (avail 11) (avail 12) v [0x65, 0x78, 0x70, 0x69, 0x72, 0x65, 0x73, 0x5F, 0x61, 0x74] expires_at st;
         (_, st) \<leftarrow> domain_addChild sg (avail 13) (avail 14) m (version_id KS_PROTOCOL_VERSION) v st;
         (_, st) \<leftarrow> servers_addChild sg (avail 15) (avail 16) m st;
         Some st } }"

text \<open>
  \<open>startServer\<close>, without the sockets. The base class ends with the timer for garbage collection; whether it could be queued is \<open>_is_ok\<close>.
  A timer that could not be made is queued as the null pointer: no result.
\<close>

definition startServer_garbage :: "(nat \<Rightarrow> bool) \<Rightarrow> timeval \<Rightarrow> manager \<Rightarrow> (bool \<times> manager) option" where
  "startServer_garbage avail now st =
     do {
       let (a, st) = (if avail 0 then new_event (GarbageTimer (time_now now 30) 30) st else (0, st));
       addTimerEvent (avail 1) a st }"

text \<open>The end of \<open>startServer\<close> of the manager: registration with the portmapper, and the timer that checks it.\<close>

definition startServer_pmap :: "(nat \<Rightarrow> bool) \<Rightarrow> timeval \<Rightarrow> portmapper \<Rightarrow> manager \<Rightarrow> manager option" where
  "startServer_pmap avail now pm st =
     do {
       let st = st\<lparr>registered := pmap_set_tcp pm \<or> pmap_set_udp pm\<rparr>;
       if \<not> avail 0 then Some st
       else do {
         let (a, st) = new_event (ExpireManager (time_now now 30)) st;
         (_, st) \<leftarrow> addTimerEvent (avail 1) a st;
         Some st } }"

definition startServer :: "(nat \<Rightarrow> bool) \<Rightarrow> (nat \<Rightarrow> bool) \<Rightarrow> timeval \<Rightarrow> portmapper \<Rightarrow> manager \<Rightarrow> (bool \<times> manager) option" where
  "startServer avail avail' now pm st =
     do { (ok, st) \<leftarrow> startServer_garbage avail now st;
          if \<not> ok then Some (False, st)
          else do { st \<leftarrow> startServer_pmap avail' now pm st; Some (True, st) } }"

end
