(* ===== verification/KsManagerInv.thy ===== *)
theory KsManagerInv
  imports KsManager
begin

text \<open>
  The invariant of the manager, and that every operation returns and keeps it, as long as the allocations for the tree below
  \<open>/servers\<close> succeed: the table of servers and the tree of domains describe the same registrations, every registration has
  its own timer event, and every event is in the timer queue.
\<close>

subsection \<open>The invariant\<close>

text \<open>The fragments can be collected, and the timer that does it has its interval of half a minute.\<close>

definition garbage_ok :: "(nat \<rightharpoonup> timer_event) \<Rightarrow> msglob \<Rightarrow> bool" where
  "garbage_ok E g \<longleftrightarrow> collectable g \<and> (\<forall>a t i. E a = Some (GarbageTimer t i) \<longrightarrow> i = 30)"

lemma garbage_ok_upd [simp]:
  "garbage_ok E g \<Longrightarrow> garbage_ok (E(a \<mapsto> ExpireServer t p)) g" "garbage_ok E g \<Longrightarrow> garbage_ok (E(a \<mapsto> ExpireManager t)) g"
  "garbage_ok E g \<Longrightarrow> garbage_ok (E(a \<mapsto> GarbageTimer t 30)) g" "garbage_ok E g \<Longrightarrow> garbage_ok (E(a := None)) g"
  by (simp_all add: garbage_ok_def)

definition heap_ok :: "manager \<Rightarrow> bool" where
  "heap_ok st \<longleftrightarrow> 0 < next_addr st \<and>
     (\<forall>a. a = 0 \<or> next_addr st \<le> a \<longrightarrow> servers st a = None \<and> events st a = None \<and> domains st a = None) \<and>
     garbage_ok (events st) (stream_pool st)"

text \<open>All events but those in \<open>X\<close> are queued, once; times are canonical.\<close>

definition queue_ok :: "nat set \<Rightarrow> (nat \<rightharpoonup> timer_event) \<Rightarrow> nat pq \<Rightarrow> bool" where
  "queue_ok X E q \<longleftrightarrow> pq_invariant (event_key E) q \<and>
     (\<forall>a. count (pq_mset q) a = (if E a \<noteq> None \<and> a \<notin> X then 1 else 0)) \<and>
     (\<forall>a e. E a = Some e \<longrightarrow> time_invariant (trigger_at e))"

text \<open>Registrations and their events point to each other.\<close>

definition links_ok :: "(nat \<rightharpoonup> server_entry) \<Rightarrow> (nat \<rightharpoonup> timer_event) \<Rightarrow> bool" where
  "links_ok S E \<longleftrightarrow>
     (\<forall>p sv. S p = Some sv \<longrightarrow>
        (\<exists>t. E (sv_pevent sv) = Some (ExpireServer t p) \<and> (sv_living sv \<longrightarrow> t = sv_expires_at sv))) \<and>
     (\<forall>a t p. E a = Some (ExpireServer t p) \<longrightarrow> p \<noteq> 0 \<longrightarrow> (\<exists>sv. S p = Some sv \<and> sv_pevent sv = a))"

definition admissible :: "server_desc \<Rightarrow> bool" where
  "admissible d \<longleftrightarrow> isValidManagerName (sd_name d) \<and> 1 \<le> protocol_version d \<and> sd_name d \<noteq> getServerName"

text \<open>The registrations by their addresses.\<close>

definition descs :: "manager \<Rightarrow> nat \<rightharpoonup> server_desc" where
  "descs st p = map_option sv_desc (servers st p)"

definition table_ok :: "bool \<Rightarrow> (nat \<rightharpoonup> server_desc) \<Rightarrow> (server_desc, nat) htab \<Rightarrow> bool" where
  "table_ok sg N t \<longleftrightarrow> ht_inv (desc_hash sg) t \<and> (\<forall>d p. ht_map t d = Some p \<longleftrightarrow> N p = Some d) \<and>
     (\<forall>p d. N p = Some d \<longrightarrow> admissible d)"

text \<open>The domain of a server has its registered versions as children, and there is no domain without a child.\<close>

definition versions_of :: "(nat \<rightharpoonup> server_desc) \<Rightarrow> byte list \<Rightarrow> domain \<Rightarrow> bool" where
  "versions_of N n d \<longleftrightarrow> ht_map (dm_children d) \<noteq> Map.empty \<and>
     (\<forall>i p. ht_map (dm_children d) i = Some p \<longleftrightarrow>
        (\<exists>v. N p = Some \<lparr>sd_name = n, protocol_version = v\<rparr> \<and> i = version_id v))"

definition tree_ok :: "bool \<Rightarrow> (nat \<rightharpoonup> server_desc) \<Rightarrow> (nat \<rightharpoonup> domain) \<Rightarrow> (byte list, nat) htab \<Rightarrow> bool" where
  "tree_ok sg N D T \<longleftrightarrow> ht_inv (string_hash sg) T \<and>
     (\<forall>n ps. ht_map T n = Some ps \<longrightarrow>
        (\<exists>d. D ps = Some d \<and> dm_id d = n \<and> ht_inv (string_hash sg) (dm_children d) \<and>
           (n \<noteq> getServerName \<longrightarrow> versions_of N n d))) \<and>
     (\<forall>p d. N p = Some d \<longrightarrow> ht_map T (sd_name d) \<noteq> None)"

definition manager_inv :: "bool \<Rightarrow> nat set \<Rightarrow> manager \<Rightarrow> bool" where
  "manager_inv sg X st \<longleftrightarrow> heap_ok st \<and> queue_ok X (events st) (timer_queue st) \<and> links_ok (servers st) (events st) \<and>
     table_ok sg (descs st) (server_table st) \<and> tree_ok sg (descs st) (domains st) (servers_domain st)"

lemma heap_live:
  assumes "heap_ok st"
  shows "servers st a = Some sv \<Longrightarrow> a \<noteq> 0 \<and> a < next_addr st" "events st a = Some e \<Longrightarrow> a \<noteq> 0 \<and> a < next_addr st"
    "domains st a = Some d \<Longrightarrow> a \<noteq> 0 \<and> a < next_addr st"
  using assms unfolding heap_ok_def by (metis not_less option.distinct(1))+

lemma heap_fresh:
  assumes "heap_ok st"
  shows "servers st 0 = None" "events st 0 = None" "domains st 0 = None" "servers st (next_addr st) = None"
    "events st (next_addr st) = None" "domains st (next_addr st) = None" "next_addr st \<noteq> 0"
  using assms by (simp_all add: heap_ok_def)

subsection \<open>Names\<close>

lemma cstr_id: "0 \<notin> set s \<Longrightarrow> cstr s = s"
  by (auto simp: cstr_def takeWhile_eq_all_conv)

lemma valid_name_nonzero: "isValidManagerName n \<Longrightarrow> 0 \<notin> set n"
  by (auto simp: isValidManagerName_def isalnum_def list_all_iff)

lemma admissible_name:
  "admissible d \<Longrightarrow> cstr (sd_name d) = sd_name d" "admissible d \<Longrightarrow> desc_key d = d"
  by (simp_all add: admissible_def cstr_id valid_name_nonzero desc_key_def)

lemma cstr_server_name: "cstr getServerName = getServerName"
  by (simp add: cstr_id getServerName_def)

lemma admissible_iff:
  "admissible d \<longleftrightarrow> isValidManagerName (sd_name d) \<and> \<not> protocol_version d < 1 \<and> \<not> str_eq (sd_name d) getServerName"
  using valid_name_nonzero [of "sd_name d"]
  by (auto simp: admissible_def str_eq_def cstr_server_name cstr_id linorder_not_less [symmetric])

subsection \<open>The timer queue\<close>

lemma pq_invariant_cong:
  assumes "pq_invariant key q" "\<forall>x\<in>#pq_mset q. key' x = key x"
  shows "pq_invariant key' q"
proof -
  have "the (pq_elems q ! i) \<in># pq_mset q" if "i < pq_size q" for i
  proof -
    have "pq_elems q ! i = take (pq_size q) (pq_elems q) ! i" "i < length (take (pq_size q) (pq_elems q))"
      using that assms(1) by (simp_all add: pq_invariant_def)
    then have "pq_elems q ! i \<in> set (take (pq_size q) (pq_elems q))" by (metis nth_mem)
    then show ?thesis by (simp add: pq_mset_def pq_list_def)
  qed
  then have k: "key' (the (pq_elems q ! i)) = key (the (pq_elems q ! i))" if "i < pq_size q" for i using that assms(2) by blast
  have lt: "i < leftChild i" "i < rightChild i" for i by (simp_all add: leftChild_def rightChild_def)
  have "key' (the (pq_elems q ! i)) \<le> key' (the (pq_elems q ! j)) \<longleftrightarrow> key (the (pq_elems q ! i)) \<le> key (the (pq_elems q ! j))"
    if "i < j" "j < pq_size q" for i j using that k by simp
  then have "pq_ordered key' (pq_size q) (pq_elems q) = pq_ordered key (pq_size q) (pq_elems q)"
    using lt unfolding pq_ordered_def by blast
  then show ?thesis using assms(1) by (simp add: pq_invariant_def)
qed

lemma queue_member: "queue_ok X E q \<Longrightarrow> a \<in># pq_mset q \<longleftrightarrow> E a \<noteq> None \<and> a \<notin> X"
  by (auto simp: queue_ok_def count_greater_zero_iff [symmetric] simp del: count_greater_zero_iff)

lemma queue_timers_exist: "queue_ok X (events st) (timer_queue st) \<Longrightarrow> timers_exist st"
  using queue_member [of X "events st" "timer_queue st"] by (auto simp: timers_exist_def list_all_iff pq_mset_def)

lemma add_timer_ok:
  assumes q: "queue_ok X (events st) (timer_queue st)" and a: "a \<in> X" "events st a \<noteq> None"
  shows "\<exists>ok q'. addTimerEvent m a st = Some (ok, st\<lparr>timer_queue := q'\<rparr>) \<and>
    (ok \<longrightarrow> queue_ok (X - {a}) (events st) q') \<and> (\<not> ok \<longrightarrow> q' = timer_queue st) \<and>
    (m \<or> pq_size (timer_queue st) < pq_capacity (timer_queue st) \<longrightarrow> ok)"
proof (cases "m \<or> pq_size (timer_queue st) < pq_capacity (timer_queue st)")
  case True
  have inv: "pq_invariant (event_key (events st)) (timer_queue st)" using q by (simp add: queue_ok_def)
  obtain q' where q': "pq_add (event_key (events st)) m a (timer_queue st) = Some (True, q')"
      "pq_invariant (event_key (events st)) q'" "pq_mset q' = add_mset a (pq_mset (timer_queue st))"
    using pq_add_ok [OF inv True] by blast
  have "queue_ok (X - {a}) (events st) q'" using q q'(2,3) a by (auto simp: queue_ok_def)
  then show ?thesis using q'(1) a queue_timers_exist [OF q] by (auto simp: addTimerEvent_def)
next
  case False
  then have "pq_add (event_key (events st)) m a (timer_queue st) = Some (False, timer_queue st)"
    using q by (auto simp: pq_add_def pq_grow_def queue_ok_def pq_invariant_def)
  then show ?thesis using False a queue_timers_exist [OF q] by (auto simp: addTimerEvent_def)
qed

lemma add_timer_room:
  assumes "queue_ok X (events st) (timer_queue st)" "a \<in> X" "events st a \<noteq> None" "m \<or> pq_size (timer_queue st) < pq_capacity (timer_queue st)"
  obtains q where "addTimerEvent m a st = Some (True, st\<lparr>timer_queue := q\<rparr>)" "queue_ok (X - {a}) (events st) q"
proof -
  obtain ok q where "addTimerEvent m a st = Some (ok, st\<lparr>timer_queue := q\<rparr>)" "ok \<longrightarrow> queue_ok (X - {a}) (events st) q"
      "m \<or> pq_size (timer_queue st) < pq_capacity (timer_queue st) \<longrightarrow> ok"
    using add_timer_ok [OF assms(1-3), of m] by blast
  then show thesis using that [of q] assms(4) by simp
qed

text \<open>Changing, adding and deleting events that are not queued, or not their times.\<close>

lemma queue_ok_upd:
  assumes q: "queue_ok X E q" and a: "a \<in> X \<or> E a = None" and t: "time_invariant (trigger_at e)"
  shows "queue_ok (insert a X) (E(a \<mapsto> e)) q"
proof -
  have "\<forall>x\<in>#pq_mset q. event_key (E(a \<mapsto> e)) x = event_key E x"
    using queue_member [OF q] a by (auto simp: event_key_def)
  then show ?thesis using q a t pq_invariant_cong [of "event_key E" q] by (auto simp: queue_ok_def)
qed

lemma queue_ok_same_time:
  assumes q: "queue_ok X E q" and a: "E a = Some e" "trigger_at e' = trigger_at e"
  shows "queue_ok X (E(a \<mapsto> e')) q"
proof -
  have "event_key (E(a \<mapsto> e')) = event_key E" using a by (auto simp: event_key_def fun_eq_iff)
  then show ?thesis using q a by (auto simp: queue_ok_def)
qed

lemma queue_ok_delete:
  assumes q: "queue_ok X E q" and a: "a \<in> X"
  shows "queue_ok (X - {a}) (E(a := None)) q"
proof -
  have "\<forall>x\<in>#pq_mset q. event_key (E(a := None)) x = event_key E x"
    using queue_member [OF q] a by (auto simp: event_key_def)
  then show ?thesis using q a pq_invariant_cong [of "event_key E" q] by (auto simp: queue_ok_def)
qed

lemma pq_removeFirst_facts:
  assumes "pq_removeFirst key q = Some (x, q')"
  shows "pq_peek q = Some x" "pq_capacity q' = pq_capacity q"
  using assms
  by (auto simp: pq_removeFirst_def pq_peek_def downheap_def Let_def split: if_splits option.splits)

lemma remove_next_ok:
  assumes q: "queue_ok {} (events st) (timer_queue st)" and ne: "peekNextTimerEvent st \<noteq> 0"
  shows "\<exists>q'. removeNextTimerEvent st = Some (peekNextTimerEvent st, st\<lparr>timer_queue := q'\<rparr>) \<and>
    queue_ok {peekNextTimerEvent st} (events st) q' \<and> pq_size q' < pq_capacity q' \<and> events st (peekNextTimerEvent st) \<noteq> None \<and>
    (\<forall>b e. events st b = Some e \<longrightarrow> event_key (events st) (peekNextTimerEvent st) \<le> event_key (events st) b)"
proof -
  let ?q = "timer_queue st" and ?k = "event_key (events st)"
  have inv: "pq_invariant ?k ?q" using q by (simp add: queue_ok_def)
  have "0 < pq_size ?q" using ne by (cases "pq_size ?q = 0") (auto simp: peekNextTimerEvent_def pq_peek_def pq_isEmpty_def)
  then obtain a q' where r: "pq_removeFirst ?k ?q = Some (a, q')" "pq_invariant ?k q'"
      "pq_mset ?q = add_mset a (pq_mset q')" "\<forall>b \<in># pq_mset ?q. ?k a \<le> ?k b"
    using pq_removeFirst_min_ok [OF inv] by blast
  note f = pq_removeFirst_facts [OF r(1)]
  have a: "peekNextTimerEvent st = a" using f(1) by (simp add: peekNextTimerEvent_def)
  have "Suc (pq_size q') = pq_size ?q"
    using pq_size_contents [OF inv] pq_size_contents [OF r(2)] r(3) by simp
  then have "pq_size q' < pq_capacity q'" using inv f(2) by (simp add: pq_invariant_def)
  moreover have "queue_ok {a} (events st) q'"
  proof -
    have "count (pq_mset q') b = (if events st b \<noteq> None \<and> b \<notin> {a} then 1 else 0)" for b
    proof -
      have "count (pq_mset q') b + (if b = a then 1 else 0) = count (pq_mset ?q) b" using r(3) by simp
      also have "\<dots> = (if events st b \<noteq> None then 1 else 0)" using q by (simp add: queue_ok_def)
      finally show ?thesis by (cases "b = a"; cases "events st b = None") simp_all
    qed
    then show ?thesis using q r(2) by (auto simp: queue_ok_def)
  qed
  moreover have "events st a \<noteq> None" using queue_member [OF q, of a] r(3) by simp
  moreover have "?k a \<le> ?k b" if "events st b = Some e" for b e using r(4) queue_member [OF q, of b] that by auto
  ultimately show ?thesis using r(1) queue_timers_exist [OF q] by (auto simp: removeNextTimerEvent_def a)
qed

subsection \<open>Registrations and events\<close>

lemma links_okI:
  assumes "\<And>p sv. S p = Some sv \<Longrightarrow>
      \<exists>t. E (sv_pevent sv) = Some (ExpireServer t p) \<and> (sv_living sv \<longrightarrow> t = sv_expires_at sv)"
    and "\<And>a t p. E a = Some (ExpireServer t p) \<Longrightarrow> p \<noteq> 0 \<Longrightarrow> \<exists>sv. S p = Some sv \<and> sv_pevent sv = a"
  shows "links_ok S E"
  using assms unfolding links_ok_def by blast

lemma linksD1:
  assumes "links_ok S E" "S p = Some sv"
  obtains t where "E (sv_pevent sv) = Some (ExpireServer t p)" "sv_living sv \<longrightarrow> t = sv_expires_at sv"
  using assms unfolding links_ok_def by blast

lemma linksD2:
  assumes "links_ok S E" "E a = Some (ExpireServer t p)" "p \<noteq> 0"
  obtains sv where "S p = Some sv" "sv_pevent sv = a"
  using assms unfolding links_ok_def by blast

text \<open>An event no registration points to comes, changes or goes.\<close>

lemma links_other_event:
  assumes l: "links_ok S E" and a: "\<forall>t p. E a = Some (ExpireServer t p) \<longrightarrow> p = 0"
    and e: "\<forall>t p. e = Some (ExpireServer t p) \<longrightarrow> p = 0" and S: "S 0 = None"
  shows "links_ok S (E(a := e))"
proof (rule links_okI)
  fix p sv assume p: "S p = Some sv"
  obtain t where t: "E (sv_pevent sv) = Some (ExpireServer t p)" "sv_living sv \<longrightarrow> t = sv_expires_at sv" by (rule linksD1 [OF l p])
  have "p \<noteq> 0" using p S by (cases "p = 0") auto
  then have "sv_pevent sv \<noteq> a" using t(1) a by metis
  then show "\<exists>t. (E(a := e)) (sv_pevent sv) = Some (ExpireServer t p) \<and> (sv_living sv \<longrightarrow> t = sv_expires_at sv)"
    using t by simp
next
  fix b t p assume b: "(E(a := e)) b = Some (ExpireServer t p)" "p \<noteq> 0"
  then have "b \<noteq> a" using e by (cases "b = a") auto
  then show "\<exists>sv. S p = Some sv \<and> sv_pevent sv = b" using b linksD2 [OF l, of b t p] by auto
qed

text \<open>The registration at \<open>p\<close> comes, or changes, and is given the event \<open>a\<close>, to which no other points.\<close>

lemma links_connect:
  assumes l: "links_ok S E" and S: "S 0 = None" and p: "p \<noteq> 0" "S p = None \<or> (\<exists>sv. S p = Some sv \<and> sv_pevent sv = a)"
    and a: "\<forall>t q. E a = Some (ExpireServer t q) \<longrightarrow> q = 0 \<or> q = p"
    and sv': "sv_pevent sv' = a" "sv_living sv' \<longrightarrow> t = sv_expires_at sv'"
  shows "links_ok (S(p \<mapsto> sv')) (E(a \<mapsto> ExpireServer t p))"
proof (rule links_okI)
  fix q w assume q: "(S(p \<mapsto> sv')) q = Some w"
  show "\<exists>u. (E(a \<mapsto> ExpireServer t p)) (sv_pevent w) = Some (ExpireServer u q) \<and> (sv_living w \<longrightarrow> u = sv_expires_at w)"
  proof (cases "q = p")
    case True
    then show ?thesis using q sv' by auto
  next
    case False
    then have w: "S q = Some w" using q by simp
    obtain u where u: "E (sv_pevent w) = Some (ExpireServer u q)" "sv_living w \<longrightarrow> u = sv_expires_at w" by (rule linksD1 [OF l w])
    have "q \<noteq> 0" using w S by (cases "q = 0") auto
    then have "sv_pevent w \<noteq> a" using u(1) a False by metis
    then show ?thesis using u by simp
  qed
next
  fix b u q assume b: "(E(a \<mapsto> ExpireServer t p)) b = Some (ExpireServer u q)" "q \<noteq> 0"
  show "\<exists>sv. (S(p \<mapsto> sv')) q = Some sv \<and> sv_pevent sv = b"
  proof (cases "b = a")
    case True
    then show ?thesis using b sv' by auto
  next
    case False
    then obtain sv where sv: "S q = Some sv" "sv_pevent sv = b" using b linksD2 [OF l, of b u q] by auto
    then have "q \<noteq> p" using p(2) False by auto
    then show ?thesis using sv by simp
  qed
qed

text \<open>The registration at \<open>p\<close> goes and leaves its event disabled.\<close>

lemma links_disconnect:
  assumes l: "links_ok S E" and p: "S p = Some sv" and S: "S 0 = None"
  shows "links_ok (S(p := None)) (E(sv_pevent sv \<mapsto> ExpireServer u 0))"
proof (rule links_okI)
  obtain t where t: "E (sv_pevent sv) = Some (ExpireServer t p)" by (rule linksD1 [OF l p])
  fix q w assume "(S(p := None)) q = Some w"
  then have q: "q \<noteq> p" "S q = Some w" by (auto split: if_splits)
  obtain u' where u: "E (sv_pevent w) = Some (ExpireServer u' q)" "sv_living w \<longrightarrow> u' = sv_expires_at w"
    by (rule linksD1 [OF l q(2)])
  then have "sv_pevent w \<noteq> sv_pevent sv" using t q(1) by auto
  then show "\<exists>t. (E(sv_pevent sv \<mapsto> ExpireServer u 0)) (sv_pevent w) = Some (ExpireServer t q) \<and> (sv_living w \<longrightarrow> t = sv_expires_at w)"
    using u by simp
next
  fix b t q assume b: "(E(sv_pevent sv \<mapsto> ExpireServer u 0)) b = Some (ExpireServer t q)" "q \<noteq> 0"
  then have ne: "b \<noteq> sv_pevent sv" by (cases "b = sv_pevent sv") auto
  then obtain w where w: "S q = Some w" "sv_pevent w = b" using b linksD2 [OF l, of b t q] by auto
  then have "q \<noteq> p" using ne p by auto
  then show "\<exists>sv. (S(p := None)) q = Some sv \<and> sv_pevent sv = b" using w by auto
qed

subsection \<open>The table of servers\<close>

lemma table_okD:
  assumes "table_ok sg N t"
  shows "ht_inv (desc_hash sg) t" "ht_map t d = Some p \<longleftrightarrow> N p = Some d" "N p = Some d \<Longrightarrow> admissible d"
    "N p = Some d \<Longrightarrow> N q = Some d \<Longrightarrow> p = q" "ht_map t d = None \<longleftrightarrow> (\<forall>p. N p \<noteq> Some d)"
proof -
  show "ht_inv (desc_hash sg) t" "ht_map t d = Some p \<longleftrightarrow> N p = Some d" "N p = Some d \<Longrightarrow> admissible d"
    using assms by (auto simp: table_ok_def)
  have m: "N p = Some d \<longleftrightarrow> ht_map t d = Some p" for p using assms by (auto simp: table_ok_def)
  show "N p = Some d \<Longrightarrow> N q = Some d \<Longrightarrow> p = q" "ht_map t d = None \<longleftrightarrow> (\<forall>p. N p \<noteq> Some d)" by (auto simp: m)
qed

lemma table_ok_add:
  assumes t: "table_ok sg N t" and new: "ht_map t d = None" "N p = None" "admissible d"
    and t': "ht_inv (desc_hash sg) t'" "ht_map t' = (ht_map t)(d \<mapsto> p)"
  shows "table_ok sg (N(p \<mapsto> d)) t'"
proof -
  have "ht_map t' e = Some q \<longleftrightarrow> (N(p \<mapsto> d)) q = Some e" for e q
    using table_okD(2) [OF t, of e q] table_okD(2) [OF t, of e p] new by (auto simp: t'(2))
  then show ?thesis using t'(1) new(3) table_okD(3) [OF t] by (simp add: table_ok_def)
qed

lemma table_ok_remove:
  assumes t: "table_ok sg N t" and p: "N p = Some d"
    and t': "ht_inv (desc_hash sg) t'" "ht_map t' = (ht_map t)(d := None)"
  shows "table_ok sg (N(p := None)) t'"
proof -
  have "ht_map t' e = Some q \<longleftrightarrow> (N(p := None)) q = Some e" for e q
    using table_okD(2) [OF t, of e q] table_okD(2) [OF t, of d p] p by (auto simp: t'(2))
  then show ?thesis using t'(1) table_okD(3) [OF t] by (simp add: table_ok_def)
qed

subsection \<open>The tree of servers\<close>

lemma treeD:
  assumes "tree_ok sg N D T" "ht_map T n = Some ps"
  obtains d where "D ps = Some d" "dm_id d = n" "ht_inv (string_hash sg) (dm_children d)" "n \<noteq> getServerName \<longrightarrow> versions_of N n d"
  using assms unfolding tree_ok_def by blast

lemma tree_okI:
  assumes "ht_inv (string_hash sg) T"
    and "\<And>n ps. ht_map T n = Some ps \<Longrightarrow> \<exists>d. D ps = Some d \<and> dm_id d = n \<and>
        ht_inv (string_hash sg) (dm_children d) \<and> (n \<noteq> getServerName \<longrightarrow> versions_of N n d)"
    and "\<And>p d. N p = Some d \<Longrightarrow> ht_map T (sd_name d) \<noteq> None"
  shows "tree_ok sg N D T"
  using assms unfolding tree_ok_def by blast

lemma versions_child:
  "versions_of N n d \<Longrightarrow> ht_map (dm_children d) i = Some p \<longleftrightarrow>
     (\<exists>v. N p = Some \<lparr>sd_name = n, protocol_version = v\<rparr> \<and> i = version_id v)"
  by (simp add: versions_of_def)

lemma versions_nonempty: "versions_of N n d \<Longrightarrow> ht_map (dm_children d) \<noteq> Map.empty"
  by (simp add: versions_of_def)

lemma versions_ofI:
  assumes "ht_map (dm_children d) i = Some p"
    and "\<And>i p. ht_map (dm_children d) i = Some p \<longleftrightarrow> (\<exists>v. N p = Some \<lparr>sd_name = n, protocol_version = v\<rparr> \<and> i = version_id v)"
  shows "versions_of N n d"
  using assms by (auto simp: versions_of_def)

text \<open>A registration elsewhere does not matter.\<close>

lemma versions_other:
  assumes "versions_of N m d" "\<And>p v. N' p = Some \<lparr>sd_name = m, protocol_version = v\<rparr> \<longleftrightarrow> N p = Some \<lparr>sd_name = m, protocol_version = v\<rparr>"
  shows "versions_of N' m d"
  using assms by (simp add: versions_of_def)

lemma tree_ok_enter:
  assumes tree: "tree_ok sg N D T" and p: "N p = None" and n: "n \<noteq> getServerName"
    and T': "ht_inv (string_hash sg) T'" "ht_map T' = (ht_map T)(n \<mapsto> ps)"
    and d': "D' ps = Some d'" "dm_id d' = n" "ht_inv (string_hash sg) (dm_children d')"
      "ht_map (dm_children d') = M(version_id v \<mapsto> p)"
    and M: "\<And>i q. M i = Some q \<longleftrightarrow> (\<exists>w. N q = Some \<lparr>sd_name = n, protocol_version = w\<rparr> \<and> i = version_id w)"
    and same: "\<And>m qs. ht_map T m = Some qs \<Longrightarrow> m \<noteq> n \<Longrightarrow> D' qs = D qs"
    and free: "\<And>q. N q \<noteq> Some \<lparr>sd_name = n, protocol_version = v\<rparr>"
  shows "tree_ok sg (N(p \<mapsto> \<lparr>sd_name = n, protocol_version = v\<rparr>)) D' T'"
proof (rule tree_okI [OF T'(1)])
  let ?N = "N(p \<mapsto> \<lparr>sd_name = n, protocol_version = v\<rparr>)"
  fix m qs assume m: "ht_map T' m = Some qs"
  show "\<exists>d. D' qs = Some d \<and> dm_id d = m \<and> ht_inv (string_hash sg) (dm_children d) \<and> (m \<noteq> getServerName \<longrightarrow> versions_of ?N m d)"
  proof (cases "m = n")
    case True
    have "versions_of ?N n d'"
    proof (rule versions_ofI)
      show "ht_map (dm_children d') (version_id v) = Some p" by (simp add: d'(4))
      fix i q
      show "ht_map (dm_children d') i = Some q \<longleftrightarrow> (\<exists>w. ?N q = Some \<lparr>sd_name = n, protocol_version = w\<rparr> \<and> i = version_id w)"
        using M [of i q] free [of q] p by (auto simp: d'(4) version_id_inj)
    qed
    then show ?thesis using m d' True T'(2) by auto
  next
    case False
    then have m': "ht_map T m = Some qs" using m T'(2) by simp
    obtain d where d: "D qs = Some d" "dm_id d = m" "ht_inv (string_hash sg) (dm_children d)" "m \<noteq> getServerName \<longrightarrow> versions_of N m d"
      by (rule treeD [OF tree m'])
    have "m \<noteq> getServerName \<longrightarrow> versions_of ?N m d" using d(4) p False versions_other [of N m d ?N] by auto
    then show ?thesis using d same [OF m' False] by auto
  qed
next
  fix q d assume "(N(p \<mapsto> \<lparr>sd_name = n, protocol_version = v\<rparr>)) q = Some d"
  then show "ht_map T' (sd_name d) \<noteq> None" using tree T'(2) unfolding tree_ok_def by (auto split: if_splits)
qed

definition roomy :: "('k, 'v) htab \<Rightarrow> bool" where
  "roomy t \<longleftrightarrow> (\<exists>c. fits (max (ht_used t + 2) (medium_capacity t)) t c)"

lemma ht_new_roomy:
  fixes hash :: "'k \<Rightarrow> nat"
  obtains t :: "('k, 'v) htab" where "ht_new hash True 11 (f32 (4/5)) (f32 (2/5)) = Some t" "ht_inv hash t"
    "ht_map t = Map.empty" "roomy t"
proof -
  obtain t :: "('k, 'v) htab" where t: "ht_new hash True 11 (f32 (4/5)) (f32 (2/5)) = Some t" "ht_inv hash t"
      "ht_map t = Map.empty" "ht_used t = 0" "ht_minCapacity t = 11"
    using ht_new_default [of hash] by blast
  have "medium_capacity t = 0"
    using t(4) by (simp add: medium_capacity_def ht_size_def f32_of_nat_def f32_div_def f32_trunc_def)
  then have "fits (max (ht_used t + 2) (medium_capacity t)) t 11" using t(4,5) by (simp add: fits_def primes_def)
  then have "roomy t" unfolding roomy_def by blast
  then show thesis using that t by blast
qed

lemma ht_add_new:
  assumes "ht_inv hash t" "ht_map t k = None" "roomy t"
  obtains t' where "ht_add hash True True k v t = Some (True, t')" "ht_inv hash t'" "ht_map t' = (ht_map t)(k \<mapsto> v)"
  using ht_add_ok [OF assms(1), of True True k v] assms(2,3) unfolding roomy_def by auto

definition enough :: "(nat \<Rightarrow> bool) \<Rightarrow> manager \<Rightarrow> bool" where
  "enough avail st \<longleftrightarrow> avail 5 \<and> avail 6 \<and> avail 7 \<and> avail 8 \<and> avail 9 \<and> avail 10 \<and> avail 11 \<and> avail 12 \<and>
     roomy (servers_domain st) \<and> (\<forall>ps d. domains st ps = Some d \<longrightarrow> roomy (dm_children d))"

lemma enter_tree_ok:
  assumes sv: "servers st p = Some sv" and tree: "tree_ok sg ((descs st)(p := None)) (domains st) (servers_domain st)"
    and adm: "admissible (sv_desc sv)" and free: "\<And>q. q \<noteq> p \<Longrightarrow> descs st q \<noteq> Some (sv_desc sv)"
    and heap: "heap_ok st" and mem: "enough avail st"
  shows "\<exists>D T n. enter_tree sg avail p st = Some (True, st\<lparr>domains := D, servers_domain := T, next_addr := n\<rparr>) \<and>
    tree_ok sg (descs st) D T \<and> heap_ok (st\<lparr>domains := D, servers_domain := T, next_addr := n\<rparr>)"
proof -
  let ?N = "(descs st)(p := None)" and ?D = "domains st" and ?T = "servers_domain st"
  obtain n v where d: "sv_desc sv = \<lparr>sd_name = n, protocol_version = v\<rparr>" by (cases "sv_desc sv") simp
  have N: "?N(p \<mapsto> \<lparr>sd_name = n, protocol_version = v\<rparr>) = descs st" using sv d by (auto simp: descs_def)
  have n: "n \<noteq> getServerName" using adm d by (simp add: admissible_def)
  have free': "?N q \<noteq> Some \<lparr>sd_name = n, protocol_version = v\<rparr>" for q using free [of q] d by auto
  have inv: "ht_inv (string_hash sg) ?T" using tree by (simp add: tree_ok_def)
  have a: "avail 5" "avail 6" "avail 7" "avail 8" "avail 9" "avail 10" "avail 11" "avail 12" "roomy ?T"
    using mem by (simp_all add: enough_def)
  show ?thesis
  proof (cases "ht_map ?T n")
    case (Some ps)
    obtain dd where dd: "?D ps = Some dd" "dm_id dd = n" "ht_inv (string_hash sg) (dm_children dd)"
        "n \<noteq> getServerName \<longrightarrow> versions_of ?N n dd"
      by (rule treeD [OF tree Some])
    note vs = versions_child [OF dd(4) [rule_format, OF n]]
    have "ht_map (dm_children dd) (version_id v) = None"
      using vs [of "version_id v"] free' by (cases "ht_map (dm_children dd) (version_id v)") (auto simp: version_id_inj)
    then obtain t' where t': "ht_add (string_hash sg) True True (version_id v) p (dm_children dd) = Some (True, t')"
        "ht_inv (string_hash sg) t'" "ht_map t' = (ht_map (dm_children dd))(version_id v \<mapsto> p)"
      using ht_add_new [OF dd(3)] mem dd(1) unfolding enough_def by blast
    let ?D' = "?D(ps \<mapsto> dd\<lparr>dm_children := t'\<rparr>)"
    have "enter_tree sg avail p st = Some (True, st\<lparr>domains := ?D'\<rparr>)"
      using sv d Some dd t' a
      by (simp add: enter_tree_def name_domain_def version_entry_def version_addChild_def domain_addChild_def getIdentifier_def
          ht_query_ok [OF inv])
    moreover have "tree_ok sg (?N(p \<mapsto> \<lparr>sd_name = n, protocol_version = v\<rparr>)) ?D' ?T"
    proof (rule tree_ok_enter [OF tree _ n inv, where ps = ps and M = "ht_map (dm_children dd)" and d' = "dd\<lparr>dm_children := t'\<rparr>"])
      fix m qs assume m: "ht_map ?T m = Some qs" "m \<noteq> n"
      obtain d where "?D qs = Some d" "dm_id d = m" by (rule treeD [OF tree m(1)])
      then have "qs \<noteq> ps" using dd(1,2) m(2) by auto
      then show "?D' qs = ?D qs" by simp
    qed (use Some dd t' vs free' in auto)
    moreover have "heap_ok (st\<lparr>domains := ?D'\<rparr>)" using heap heap_live(3) [OF heap dd(1)] by (auto simp: heap_ok_def)
    ultimately show ?thesis unfolding N
      by (intro exI [of _ ?D'] exI [of _ ?T] exI [of _ "next_addr st"]) simp
  next
    case None
    let ?a = "next_addr st"
    have none: "?N q \<noteq> Some \<lparr>sd_name = n, protocol_version = w\<rparr>" for q w
      using tree None unfolding tree_ok_def by (metis server_desc.select_convs(1))
    obtain t where t: "ht_new (string_hash sg) True 11 (f32 (4/5)) (f32 (2/5)) = Some t" "ht_inv (string_hash sg) t"
        "ht_map t = Map.empty" "roomy (t :: (byte list, nat) htab)"
      by (rule ht_new_roomy)
    obtain T' where T': "ht_add (string_hash sg) True True n ?a ?T = Some (True, T')" "ht_inv (string_hash sg) T'"
        "ht_map T' = (ht_map ?T)(n \<mapsto> ?a)"
      by (rule ht_add_new [OF inv None a(9)])
    have "ht_map t (version_id v) = None" using t(3) by simp
    then obtain t' where t': "ht_add (string_hash sg) True True (version_id v) p t = Some (True, t')"
        "ht_inv (string_hash sg) t'" "ht_map t' = (ht_map t)(version_id v \<mapsto> p)"
      by (rule ht_add_new [OF t(2) _ t(4)])
    let ?D' = "?D(?a \<mapsto> \<lparr>dm_id = n, dm_children = t'\<rparr>)"
    have "enter_tree sg avail p st = Some (True, st\<lparr>domains := ?D', servers_domain := T', next_addr := ?a + 1\<rparr>)"
      using sv d None t t' T' a
      by (simp add: enter_tree_def name_domain_def new_domain_def servers_addChild_def version_entry_def version_addChild_def
          domain_addChild_def getIdentifier_def ht_query_ok [OF inv])
    moreover have "tree_ok sg (?N(p \<mapsto> \<lparr>sd_name = n, protocol_version = v\<rparr>)) ?D' T'"
    proof (rule tree_ok_enter [OF tree _ n T'(2,3), where M = "Map.empty" and d' = "\<lparr>dm_id = n, dm_children = t'\<rparr>"])
      fix m qs assume m: "ht_map ?T m = Some qs" "m \<noteq> n"
      obtain d where "?D qs = Some d" by (rule treeD [OF tree m(1)])
      moreover have "?D ?a = None" using heap by (simp add: heap_ok_def)
      ultimately have "qs \<noteq> ?a" by auto
      then show "?D' qs = ?D qs" by simp
    qed (use t t' none free' in auto)
    moreover have "heap_ok (st\<lparr>domains := ?D', servers_domain := T', next_addr := ?a + 1\<rparr>)" using heap by (auto simp: heap_ok_def)
    ultimately show ?thesis unfolding N by (intro exI [of _ ?D'] exI [of _ T'] exI [of _ "?a + 1"]) simp
  qed
qed

subsection \<open>Removal\<close>

text \<open>The single child, and two or more children, of a domain.\<close>

lemma assocs_map_of:
  assumes "ht_wf hash t"
  shows "(k, v) \<in> set (assocs (ht_table t)) \<longleftrightarrow> ht_map t k = Some v"
  using assms by (simp add: ht_map_def ht_wf_def)

lemma ht_size_pos: "ht_inv hash t \<Longrightarrow> ht_map t k = Some v \<Longrightarrow> ht_size t \<noteq> 0"
  using ht_invD(4) [of hash t] assocs_map_of [of hash t k v] by (auto simp: ht_inv_def)

lemma ht_size_one:
  assumes "ht_inv hash t" "ht_map t k = Some v" "ht_size t = 1"
  shows "assocs (ht_table t) = [(k, v)]"
  using assms ht_invD(4) [of hash t] assocs_map_of [of hash t k v] by (auto simp: ht_inv_def length_Suc_conv)

lemma ht_size_more:
  assumes "ht_inv hash t" "ht_map t k = Some v" "ht_size t \<noteq> 1"
  obtains k' v' where "k' \<noteq> k" "ht_map t k' = Some v'"
proof -
  have wf: "ht_wf hash t" and dist: "distinct (map fst (assocs (ht_table t)))" using assms(1) ht_invD by (auto simp: ht_inv_def)
  have "length (assocs (ht_table t)) \<noteq> 1" using assms(3) ht_invD(4) [OF assms(1)] by simp
  moreover have kv: "(k, v) \<in> set (assocs (ht_table t))" using assocs_map_of [OF wf] assms(2) by blast
  ultimately obtain x y zs where "assocs (ht_table t) = x # y # zs" by (cases "assocs (ht_table t)" rule: remdups_adj.cases) auto
  then have "\<exists>z \<in> set (assocs (ht_table t)). fst z \<noteq> k" using dist by (cases "fst x = k") auto
  then obtain k' v' where "(k', v') \<in> set (assocs (ht_table t))" "k' \<noteq> k" by auto
  then show thesis using that assocs_map_of [OF wf] by blast
qed

lemma tree_ok_leave_one:
  assumes tree: "tree_ok sg N D T" and p: "N p = Some \<lparr>sd_name = n, protocol_version = v\<rparr>" and n: "n \<noteq> getServerName"
    and T: "ht_map T n = Some ps" and one: "\<And>q w. N q = Some \<lparr>sd_name = n, protocol_version = w\<rparr> \<Longrightarrow> q = p"
    and T': "ht_inv (string_hash sg) T'" "ht_map T' = (ht_map T)(n := None)"
  shows "tree_ok sg (N(p := None)) (D(ps := None)) T'"
proof (rule tree_okI [OF T'(1)])
  fix m qs assume m: "ht_map T' m = Some qs"
  then have m': "m \<noteq> n" "ht_map T m = Some qs" using T'(2) by (auto split: if_splits)
  obtain d where d: "D qs = Some d" "dm_id d = m" "ht_inv (string_hash sg) (dm_children d)" "m \<noteq> getServerName \<longrightarrow> versions_of N m d"
    by (rule treeD [OF tree m'(2)])
  obtain d0 where "D ps = Some d0" "dm_id d0 = n" by (rule treeD [OF tree T])
  then have "qs \<noteq> ps" using d m'(1) by auto
  moreover have "m \<noteq> getServerName \<longrightarrow> versions_of (N(p := None)) m d"
    using d(4) p m'(1) versions_other [of N m d "N(p := None)"] by auto
  ultimately show "\<exists>d. (D(ps := None)) qs = Some d \<and> dm_id d = m \<and> ht_inv (string_hash sg) (dm_children d) \<and>
      (m \<noteq> getServerName \<longrightarrow> versions_of (N(p := None)) m d)" using d by simp
next
  fix q d assume q: "(N(p := None)) q = Some d"
  then have q': "q \<noteq> p" "N q = Some d" by (auto split: if_splits)
  then have "sd_name d \<noteq> n" using one [of q "protocol_version d"] by (cases d) auto
  moreover have "ht_map T (sd_name d) \<noteq> None" using tree q'(2) unfolding tree_ok_def by blast
  ultimately show "ht_map T' (sd_name d) \<noteq> None" using T'(2) by simp
qed

lemma tree_ok_leave_more:
  assumes tree: "tree_ok sg N D T" and p: "N p = Some \<lparr>sd_name = n, protocol_version = v\<rparr>" and n: "n \<noteq> getServerName"
    and T: "ht_map T n = Some ps" and d0: "D ps = Some d0"
    and uniq: "\<And>q. N q = Some \<lparr>sd_name = n, protocol_version = v\<rparr> \<Longrightarrow> q = p"
    and q: "N q = Some \<lparr>sd_name = n, protocol_version = w\<rparr>" "q \<noteq> p"
    and t: "ht_inv (string_hash sg) t" "ht_map t = (ht_map (dm_children d0))(version_id v := None)"
  shows "tree_ok sg (N(p := None)) (D(ps \<mapsto> d0\<lparr>dm_children := t\<rparr>)) T"
proof (rule tree_okI)
  show "ht_inv (string_hash sg) T" using tree by (simp add: tree_ok_def)
  fix m qs assume m: "ht_map T m = Some qs"
  obtain d where d: "D qs = Some d" "dm_id d = m" "ht_inv (string_hash sg) (dm_children d)" "m \<noteq> getServerName \<longrightarrow> versions_of N m d"
    by (rule treeD [OF tree m])
  have d0': "dm_id d0 = n" "versions_of N n d0" using treeD [OF tree T] d0 n by (metis option.inject)+
  show "\<exists>d. (D(ps \<mapsto> d0\<lparr>dm_children := t\<rparr>)) qs = Some d \<and> dm_id d = m \<and> ht_inv (string_hash sg) (dm_children d) \<and>
      (m \<noteq> getServerName \<longrightarrow> versions_of (N(p := None)) m d)"
  proof (cases "qs = ps")
    case True
    then have "m = n" using d d0 d0' by simp
    have "versions_of (N(p := None)) n (d0\<lparr>dm_children := t\<rparr>)"
    proof (rule versions_ofI)
      have "w \<noteq> v" using uniq q by auto
      then show "ht_map (dm_children (d0\<lparr>dm_children := t\<rparr>)) (version_id w) = Some q"
        using versions_child [OF d0'(2), of "version_id w" q] q t(2) by (auto simp: version_id_inj)
      fix i r
      show "ht_map (dm_children (d0\<lparr>dm_children := t\<rparr>)) i = Some r \<longleftrightarrow>
          (\<exists>v. (N(p := None)) r = Some \<lparr>sd_name = n, protocol_version = v\<rparr> \<and> i = version_id v)"
      proof (cases "r = p")
        case True
        then show ?thesis using versions_child [OF d0'(2), of i p] p t(2) by auto
      next
        case False
        then have "\<not> ht_map (dm_children d0) (version_id v) = Some r"
          using versions_child [OF d0'(2), of "version_id v" r] uniq [of r] by (auto simp: version_id_inj)
        then show ?thesis using False versions_child [OF d0'(2), of i r] t(2) by auto
      qed
    qed
    then show ?thesis using True \<open>m = n\<close> d0' t(1) by simp
  next
    case False
    then have "m \<noteq> n" using T m by auto
    then have "m \<noteq> getServerName \<longrightarrow> versions_of (N(p := None)) m d"
      using d(4) p versions_other [of N m d "N(p := None)"] by auto
    then show ?thesis using False d by simp
  qed
next
  fix r d assume "(N(p := None)) r = Some d"
  then have "N r = Some d" by (auto split: if_splits)
  then show "ht_map T (sd_name d) \<noteq> None" using tree unfolding tree_ok_def by blast
qed

lemma manager_invD:
  assumes "manager_inv sg X st"
  shows "heap_ok st" "queue_ok X (events st) (timer_queue st)" "links_ok (servers st) (events st)"
    "table_ok sg (descs st) (server_table st)" "tree_ok sg (descs st) (domains st) (servers_domain st)"
  using assms by (simp_all add: manager_inv_def)

lemma versions_assocs:
  assumes inv: "ht_inv hash (dm_children d)" and vs: "versions_of N n d"
    and p: "N p = Some \<lparr>sd_name = n, protocol_version = v\<rparr>" and one: "ht_size (dm_children d) = 1"
  shows "children_of d = {p}" "\<And>q w. N q = Some \<lparr>sd_name = n, protocol_version = w\<rparr> \<Longrightarrow> q = p"
proof -
  have m: "ht_map (dm_children d) (version_id v) = Some p" using versions_child [OF vs] p by blast
  have s: "assocs (ht_table (dm_children d)) = [(version_id v, p)]" by (rule ht_size_one [OF inv m one])
  then show "children_of d = {p}" by (simp add: children_of_def)
  fix q w assume "N q = Some \<lparr>sd_name = n, protocol_version = w\<rparr>"
  then have "ht_map (dm_children d) (version_id w) = Some q" using versions_child [OF vs] by blast
  then show "q = p" using s by (auto simp: ht_map_def split: if_splits)
qed

text \<open>The end of \<open>removeServer\<close>, after the lookups.\<close>

lemma leave_tree_ok:
  assumes tree: "tree_ok sg (descs st) (domains st) (servers_domain st)" and sv: "servers st p = Some sv"
    and d: "sv_desc sv = \<lparr>sd_name = n, protocol_version = v\<rparr>" and n: "n \<noteq> getServerName"
    and uniq: "\<And>q. descs st q = Some (sv_desc sv) \<Longrightarrow> q = p"
  obtains ps dd D T where "ht_map (servers_domain st) n = Some ps" "domains st ps = Some dd" "ht_size (dm_children dd) \<noteq> 0"
    "(if ht_size (dm_children dd) = 1 then servers_removeChild sg m n st else version_removeChild sg m ps (version_id v) st) =
       Some (st\<lparr>servers := (servers st)(p := None), domains := D, servers_domain := T\<rparr>)"
    "tree_ok sg ((descs st)(p := None)) D T" "\<forall>a. domains st a = None \<longrightarrow> D a = None"
proof -
  have inv: "ht_inv (string_hash sg) (servers_domain st)" using tree by (simp add: tree_ok_def)
  have p: "descs st p = Some \<lparr>sd_name = n, protocol_version = v\<rparr>" using sv d by (simp add: descs_def)
  have "ht_map (servers_domain st) n \<noteq> None" using tree p unfolding tree_ok_def by fastforce
  then obtain ps where ps: "ht_map (servers_domain st) n = Some ps" by blast
  obtain dd where dd: "domains st ps = Some dd" "dm_id dd = n" "ht_inv (string_hash sg) (dm_children dd)"
      "n \<noteq> getServerName \<longrightarrow> versions_of (descs st) n dd"
    by (rule treeD [OF tree ps])
  then have vs: "versions_of (descs st) n dd" using n by blast
  have child: "ht_map (dm_children dd) (version_id v) = Some p" using versions_child [OF vs] p by blast
  note pos = ht_size_pos [OF dd(3) child]
  show thesis
  proof (cases "ht_size (dm_children dd) = 1")
    case True
    obtain T where T: "ht_remove (string_hash sg) m n (servers_domain st) = Some (Some ps, T)" "ht_inv (string_hash sg) T"
        "ht_map T = (ht_map (servers_domain st))(n := None)"
      using ht_remove_ok [OF inv, of m n] ps by auto
    have "servers st |` (- {p}) = (servers st)(p := None)" by (auto simp: restrict_map_def fun_eq_iff)
    then have "servers_removeChild sg m n st =
        Some (st\<lparr>servers := (servers st)(p := None), domains := (domains st)(ps := None), servers_domain := T\<rparr>)"
      using T(1) dd(1) versions_assocs(1) [OF dd(3) vs p True] by (simp add: servers_removeChild_def delete_domain_def)
    moreover have "tree_ok sg ((descs st)(p := None)) ((domains st)(ps := None)) T"
      by (rule tree_ok_leave_one [OF tree p n ps versions_assocs(2) [OF dd(3) vs p True] T(2,3)])
    ultimately show thesis using that [OF ps dd(1) pos, of T "(domains st)(ps := None)"] True by simp
  next
    case False
    obtain i q where q: "i \<noteq> version_id v" "ht_map (dm_children dd) i = Some q" by (rule ht_size_more [OF dd(3) child False])
    then obtain w where w: "descs st q = Some \<lparr>sd_name = n, protocol_version = w\<rparr>" "i = version_id w"
      using versions_child [OF vs] by blast
    have "q \<noteq> p" using w q(1) p by auto
    obtain t where t: "ht_remove (string_hash sg) m (version_id v) (dm_children dd) = Some (Some p, t)" "ht_inv (string_hash sg) t"
        "ht_map t = (ht_map (dm_children dd))(version_id v := None)"
      using ht_remove_ok [OF dd(3), of m "version_id v"] child by auto
    let ?D = "(domains st)(ps \<mapsto> dd\<lparr>dm_children := t\<rparr>)"
    have "version_removeChild sg m ps (version_id v) st =
        Some (st\<lparr>servers := (servers st)(p := None), domains := ?D, servers_domain := servers_domain st\<rparr>)"
      using t(1) dd(1) sv by (simp add: version_removeChild_def delete_server_def)
    moreover have "tree_ok sg ((descs st)(p := None)) ?D (servers_domain st)"
      using uniq d by (intro tree_ok_leave_more [OF tree p n ps dd(1) _ w(1) \<open>q \<noteq> p\<close> t(2,3)]) simp
    ultimately show thesis using that [OF ps dd(1) pos, of "servers_domain st" ?D] False dd(1) by simp
  qed
qed

lemma removeServer_ok:
  assumes inv: "manager_inv sg X st" and sv: "servers st p = Some sv"
  obtains st' u where "removeServer sg avail p st = Some st'" "manager_inv sg X st'"
    "events st (sv_pevent sv) = Some (ExpireServer u p)"
    "servers st' = (servers st)(p := None)" "events st' = (events st)(sv_pevent sv \<mapsto> ExpireServer u 0)"
    "ht_map (server_table st') = (ht_map (server_table st))(sv_desc sv := None)"
    "timer_queue st' = timer_queue st" "next_addr st' = next_addr st" "registered st' = registered st" "going_down st' = going_down st"
proof -
  note I = manager_invD [OF inv]
  obtain n v where d: "sv_desc sv = \<lparr>sd_name = n, protocol_version = v\<rparr>" by (cases "sv_desc sv") simp
  have p: "descs st p = Some (sv_desc sv)" using sv by (simp add: descs_def)
  note T = table_okD [OF I(4)]
  have adm: "admissible (sv_desc sv)" by (rule T(3) [OF p])
  have n: "n \<noteq> getServerName" "cstr n = n" "desc_key (sv_desc sv) = sv_desc sv"
    using adm admissible_name [OF adm] d by (simp_all add: admissible_def)
  obtain u where u: "events st (sv_pevent sv) = Some (ExpireServer u p)" by (rule linksD1 [OF I(3) sv])
  obtain t where t: "ht_remove (desc_hash sg) (avail 0) (sv_desc sv) (server_table st) = Some (Some p, t)" "ht_inv (desc_hash sg) t"
      "ht_map t = (ht_map (server_table st))(sv_desc sv := None)"
    using ht_remove_ok [OF T(1), of "avail 0" "sv_desc sv"] T(2) [of "sv_desc sv" p] p by auto
  let ?E = "(events st)(sv_pevent sv \<mapsto> ExpireServer u 0)"
  let ?st = "st\<lparr>server_table := t, events := ?E\<rparr>"
  have de: "descs ?st = descs st" by (simp add: descs_def fun_eq_iff)
  obtain ps dd D T' where r: "ht_map (servers_domain ?st) n = Some ps" "domains ?st ps = Some dd" "ht_size (dm_children dd) \<noteq> 0"
    "(if ht_size (dm_children dd) = 1 then servers_removeChild sg (avail 1) n ?st
      else version_removeChild sg (avail 1) ps (version_id v) ?st) =
       Some (?st\<lparr>servers := (servers ?st)(p := None), domains := D, servers_domain := T'\<rparr>)"
    "tree_ok sg ((descs ?st)(p := None)) D T'" "\<forall>a. domains ?st a = None \<longrightarrow> D a = None"
    by (rule leave_tree_ok [of sg ?st p sv n v "avail 1"]) (use I(5) sv d n T(4) p in \<open>simp_all add: de\<close>)
  let ?st' = "?st\<lparr>servers := (servers ?st)(p := None), domains := D, servers_domain := T'\<rparr>"
  have hq: "ht_query (string_hash sg) n (servers_domain st) = Some (Some ps)"
    using r(1) I(5) by (simp add: ht_query_ok tree_ok_def)
  have "removeServer sg avail p st = Some ?st'"
    using r(2,3,4) t(1) sv n u hq d
    by (cases "ht_size (dm_children dd) = 1"; simp add: removeServer_def set_pserver_def)
  moreover have "manager_inv sg X ?st'"
  proof -
    have de': "descs ?st' = (descs st)(p := None)" by (auto simp: descs_def fun_eq_iff)
    have "heap_ok ?st'" using I(1) r(6) heap_live(2) [OF I(1) u] by (auto simp: heap_ok_def)
    moreover have "queue_ok X ?E (timer_queue st)" using u by (intro queue_ok_same_time [OF I(2)]) auto
    moreover have "links_ok ((servers st)(p := None)) ?E"
      by (rule links_disconnect [OF I(3) sv heap_fresh(1) [OF I(1)]])
    moreover have "table_ok sg (descs ?st') t" unfolding de' by (rule table_ok_remove [OF I(4) p t(2,3)])
    moreover have "tree_ok sg (descs ?st') D T'" using r(5) unfolding de' de .
    ultimately show ?thesis by (simp add: manager_inv_def)
  qed
  ultimately show thesis using that [of ?st' u] u t(3) by simp
qed

subsection \<open>The abstract registry\<close>

text \<open>What clients can know of a registration, and the time its timer goes off.\<close>

record entry =
  en_port :: "16 word"
  en_expires_at :: timeval
  en_ttl :: u32
  en_living :: bool
  en_timer :: timeval

type_synonym registry = "server_desc \<rightharpoonup> entry"

definition entry_of :: "(nat \<rightharpoonup> timer_event) \<Rightarrow> server_entry \<Rightarrow> entry option" where
  "entry_of E sv = map_option (\<lambda>e. \<lparr>en_port = sv_port sv, en_expires_at = sv_expires_at sv, en_ttl = sv_time_to_live sv,
     en_living = sv_living sv, en_timer = trigger_at e\<rparr>) (E (sv_pevent sv))"

definition view_of :: "(server_desc \<rightharpoonup> nat) \<Rightarrow> (nat \<rightharpoonup> server_entry) \<Rightarrow> (nat \<rightharpoonup> timer_event) \<Rightarrow> registry" where
  "view_of M S E d = do { p \<leftarrow> M d; sv \<leftarrow> S p; entry_of E sv }"

definition view :: "manager \<Rightarrow> registry" where
  "view st = view_of (ht_map (server_table st)) (servers st) (events st)"

definition reg_register :: "timeval \<Rightarrow> registration \<Rightarrow> registry \<Rightarrow> registry" where
  "reg_register now r V = V(reg_server r \<mapsto>
     \<lparr>en_port = reg_port r, en_expires_at = time_now now (reg_time_to_live r),
      en_ttl = (case V (reg_server r) of None \<Rightarrow> reg_time_to_live r | Some e \<Rightarrow> en_ttl e),
      en_living = True, en_timer = time_now now (reg_time_to_live r)\<rparr>)"

lemma view_of_connect:
  assumes M: "\<And>d'. M d' = Some p \<Longrightarrow> d' = d" and e: "entry_of E' sv' = Some x"
    and other: "\<And>q w. q \<noteq> p \<Longrightarrow> S q = Some w \<Longrightarrow> map_option trigger_at (E' (sv_pevent w)) = map_option trigger_at (E (sv_pevent w))"
  shows "view_of (M(d \<mapsto> p)) (S(p \<mapsto> sv')) E' = (view_of M S E)(d \<mapsto> x)"
proof
  fix d'
  show "view_of (M(d \<mapsto> p)) (S(p \<mapsto> sv')) E' d' = ((view_of M S E)(d \<mapsto> x)) d'"
  proof (cases "d' = d")
    case True
    then show ?thesis using e by (simp add: view_of_def)
  next
    case False
    have "entry_of E' w = entry_of E w" if "q \<noteq> p" "S q = Some w" for q w
      using other [OF that] unfolding entry_of_def by (cases "E' (sv_pevent w)"; cases "E (sv_pevent w)") auto
    then have e: "S q \<bind> entry_of E' = S q \<bind> entry_of E" if "q \<noteq> p" for q using that by (cases "S q") auto
    show ?thesis
    proof (cases "M d'")
      case (Some q)
      then have "q \<noteq> p" using M False by blast
      then show ?thesis using Some False e [of q] by (simp add: view_of_def)
    qed (use False in \<open>simp add: view_of_def\<close>)
  qed
qed

lemma view_of_same:
  assumes "\<And>q w. S q = Some w \<Longrightarrow> map_option trigger_at (E' (sv_pevent w)) = map_option trigger_at (E (sv_pevent w))"
  shows "view_of M S E' = view_of M S E"
proof
  fix d
  have "entry_of E' w = entry_of E w" if "S q = Some w" for q w
    using assms [OF that] unfolding entry_of_def by (cases "E' (sv_pevent w)"; cases "E (sv_pevent w)") auto
  then show "view_of M S E' d = view_of M S E d" by (auto simp: view_of_def intro!: Option.bind_cong)
qed

lemma view_of_disconnect:
  assumes M: "M d = Some p" "\<And>d'. M d' = Some p \<Longrightarrow> d' = d"
    and other: "\<And>q w. q \<noteq> p \<Longrightarrow> S q = Some w \<Longrightarrow> map_option trigger_at (E' (sv_pevent w)) = map_option trigger_at (E (sv_pevent w))"
  shows "view_of (M(d := None)) (S(p := None)) E' = (view_of M S E)(d := None)"
proof
  fix d'
  have "entry_of E' w = entry_of E w" if "q \<noteq> p" "S q = Some w" for q w
    using other [OF that] unfolding entry_of_def by (cases "E' (sv_pevent w)"; cases "E (sv_pevent w)") auto
  then have e: "S q \<bind> entry_of E' = S q \<bind> entry_of E" if "q \<noteq> p" for q using that by (cases "S q") auto
  show "view_of (M(d := None)) (S(p := None)) E' d' = ((view_of M S E)(d := None)) d'"
  proof (cases "d' = d \<or> M d' = None")
    case False
    then obtain q where q: "M d' = Some q" "d' \<noteq> d" by auto
    then have "q \<noteq> p" using M(2) by blast
    then show ?thesis using q e [of q] by (simp add: view_of_def)
  qed (auto simp: view_of_def)
qed

lemma view_Some:
  assumes inv: "manager_inv sg X st"
  shows "view st d = Some x \<longleftrightarrow> (\<exists>p sv t. servers st p = Some sv \<and> sv_desc sv = d \<and> events st (sv_pevent sv) = Some (ExpireServer t p) \<and>
    x = \<lparr>en_port = sv_port sv, en_expires_at = sv_expires_at sv, en_ttl = sv_time_to_live sv, en_living = sv_living sv, en_timer = t\<rparr>)"
    (is "?L \<longleftrightarrow> ?R")
proof
  note I = manager_invD [OF inv]
  assume ?L
  then obtain p sv where p: "ht_map (server_table st) d = Some p" "servers st p = Some sv" "entry_of (events st) sv = Some x"
    by (auto simp: view_def view_of_def bind_eq_Some_conv)
  then have "sv_desc sv = d" using table_okD(2) [OF I(4), of d p] by (simp add: descs_def)
  moreover obtain t where "events st (sv_pevent sv) = Some (ExpireServer t p)" by (rule linksD1 [OF I(3) p(2)])
  ultimately show ?R using p by (auto simp: entry_of_def)
next
  note I = manager_invD [OF inv]
  assume ?R
  then obtain p sv t where "servers st p = Some sv" "sv_desc sv = d" "events st (sv_pevent sv) = Some (ExpireServer t p)"
    "x = \<lparr>en_port = sv_port sv, en_expires_at = sv_expires_at sv, en_ttl = sv_time_to_live sv, en_living = sv_living sv, en_timer = t\<rparr>"
    by blast
  moreover from this have "ht_map (server_table st) d = Some p" using table_okD(2) [OF I(4), of d p] by (simp add: descs_def)
  ultimately show ?L by (simp add: view_def view_of_def entry_of_def)
qed

subsection \<open>Registration\<close>

text \<open>Both branches give a registration a new event, which is queued already.\<close>

lemma event_of_other:
  assumes l: "links_ok S E" and "S q = Some w" "E a = Some (ExpireServer t p)" "q \<noteq> p"
  shows "sv_pevent w \<noteq> a"
proof -
  obtain u where "E (sv_pevent w) = Some (ExpireServer u q)" by (rule linksD1 [OF assms(1,2)])
  then show ?thesis using assms(3,4) by auto
qed

lemma refresh_connect_ok:
  assumes inv: "manager_inv sg {} st" and a: "events st a = Some (ExpireServer t 0)"
    and sv: "servers st p = Some sv" "sv_desc sv = reg_server r" and t: "t = time_now now (reg_time_to_live r)"
  obtains st' where "do { st \<leftarrow> refresh r t p st; connect p a st } = Some st'" "manager_inv sg {} st'"
    "view st' = reg_register now r (view st)"
proof -
  note I = manager_invD [OF inv]
  obtain u where u: "events st (sv_pevent sv) = Some (ExpireServer u p)" "sv_living sv \<longrightarrow> u = sv_expires_at sv"
    by (rule linksD1 [OF I(3) sv(1)])
  have p: "p \<noteq> 0" using heap_live(1) [OF I(1) sv(1)] by simp
  have ne: "sv_pevent sv \<noteq> a" using a u p by auto
  let ?sv = "sv\<lparr>sv_port := reg_port r, sv_expires_at := t, sv_living := True, sv_pevent := a\<rparr>"
  let ?E = "(events st)(sv_pevent sv \<mapsto> ExpireServer u 0, a \<mapsto> ExpireServer t p)"
  let ?st = "st\<lparr>servers := (servers st)(p \<mapsto> ?sv), events := ?E\<rparr>"
  have "do { st \<leftarrow> refresh r t p st; connect p a st } = Some ?st"
    using sv u a ne by (simp add: refresh_def connect_def set_pserver_def)
  moreover have "manager_inv sg {} ?st"
  proof -
    have de: "descs ?st = descs st" using sv by (auto simp: descs_def fun_eq_iff)
    have "heap_ok ?st" using I(1) heap_live [OF I(1)] sv(1) u(1) a by (auto simp: heap_ok_def)
    moreover have "queue_ok {} ?E (timer_queue st)"
      using u a ne queue_ok_same_time [OF queue_ok_same_time [OF I(2) u(1), of "ExpireServer u 0"], of a "ExpireServer t 0" "ExpireServer t p"]
      by simp
    moreover have "links_ok ((servers st)(p \<mapsto> ?sv)) ?E"
    proof -
      have "links_ok ((servers st)(p := None)) ((events st)(sv_pevent sv \<mapsto> ExpireServer u 0))"
        by (rule links_disconnect [OF I(3) sv(1) heap_fresh(1) [OF I(1)]])
      then have "links_ok (((servers st)(p := None))(p \<mapsto> ?sv)) (((events st)(sv_pevent sv \<mapsto> ExpireServer u 0))(a \<mapsto> ExpireServer t p))"
        using heap_fresh(1) [OF I(1)] p a ne by (intro links_connect) auto
      then show ?thesis by simp
    qed
    ultimately show ?thesis using I(4,5) unfolding manager_inv_def de by simp
  qed
  moreover have "view ?st = reg_register now r (view st)"
  proof -
    have M: "ht_map (server_table st) (reg_server r) = Some p"
      using table_okD(2) [OF I(4)] sv by (simp add: descs_def)
    have old: "view st (reg_server r) = Some \<lparr>en_port = sv_port sv, en_expires_at = sv_expires_at sv, en_ttl = sv_time_to_live sv,
        en_living = sv_living sv, en_timer = u\<rparr>" using view_Some [OF inv] sv u by blast
    have "view_of ((ht_map (server_table st))(reg_server r \<mapsto> p)) ((servers st)(p \<mapsto> ?sv)) ?E =
        (view_of (ht_map (server_table st)) (servers st) (events st))(reg_server r \<mapsto>
          \<lparr>en_port = reg_port r, en_expires_at = t, en_ttl = sv_time_to_live sv, en_living = True, en_timer = t\<rparr>)"
    proof (rule view_of_connect)
      show "d' = reg_server r" if "ht_map (server_table st) d' = Some p" for d'
        using table_okD(2) [OF I(4), of d' p] that sv by (simp add: descs_def)
      show "entry_of ?E ?sv = Some \<lparr>en_port = reg_port r, en_expires_at = t, en_ttl = sv_time_to_live sv, en_living = True, en_timer = t\<rparr>"
        by (simp add: entry_of_def)
      show "map_option trigger_at (?E (sv_pevent w)) = map_option trigger_at (events st (sv_pevent w))" if "servers st q = Some w" "q \<noteq> p" for q w
        using a u by simp
    qed
    then show ?thesis using old t M by (simp add: view_def reg_register_def fun_upd_idem)
  qed
  ultimately show thesis using that by blast
qed

lemma enter_ok:
  assumes inv: "manager_inv sg {} st" and a: "events st a = Some (ExpireServer t 0)"
    and new: "ht_map (server_table st) (reg_server r) = None" and adm: "admissible (reg_server r)"
    and mem: "enough avail st" and t: "t = time_now now (reg_time_to_live r)"
  shows "\<exists>p st1. enter sg avail r t st = Some (p, st1) \<and>
    (if p = 0 then manager_inv sg {} st1 \<and> view st1 = view st \<and> \<not> (avail 2 \<and> avail 3 \<and> avail 4 \<and> roomy (server_table st))
     else \<exists>st'. connect p a st1 = Some st' \<and> manager_inv sg {} st' \<and> view st' = reg_register now r (view st))"
proof -
  note I = manager_invD [OF inv] and H = heap_fresh [OF manager_invD(1) [OF inv]]
  let ?d = "reg_server r" and ?p = "next_addr st"
  let ?sv = "\<lparr>sv_desc = ?d, sv_port = reg_port r, sv_expires_at = t, sv_time_to_live = reg_time_to_live r, sv_living = True, sv_pevent = 0\<rparr>"
  have none: "descs st q \<noteq> Some ?d" for q using table_okD(5) [OF I(4)] new by blast
  have descs_p: "descs st ?p = None" using H(4) by (simp add: descs_def)
  show ?thesis
  proof (cases "avail 2")
    case False
    then show ?thesis using inv by (intro exI [of _ 0] exI [of _ st]) (simp add: enter_def)
  next
    case True
    obtain ok T where T: "ht_add (desc_hash sg) (avail 3) (avail 4) ?d ?p (server_table st) = Some (ok, T)" "ht_inv (desc_hash sg) T"
        "ok \<Longrightarrow> ht_map T = (ht_map (server_table st))(?d \<mapsto> ?p)" "\<not> ok \<Longrightarrow> ht_map T = ht_map (server_table st)"
        "avail 3 \<and> avail 4 \<and> roomy (server_table st) \<Longrightarrow> ok"
      using ht_add_ok [OF table_okD(1) [OF I(4)], of "avail 3" "avail 4" ?d ?p] new unfolding roomy_def by metis
    let ?st1 = "st\<lparr>servers := (servers st)(?p \<mapsto> ?sv), next_addr := ?p + 1, server_table := T\<rparr>"
    have key: "desc_key ?d = ?d" by (rule admissible_name(2) [OF adm])
    show ?thesis
    proof (cases ok)
      case False
      let ?st2 = "st\<lparr>next_addr := ?p + 1, server_table := T\<rparr>"
      have "servers st = (servers st)(?p := None)" using H(4) by (simp add: fun_upd_idem)
      then have "enter sg avail r t st = Some (0, ?st2)"
        using True T(1) False by (simp add: enter_def new_server_def key delete_server_def)
      moreover have "descs ?st2 = descs st" by (simp add: descs_def fun_eq_iff)
      moreover have "heap_ok ?st2" using I(1) by (auto simp: heap_ok_def)
      ultimately show ?thesis
        using I T(2,4,5) False by (intro exI [of _ 0] exI [of _ ?st2]) (auto simp: manager_inv_def table_ok_def view_def)
    next
      case ok: True
      have de: "descs ?st1 = (descs st)(?p \<mapsto> ?d)" by (auto simp: descs_def fun_eq_iff)
      have del: "(descs ?st1)(?p := None) = descs st" unfolding de using descs_p by (auto simp: fun_eq_iff)
      obtain D T' n where e: "enter_tree sg avail ?p ?st1 = Some (True, ?st1\<lparr>domains := D, servers_domain := T', next_addr := n\<rparr>)"
          "tree_ok sg (descs ?st1) D T'" "heap_ok (?st1\<lparr>domains := D, servers_domain := T', next_addr := n\<rparr>)"
      proof -
        have "tree_ok sg ((descs ?st1)(?p := None)) (domains ?st1) (servers_domain ?st1)" using I(5) unfolding del by simp
        moreover have "heap_ok ?st1" using I(1) by (auto simp: heap_ok_def)
        moreover have "enough avail ?st1" using mem by (simp add: enough_def)
        moreover have "descs ?st1 q \<noteq> Some (sv_desc ?sv)" if "q \<noteq> ?p" for q using none [of q] that unfolding de by simp
        ultimately have "\<exists>D T n. enter_tree sg avail ?p ?st1 = Some (True, ?st1\<lparr>domains := D, servers_domain := T, next_addr := n\<rparr>) \<and>
            tree_ok sg (descs ?st1) D T \<and> heap_ok (?st1\<lparr>domains := D, servers_domain := T, next_addr := n\<rparr>)"
          using adm by (intro enter_tree_ok [where sv = ?sv]) simp_all
        then show ?thesis using that by blast
      qed
      let ?st2 = "?st1\<lparr>domains := D, servers_domain := T', next_addr := n\<rparr>"
      let ?E = "(events st)(a \<mapsto> ExpireServer t ?p)"
      let ?S = "(servers st)(?p \<mapsto> ?sv\<lparr>sv_pevent := a\<rparr>)"
      let ?st3 = "?st2\<lparr>servers := ?S, events := ?E\<rparr>"
      have "enter sg avail r t st = Some (?p, ?st2)"
        using True T(1) ok e(1) by (simp add: enter_def new_server_def key)
      moreover have "connect ?p a ?st2 = Some ?st3" using a by (simp add: connect_def set_pserver_def)
      moreover have "manager_inv sg {} ?st3"
      proof -
        have de3: "descs ?st3 = descs ?st1" by (auto simp: descs_def fun_eq_iff)
        have "heap_ok ?st3" using e(3) heap_live(1) [OF e(3), of ?p ?sv] heap_live(2) [OF e(3), of a] a by (auto simp: heap_ok_def)
        moreover have "queue_ok {} ?E (timer_queue st)" using a by (intro queue_ok_same_time [OF I(2)]) auto
        moreover have "links_ok ?S ?E" using H a by (intro links_connect [OF I(3)]) auto
        moreover have "table_ok sg (descs ?st1) T" unfolding de by (rule table_ok_add [OF I(4) new descs_p adm T(2) T(3) [OF ok]])
        ultimately show ?thesis using e(2) unfolding manager_inv_def de3 by simp
      qed
      moreover have "view ?st3 = reg_register now r (view st)"
      proof -
        have "view st ?d = None" using new by (simp add: view_def view_of_def)
        moreover have "view_of ((ht_map (server_table st))(?d \<mapsto> ?p)) ?S ?E = (view_of (ht_map (server_table st)) (servers st) (events st))(?d \<mapsto>
          \<lparr>en_port = reg_port r, en_expires_at = t, en_ttl = reg_time_to_live r, en_living = True, en_timer = t\<rparr>)"
        proof (rule view_of_connect)
          show "d' = ?d" if "ht_map (server_table st) d' = Some ?p" for d'
            using table_okD(2) [OF I(4), of d' ?p] that descs_p by simp
          show "entry_of ?E (?sv\<lparr>sv_pevent := a\<rparr>) =
              Some \<lparr>en_port = reg_port r, en_expires_at = t, en_ttl = reg_time_to_live r, en_living = True, en_timer = t\<rparr>"
            by (simp add: entry_of_def)
          show "map_option trigger_at (?E (sv_pevent w)) = map_option trigger_at (events st (sv_pevent w))" for w
            using a by simp
        qed
        ultimately show ?thesis using T(3) [OF ok] t by (simp add: view_def reg_register_def)
      qed
      ultimately show ?thesis using H(7) by (intro exI [of _ ?p] exI [of _ ?st2]) auto
    qed
  qed
qed

lemma registerServer_ok:
  assumes inv: "manager_inv sg {} st" and mem: "admissible (reg_server r) \<longrightarrow> enough avail st"
  shows "\<exists>res st'. registerServer sg avail now r st = Some (res, st') \<and> manager_inv sg {} st' \<and>
    (if \<not> admissible (reg_server r) then res = KS_ERR_BADPARAM \<and> st' = st
     else res = KS_ERR_OK \<and> view st' = reg_register now r (view st) \<or>
          res = KS_ERR_GENERIC \<and> view st' = view st \<and> \<not> (avail 0 \<and> avail 1 \<and> avail 2 \<and> avail 3 \<and> avail 4 \<and> roomy (server_table st)))"
proof (cases "admissible (reg_server r) \<and> avail 0")
  case False
  then show ?thesis
    using inv by (intro exI [of _ "if admissible (reg_server r) then KS_ERR_GENERIC else KS_ERR_BADPARAM"] exI [of _ st])
      (auto simp: registerServer_def admissible_iff)
next
  case True
  then have adm: "admissible (reg_server r)" and a0: "avail 0" by auto
  note I = manager_invD [OF inv] and H = heap_fresh [OF manager_invD(1) [OF inv]]
  define t where t: "t = time_now now (reg_time_to_live r)"
  let ?a = "next_addr st"
  let ?E = "(events st)(?a \<mapsto> ExpireServer t 0)"
  let ?st1 = "st\<lparr>events := ?E, next_addr := ?a + 1\<rparr>"
  have "queue_ok (insert ?a {}) ?E (timer_queue st)"
    using H by (intro queue_ok_upd [OF I(2)]) (simp_all add: t time_now_def)
  then obtain ok q where q: "addTimerEvent (avail 1) ?a ?st1 = Some (ok, ?st1\<lparr>timer_queue := q\<rparr>)"
      "ok \<Longrightarrow> queue_ok {} ?E q" "\<not> ok \<Longrightarrow> q = timer_queue st" "avail 1 \<Longrightarrow> ok"
    using add_timer_ok [of "{?a}" ?st1 ?a "avail 1"] by auto
  have view1: "view_of M (servers st) ?E = view_of M (servers st) (events st)" for M
  proof (rule view_of_same)
    fix p w assume "servers st p = Some w"
    then obtain u where "events st (sv_pevent w) = Some (ExpireServer u p)" using linksD1 [OF I(3)] by metis
    then have "sv_pevent w \<noteq> ?a" using H(5) by auto
    then show "map_option trigger_at (?E (sv_pevent w)) = map_option trigger_at (events st (sv_pevent w))" by simp
  qed
  have reg: "registerServer sg avail now r st =
      (if \<not> ok then do { st \<leftarrow> delete_event ?a (?st1\<lparr>timer_queue := q\<rparr>); Some (KS_ERR_GENERIC, st) }
       else do {
          x \<leftarrow> ht_query (desc_hash sg) (desc_key (reg_server r)) (server_table st);
          (p, st) \<leftarrow> (case x of
              Some p \<Rightarrow> do { st \<leftarrow> refresh r t p (?st1\<lparr>timer_queue := q\<rparr>); Some (p, st) }
            | None \<Rightarrow> enter sg avail r t (?st1\<lparr>timer_queue := q\<rparr>));
          if p = 0 then Some (KS_ERR_GENERIC, st)
          else do { st \<leftarrow> connect p ?a st; Some (KS_ERR_OK, st) } })"
    using q(1) adm a0 by (simp add: registerServer_def admissible_iff new_event_def Let_def t [symmetric] cong: option.case_cong)
  show ?thesis
  proof (cases ok)
    case False
    let ?st = "st\<lparr>next_addr := ?a + 1\<rparr>"
    have "(events st)(?a := None) = events st" using H by (simp add: fun_upd_idem)
    then have "registerServer sg avail now r st = Some (KS_ERR_GENERIC, ?st)"
      using False q(3) by (simp add: reg delete_event_def)
    moreover have "descs ?st = descs st" by (simp add: descs_def fun_eq_iff)
    moreover have "heap_ok ?st" using I(1) by (auto simp: heap_ok_def)
    ultimately show ?thesis using I adm q(4) False
      by (intro exI [of _ KS_ERR_GENERIC] exI [of _ ?st]) (auto simp: manager_inv_def view_def)
  next
    case ok: True
    let ?st2 = "?st1\<lparr>timer_queue := q\<rparr>"
    have de: "descs ?st2 = descs st" by (simp add: descs_def fun_eq_iff)
    have "heap_ok ?st2" using I(1) by (auto simp: heap_ok_def)
    moreover have "links_ok (servers st) ?E" using H by (intro links_other_event [OF I(3)]) auto
    ultimately have inv2: "manager_inv sg {} ?st2" using I(4,5) q(2) [OF ok] unfolding manager_inv_def de by simp
    have view2: "view ?st2 = view st" using view1 by (simp add: view_def)
    have a: "events ?st2 ?a = Some (ExpireServer t 0)" by simp
    have query: "ht_query (desc_hash sg) (desc_key (reg_server r)) (server_table st) = Some (ht_map (server_table st) (reg_server r))"
      using ht_query_ok [OF table_okD(1) [OF I(4)]] admissible_name(2) [OF adm] by simp
    show ?thesis
    proof (cases "ht_map (server_table st) (reg_server r)")
      case (Some p)
      then have "descs st p = Some (reg_server r)" using table_okD(2) [OF I(4)] by blast
      then obtain sv where sv: "servers ?st2 p = Some sv" "sv_desc sv = reg_server r" by (auto simp: descs_def)
      obtain st' where st': "do { st \<leftarrow> refresh r t p ?st2; connect p ?a st } = Some st'" "manager_inv sg {} st'"
          "view st' = reg_register now r (view ?st2)"
        by (rule refresh_connect_ok [OF inv2 a sv t])
      obtain st3 where st3: "refresh r t p ?st2 = Some st3" "connect p ?a st3 = Some st'" using st'(1) by (auto simp: bind_eq_Some_conv)
      have "p \<noteq> 0" using heap_live(1) [OF I(1)] sv by auto
      then have "registerServer sg avail now r st = Some (KS_ERR_OK, st')"
        using ok st3 by (simp add: reg query Some)
      then show ?thesis using st' adm view2 by (intro exI [of _ KS_ERR_OK] exI [of _ st']) simp
    next
      case None
      have mem2: "enough avail ?st2" using mem adm by (simp add: enough_def)
      have new2: "ht_map (server_table ?st2) (reg_server r) = None" using None by simp
      obtain p st1 where e: "enter sg avail r t ?st2 = Some (p, st1)"
          "if p = 0 then manager_inv sg {} st1 \<and> view st1 = view ?st2 \<and> \<not> (avail 2 \<and> avail 3 \<and> avail 4 \<and> roomy (server_table ?st2))
           else \<exists>st'. connect p ?a st1 = Some st' \<and> manager_inv sg {} st' \<and> view st' = reg_register now r (view ?st2)"
        using enter_ok [OF inv2 a new2 adm mem2 t] by blast
      show ?thesis
      proof (cases "p = 0")
        case True
        then have "registerServer sg avail now r st = Some (KS_ERR_GENERIC, st1)" using ok e(1) by (simp add: reg query None)
        then show ?thesis using e(2) True view2 adm by (intro exI [of _ KS_ERR_GENERIC] exI [of _ st1]) auto
      next
        case False
        then obtain st' where st': "connect p ?a st1 = Some st'" "manager_inv sg {} st'" "view st' = reg_register now r (view st)"
          using e(2) view2 by auto
        then have "registerServer sg avail now r st = Some (KS_ERR_OK, st')" using ok e(1) False by (simp add: reg query None)
        then show ?thesis using st' adm by (intro exI [of _ KS_ERR_OK] exI [of _ st']) simp
      qed
    qed
  qed
qed

subsection \<open>Withdrawal\<close>

lemma view_removed:
  assumes inv: "manager_inv sg X st" and sv: "servers st p = Some sv"
    and st': "servers st' = (servers st)(p := None)" "ht_map (server_table st') = (ht_map (server_table st))(sv_desc sv := None)"
    and e: "events st (sv_pevent sv) = Some (ExpireServer u p)" "events st' = (events st)(sv_pevent sv \<mapsto> ExpireServer u 0)"
  shows "view st' = (view st)(sv_desc sv := None)"
proof -
  note I = manager_invD [OF inv]
  show ?thesis unfolding view_def st' e(2)
  proof (rule view_of_disconnect)
    show "ht_map (server_table st) (sv_desc sv) = Some p" using table_okD(2) [OF I(4)] sv by (simp add: descs_def)
    show "d' = sv_desc sv" if "ht_map (server_table st) d' = Some p" for d'
      using table_okD(2) [OF I(4), of d' p] that sv by (simp add: descs_def)
    show "map_option trigger_at (((events st)(sv_pevent sv \<mapsto> ExpireServer u 0)) (sv_pevent w)) =
        map_option trigger_at (events st (sv_pevent w))" for w using e(1) by simp
  qed
qed

lemma unregisterServer_ok:
  assumes inv: "manager_inv sg {} st"
  shows "\<exists>res st'. unregisterServer sg avail d st = Some (res, st') \<and> manager_inv sg {} st' \<and>
    (if str_eq (sd_name d) getServerName then res = KS_ERR_BADPARAM \<and> st' = st
     else if view st (desc_key d) = None then res = KS_ERR_SERVERUNKNOWN \<and> st' = st
     else res = KS_ERR_OK \<and> view st' = (view st)(desc_key d := None))"
proof (cases "str_eq (sd_name d) getServerName")
  case True
  then show ?thesis using inv by (simp add: unregisterServer_def)
next
  case False
  note I = manager_invD [OF inv]
  have q: "ht_query (desc_hash sg) (desc_key d) (server_table st) = Some (ht_map (server_table st) (desc_key d))"
    by (rule ht_query_ok [OF table_okD(1) [OF I(4)]])
  show ?thesis
  proof (cases "ht_map (server_table st) (desc_key d)")
    case None
    then have "view st (desc_key d) = None" by (simp add: view_def view_of_def)
    then show ?thesis using None q False inv by (simp add: unregisterServer_def)
  next
    case (Some p)
    then have "descs st p = Some (desc_key d)" using table_okD(2) [OF I(4)] by blast
    then obtain sv where sv: "servers st p = Some sv" "sv_desc sv = desc_key d" by (auto simp: descs_def)
    obtain st' u where st': "removeServer sg avail p st = Some st'" "manager_inv sg {} st'"
        "events st (sv_pevent sv) = Some (ExpireServer u p)"
        "servers st' = (servers st)(p := None)" "events st' = (events st)(sv_pevent sv \<mapsto> ExpireServer u 0)"
        "ht_map (server_table st') = (ht_map (server_table st))(sv_desc sv := None)"
      by (rule removeServer_ok [OF inv sv(1)])
    have "view st (desc_key d) \<noteq> None" using view_Some [OF inv, of "desc_key d"] sv st'(3) by blast
    moreover have "view st' = (view st)(desc_key d := None)"
      using view_removed [OF inv sv(1) st'(4,6,3,5)] sv(2) by simp
    ultimately show ?thesis using st'(1,2) False q Some by (intro exI [of _ KS_ERR_OK] exI [of _ st']) (auto simp add: unregisterServer_def)
  qed
qed

subsection \<open>Expiry\<close>

definition tick :: "timeval \<Rightarrow> entry \<Rightarrow> entry option" where
  "tick now e = (if en_living e then Some (e\<lparr>en_living := False, en_timer := time_now now (en_ttl e)\<rparr>) else None)"

lemma view_at:
  assumes inv: "manager_inv sg X st" and "servers st p = Some sv" "events st (sv_pevent sv) = Some (ExpireServer t p)"
  shows "view st (sv_desc sv) = Some \<lparr>en_port = sv_port sv, en_expires_at = sv_expires_at sv, en_ttl = sv_time_to_live sv,
    en_living = sv_living sv, en_timer = t\<rparr>"
  using view_Some [OF inv, of "sv_desc sv"] assms(2,3) by blast

lemma delete_event_ok:
  assumes inv: "manager_inv sg {a} st" and a: "events st a = Some e" "case e of ExpireServer _ p \<Rightarrow> p = 0 | _ \<Rightarrow> True"
  obtains st' where "delete_event a st = Some st'" "manager_inv sg {} st'" "view st' = view st"
    "events st' = (events st)(a := None)" "servers st' = servers st" "next_addr st' = next_addr st"
proof -
  note I = manager_invD [OF inv]
  let ?st = "st\<lparr>events := (events st)(a := None)\<rparr>"
  have "descs ?st = descs st" by (simp add: descs_def fun_eq_iff)
  moreover have "heap_ok ?st" using I(1) by (auto simp: heap_ok_def)
  moreover have "queue_ok {} ((events st)(a := None)) (timer_queue st)" using queue_ok_delete [OF I(2), of a] by simp
  moreover have "links_ok (servers st) ((events st)(a := None))"
    using a heap_fresh(1) [OF I(1)] by (intro links_other_event [OF I(3)]) (auto split: timer_event.splits)
  ultimately have i: "manager_inv sg {} ?st" using I(4,5) by (simp add: manager_inv_def)
  have "view_of M (servers st) ((events st)(a := None)) = view_of M (servers st) (events st)" for M
  proof (rule view_of_same)
    fix q w assume w: "servers st q = Some w"
    obtain u where "events st (sv_pevent w) = Some (ExpireServer u q)" by (rule linksD1 [OF I(3) w])
    moreover have "q \<noteq> 0" using heap_live(1) [OF I(1) w] by simp
    ultimately have "sv_pevent w \<noteq> a" using a by auto
    then show "map_option trigger_at (((events st)(a := None)) (sv_pevent w)) = map_option trigger_at (events st (sv_pevent w))" by simp
  qed
  then have "view ?st = view st" by (simp add: view_def)
  then show thesis using that [of ?st] i a by (simp add: delete_event_def)
qed

lemma expire_server_ok:
  assumes inv: "manager_inv sg {a} st" and a: "events st a = Some (ExpireServer t p)"
    and room: "pq_size (timer_queue st) < pq_capacity (timer_queue st)"
  obtains st' where "expire_server sg avail now a st = Some st'" "manager_inv sg {} st'" "next_addr st' = next_addr st"
    "\<And>b. b \<noteq> a \<Longrightarrow> events st' b = events st b" "\<And>q. q \<noteq> p \<or> q = 0 \<Longrightarrow> servers st' q = servers st q"
    "p = 0 \<Longrightarrow> view st' = view st \<and> events st' a = None"
    "p \<noteq> 0 \<Longrightarrow> \<exists>sv e. servers st p = Some sv \<and> sv_pevent sv = a \<and> view st (sv_desc sv) = Some e \<and> en_living e = sv_living sv \<and>
       en_timer e = t \<and> view st' = (view st)(sv_desc sv := tick now e) \<and>
       (if sv_living sv then (\<exists>u. events st' a = Some (ExpireServer u p)) \<and> (\<exists>w. servers st' p = Some w \<and> \<not> sv_living w) else events st' a = None)"
proof (cases "p = 0")
  case True
  obtain st' where "delete_event a st = Some st'" "manager_inv sg {} st'" "view st' = view st"
    "events st' = (events st)(a := None)" "servers st' = servers st" "next_addr st' = next_addr st"
    by (rule delete_event_ok [OF inv a]) (use True in simp)
  then show thesis using a True by (intro that [of st']) (simp_all add: expire_server_def)
next
  case False
  note I = manager_invD [OF inv]
  obtain sv where sv: "servers st p = Some sv" "sv_pevent sv = a" by (rule linksD2 [OF I(3) a False])
  note v = view_at [OF inv sv(1), unfolded sv(2), OF a]
  show thesis
  proof (cases "sv_living sv")
    case True
    let ?sv = "sv\<lparr>sv_living := False\<rparr>" and ?t = "time_now now (sv_time_to_live sv)"
    let ?S = "(servers st)(p \<mapsto> ?sv)" and ?E = "(events st)(a \<mapsto> ExpireServer ?t p)"
    let ?st = "st\<lparr>servers := ?S, events := ?E\<rparr>"
    have Q: "queue_ok (insert a {a}) ?E (timer_queue st)" by (rule queue_ok_upd [OF I(2)]) (simp_all add: time_now_def)
    obtain q where q: "addTimerEvent (avail 0) a ?st = Some (True, ?st\<lparr>timer_queue := q\<rparr>)" "queue_ok ({a} - {a}) (events ?st) q"
      by (rule add_timer_room [of "{a}" ?st a "avail 0"]) (use room Q in simp_all)
    then have q': "queue_ok {} ?E q" by simp
    let ?st' = "?st\<lparr>timer_queue := q\<rparr>"
    have "expire_server sg avail now a st = Some ?st'" using a False sv True q(1) by (simp add: expire_server_def)
    moreover have "manager_inv sg {} ?st'"
    proof -
      have de: "descs ?st' = descs st" using sv by (auto simp: descs_def fun_eq_iff)
      have "heap_ok ?st'" using I(1) heap_live(1) [OF I(1) sv(1)] heap_live(2) [OF I(1) a] by (auto simp: heap_ok_def)
      moreover have "links_ok ?S ?E"
        using heap_fresh(1) [OF I(1)] False sv a by (intro links_connect [OF I(3)]) auto
      ultimately show ?thesis using I(4,5) q' unfolding manager_inv_def de by simp
    qed
    moreover have "view ?st' = (view st)(sv_desc sv \<mapsto> \<lparr>en_port = sv_port sv, en_expires_at = sv_expires_at sv, en_ttl = sv_time_to_live sv,
        en_living = False, en_timer = ?t\<rparr>)"
    proof -
      have M: "ht_map (server_table st) (sv_desc sv) = Some p" using table_okD(2) [OF I(4)] sv by (simp add: descs_def)
      have "view_of ((ht_map (server_table st))(sv_desc sv \<mapsto> p)) ?S ?E = (view_of (ht_map (server_table st)) (servers st) (events st))
          (sv_desc sv \<mapsto> \<lparr>en_port = sv_port sv, en_expires_at = sv_expires_at sv, en_ttl = sv_time_to_live sv, en_living = False, en_timer = ?t\<rparr>)"
      proof (rule view_of_connect)
        show "d' = sv_desc sv" if "ht_map (server_table st) d' = Some p" for d'
          using table_okD(2) [OF I(4), of d' p] that sv by (simp add: descs_def)
        show "entry_of ?E ?sv = Some \<lparr>en_port = sv_port sv, en_expires_at = sv_expires_at sv, en_ttl = sv_time_to_live sv,
            en_living = False, en_timer = ?t\<rparr>" using sv(2) by (simp add: entry_of_def)
        show "map_option trigger_at (?E (sv_pevent w)) = map_option trigger_at (events st (sv_pevent w))"
          if "q \<noteq> p" "servers st q = Some w" for q w
          using event_of_other [OF I(3) that(2) a that(1)] by simp
      qed
      then show ?thesis using M by (simp add: view_def fun_upd_idem)
    qed
    ultimately show thesis using False sv v True by (intro that [of ?st']) (auto simp: tick_def)
  next
    case dead: False
    obtain st1 u where st1: "removeServer sg avail p st = Some st1" "manager_inv sg {a} st1"
        "events st (sv_pevent sv) = Some (ExpireServer u p)"
        "servers st1 = (servers st)(p := None)" "events st1 = (events st)(sv_pevent sv \<mapsto> ExpireServer u 0)"
        "ht_map (server_table st1) = (ht_map (server_table st))(sv_desc sv := None)" "next_addr st1 = next_addr st"
      by (rule removeServer_ok [OF inv sv(1)])
    note v1 = view_removed [OF inv sv(1) st1(4,6,3,5)]
    have a1: "events st1 a = Some (ExpireServer u 0)" using st1(5) sv(2) by simp
    obtain st' where st': "delete_event a st1 = Some st'" "manager_inv sg {} st'" "view st' = view st1"
      "events st' = (events st1)(a := None)" "servers st' = servers st1" "next_addr st' = next_addr st1"
      by (rule delete_event_ok [OF st1(2) a1]) simp
    have "expire_server sg avail now a st = Some st'" using a False sv dead st1(1) st'(1) by (simp add: expire_server_def)
    then show thesis
      using st' st1 sv v v1 False dead by (intro that [of st']) (auto simp: tick_def)
  qed
qed

end
