(* ===== verification/KsManagerTimers.thy ===== *)
theory KsManagerTimers
  imports KsManagerInv
begin

text \<open>
  The timers of the manager: what a due timer does to the registry, and that serving the due timers comes to an end, after which
  no living server is past its expiry. The registry changes as the abstract \<open>settle\<close> says.
\<close>

subsection \<open>The timer of the manager itself\<close>

lemma manager_inv_flags [simp]:
  "manager_inv sg X (st\<lparr>registered := b\<rparr>) = manager_inv sg X st" "manager_inv sg X (st\<lparr>going_down := c\<rparr>) = manager_inv sg X st"
  "view (st\<lparr>registered := b\<rparr>) = view st" "view (st\<lparr>going_down := c\<rparr>) = view st"
  by (simp_all add: manager_inv_def heap_ok_def view_def descs_def [abs_def])

text \<open>An event that belongs to no registration is queued again with another time.\<close>

lemma requeue_ok:
  assumes inv: "manager_inv sg {a} st" and a: "events st a = Some e" "\<forall>t p. e \<noteq> ExpireServer t p" "\<forall>t p. e' \<noteq> ExpireServer t p"
    and e': "time_invariant (trigger_at e')" "garbage_ok ((events st)(a \<mapsto> e')) g"
    and room: "pq_size (timer_queue st) < pq_capacity (timer_queue st)"
  obtains st' where "addTimerEvent m a (st\<lparr>stream_pool := g, events := (events st)(a \<mapsto> e')\<rparr>) = Some (True, st')" "manager_inv sg {} st'"
    "view st' = view st" "servers st' = servers st" "next_addr st' = next_addr st" "events st' = (events st)(a \<mapsto> e')"
proof -
  note I = manager_invD [OF inv]
  let ?E = "(events st)(a \<mapsto> e')"
  let ?st0 = "st\<lparr>stream_pool := g, events := ?E\<rparr>"
  have Q: "queue_ok (insert a {a}) ?E (timer_queue st)" by (rule queue_ok_upd [OF I(2)]) (simp_all add: e')
  obtain q where "addTimerEvent m a ?st0 = Some (True, ?st0\<lparr>timer_queue := q\<rparr>)" "queue_ok ({a} - {a}) (events ?st0) q"
    by (rule add_timer_room [of "{a}" ?st0 a m]) (use room Q in simp_all)
  then have q: "addTimerEvent m a ?st0 = Some (True, ?st0\<lparr>timer_queue := q\<rparr>)" "queue_ok {} ?E q" by simp_all
  let ?st = "?st0\<lparr>timer_queue := q\<rparr>"
  have "descs ?st = descs st" by (simp add: descs_def fun_eq_iff)
  moreover have "heap_ok ?st" using I(1) heap_live(2) [OF I(1) a(1)] e'(2) by (auto simp: heap_ok_def)
  moreover have "links_ok (servers st) ?E"
    using a heap_fresh(1) [OF I(1)] by (intro links_other_event [OF I(3)]) auto
  ultimately have i: "manager_inv sg {} ?st" using I(4,5) q(2) by (simp add: manager_inv_def)
  have "view_of M (servers st) ?E = view_of M (servers st) (events st)" for M
  proof (rule view_of_same)
    fix p w assume w: "servers st p = Some w"
    obtain u where "events st (sv_pevent w) = Some (ExpireServer u p)" by (rule linksD1 [OF I(3) w])
    then have "sv_pevent w \<noteq> a" using a by auto
    then show "map_option trigger_at (?E (sv_pevent w)) = map_option trigger_at (events st (sv_pevent w))" by simp
  qed
  then have "view ?st = view st" by (simp add: view_def)
  then show thesis using that [of ?st] i q(1) by simp
qed

lemma reschedule_ok:
  assumes inv: "manager_inv sg {a} st" and a: "events st a = Some (ExpireManager t)"
    and room: "pq_size (timer_queue st) < pq_capacity (timer_queue st)"
  obtains st' where "reschedule m (time_now now k) a st = Some st'" "manager_inv sg {} st'" "view st' = view st"
    "servers st' = servers st" "next_addr st' = next_addr st" "events st' = (events st)(a \<mapsto> ExpireManager (time_now now k))"
proof -
  have "garbage_ok (events st) (stream_pool st)" using manager_invD(1) [OF inv] by (simp add: heap_ok_def)
  then obtain st' where st': "addTimerEvent m a (st\<lparr>stream_pool := stream_pool st, events := (events st)(a \<mapsto> ExpireManager (time_now now k))\<rparr>) = Some (True, st')"
      "manager_inv sg {} st'" "view st' = view st" "servers st' = servers st" "next_addr st' = next_addr st"
      "events st' = (events st)(a \<mapsto> ExpireManager (time_now now k))"
    by - (rule requeue_ok [OF inv a _ _ _ _ room, where e' = "ExpireManager (time_now now k)" and g = "stream_pool st" and m = m];
        simp add: time_now_def)
  then show thesis by (intro that [of st']) (simp_all add: reschedule_def)
qed

lemma collect_garbage_ok:
  assumes inv: "manager_inv sg {a} st" and a: "events st a = Some (GarbageTimer t i)"
    and room: "pq_size (timer_queue st) < pq_capacity (timer_queue st)"
  obtains st' where "collect_garbage m now a st = Some st'" "manager_inv sg {} st'" "view st' = view st"
    "servers st' = servers st" "next_addr st' = next_addr st" "events st' = (events st)(a \<mapsto> GarbageTimer (time_now now 30) 30)"
proof -
  have g: "garbage_ok (events st) (stream_pool st)" using manager_invD(1) [OF inv] by (simp add: heap_ok_def)
  then have i: "i = 30" using a by (auto simp: garbage_ok_def)
  have "collectable (stream_pool st)" using g by (simp add: garbage_ok_def)
  then obtain p where p: "ms_freegarbage (stream_pool st) = Some p" "collectable p" by (rule freegarbage_collectable)
  have "garbage_ok ((events st)(a \<mapsto> GarbageTimer (time_now now 30) 30)) p" using g p(2) by (simp add: garbage_ok_def)
  then obtain st' where st': "addTimerEvent m a (st\<lparr>stream_pool := p, events := (events st)(a \<mapsto> GarbageTimer (time_now now 30) 30)\<rparr>) = Some (True, st')"
      "manager_inv sg {} st'" "view st' = view st" "servers st' = servers st" "next_addr st' = next_addr st"
      "events st' = (events st)(a \<mapsto> GarbageTimer (time_now now 30) 30)"
    by - (rule requeue_ok [OF inv a _ _ _ _ room, where e' = "GarbageTimer (time_now now 30) 30" and g = p and m = m];
        simp add: time_now_def)
  then show thesis using a p(1) i by (intro that [of st']) (simp_all add: collect_garbage_def)
qed

lemma expire_manager_ok:
  assumes inv: "manager_inv sg {a} st" and a: "events st a = Some (ExpireManager t)"
    and room: "pq_size (timer_queue st) < pq_capacity (timer_queue st)"
  obtains st' where "expire_manager avail now pm port a st = Some st'" "manager_inv sg {} st'" "view st' = view st"
    "servers st' = servers st" "next_addr st' = next_addr st" "\<And>b. b \<noteq> a \<Longrightarrow> events st' b = events st b"
    "events st' a = None \<or> (\<exists>k\<in>{10, 30, 60}. events st' a = Some (ExpireManager (time_now now k)))"
proof -
  note result = that
  define R where "R = (registered st \<or> pmap_set_tcp pm \<or> pmap_set_udp pm)"
  have R: "(if \<not> registered st then st\<lparr>registered := pmap_set_tcp pm \<or> pmap_set_udp pm\<rparr> else st) = st\<lparr>registered := R\<rparr>"
    by (simp add: R_def)
  have e: "expire_manager avail now pm port a st =
      (if \<not> R then reschedule (avail 0) (time_now now 60) a (st\<lparr>registered := R\<rparr>)
       else if pmap_port pm = 0 \<and> pmap_failed pm then reschedule (avail 0) (time_now now 10) a (st\<lparr>registered := False\<rparr>)
       else if pmap_port pm = port then reschedule (avail 0) (time_now now 30) a (st\<lparr>registered := R\<rparr>)
       else delete_event a (st\<lparr>registered := False, going_down := True\<rparr>))"
    by (simp add: expire_manager_def R Let_def)
  have re: thesis if "expire_manager avail now pm port a st = reschedule (avail 0) (time_now now k) a (st\<lparr>registered := b\<rparr>)"
      "k = 10 \<or> k = 30 \<or> k = 60" for k b
  proof -
    obtain st' where st': "reschedule (avail 0) (time_now now k) a (st\<lparr>registered := b\<rparr>) = Some st'" "manager_inv sg {} st'"
        "view st' = view (st\<lparr>registered := b\<rparr>)" "servers st' = servers (st\<lparr>registered := b\<rparr>)" "next_addr st' = next_addr (st\<lparr>registered := b\<rparr>)"
        "events st' = (events (st\<lparr>registered := b\<rparr>))(a \<mapsto> ExpireManager (time_now now k))"
      by (rule reschedule_ok [of sg a "st\<lparr>registered := b\<rparr>" t]) (use inv a room in simp_all)
    then show thesis using that by (intro result [of st']) auto
  qed
  show thesis
  proof (cases "\<not> R \<or> pmap_port pm = 0 \<and> pmap_failed pm \<or> pmap_port pm = port")
    case True
    then show thesis using e re [of 60 R] re [of 10 False] re [of 30 R] by (auto split: if_splits)
  next
    case False
    let ?st = "st\<lparr>registered := False, going_down := True\<rparr>"
    obtain st' where "delete_event a ?st = Some st'" "manager_inv sg {} st'" "view st' = view ?st"
      "events st' = (events ?st)(a := None)" "servers st' = servers ?st" "next_addr st' = next_addr ?st"
      by (rule delete_event_ok [of sg a ?st "ExpireManager t"]) (use inv a in simp_all)
    moreover have "expire_manager avail now pm port a st = delete_event a ?st" using e False by auto
    ultimately show thesis using result [of st'] by simp
  qed
qed

subsection \<open>Serving the next timer\<close>

lemma time_lt_us: "time_invariant a \<Longrightarrow> time_invariant b \<Longrightarrow> time_lt a b \<longleftrightarrow> us_of a < us_of b"
  by (simp add: time_lt_def time_le_us not_le)

lemma remaining_zero:
  assumes "time_invariant now" "time_invariant (trigger_at e)"
  shows "time_is_zero (remainingTime now e) \<longleftrightarrow> \<not> time_lt now (trigger_at e)"
proof -
  have "us_of (time_sub (trigger_at e) now) = us_of (trigger_at e) - us_of now"
    by (simp add: time_op_defs us_of_normalize us_of_shift us_of_borrow) (simp add: us_of_def)
  then show ?thesis
    using time_lt_us [OF assms] by (auto simp: remainingTime_def time_is_zero_def us_of_def)
qed

text \<open>At a time that is at least a minute before the clock wraps around.\<close>

lemma time_now_later:
  assumes "time_invariant now" "0 < sint k" "0 \<le> tv_sec now" "tv_sec now + sint k < 2 ^ 31"
  shows "time_lt now (time_now now k)"
proof -
  have "sint (word_of_int (tv_sec now + sint k) :: u32) = tv_sec now + sint k"
    by (rule sint_of_int_u32) (use assms(2-4) in simp_all)
  then have "us_of (time_now now k) = us_of now + sint k * 1000000"
    by (simp add: time_now_def us_of_normalize) (simp add: us_of_def)
  moreover have "time_invariant (time_now now k)" by (simp add: time_now_def)
  ultimately show ?thesis using assms by (simp add: time_lt_us)
qed

lemma due_order:
  assumes "event_key E a \<le> event_key E b" "E a = Some e" "E b = Some f" "time_lt now (trigger_at e)"
  shows "time_lt now (trigger_at f)"
  using assms by (auto simp: event_key_def time_lt_def time_le_def less_eq_prod_simp)

text \<open>An upper bound for the number of times an event is still triggered while the clock shows \<open>now\<close>.\<close>

definition load :: "timeval \<Rightarrow> (nat \<rightharpoonup> server_entry) \<Rightarrow> timer_event option \<Rightarrow> nat" where
  "load now S e = (case e of
     Some (ExpireServer t p) \<Rightarrow> if time_lt now t then 0 else if p \<noteq> 0 \<and> (\<exists>sv. S p = Some sv \<and> sv_living sv) then 2 else 1
   | Some (ExpireManager t) \<Rightarrow> if time_lt now t then 0 else 1
   | Some (GarbageTimer t i) \<Rightarrow> if time_lt now t then 0 else 1
   | None \<Rightarrow> 0)"

definition total_load :: "timeval \<Rightarrow> manager \<Rightarrow> nat" where
  "total_load now st = (\<Sum>a < next_addr st. load now (servers st) (events st a))"

lemma total_load_less:
  assumes "next_addr st' = next_addr st" "a < next_addr st"
    and "load now (servers st') (events st' a) < load now (servers st) (events st a)"
    and "\<And>b. b \<noteq> a \<Longrightarrow> load now (servers st') (events st' b) = load now (servers st) (events st b)"
  shows "total_load now st' < total_load now st"
  unfolding total_load_def assms(1)
proof (rule sum_strict_mono_ex1)
  show "\<forall>x\<in>{..<next_addr st}. load now (servers st') (events st' x) \<le> load now (servers st) (events st x)"
  proof
    fix x show "load now (servers st') (events st' x) \<le> load now (servers st) (events st x)"
      using assms(3,4) by (cases "x = a") (simp_all add: less_imp_le)
  qed
qed (use assms in auto)

lemma serve_timers_ok:
  assumes inv: "manager_inv sg {} st" and now: "time_invariant now"
  obtains w b st' where "serve_timers sg avail now now' pm port st = Some (w, b, st')" "manager_inv sg {} st'"
    "\<not> b \<Longrightarrow> st' = st \<and> (\<forall>a e. events st a = Some e \<longrightarrow> time_lt now (trigger_at e))"
    "b \<Longrightarrow> view st' = view st \<or> (\<exists>d e. view st d = Some e \<and> \<not> time_lt now (en_timer e) \<and> view st' = (view st)(d := tick now' e))"
    "b \<Longrightarrow> now' = now \<Longrightarrow> 0 \<le> tv_sec now \<Longrightarrow> tv_sec now < 2 ^ 31 - 60 \<Longrightarrow> total_load now st' < total_load now st"
proof (cases "peekNextTimerEvent st = 0")
  case True
  note I = manager_invD [OF inv]
  have "pq_peek (timer_queue st) = None"
  proof (cases "pq_peek (timer_queue st)")
    case (Some a)
    then have ne: "\<not> pq_isEmpty (timer_queue st)" by (auto simp: pq_peek_def)
    obtain x q' where r: "pq_removeFirst (event_key (events st)) (timer_queue st) = Some (x, q')"
        "pq_mset (timer_queue st) = add_mset x (pq_mset q')"
      using tq.take_min [OF _ ne, of "event_key (events st)"] I(2) by (auto simp: queue_ok_def)
    have "x = 0" using pq_removeFirst_facts(1) [OF r(1)] True Some by (simp add: peekNextTimerEvent_def)
    then have "events st 0 \<noteq> None" using queue_member [OF I(2), of 0] r(2) by simp
    then show ?thesis using heap_fresh(2) [OF I(1)] by simp
  qed
  then have "pq_mset (timer_queue st) = {#}"
  proof -
    have inv: "pq_invariant (event_key (events st)) (timer_queue st)" using I(2) by (simp add: queue_ok_def)
    have "pq_isEmpty (timer_queue st)"
      using \<open>pq_peek (timer_queue st) = None\<close> pq_removeFirst_facts(1) tq.take_min [OF inv] by fastforce
    then show ?thesis using tq.empty_iff [OF inv] by blast
  qed
  then have "events st a = None" for a using queue_member [OF I(2), of a] by simp
  then show thesis using that [of None False st] True inv by (simp add: serve_timers_def)
next
  case False
  note I = manager_invD [OF inv]
  let ?a = "peekNextTimerEvent st"
  obtain q where q: "removeNextTimerEvent st = Some (?a, st\<lparr>timer_queue := q\<rparr>)" "queue_ok {?a} (events st) q"
      "pq_size q < pq_capacity q" "events st ?a \<noteq> None"
      "\<forall>b e. events st b = Some e \<longrightarrow> event_key (events st) ?a \<le> event_key (events st) b"
    using remove_next_ok [OF I(2) False] by blast
  then obtain e where e: "events st ?a = Some e" by blast
  have canon: "time_invariant (trigger_at e)" using I(2) e by (auto simp: queue_ok_def)
  show thesis
  proof (cases "time_lt now (trigger_at e)")
    case True
    then have "\<forall>a f. events st a = Some f \<longrightarrow> time_lt now (trigger_at f)" using due_order [of "events st" ?a _ e _ now] q(5) e True by blast
    then show thesis using that [of "Some (remainingTime now e)" False st] False e True inv remaining_zero [OF now canon]
      by (simp add: serve_timers_def)
  next
    case due: False
    let ?st = "st\<lparr>timer_queue := q\<rparr>"
    have de: "descs ?st = descs st" by (simp add: descs_def fun_eq_iff)
    have vw: "view ?st = view st" by (simp add: view_def)
    have inv1: "manager_inv sg {?a} ?st" using I(1,3,4,5) q(2) unfolding manager_inv_def de by (simp add: heap_ok_def)
    have a_less: "?a < next_addr st" using heap_live(2) [OF I(1) e] by simp
    have serve: "serve_timers sg avail now now' pm port st = do { st \<leftarrow> trigger sg avail now' pm port ?a ?st; Some (None, True, st) }"
      using False e due remaining_zero [OF now canon] q(1) by (simp add: serve_timers_def)
    show thesis
    proof (cases e)
      case (ExpireManager t)
      then have a: "events ?st ?a = Some (ExpireManager t)" using e by simp
      obtain st' where st': "expire_manager avail now' pm port ?a ?st = Some st'" "manager_inv sg {} st'" "view st' = view ?st"
          "servers st' = servers ?st" "next_addr st' = next_addr ?st" "\<And>b. b \<noteq> ?a \<Longrightarrow> events st' b = events ?st b"
          "events st' ?a = None \<or> (\<exists>k\<in>{10, 30, 60}. events st' ?a = Some (ExpireManager (time_now now' k)))"
        by (rule expire_manager_ok [OF inv1 a, where now = now' and avail = avail and pm = pm and port = port]) (use q(3) in simp_all)
      have "total_load now st' < total_load now st" if "now' = now" "0 \<le> tv_sec now" "tv_sec now < 2 ^ 31 - 60"
      proof (rule total_load_less [OF _ a_less])
        have "load now (servers st') (events st' ?a) = 0"
          using st'(7) that time_now_later [OF now] by (auto simp: load_def)
        then show "load now (servers st') (events st' ?a) < load now (servers st) (events st ?a)"
          using e ExpireManager due by (simp add: load_def)
      qed (use st' in simp_all)
      then show thesis using that [of None True st'] serve st' a vw by (simp add: trigger_def)
    next
      case (GarbageTimer t i)
      then have a: "events ?st ?a = Some (GarbageTimer t i)" using e by simp
      obtain st' where st': "collect_garbage (avail 0) now' ?a ?st = Some st'" "manager_inv sg {} st'" "view st' = view ?st"
          "servers st' = servers ?st" "next_addr st' = next_addr ?st" "events st' = (events ?st)(?a \<mapsto> GarbageTimer (time_now now' 30) 30)"
        by (rule collect_garbage_ok [OF inv1 a, where now = now' and m = "avail 0"]) (use q(3) in simp_all)
      have "total_load now st' < total_load now st" if "now' = now" "0 \<le> tv_sec now" "tv_sec now < 2 ^ 31 - 60"
      proof (rule total_load_less [OF _ a_less])
        have "load now (servers st') (events st' ?a) = 0"
          using st'(6) that time_now_later [OF now, of 30] by (simp add: load_def)
        then show "load now (servers st') (events st' ?a) < load now (servers st) (events st ?a)"
          using e GarbageTimer due by (simp add: load_def)
      qed (use st' in simp_all)
      then show thesis using that [of None True st'] serve st' a vw by (simp add: trigger_def)
    next
      case (ExpireServer t p)
      then have a: "events ?st ?a = Some (ExpireServer t p)" using e by simp
      obtain st' where st': "expire_server sg avail now' ?a ?st = Some st'" "manager_inv sg {} st'" "next_addr st' = next_addr ?st"
        "\<And>b. b \<noteq> ?a \<Longrightarrow> events st' b = events ?st b" "\<And>q. q \<noteq> p \<or> q = 0 \<Longrightarrow> servers st' q = servers ?st q"
        "p = 0 \<Longrightarrow> view st' = view ?st \<and> events st' ?a = None"
        "p \<noteq> 0 \<Longrightarrow> \<exists>sv e. servers ?st p = Some sv \<and> sv_pevent sv = ?a \<and> view ?st (sv_desc sv) = Some e \<and> en_living e = sv_living sv \<and>
           en_timer e = t \<and> view st' = (view ?st)(sv_desc sv := tick now' e) \<and>
           (if sv_living sv then (\<exists>u. events st' ?a = Some (ExpireServer u p)) \<and> (\<exists>w. servers st' p = Some w \<and> \<not> sv_living w)
            else events st' ?a = None)"
        by (rule expire_server_ok [OF inv1 a, where now = now' and avail = avail]) (use q(3) in simp_all)
      have less: "load now (servers st') (events st' ?a) < load now (servers st) (events st ?a)"
      proof (cases "p = 0")
        case True
        then show ?thesis using st'(6) e ExpireServer due by (simp add: load_def)
      next
        case False
        obtain sv where sv: "servers st p = Some sv"
            "if sv_living sv then (\<exists>u. events st' ?a = Some (ExpireServer u p)) \<and> (\<exists>w. servers st' p = Some w \<and> \<not> sv_living w)
             else events st' ?a = None"
          using st'(7) [OF False] by auto
        then show ?thesis using e ExpireServer due False by (auto simp: load_def split: if_splits)
      qed
      have same: "load now (servers st') (events st' b) = load now (servers st) (events st b)" if b: "b \<noteq> ?a" for b
      proof (cases "\<exists>u q. events st b = Some (ExpireServer u q) \<and> q = p \<and> p \<noteq> 0")
        case True
        then obtain u where u: "events st b = Some (ExpireServer u p)" "p \<noteq> 0" by blast
        obtain sv where "servers st p = Some sv" "sv_pevent sv = b" by (rule linksD2 [OF I(3) u])
        moreover obtain sv' where "servers st p = Some sv'" "sv_pevent sv' = ?a" using st'(7) [OF u(2)] by auto
        ultimately show ?thesis using b by simp
      next
        case False
        then show ?thesis using st'(4) [OF b] st'(5) by (auto simp: load_def split: option.splits timer_event.splits)
      qed
      have "total_load now st' < total_load now st"
        using total_load_less [OF _ a_less less same] st'(3) by simp
      moreover have "view st' = view st \<or> (\<exists>d e. view st d = Some e \<and> \<not> time_lt now (en_timer e) \<and> view st' = (view st)(d := tick now' e))"
      proof (cases "p = 0")
        case True
        then show ?thesis using st'(6) vw by simp
      next
        case False
        then show ?thesis using st'(7) [OF False] due ExpireServer vw by auto
      qed
      ultimately show thesis using that [of None True st'] serve st'(1,2) a by (simp add: trigger_def)
    qed
  qed
qed

lemma serve_timers_spec:
  assumes inv: "manager_inv sg {} st" and now: "time_invariant now"
  shows "\<exists>w b st'. serve_timers sg avail now now' pm port st = Some (w, b, st') \<and> manager_inv sg {} st' \<and>
    (\<not> b \<longrightarrow> st' = st \<and> (\<forall>a e. events st a = Some e \<longrightarrow> time_lt now (trigger_at e))) \<and>
    (b \<longrightarrow> view st' = view st \<or> (\<exists>d e. view st d = Some e \<and> \<not> time_lt now (en_timer e) \<and> view st' = (view st)(d := tick now' e))) \<and>
    (b \<and> now' = now \<and> 0 \<le> tv_sec now \<and> tv_sec now < 2 ^ 31 - 60 \<longrightarrow> total_load now st' < total_load now st)"
  by (rule serve_timers_ok [OF assms, where avail = avail and now' = now' and pm = pm and port = port]) blast

subsection \<open>Serving all due timers\<close>

text \<open>
  The loop of \<open>run\<close> as long as \<open>servePendingEvents\<close> finds a timer that is due; it returns when the server goes down or would wait for
  requests. \<open>avail\<close> and \<open>pm\<close> depend on the round; without fuel there is no result.
\<close>

fun run_timers ::
  "bool \<Rightarrow> (nat \<Rightarrow> nat \<Rightarrow> bool) \<Rightarrow> timeval \<Rightarrow> (nat \<Rightarrow> portmapper) \<Rightarrow> 16 word \<Rightarrow> nat \<Rightarrow> manager \<Rightarrow> manager option" where
  "run_timers sg avail now pm port 0 st = None"
| "run_timers sg avail now pm port (Suc n) st =
     (if going_down st then Some st
      else do { (w, served, st) \<leftarrow> serve_timers sg (avail n) now now (pm n) port st;
                if served then run_timers sg avail now pm port n st else Some st })"

text \<open>
  What becomes of a registration until nothing is due: a living server that is past its expiry is dead, with a grace period of its time to
  live; a dead one whose grace period is over is forgotten.
\<close>

definition settle :: "timeval \<Rightarrow> entry \<Rightarrow> entry option" where
  "settle now e =
     (if time_lt now (en_timer e) then Some e
      else case tick now e of
        None \<Rightarrow> None
      | Some e' \<Rightarrow> if time_lt now (en_timer e') then Some e' else tick now e')"

lemma settle_tick: "\<not> time_lt now (en_timer e) \<Longrightarrow> Option.bind (tick now e) (settle now) = settle now e"
  by (auto simp: settle_def tick_def)

lemma view_timer:
  assumes inv: "manager_inv sg X st" and v: "view st d = Some e"
  obtains a f where "events st a = Some f" "trigger_at f = en_timer e" "en_living e \<Longrightarrow> en_timer e = en_expires_at e"
proof -
  note I = manager_invD [OF inv]
  obtain p sv t where p: "servers st p = Some sv" "events st (sv_pevent sv) = Some (ExpireServer t p)"
      "e = \<lparr>en_port = sv_port sv, en_expires_at = sv_expires_at sv, en_ttl = sv_time_to_live sv, en_living = sv_living sv, en_timer = t\<rparr>"
    using v view_Some [OF inv] by blast
  obtain u where "events st (sv_pevent sv) = Some (ExpireServer u p)" "sv_living sv \<longrightarrow> u = sv_expires_at sv" by (rule linksD1 [OF I(3) p(1)])
  then show thesis using p by (intro that [of "sv_pevent sv" "ExpireServer t p"]) auto
qed

lemma run_timers_ok:
  assumes "manager_inv sg {} st" "time_invariant now" "total_load now st < n" and clock: "0 \<le> tv_sec now" "tv_sec now < 2 ^ 31 - 60"
  shows "\<exists>st'. run_timers sg avail now pm port n st = Some st' \<and> manager_inv sg {} st' \<and>
    (going_down st' \<or> (\<forall>d. view st' d = Option.bind (view st d) (settle now)) \<and>
       (\<forall>a e. events st' a = Some e \<longrightarrow> time_lt now (trigger_at e)))"
  using assms(1-3)
proof (induction n arbitrary: st)
  case 0
  then show ?case by simp
next
  case (Suc n)
  show ?case
  proof (cases "going_down st")
    case True
    then show ?thesis using Suc.prems(1) by (intro exI [of _ st]) simp
  next
    case False
    obtain w b st1 where s: "serve_timers sg (avail n) now now (pm n) port st = Some (w, b, st1)" "manager_inv sg {} st1"
      "\<not> b \<longrightarrow> st1 = st \<and> (\<forall>a e. events st a = Some e \<longrightarrow> time_lt now (trigger_at e))"
      "b \<longrightarrow> view st1 = view st \<or> (\<exists>d e. view st d = Some e \<and> \<not> time_lt now (en_timer e) \<and> view st1 = (view st)(d := tick now e))"
      "b \<longrightarrow> total_load now st1 < total_load now st"
      using serve_timers_spec [OF Suc.prems(1,2), of "avail n" now "pm n" port] clock by blast
    show ?thesis
    proof (cases b)
      case True
      have "total_load now st1 < n" using s(5) True Suc.prems(3) by simp
      from Suc.IH [OF s(2) Suc.prems(2) this] obtain st' where st': "run_timers sg avail now pm port n st1 = Some st'" "manager_inv sg {} st'"
          "going_down st' \<or> (\<forall>d. view st' d = Option.bind (view st1 d) (settle now)) \<and>
             (\<forall>a e. events st' a = Some e \<longrightarrow> time_lt now (trigger_at e))"
        by blast
      have "Option.bind (view st1 d) (settle now) = Option.bind (view st d) (settle now)" for d
        using s(4) True settle_tick by (auto simp: fun_upd_def)
      then show ?thesis using st' s(1) True False by simp
    next
      case idle: False
      have "Option.bind (view st d) (settle now) = view st d" for d
      proof (cases "view st d")
        case (Some e)
        obtain a f where "events st a = Some f" "trigger_at f = en_timer e" by (rule view_timer [OF Suc.prems(1) Some])
        then have "time_lt now (en_timer e)" using s(3) idle by metis
        then show ?thesis using Some by (simp add: settle_def)
      qed simp
      then show ?thesis using s(1,3) idle False Suc.prems(1) by auto
    qed
  qed
qed

text \<open>The number of queued timers bounds the number of rounds.\<close>

lemma total_load_bound:
  assumes inv: "manager_inv sg {} st"
  shows "total_load now st \<le> 2 * pq_size (timer_queue st)"
proof -
  note I = manager_invD [OF inv]
  let ?q = "timer_queue st" and ?A = "{a. events st a \<noteq> None}"
  have sub: "?A \<subseteq> {..<next_addr st}" using heap_live(2) [OF I(1)] by auto
  have "load now (servers st) e \<le> 2" for e by (auto simp: load_def split: option.splits timer_event.splits)
  moreover have "total_load now st = (\<Sum>a\<in>?A. load now (servers st) (events st a))"
    unfolding total_load_def by (rule sum.mono_neutral_right) (use sub in \<open>auto simp: load_def\<close>)
  ultimately have "total_load now st \<le> (\<Sum>a\<in>?A. 2)"
    using sum_mono [of ?A "\<lambda>a. load now (servers st) (events st a)" "\<lambda>a. 2"] by simp
  also have "\<dots> = 2 * card ?A" by simp
  also have "card ?A = size (pq_mset ?q)"
  proof -
    have "set_mset (pq_mset ?q) = ?A" using queue_member [OF I(2)] by auto
    moreover have "count (pq_mset ?q) a = 1" if "a \<in> ?A" for a using I(2) that by (simp add: queue_ok_def)
    ultimately show ?thesis by (simp add: size_multiset_overloaded_eq)
  qed
  also have "size (pq_mset ?q) = pq_size ?q" using I(2) by (intro pq_size_contents [of "event_key (events st)"]) (simp add: queue_ok_def)
  finally show ?thesis .
qed

subsection \<open>Queries\<close>

text \<open>The registration a query asks for.\<close>

definition wanted :: "server_desc \<Rightarrow> server_desc \<Rightarrow> bool" where
  "wanted req d \<longleftrightarrow> sd_name d = cstr (sd_name req) \<and> protocol_version req \<le> protocol_version d"

lemma best_match_ok:
  assumes "\<forall>s\<in>set ss. \<exists>k p sv. s = Used k p \<and> servers st p = Some sv \<and> sv_desc sv = k \<and> admissible k"
  shows "\<exists>p v. best_match st req ss (p0, v0) = Some (p, v) \<and> v0 \<le> v \<and>
    ((p, v) = (p0, v0) \<or> (\<exists>k. Used k p \<in> set ss \<and> wanted req k \<and> v = ucast (protocol_version k))) \<and>
    (\<forall>k q. Used k q \<in> set ss \<longrightarrow> wanted req k \<longrightarrow> ucast (protocol_version k) \<le> v)"
  using assms
proof (induction ss arbitrary: p0 v0)
  case Nil
  then show ?case by simp
next
  case (Cons s ss)
  obtain k q sv where s: "s = Used k q" "servers st q = Some sv" "sv_desc sv = k" "admissible k" using Cons.prems by auto
  have w: "protocol_version k \<ge> protocol_version req \<and> str_eq (sd_name k) (sd_name req) \<longleftrightarrow> wanted req k"
    using admissible_name(1) [OF s(4)] by (auto simp: wanted_def str_eq_def)
  let ?best = "if wanted req k \<and> v0 < ucast (protocol_version k) then (q, ucast (protocol_version k)) else (p0, v0)"
  have m: "match_entry st req s (p0, v0) = Some ?best" using s w by (simp add: match_entry_def) blast
  obtain p1 v1 where b: "?best = (p1, v1)" by fastforce
  obtain p v where IH: "best_match st req ss (p1, v1) = Some (p, v)" "v1 \<le> v"
      "(p, v) = (p1, v1) \<or> (\<exists>k. Used k p \<in> set ss \<and> wanted req k \<and> v = ucast (protocol_version k))"
      "\<forall>k q. Used k q \<in> set ss \<longrightarrow> wanted req k \<longrightarrow> ucast (protocol_version k) \<le> v"
    using Cons.IH [of p1 v1] Cons.prems by auto
  have v1: "v0 \<le> v1" "wanted req k \<Longrightarrow> ucast (protocol_version k) \<le> v1"
    using b by (auto split: if_splits)
  have "(p, v) = (p0, v0) \<or> (\<exists>k. Used k p \<in> set (s # ss) \<and> wanted req k \<and> v = ucast (protocol_version k))"
  proof (cases "(p, v) = (p1, v1)")
    case True
    then show ?thesis using b s(1) by (auto split: if_splits)
  next
    case False
    then show ?thesis using IH(3) by auto
  qed
  moreover have "\<forall>k q. Used k q \<in> set (s # ss) \<longrightarrow> wanted req k \<longrightarrow> ucast (protocol_version k) \<le> v"
    using IH(2,4) v1 s(1) by auto
  ultimately show ?case using IH(1,2) v1(1) m b by (intro exI [of _ p] exI [of _ v]) auto
qed

lemma getServer_ok:
  assumes inv: "manager_inv sg {} st"
  shows "\<exists>res. getServer port req st old = Some res \<and>
    (if protocol_version req = 0 then res = old\<lparr>gs_result := KS_ERR_BADPARAM\<rparr>
     else if str_eq (sd_name req) getServerName
     then res = \<lparr>gs_result = KS_ERR_OK, gs_server = \<lparr>sd_name = getServerName, protocol_version = KS_PROTOCOL_VERSION\<rparr>,
            gs_port = port, gs_expires_at = mk_time LONG_MAX 0, gs_living = True\<rparr>
     else (\<exists>d e. wanted req d \<and> view st d = Some e \<and> (\<forall>d'. wanted req d' \<and> view st d' \<noteq> None \<longrightarrow> protocol_version d' \<le> protocol_version d) \<and>
            res = \<lparr>gs_result = KS_ERR_OK, gs_server = d, gs_port = en_port e, gs_expires_at = en_expires_at e, gs_living = en_living e\<rparr>) \<or>
          (\<forall>d. wanted req d \<longrightarrow> view st d = None) \<and> res = old\<lparr>gs_result := KS_ERR_SERVERUNKNOWN\<rparr>)"
proof (cases "protocol_version req = 0 \<or> str_eq (sd_name req) getServerName")
  case True
  then show ?thesis by (auto simp: getServer_def linorder_not_less [symmetric])
next
  case False
  note I = manager_invD [OF inv]
  let ?t = "server_table st"
  let ?ss = "filter usedSlot (ht_table ?t)"
  have wf: "ht_wf (desc_hash sg) ?t" using table_okD(1) [OF I(4)] by (simp add: ht_inv_def)
  have it: "ht_iterate ?t (ht_toStart ?t) = ?ss" using wf by (intro ht_iterate_start) (simp add: ht_wf_def)
  have mem: "Used k p \<in> set ?ss \<longleftrightarrow> descs st p = Some k" for k p
    using table_okD(2) [OF I(4), of k p] assocs_map_of [OF wf, of k p] by (simp add: in_assocs usedSlot_def)
  have used: "\<forall>s\<in>set ?ss. \<exists>k p sv. s = Used k p \<and> servers st p = Some sv \<and> sv_desc sv = k \<and> admissible k"
  proof
    fix s assume s: "s \<in> set ?ss"
    then have "usedSlot s" by simp
    then obtain k p where k: "s = Used k p" by (cases s) (auto simp: usedSlot_def)
    then have "descs st p = Some k" using s mem by blast
    then show "\<exists>k p sv. s = Used k p \<and> servers st p = Some sv \<and> sv_desc sv = k \<and> admissible k"
      using k table_okD(3) [OF I(4)] by (auto simp: descs_def)
  qed
  have dom: "view st d \<noteq> None \<longleftrightarrow> (\<exists>p. descs st p = Some d)" for d
  proof
    assume "view st d \<noteq> None"
    then obtain e where "view st d = Some e" by blast
    then show "\<exists>p. descs st p = Some d" using view_Some [OF inv, of d e] by (auto simp: descs_def)
  next
    assume "\<exists>p. descs st p = Some d"
    then obtain p sv where p: "servers st p = Some sv" "sv_desc sv = d" by (auto simp: descs_def)
    obtain t where "events st (sv_pevent sv) = Some (ExpireServer t p)" by (rule linksD1 [OF I(3) p(1)])
    then show "view st d \<noteq> None" using view_at [OF inv p(1)] p(2) by simp
  qed
  obtain p v where b: "best_match st req ?ss (0, 0) = Some (p, v)"
      "(p, v) = (0, 0) \<or> (\<exists>k. Used k p \<in> set ?ss \<and> wanted req k \<and> v = ucast (protocol_version k))"
      "\<forall>k q. Used k q \<in> set ?ss \<longrightarrow> wanted req k \<longrightarrow> ucast (protocol_version k) \<le> v"
    using best_match_ok [OF used, of req 0 0] by auto
  have g: "getServer port req st old = (if p \<noteq> 0 then do { sv \<leftarrow> servers st p;
               Some \<lparr>gs_result = KS_ERR_OK, gs_server = sv_desc sv, gs_port = sv_port sv,
                 gs_expires_at = sv_expires_at sv, gs_living = sv_living sv\<rparr> }
        else Some (old\<lparr>gs_result := KS_ERR_SERVERUNKNOWN\<rparr>))"
    using False b(1) it by (auto simp: getServer_def linorder_not_less [symmetric])
  have le: "ucast (a :: 16 word) \<le> (ucast b :: u32) \<longleftrightarrow> a \<le> b" for a b
  proof -
    have "unat (ucast c :: u32) = unat c" for c :: "16 word"
      using unsigned_less [of c, where 'a = nat] by (simp add: unsigned_ucast_eq take_bit_nat_eq_self)
    then show ?thesis by (simp add: word_le_nat_alt)
  qed
  show ?thesis
  proof (cases "p = 0")
    case True
    have none: "view st d = None" if "wanted req d" for d
    proof (rule ccontr)
      assume "view st d \<noteq> None"
      then obtain q where q: "descs st q = Some d" using dom by blast
      have "Used k 0 \<notin> set ?ss" for k using mem [of k 0] heap_fresh(1) [OF I(1)] by (simp add: descs_def)
      then have "v = 0" using b(2) True by blast
      then have "ucast (protocol_version d) \<le> (0 :: u32)" using b(3) q mem that by blast
      then have "protocol_version d \<le> 0" using le [of "protocol_version d" 0] by simp
      moreover have "1 \<le> protocol_version d" using table_okD(3) [OF I(4) q] by (simp add: admissible_def)
      ultimately show False by simp
    qed
    then show ?thesis using g True False by simp
  next
    case p: False
    then obtain k where k: "Used k p \<in> set ?ss" "wanted req k" "v = ucast (protocol_version k)" using b(2) by auto
    then have "descs st p = Some k" using mem by blast
    then obtain sv where sv: "servers st p = Some sv" "sv_desc sv = k" by (auto simp: descs_def)
    obtain t where "events st (sv_pevent sv) = Some (ExpireServer t p)" by (rule linksD1 [OF I(3) sv(1)])
    note at = view_at [OF inv sv(1) this, unfolded sv(2)]
    have best: "protocol_version d' \<le> protocol_version k" if "wanted req d'" "view st d' \<noteq> None" for d'
    proof -
      have "\<exists>q. descs st q = Some d'" using that(2) dom by blast
      then show ?thesis using b(3) mem that(1) le k(3) by blast
    qed
    let ?res = "\<lparr>gs_result = KS_ERR_OK, gs_server = k, gs_port = sv_port sv, gs_expires_at = sv_expires_at sv, gs_living = sv_living sv\<rparr>"
    have "getServer port req st old = Some ?res" using g p sv by simp
    moreover have "\<exists>d e. wanted req d \<and> view st d = Some e \<and> (\<forall>d'. wanted req d' \<and> view st d' \<noteq> None \<longrightarrow> protocol_version d' \<le> protocol_version d) \<and>
        ?res = \<lparr>gs_result = KS_ERR_OK, gs_server = d, gs_port = en_port e, gs_expires_at = en_expires_at e, gs_living = en_living e\<rparr>"
      using k(2) at best by (intro exI [of _ k] exI conjI) (assumption, assumption, blast, simp)
    ultimately show ?thesis using False by auto
  qed
qed

end
