(* ===== verification/KsManagerSpec.thy ===== *)
theory KsManagerSpec
  imports KsManagerTimers
begin

text \<open>The states the manager can reach, and its properties.\<close>

subsection \<open>Reachable states\<close>

lemma domain_addChild_any:
  assumes d: "domains st a = Some d" "ht_inv (string_hash sg) (dm_children d)"
  obtains ok t where "domain_addChild sg m0 m1 a i p st = Some (ok, st\<lparr>domains := (domains st)(a \<mapsto> d\<lparr>dm_children := t\<rparr>)\<rparr>)"
    "ht_inv (string_hash sg) t" "\<not> m0 \<Longrightarrow> t = dm_children d"
proof -
  obtain ok t where t: "ht_add (string_hash sg) m0 m1 i p (dm_children d) = Some (ok, t)" "ht_inv (string_hash sg) t"
    using ht_add_ok [OF d(2), of m0 m1 i p] by blast
  then show thesis using d by (intro that [of ok t]) (auto simp: domain_addChild_def ht_add_def)
qed

lemma manager_new_ok:
  assumes avail: "avail 0" "avail 1" "avail 3" "avail 4" "avail 5" "avail 6" and pool: "collectable pool"
  shows "\<exists>st. manager_new sg avail pool = Some st \<and> manager_inv sg {} st \<and> view st = Map.empty \<and>
    (\<not> avail 7 \<and> \<not> avail 9 \<and> \<not> avail 11 \<and> \<not> avail 13 \<and> \<not> avail 15 \<longrightarrow>
      roomy (server_table st) \<and> roomy (servers_domain st) \<and> (\<forall>ps d. domains st ps = Some d \<longrightarrow> roomy (dm_children d)))"
proof -
  obtain table :: "(server_desc, nat) htab" where table: "ht_new (desc_hash sg) True 11 (f32 (4/5)) (f32 (2/5)) = Some table"
      "ht_inv (desc_hash sg) table" "ht_map table = Map.empty" "roomy table"
    by (rule ht_new_roomy)
  obtain top :: "(byte list, nat) htab" where top: "ht_new (string_hash sg) True 11 (f32 (4/5)) (f32 (2/5)) = Some top"
      "ht_inv (string_hash sg) top" "ht_map top = Map.empty" "roomy top"
    by (rule ht_new_roomy)
  let ?m = "\<lparr>dm_id = getServerName, dm_children = top\<rparr>" and ?v = "\<lparr>dm_id = version_id KS_PROTOCOL_VERSION, dm_children = top\<rparr>"
  let ?st0 = "\<lparr>servers = Map.empty, events = Map.empty, domains = Map.empty, next_addr = 1, timer_queue = pq_new (avail 2) 16,
         server_table = table, servers_domain = top, registered = False, going_down = False, stream_pool = pool\<rparr>"
  let ?st1 = "?st0\<lparr>domains := [1 \<mapsto> ?m, 2 \<mapsto> ?v], next_addr := 6\<rparr>"
  obtain b1 t1 where t1: "domain_addChild sg (avail 7) (avail 8) 2 [0x6C, 0x69, 0x76, 0x69, 0x6E, 0x67] 5 ?st1 =
      Some (b1, ?st1\<lparr>domains := [1 \<mapsto> ?m, 2 \<mapsto> ?v\<lparr>dm_children := t1\<rparr>]\<rparr>)" "ht_inv (string_hash sg) t1" "\<not> avail 7 \<Longrightarrow> t1 = top"
    by (rule domain_addChild_any [of ?st1 2 ?v sg "avail 7" "avail 8" "[0x6C, 0x69, 0x76, 0x69, 0x6E, 0x67]" 5]) (use top(2) in simp_all)
  let ?st2 = "?st0\<lparr>domains := [1 \<mapsto> ?m, 2 \<mapsto> ?v\<lparr>dm_children := t1\<rparr>], next_addr := 6\<rparr>"
  obtain b2 t2 where t2: "domain_addChild sg (avail 9) (avail 10) 2 [0x70, 0x6F, 0x72, 0x74] 3 ?st2 =
      Some (b2, ?st2\<lparr>domains := [1 \<mapsto> ?m, 2 \<mapsto> ?v\<lparr>dm_children := t2\<rparr>]\<rparr>)" "ht_inv (string_hash sg) t2" "\<not> avail 9 \<Longrightarrow> t2 = t1"
    by (rule domain_addChild_any [of ?st2 2 "?v\<lparr>dm_children := t1\<rparr>" sg "avail 9" "avail 10" "[0x70, 0x6F, 0x72, 0x74]" 3])
       (use t1(2) in simp_all)
  let ?st3 = "?st0\<lparr>domains := [1 \<mapsto> ?m, 2 \<mapsto> ?v\<lparr>dm_children := t2\<rparr>], next_addr := 6\<rparr>"
  let ?exp = "[0x65, 0x78, 0x70, 0x69, 0x72, 0x65, 0x73, 0x5F, 0x61, 0x74] :: byte list"
  obtain b3 t3 where t3: "domain_addChild sg (avail 11) (avail 12) 2 ?exp 4 ?st3 =
      Some (b3, ?st3\<lparr>domains := [1 \<mapsto> ?m, 2 \<mapsto> ?v\<lparr>dm_children := t3\<rparr>]\<rparr>)" "ht_inv (string_hash sg) t3" "\<not> avail 11 \<Longrightarrow> t3 = t2"
    by (rule domain_addChild_any [of ?st3 2 "?v\<lparr>dm_children := t2\<rparr>" sg "avail 11" "avail 12" ?exp 4]) (use t2(2) in simp_all)
  let ?st4 = "?st0\<lparr>domains := [1 \<mapsto> ?m, 2 \<mapsto> ?v\<lparr>dm_children := t3\<rparr>], next_addr := 6\<rparr>"
  obtain b4 t4 where t4: "domain_addChild sg (avail 13) (avail 14) 1 (version_id KS_PROTOCOL_VERSION) 2 ?st4 =
      Some (b4, ?st4\<lparr>domains := [2 \<mapsto> ?v\<lparr>dm_children := t3\<rparr>, 1 \<mapsto> ?m\<lparr>dm_children := t4\<rparr>]\<rparr>)" "ht_inv (string_hash sg) t4"
      "\<not> avail 13 \<Longrightarrow> t4 = top"
    by (rule domain_addChild_any [of ?st4 1 ?m sg "avail 13" "avail 14" "version_id KS_PROTOCOL_VERSION" 2])
       (use top(2) in \<open>simp_all\<close>)
  let ?D = "[2 \<mapsto> ?v\<lparr>dm_children := t3\<rparr>, 1 \<mapsto> ?m\<lparr>dm_children := t4\<rparr>] :: nat \<rightharpoonup> domain"
  let ?st5 = "?st0\<lparr>domains := ?D, next_addr := 6\<rparr>"
  obtain b5 T where T: "ht_add (string_hash sg) (avail 15) (avail 16) getServerName 1 top = Some (b5, T)" "ht_inv (string_hash sg) T"
      "ht_map T = (if b5 then [getServerName \<mapsto> 1] else Map.empty)" "\<not> avail 15 \<Longrightarrow> T = top"
    using ht_add_ok [OF top(2), of "avail 15" "avail 16" getServerName 1] top(3) by (fastforce simp: ht_add_def)
  let ?st = "?st5\<lparr>servers_domain := T\<rparr>"
  have new: "manager_new sg avail pool = Some ?st"
    using avail t1(1) t2(1) t3(1) t4(1) T(1) table(1) top(1)
    by (simp add: manager_new_def new_domain_def servers_addChild_def numeral_eq_Suc)
  have de: "descs ?st = Map.empty" by (simp add: descs_def fun_eq_iff)
  have "tree_ok sg Map.empty ?D T"
  proof (rule tree_okI [OF T(2)])
    fix n ps assume "ht_map T n = Some ps"
    then have "n = getServerName" "ps = 1" using T(3) by (auto split: if_splits)
    then show "\<exists>d. ?D ps = Some d \<and> dm_id d = n \<and> ht_inv (string_hash sg) (dm_children d) \<and> (n \<noteq> getServerName \<longrightarrow> versions_of Map.empty n d)"
      using t4(2) by simp
  qed simp
  moreover have "pq_invariant (event_key Map.empty) (pq_new (avail 2) 16)" "pq_mset (pq_new (avail 2) 16 :: nat pq) = {#}"
    by (simp_all add: pq_new_invariant)
  ultimately have inv: "manager_inv sg {} ?st"
    using table(2,3) pool unfolding manager_inv_def de by (simp add: heap_ok_def garbage_ok_def queue_ok_def links_ok_def table_ok_def)
  have view: "view ?st = Map.empty" using table(3) by (simp add: view_def view_of_def fun_eq_iff)
  have roomy: "roomy (server_table ?st) \<and> roomy (servers_domain ?st) \<and> (\<forall>ps d. domains ?st ps = Some d \<longrightarrow> roomy (dm_children d))"
    if no: "\<not> avail 7 \<and> \<not> avail 9 \<and> \<not> avail 11 \<and> \<not> avail 13 \<and> \<not> avail 15"
  proof -
    have eq: "t3 = top" "t4 = top" "T = top" using no t1(3) t2(3) t3(3) t4(3) T(4) by blast+
    have "roomy (dm_children d)" if "?D ps = Some d" for ps d using that top(4) unfolding eq by (auto split: if_splits)
    then show ?thesis using table(4) top(4) eq(3) by simp
  qed
  show ?thesis by (rule exI [of _ ?st], rule conjI [OF new conjI [OF inv conjI [OF view impI [OF roomy]]]])
qed

text \<open>A new timer that belongs to no server.\<close>

lemma new_timer_ok:
  assumes inv: "manager_inv sg {} st" and e: "\<forall>t p. e \<noteq> ExpireServer t p" "time_invariant (trigger_at e)" "\<forall>t i. e = GarbageTimer t i \<longrightarrow> i = 30"
  obtains ok st' where "addTimerEvent m (next_addr st) (snd (new_event e st)) = Some (ok, st')" "m \<Longrightarrow> ok"
    "ok \<Longrightarrow> manager_inv sg {} st'" "view st' = view st" "servers st' = servers st"
    "server_table st' = server_table st" "servers_domain st' = servers_domain st" "domains st' = domains st"
proof -
  note I = manager_invD [OF inv] and H = heap_fresh [OF manager_invD(1) [OF inv]]
  let ?a = "next_addr st"
  let ?E = "(events st)(?a \<mapsto> e)"
  let ?st = "st\<lparr>events := ?E, next_addr := ?a + 1\<rparr>"
  have Q: "queue_ok (insert ?a {}) ?E (timer_queue st)"
    using H e(2) by (intro queue_ok_upd [OF I(2)]) simp_all
  then have "\<exists>ok q. addTimerEvent m ?a ?st = Some (ok, ?st\<lparr>timer_queue := q\<rparr>) \<and> (ok \<longrightarrow> queue_ok ({?a} - {?a}) (events ?st) q) \<and> (m \<longrightarrow> ok)"
    using add_timer_ok [of "{?a}" ?st ?a m] by auto
  then obtain ok q where q: "addTimerEvent m ?a ?st = Some (ok, ?st\<lparr>timer_queue := q\<rparr>)" "ok \<longrightarrow> queue_ok {} ?E q" "m \<longrightarrow> ok" by auto
  let ?st' = "?st\<lparr>timer_queue := q\<rparr>"
  have "descs ?st' = descs st" by (simp add: descs_def fun_eq_iff)
  moreover have "garbage_ok ?E (stream_pool st)" using I(1) e(3) by (auto simp: heap_ok_def garbage_ok_def)
  then have "heap_ok ?st'" using I(1) by (auto simp: heap_ok_def)
  moreover have "links_ok (servers st) ?E" using H e(1) by (intro links_other_event [OF I(3)]) auto
  ultimately have inv': "manager_inv sg {} ?st'" if ok using I(4,5) q(2) that by (simp add: manager_inv_def)
  have "view_of M (servers st) ?E = view_of M (servers st) (events st)" for M
  proof (rule view_of_same)
    fix p w assume w: "servers st p = Some w"
    obtain u where "events st (sv_pevent w) = Some (ExpireServer u p)" by (rule linksD1 [OF I(3) w])
    then have "sv_pevent w \<noteq> ?a" using H(5) by auto
    then show "map_option trigger_at (?E (sv_pevent w)) = map_option trigger_at (events st (sv_pevent w))" by simp
  qed
  then have "view ?st' = view st" by (simp add: view_def)
  then show thesis using q(1,3) inv' by (intro that [of ok ?st']) (simp_all add: new_event_def)
qed

lemma startServer_pmap_ok:
  assumes inv: "manager_inv sg {} st" and avail1: "avail 1"
  obtains st' where "startServer_pmap avail now pm st = Some st'" "manager_inv sg {} st'" "view st' = view st" "servers st' = servers st"
    "server_table st' = server_table st" "servers_domain st' = servers_domain st" "domains st' = domains st"
proof (cases "avail 0")
  case False
  then show thesis using inv by (intro that [of "st\<lparr>registered := pmap_set_tcp pm \<or> pmap_set_udp pm\<rparr>"]) (simp_all add: startServer_pmap_def)
next
  case True
  let ?st = "st\<lparr>registered := pmap_set_tcp pm \<or> pmap_set_udp pm\<rparr>"
  obtain ok st' where st': "addTimerEvent (avail 1) (next_addr ?st) (snd (new_event (ExpireManager (time_now now 30)) ?st)) = Some (ok, st')"
      "avail 1 \<Longrightarrow> ok" "ok \<Longrightarrow> manager_inv sg {} st'" "view st' = view ?st" "servers st' = servers ?st"
      "server_table st' = server_table ?st" "servers_domain st' = servers_domain ?st" "domains st' = domains ?st"
    by (rule new_timer_ok [of sg ?st "ExpireManager (time_now now 30)" "avail 1"]) (use inv in \<open>simp_all add: time_now_def\<close>)
  then show thesis using True avail1 by (intro that [of st']) (simp_all add: startServer_pmap_def new_event_def)
qed

lemma startServer_ok:
  assumes inv: "manager_inv sg {} st" and avail: "avail 0" "avail' 1"
  obtains ok st' where "startServer avail avail' now pm st = Some (ok, st')" "avail 1 \<Longrightarrow> ok"
    "ok \<Longrightarrow> manager_inv sg {} st'" "view st' = view st" "servers st' = servers st"
    "server_table st' = server_table st" "servers_domain st' = servers_domain st" "domains st' = domains st"
proof -
  obtain ok st1 where st1: "addTimerEvent (avail 1) (next_addr st) (snd (new_event (GarbageTimer (time_now now 30) 30) st)) = Some (ok, st1)"
      "avail 1 \<Longrightarrow> ok" "ok \<Longrightarrow> manager_inv sg {} st1" "view st1 = view st" "servers st1 = servers st"
      "server_table st1 = server_table st" "servers_domain st1 = servers_domain st" "domains st1 = domains st"
    by (rule new_timer_ok [OF inv, of "GarbageTimer (time_now now 30) 30" "avail 1"]) (simp_all add: time_now_def)
  have g: "startServer_garbage avail now st = Some (ok, st1)" using st1(1) avail(1) by (simp add: startServer_garbage_def new_event_def)
  show thesis
  proof (cases ok)
    case False
    then show thesis using g st1 by (intro that [of False st1]) (simp_all add: startServer_def)
  next
    case True
    obtain st2 where "startServer_pmap avail' now pm st1 = Some st2" "manager_inv sg {} st2" "view st2 = view st1" "servers st2 = servers st1"
        "server_table st2 = server_table st1" "servers_domain st2 = servers_domain st1" "domains st2 = domains st1"
      by (rule startServer_pmap_ok [where avail = avail' and now = now and pm = pm, OF st1(3) [OF True] avail(2)])
    then show thesis using g True st1 by (intro that [of True st2]) (simp_all add: startServer_def)
  qed
qed

text \<open>
  The runs of the manager: its requests and its timers in any order, at any times, with any answers of the portmapper, and the use of
  fragments by the streams in between (\<open>traffic\<close>), of which only matters that it leaves a pool that can be collected. Two things are
  assumed. The server could be started, and the allocations for the tree of servers succeed: when \<open>registerServer\<close> is called, those
  with the numbers 5 to 12 that it makes are granted and the hash tables of the tree have a free slot (\<open>enough\<close>). Other allocations may
  fail. What happens without this is C31.
\<close>

definition started :: "bool \<Rightarrow> manager \<Rightarrow> bool" where
  "started sg st \<longleftrightarrow> (\<exists>avail pool avail' avail'' now pm st0. (\<forall>i \<in> {0, 1, 3, 4, 5, 6}. avail i) \<and> collectable pool \<and> avail'' 1 \<and>
     manager_new sg avail pool = Some st0 \<and> startServer avail' avail'' now pm st0 = Some (True, st))"

inductive manager_run :: "bool \<Rightarrow> 16 word \<Rightarrow> manager \<Rightarrow> bool" for sg port where
  start: "started sg st \<Longrightarrow> manager_run sg port st"
| register: "manager_run sg port st \<Longrightarrow> admissible (reg_server r) \<longrightarrow> enough avail st \<Longrightarrow>
    registerServer sg avail now r st = Some (res, st') \<Longrightarrow> manager_run sg port st'"
| unregister: "manager_run sg port st \<Longrightarrow> unregisterServer sg avail d st = Some (res, st') \<Longrightarrow> manager_run sg port st'"
| timer: "manager_run sg port st \<Longrightarrow> time_invariant now \<Longrightarrow>
    serve_timers sg avail now now' pm port st = Some (w, b, st') \<Longrightarrow> manager_run sg port st'"
| traffic: "manager_run sg port st \<Longrightarrow> collectable g \<Longrightarrow> manager_run sg port (st\<lparr>stream_pool := g\<rparr>)"

inductive_cases manager_run_cases: "manager_run sg port st"

lemma manager_inv_pool: "manager_inv sg X st \<Longrightarrow> collectable g \<Longrightarrow> manager_inv sg X (st\<lparr>stream_pool := g\<rparr>)"
  by (simp add: manager_inv_def heap_ok_def garbage_ok_def descs_def [abs_def])

lemma manager_run_inv: "manager_run sg port st \<Longrightarrow> manager_inv sg {} st"
proof (induction rule: manager_run.induct)
  case (start st)
  then obtain avail pool avail' avail'' now pm st0 where a: "\<forall>i \<in> {0, 1, 3, 4, 5, 6}. avail i" "collectable pool" "avail'' 1"
      "manager_new sg avail pool = Some st0" "startServer avail' avail'' now pm st0 = Some (True, st)"
    unfolding started_def by (elim exE conjE) (rule that)
  from a(1) have b: "avail 0" "avail 1" "avail 3" "avail 4" "avail 5" "avail 6" by blast+
  from manager_new_ok [of avail pool sg, OF b a(2)] have s: "manager_inv sg {} st0" unfolding a(4) option.inject by (elim exE conjE) simp
  have "avail' 0"
  proof (rule ccontr)
    assume "\<not> avail' 0"
    then have "startServer_garbage avail' now st0 = None"
      using heap_fresh(2) [OF manager_invD(1) [OF s]] by (simp add: startServer_garbage_def addTimerEvent_def)
    then show False using a(5) by (simp add: startServer_def)
  qed
  then have "ok \<longrightarrow> manager_inv sg {} st1" if "startServer avail' avail'' now pm st0 = Some (ok, st1)" for ok st1
    using startServer_ok [where avail = avail' and avail' = avail'' and now = now and pm = pm, OF s _ a(3)] that by (metis option.inject prod.inject)
  from this [OF a(5)] show ?case by simp
next
  case (register st r avail now res st')
  from registerServer_ok [of sg st r avail now, OF register.IH register.hyps(2)]
  obtain res' st1 where "registerServer sg avail now r st = Some (res', st1)" "manager_inv sg {} st1" by (elim exE conjE) (rule that)
  then show ?case using register.hyps(3) by simp
next
  case (unregister st avail d res st')
  from unregisterServer_ok [of sg st avail d, OF unregister.IH]
  obtain res' st1 where "unregisterServer sg avail d st = Some (res', st1)" "manager_inv sg {} st1" by (elim exE conjE) (rule that)
  then show ?case using unregister.hyps(2) by simp
next
  case (timer st now avail now' pm w b st')
  from serve_timers_spec [of sg st now avail now' pm port, OF timer.IH timer.hyps(2)]
  obtain w' b' st1 where "serve_timers sg avail now now' pm port st = Some (w', b', st1)" "manager_inv sg {} st1" by (elim exE conjE) (rule that)
  then show ?case using timer.hyps(3) by simp
next
  case (traffic st g)
  then show ?case by (intro manager_inv_pool)
qed

subsection \<open>Properties\<close>

text \<open>A manager that has just been started, and one with a registered server.\<close>

definition sample_portmapper :: portmapper where
  "sample_portmapper = \<lparr>pmap_set_tcp = True, pmap_set_udp = True, pmap_port = 7509, pmap_failed = False\<rparr>"

definition sample_new :: manager where
  "sample_new = the (manager_new True (\<lambda>i. i < 7) two_free)"

lemma two_free_collectable: "collectable two_free"
  unfolding collectable_def
  by (rule exI [of _ "[1, 2]"]) (simp add: two_free_def two_frags_def pool_ok_def blocks_def)

definition sample_manager :: manager where
  "sample_manager = snd (the (startServer (\<lambda>i. True) (\<lambda>i. True) (mk_time 1000 0) sample_portmapper sample_new))"

definition sample_registered :: manager where
  "sample_registered = snd (the (registerServer True (\<lambda>i. True) (mk_time 1000 0) sample_registration sample_manager))"

lemma admissible_sample: "admissible (reg_server sample_registration)"
  by (simp add: admissible_def sample_registration_def isValidManagerName_def isalnum_def getServerName_def)

lemma sample_new_ok:
  "manager_new True (\<lambda>i. i < 7) two_free = Some sample_new" "manager_inv True {} sample_new" "view sample_new = Map.empty"
  "roomy (server_table sample_new)" "roomy (servers_domain sample_new)"
  "domains sample_new ps = Some d \<Longrightarrow> roomy (dm_children d)"
proof -
  from manager_new_ok [of "\<lambda>i. i < 7" two_free True, simplified, OF two_free_collectable] obtain st where st: "manager_new True (\<lambda>i. i < 7) two_free = Some st" "manager_inv True {} st"
      "view st = Map.empty" "roomy (server_table st)" "roomy (servers_domain st)"
      "\<And>ps d. domains st ps = Some d \<Longrightarrow> roomy (dm_children d)"
    by (elim exE conjE) (rule that; blast)
  have eq: "sample_new = st" by (simp add: sample_new_def st(1))
  show "manager_new True (\<lambda>i. i < 7) two_free = Some sample_new" "manager_inv True {} sample_new" "view sample_new = Map.empty"
    "roomy (server_table sample_new)" "roomy (servers_domain sample_new)" unfolding eq by (rule st)+
  show "domains sample_new ps = Some d \<Longrightarrow> roomy (dm_children d)" unfolding eq by (rule st(6))
qed

lemma sample_manager_ok:
  "startServer (\<lambda>i. True) (\<lambda>i. True) (mk_time 1000 0) sample_portmapper sample_new = Some (True, sample_manager)"
  "manager_inv True {} sample_manager"
  "view sample_manager = Map.empty" "enough (\<lambda>i. True) sample_manager" "roomy (server_table sample_manager)"
proof -
  obtain ok st where r: "startServer (\<lambda>i. True) (\<lambda>i. True) (mk_time 1000 0) sample_portmapper sample_new = Some (ok, st)" "True \<Longrightarrow> ok"
      "ok \<Longrightarrow> manager_inv True {} st" and st: "view st = view sample_new" "server_table st = server_table sample_new"
      "servers_domain st = servers_domain sample_new" "domains st = domains sample_new"
    by (rule startServer_ok [OF sample_new_ok(2), where avail = "\<lambda>i. True" and avail' = "\<lambda>i. True" and now = "mk_time 1000 0"
          and pm = sample_portmapper]) simp_all
  have eq: "sample_manager = st" by (simp add: sample_manager_def r(1))
  show "startServer (\<lambda>i. True) (\<lambda>i. True) (mk_time 1000 0) sample_portmapper sample_new = Some (True, sample_manager)"
    "manager_inv True {} sample_manager" using r unfolding eq by simp_all
  show "view sample_manager = Map.empty" "roomy (server_table sample_manager)" unfolding eq st using sample_new_ok by simp_all
  show "enough (\<lambda>i. True) sample_manager" unfolding eq enough_def st(3,4) using sample_new_ok by blast
qed

lemma sample_started: "started True sample_manager"
  unfolding started_def
  by (rule exI [of _ "\<lambda>i. i < 7"], rule exI [of _ two_free], rule exI [of _ "\<lambda>i. True"], rule exI [of _ "\<lambda>i. True"],
      intro exI [of _ "mk_time 1000 0"] exI [of _ sample_portmapper] exI [of _ sample_new] conjI two_free_collectable sample_new_ok(1)
        sample_manager_ok(1)) simp_all

lemma sample_registered_ok:
  "registerServer True (\<lambda>i. True) (mk_time 1000 0) sample_registration sample_manager = Some (KS_ERR_OK, sample_registered)"
  "view sample_registered = reg_register (mk_time 1000 0) sample_registration Map.empty"
proof -
  from registerServer_ok [of True sample_manager sample_registration "\<lambda>i. True" "mk_time 1000 0"] sample_manager_ok admissible_sample
  obtain st where st: "registerServer True (\<lambda>i. True) (mk_time 1000 0) sample_registration sample_manager = Some (KS_ERR_OK, st)"
      "view st = reg_register (mk_time 1000 0) sample_registration Map.empty"
    by auto
  show "registerServer True (\<lambda>i. True) (mk_time 1000 0) sample_registration sample_manager = Some (KS_ERR_OK, sample_registered)"
    "view sample_registered = reg_register (mk_time 1000 0) sample_registration Map.empty"
    using st by (simp_all add: sample_registered_def)
qed

lemma sample_runs: "manager_run True 7509 sample_registered"
  by (rule manager_run.register [OF manager_run.start [OF sample_started] _ sample_registered_ok(1)]) (simp add: sample_manager_ok(4))

lemma register_new:
  assumes inv: "manager_inv sg {} st" and adm: "admissible (reg_server r)" and new: "ht_map (server_table st) (reg_server r) = None"
    and avail: "avail 0" "avail 1" "avail 2" "avail 3" "avail 4" and room: "roomy (server_table st)"
  obtains q T ST sv where "queue_ok {} (events ST) q" "ht_inv (desc_hash sg) T" "ht_map T (reg_server r) = Some (next_addr st + 1)"
    "ST = st\<lparr>events := (events st)(next_addr st \<mapsto> ExpireServer (time_now now (reg_time_to_live r)) 0), timer_queue := q,
       servers := (servers st)(next_addr st + 1 \<mapsto> sv), next_addr := next_addr st + 2, server_table := T\<rparr>"
    "sv_desc sv = reg_server r" "sv_pevent sv = 0"
    "registerServer sg avail now r st = do { (ok, st') \<leftarrow> enter_tree sg avail (next_addr st + 1) ST;
       if ok then do { st' \<leftarrow> connect (next_addr st + 1) (next_addr st) st'; Some (KS_ERR_OK, st') } else Some (KS_ERR_GENERIC, st') }"
proof -
  note I = manager_invD [OF inv] and H = heap_fresh [OF manager_invD(1) [OF inv]]
  let ?a = "next_addr st" and ?t = "time_now now (reg_time_to_live r)"
  let ?E = "(events st)(?a \<mapsto> ExpireServer ?t 0)"
  let ?st1 = "st\<lparr>events := ?E, next_addr := ?a + 1\<rparr>"
  have Q: "queue_ok (insert ?a {}) ?E (timer_queue st)"
    using H by (intro queue_ok_upd [OF I(2)]) (simp_all add: time_now_def)
  obtain q where "addTimerEvent True ?a ?st1 = Some (True, ?st1\<lparr>timer_queue := q\<rparr>)" "queue_ok ({?a} - {?a}) (events ?st1) q"
    by (rule add_timer_room [of "{?a}" ?st1 ?a True]) (use Q in simp_all)
  then have q: "addTimerEvent True ?a ?st1 = Some (True, ?st1\<lparr>timer_queue := q\<rparr>)" "queue_ok {} ?E q" by simp_all
  obtain T where T: "ht_add (desc_hash sg) True True (reg_server r) (?a + 1) (server_table st) = Some (True, T)" "ht_inv (desc_hash sg) T"
      "ht_map T = (ht_map (server_table st))(reg_server r \<mapsto> ?a + 1)"
    by (rule ht_add_new [OF table_okD(1) [OF I(4)] new room])
  let ?sv = "\<lparr>sv_desc = reg_server r, sv_port = reg_port r, sv_expires_at = ?t, sv_time_to_live = reg_time_to_live r, sv_living = True,
    sv_pevent = 0\<rparr>"
  let ?ST = "st\<lparr>events := ?E, timer_queue := q, servers := (servers st)(?a + 1 \<mapsto> ?sv), next_addr := ?a + 2, server_table := T\<rparr>"
  have query: "ht_query (desc_hash sg) (desc_key (reg_server r)) (server_table st) = Some None"
    using ht_query_ok [OF table_okD(1) [OF I(4)]] admissible_name(2) [OF adm] new by simp
  have e: "enter sg avail r ?t (?st1\<lparr>timer_queue := q\<rparr>) =
      do { (ok, st') \<leftarrow> enter_tree sg avail (?a + 1) ?ST; Some (if ok then ?a + 1 else 0, st') }"
    using avail T(1) by (cases "enter_tree sg avail (?a + 1) ?ST") (auto simp: enter_def new_server_def admissible_name(2) [OF adm])
  have "registerServer sg avail now r st = do { (p, st') \<leftarrow> enter sg avail r ?t (?st1\<lparr>timer_queue := q\<rparr>);
      if p = 0 then Some (KS_ERR_GENERIC, st') else do { st' \<leftarrow> connect p ?a st'; Some (KS_ERR_OK, st') } }"
    using adm avail(1,2) q(1) query by (simp add: registerServer_def admissible_iff new_event_def Let_def)
  also have "\<dots> = do { (ok, st') \<leftarrow> enter_tree sg avail (?a + 1) ?ST;
       if ok then do { st' \<leftarrow> connect (?a + 1) ?a st'; Some (KS_ERR_OK, st') } else Some (KS_ERR_GENERIC, st') }"
    unfolding e by (cases "enter_tree sg avail (?a + 1) ?ST") auto
  finally have "registerServer sg avail now r st = do { (ok, st') \<leftarrow> enter_tree sg avail (?a + 1) ?ST;
       if ok then do { st' \<leftarrow> connect (?a + 1) ?a st'; Some (KS_ERR_OK, st') } else Some (KS_ERR_GENERIC, st') }" .
  then show thesis using q(2) T by (intro that [of ?ST q T ?sv]) simp_all
qed


text \<open>
  C16. As long as no registration runs out of memory for the tree below \<open>/servers\<close>, the manager never uses a pointer to a deleted
  object, fails an assertion or hangs. In every state that it reaches in this way, by requests and timers in any order and at any
  times, each removal and each query has an answer and the timers (garbage collection included) are served, whatever allocations
  fail; a registration has an answer if the tables of the tree have a free slot and its allocations for the tree are granted
  (\<open>enough\<close>). C31 shows that this condition is needed.
\<close>

theorem manager_never_stuck:
  assumes "manager_run sg port st"
  shows "(\<forall>avail now r. enough avail st \<longrightarrow> registerServer sg avail now r st \<noteq> None) \<and>
    (\<forall>avail d. unregisterServer sg avail d st \<noteq> None) \<and> (\<forall>req old. getServer port req st old \<noteq> None) \<and>
    (\<forall>avail now now' pm. time_invariant now \<longrightarrow> serve_timers sg avail now now' pm port st \<noteq> None)"
proof (intro conjI allI impI)
  note inv = manager_run_inv [OF assms]
  fix avail now now' and r :: registration and d req old pm
  show "registerServer sg avail now r st \<noteq> None" if "enough avail st"
    using registerServer_ok [OF inv, of r avail now] that by blast
  show "unregisterServer sg avail d st \<noteq> None"
    using unregisterServer_ok [OF inv, of avail d] by (elim exE conjE) simp
  show "getServer port req st old \<noteq> None"
    using getServer_ok [OF inv, of port req old] by (elim exE conjE) simp
  show "serve_timers sg avail now now' pm port st \<noteq> None" if "time_invariant now"
    using serve_timers_spec [OF inv that, of avail now' pm port] by (elim exE conjE) simp
qed

theorem manager_never_stuck_witness:
  "manager_run True 7509 sample_registered \<and> unregisterServer True (\<lambda>i. False) (reg_server sample_registration) sample_registered \<noteq> None \<and>
   serve_timers True (\<lambda>i. False) (mk_time 2000 0) (mk_time 2000 0) sample_portmapper 7509 sample_registered \<noteq> None"
proof -
  have "time_invariant (mk_time 2000 0)" by (simp add: mk_time_def)
  then show ?thesis using manager_never_stuck [OF sample_runs] sample_runs by blast
qed

text \<open>
  C18. As long as no registration has run out of memory for the tree below \<open>/servers\<close> (\<open>manager_run\<close>; C31 shows what happens then),
  the table, the tree and the timers tell the same. Every registration in the table belongs to its
  description and has one timer event, which points back to it, is queued once, and is due when a living server expires; below
  \<open>/servers\<close> there is the domain \<open>name/version\<close> for exactly the registered versions, and no domain without one.
\<close>

theorem manager_consistent:
  assumes "manager_run sg port st"
  shows "(\<forall>d p. ht_map (server_table st) d = Some p \<longrightarrow>
      (\<exists>sv t. servers st p = Some sv \<and> sv_desc sv = d \<and> events st (sv_pevent sv) = Some (ExpireServer t p) \<and>
        count (pq_mset (timer_queue st)) (sv_pevent sv) = 1 \<and> (sv_living sv \<longrightarrow> t = sv_expires_at sv))) \<and>
    (\<forall>n v p. n \<noteq> getServerName \<longrightarrow>
      ((\<exists>ps d. ht_map (servers_domain st) n = Some ps \<and> domains st ps = Some d \<and> ht_map (dm_children d) (version_id v) = Some p) \<longleftrightarrow>
       ht_map (server_table st) \<lparr>sd_name = n, protocol_version = v\<rparr> = Some p)) \<and>
    (\<forall>n. n \<noteq> getServerName \<longrightarrow> ht_map (servers_domain st) n \<noteq> None \<longrightarrow>
      (\<exists>v. ht_map (server_table st) \<lparr>sd_name = n, protocol_version = v\<rparr> \<noteq> None))"
proof -
  note inv = manager_run_inv [OF assms]
  note I = manager_invD [OF inv]
  note T = table_okD [OF I(4)]
  have reg: "\<exists>sv t. servers st p = Some sv \<and> sv_desc sv = d \<and> events st (sv_pevent sv) = Some (ExpireServer t p) \<and>
      count (pq_mset (timer_queue st)) (sv_pevent sv) = 1 \<and> (sv_living sv \<longrightarrow> t = sv_expires_at sv)"
    if "ht_map (server_table st) d = Some p" for d p
  proof -
    obtain sv where sv: "servers st p = Some sv" "sv_desc sv = d" using T(2) [of d p] \<open>ht_map (server_table st) d = Some p\<close> by (auto simp: descs_def)
    obtain t where t: "events st (sv_pevent sv) = Some (ExpireServer t p)" "sv_living sv \<longrightarrow> t = sv_expires_at sv"
      by (rule linksD1 [OF I(3) sv(1)])
    then have "count (pq_mset (timer_queue st)) (sv_pevent sv) = 1" using I(2) by (simp add: queue_ok_def)
    then show ?thesis using sv t by blast
  qed
  have vers: "versions_of (descs st) n d" "n \<noteq> getServerName \<Longrightarrow> \<exists>v p. descs st p = Some \<lparr>sd_name = n, protocol_version = v\<rparr>"
    if "ht_map (servers_domain st) n = Some ps" "domains st ps = Some d" "n \<noteq> getServerName" for n ps d
  proof -
    show v: "versions_of (descs st) n d" using treeD [OF I(5) that(1)] that(2,3) by (metis option.inject)
    then obtain i p where "ht_map (dm_children d) i = Some p" unfolding versions_of_def by (meson not_None_eq ext)
    then show "\<exists>v p. descs st p = Some \<lparr>sd_name = n, protocol_version = v\<rparr>" using v unfolding versions_of_def by blast
  qed
  have tree: "(\<exists>ps d. ht_map (servers_domain st) n = Some ps \<and> domains st ps = Some d \<and> ht_map (dm_children d) (version_id v) = Some p) \<longleftrightarrow>
       ht_map (server_table st) \<lparr>sd_name = n, protocol_version = v\<rparr> = Some p" if n: "n \<noteq> getServerName" for n v p
  proof
    assume "\<exists>ps d. ht_map (servers_domain st) n = Some ps \<and> domains st ps = Some d \<and> ht_map (dm_children d) (version_id v) = Some p"
    then obtain ps d where d: "ht_map (servers_domain st) n = Some ps" "domains st ps = Some d" "ht_map (dm_children d) (version_id v) = Some p"
      by blast
    from vers(1) [OF d(1,2) n] d(3) show "ht_map (server_table st) \<lparr>sd_name = n, protocol_version = v\<rparr> = Some p"
      by (auto simp: versions_of_def T(2) version_id_inj)
  next
    assume "ht_map (server_table st) \<lparr>sd_name = n, protocol_version = v\<rparr> = Some p"
    then have p: "descs st p = Some \<lparr>sd_name = n, protocol_version = v\<rparr>" by (simp add: T(2))
    then have "ht_map (servers_domain st) n \<noteq> None" using I(5) unfolding tree_ok_def by (metis server_desc.select_convs(1))
    then obtain ps where ps: "ht_map (servers_domain st) n = Some ps" by blast
    obtain d where d: "domains st ps = Some d" by (rule treeD [OF I(5) ps])
    show "\<exists>ps d. ht_map (servers_domain st) n = Some ps \<and> domains st ps = Some d \<and> ht_map (dm_children d) (version_id v) = Some p"
      using ps d p vers(1) [OF ps d n] unfolding versions_of_def by blast
  qed
  have inhabited: "\<exists>v. ht_map (server_table st) \<lparr>sd_name = n, protocol_version = v\<rparr> \<noteq> None"
    if n: "n \<noteq> getServerName" "ht_map (servers_domain st) n \<noteq> None" for n
  proof -
    obtain ps where ps: "ht_map (servers_domain st) n = Some ps" using n(2) by blast
    obtain d where d: "domains st ps = Some d" by (rule treeD [OF I(5) ps])
    from vers(2) [OF ps d n(1) n(1)] show ?thesis by (metis T(2) option.distinct(1))
  qed
  show ?thesis using reg tree inhabited by blast
qed

theorem manager_consistent_witness:
  "manager_run True 7509 sample_registered \<and>
   (\<exists>p ps d. ht_map (server_table sample_registered) (reg_server sample_registration) = Some p \<and>
      ht_map (servers_domain sample_registered) [0x6B, 0x73] = Some ps \<and> domains sample_registered ps = Some d \<and>
      ht_map (dm_children d) (version_id 2) = Some p)"
proof -
  have "view sample_registered (reg_server sample_registration) \<noteq> None" by (simp add: sample_registered_ok(2) reg_register_def)
  then obtain p where p: "ht_map (server_table sample_registered) \<lparr>sd_name = [0x6B, 0x73], protocol_version = 2\<rparr> = Some p"
    by (auto simp: view_def view_of_def sample_registration_def bind_eq_Some_conv)
  have "[0x6B, 0x73] \<noteq> getServerName" by (simp add: getServerName_def)
  with manager_consistent [OF sample_runs] p show ?thesis using sample_runs by (simp add: sample_registration_def)
qed

text \<open>
  C12. As long as the allocations for the tree below \<open>/servers\<close> succeed and its tables have a free slot, in this registration
  (\<open>enough\<close>) and in all before it (\<open>manager_run\<close>), the requests of servers act on the table of registrations as on a map from names
  and versions. A registration with a good name and version other than the manager's own is entered, renewing one that is there
  except for its time to live; or, when memory for the event, the registration or the table lacks, it fails and changes no
  registration; a bad one is refused. A server that is unregistered is removed, an unknown one and the manager itself are not.
  What a registration does when memory for the tree lacks is C31.
\<close>

theorem manager_refines_registry:
  assumes "manager_run sg port st" and "enough avail st"
  shows "(\<exists>res st'. registerServer sg avail now r st = Some (res, st') \<and>
      (if \<not> admissible (reg_server r) then res = KS_ERR_BADPARAM \<and> st' = st
       else res = KS_ERR_OK \<and> view st' = reg_register now r (view st) \<or>
            res = KS_ERR_GENERIC \<and> view st' = view st \<and> \<not> (avail 0 \<and> avail 1 \<and> avail 2 \<and> avail 3 \<and> avail 4 \<and> roomy (server_table st)))) \<and>
    (\<exists>res st'. unregisterServer sg avail d st = Some (res, st') \<and>
      (if str_eq (sd_name d) getServerName then res = KS_ERR_BADPARAM \<and> st' = st
       else if view st (desc_key d) = None then res = KS_ERR_SERVERUNKNOWN \<and> st' = st
       else res = KS_ERR_OK \<and> view st' = (view st)(desc_key d := None)))"
proof
  note inv = manager_run_inv [OF assms(1)]
  show "\<exists>res st'. registerServer sg avail now r st = Some (res, st') \<and>
      (if \<not> admissible (reg_server r) then res = KS_ERR_BADPARAM \<and> st' = st
       else res = KS_ERR_OK \<and> view st' = reg_register now r (view st) \<or>
            res = KS_ERR_GENERIC \<and> view st' = view st \<and> \<not> (avail 0 \<and> avail 1 \<and> avail 2 \<and> avail 3 \<and> avail 4 \<and> roomy (server_table st)))"
    using registerServer_ok [OF inv impI [OF assms(2)], where r = r and now = now] by (elim exE conjE) (intro exI conjI)
  show "\<exists>res st'. unregisterServer sg avail d st = Some (res, st') \<and>
      (if str_eq (sd_name d) getServerName then res = KS_ERR_BADPARAM \<and> st' = st
       else if view st (desc_key d) = None then res = KS_ERR_SERVERUNKNOWN \<and> st' = st
       else res = KS_ERR_OK \<and> view st' = (view st)(desc_key d := None))"
    using unregisterServer_ok [OF inv, of avail d] by (elim exE conjE) (intro exI conjI)
qed

text \<open>After a sample registration the server is there, alive for its twenty seconds.\<close>

theorem manager_refines_registry_witness:
  "\<exists>st'. registerServer True (\<lambda>i. True) (mk_time 1000 0) sample_registration sample_manager = Some (KS_ERR_OK, st') \<and>
    view st' = [\<lparr>sd_name = [0x6B, 0x73], protocol_version = 2\<rparr> \<mapsto>
      \<lparr>en_port = 7509, en_expires_at = mk_time 1020 0, en_ttl = 20, en_living = True, en_timer = mk_time 1020 0\<rparr>]"
proof -
  have t: "time_now (mk_time 1000 0) 20 = mk_time 1020 0"
    by (simp add: time_now_def mk_time_def time_normalize_def norm_up.simps norm_down.simps)
  have "reg_register (mk_time 1000 0) sample_registration Map.empty = [\<lparr>sd_name = [0x6B, 0x73], protocol_version = 2\<rparr> \<mapsto>
      \<lparr>en_port = 7509, en_expires_at = mk_time 1020 0, en_ttl = 20, en_living = True, en_timer = mk_time 1020 0\<rparr>]"
    by (simp add: reg_register_def sample_registration_def t)
  moreover have "roomy (server_table sample_manager)" by (rule sample_manager_ok)
  ultimately show ?thesis
    using conjunct1 [OF manager_refines_registry [OF manager_run.start [OF sample_started] sample_manager_ok(4),
        of "mk_time 1000 0" sample_registration]] admissible_sample sample_manager_ok(3)
    by auto
qed

text \<open>
  C30. A query finds a server by its name: among the registered versions that are not older than the one asked for, the newest, with
  its port, expiry and state; the manager answers for itself with its own port and version; a query for version 0 is an error.
\<close>

theorem getServer_finds_newest:
  assumes "manager_run sg port st"
  shows "\<exists>res. getServer port req st old = Some res \<and>
    (if protocol_version req = 0 then res = old\<lparr>gs_result := KS_ERR_BADPARAM\<rparr>
     else if str_eq (sd_name req) getServerName
     then res = \<lparr>gs_result = KS_ERR_OK, gs_server = \<lparr>sd_name = getServerName, protocol_version = KS_PROTOCOL_VERSION\<rparr>,
            gs_port = port, gs_expires_at = mk_time LONG_MAX 0, gs_living = True\<rparr>
     else (\<exists>d e. wanted req d \<and> view st d = Some e \<and> (\<forall>d'. wanted req d' \<and> view st d' \<noteq> None \<longrightarrow> protocol_version d' \<le> protocol_version d) \<and>
            res = \<lparr>gs_result = KS_ERR_OK, gs_server = d, gs_port = en_port e, gs_expires_at = en_expires_at e, gs_living = en_living e\<rparr>) \<or>
          (\<forall>d. wanted req d \<longrightarrow> view st d = None) \<and> res = old\<lparr>gs_result := KS_ERR_SERVERUNKNOWN\<rparr>)"
  by (rule getServer_ok [OF manager_run_inv [OF assms]])

theorem getServer_finds_newest_witness:
  "getServer 7509 \<lparr>sd_name = [0x6B, 0x73], protocol_version = 1\<rparr> sample_registered unknown_server =
     Some \<lparr>gs_result = KS_ERR_OK, gs_server = reg_server sample_registration, gs_port = 7509,
       gs_expires_at = time_now (mk_time 1000 0) 20, gs_living = True\<rparr>"
proof -
  let ?req = "\<lparr>sd_name = [0x6B, 0x73], protocol_version = 1\<rparr>" and ?t = "time_now (mk_time 1000 0) 20"
  have v: "d = reg_server sample_registration \<and> en_port e = 7509 \<and> en_expires_at e = ?t \<and> en_living e"
    if "view sample_registered d = Some e" for d e
    using that by (auto simp: sample_registered_ok(2) reg_register_def split: if_splits) (simp_all add: sample_registration_def)
  have v': "view sample_registered (reg_server sample_registration) \<noteq> None" by (simp add: sample_registered_ok(2) reg_register_def)
  have w: "wanted ?req (reg_server sample_registration)"
    by (simp add: wanted_def cstr_def sample_registration_def)
  have n: "\<not> str_eq [0x6B, 0x73] getServerName" by (simp add: str_eq_def cstr_def getServerName_def)
  have q: "protocol_version ?req = 0 \<longleftrightarrow> False" "str_eq (sd_name ?req) getServerName \<longleftrightarrow> False"
    by (simp_all add: str_eq_def cstr_def getServerName_def)
  obtain res where r: "getServer 7509 ?req sample_registered unknown_server = Some res"
      "(\<exists>d e. wanted ?req d \<and> view sample_registered d = Some e \<and>
          (\<forall>d'. wanted ?req d' \<and> view sample_registered d' \<noteq> None \<longrightarrow> protocol_version d' \<le> protocol_version d) \<and>
          res = \<lparr>gs_result = KS_ERR_OK, gs_server = d, gs_port = en_port e, gs_expires_at = en_expires_at e, gs_living = en_living e\<rparr>) \<or>
        (\<forall>d. wanted ?req d \<longrightarrow> view sample_registered d = None) \<and> res = unknown_server\<lparr>gs_result := KS_ERR_SERVERUNKNOWN\<rparr>"
    using getServer_finds_newest [OF sample_runs, of ?req unknown_server] unfolding q if_False by (elim exE conjE) (rule that)
  from r(2) show ?thesis
  proof (elim disjE exE conjE)
    fix d e assume e: "view sample_registered d = Some e" and res: "res = \<lparr>gs_result = KS_ERR_OK, gs_server = d, gs_port = en_port e,
      gs_expires_at = en_expires_at e, gs_living = en_living e\<rparr>"
    show ?thesis using v [OF e] by (simp only: r(1) res)
  next
    assume none: "\<forall>d. wanted ?req d \<longrightarrow> view sample_registered d = None"
    show ?thesis by (rule notE [OF v' mp [OF spec [OF none] w]])
  qed
qed

text \<open>
  C13. When the timers are served until none is due, at a time \<open>now\<close> at least a minute before the end of the 32-bit clock, at most two
  events per entry of the queue are served, the expiries of the manager and the garbage collection of the stream pool among them.
  Then either the manager is going down, or every registration is as \<open>settle\<close> says: untouched until its timer is due, dead for a
  grace period when its time to live is over, forgotten when the grace period is over too; no server is still called living after its
  expiry. The states are those the manager reaches when no registration has run out of memory for the tree below \<open>/servers\<close>
  (\<open>manager_run\<close>; a registration that has, C31, is left without an event and does not expire). A grace period that ends after the
  end of the clock wraps around, as in the code; then it is over at once.
\<close>

theorem timers_settle:
  assumes "manager_run sg port st" "time_invariant now" "0 \<le> tv_sec now" "tv_sec now < 2 ^ 31 - 60" "2 * pq_size (timer_queue st) < n"
  shows "\<exists>st'. run_timers sg avail now pm port n st = Some st' \<and>
    (going_down st' \<or> (\<forall>d. view st' d = Option.bind (view st d) (settle now)) \<and>
       (\<forall>d e. view st' d = Some e \<longrightarrow> en_living e \<longrightarrow> time_lt now (en_expires_at e)))"
proof -
  note inv = manager_run_inv [OF assms(1)]
  have "total_load now st < n" using total_load_bound [OF inv, of now] assms(5) by linarith
  then obtain st' where r: "run_timers sg avail now pm port n st = Some st'" "manager_inv sg {} st'"
      "going_down st' \<or> (\<forall>d. view st' d = Option.bind (view st d) (settle now)) \<and> (\<forall>a e. events st' a = Some e \<longrightarrow> time_lt now (trigger_at e))"
    using run_timers_ok [OF inv assms(2) _ assms(3,4)] by blast
  have "time_lt now (en_expires_at e)"
    if wait: "\<forall>a f. events st' a = Some f \<longrightarrow> time_lt now (trigger_at f)" and e: "view st' d = Some e" "en_living e" for d e
  proof -
    obtain a f where "events st' a = Some f" "trigger_at f = en_timer e" "en_timer e = en_expires_at e"
      by (rule view_timer [OF r(2) e(1)]) (use e(2) in blast)
    then show ?thesis using wait by metis
  qed
  then show ?thesis using r(1,3) by blast
qed

text \<open>Half a minute after a sample registration the server is dead, until a minute after it.\<close>

theorem timers_settle_witness:
  "\<exists>st'. run_timers True (\<lambda>i j. True) (mk_time 1030 0) (\<lambda>i. sample_portmapper) 7509 (2 * pq_size (timer_queue sample_registered) + 1)
      sample_registered = Some st' \<and>
    (going_down st' \<or> (\<exists>e. view st' (reg_server sample_registration) = Some e \<and> \<not> en_living e \<and> en_timer e = mk_time 1050 0))"
proof -
  have t: "time_now (mk_time 1000 0) 20 = mk_time 1020 0" "time_now (mk_time 1030 0) 20 = mk_time 1050 0"
    by (simp_all add: time_now_def mk_time_def time_normalize_def norm_up.simps norm_down.simps)
  have l: "\<not> time_lt (mk_time 1030 0) (mk_time 1020 0)" "time_lt (mk_time 1030 0) (mk_time 1050 0)"
    by (simp_all add: time_lt_def time_le_def mk_time_def time_normalize_def norm_up.simps norm_down.simps)
  have v: "view sample_registered (reg_server sample_registration) = Some \<lparr>en_port = 7509, en_expires_at = mk_time 1020 0, en_ttl = 20,
      en_living = True, en_timer = mk_time 1020 0\<rparr>"
    by (simp add: sample_registered_ok(2) reg_register_def) (simp add: sample_registration_def t)
  have c: "time_invariant (mk_time 1030 0)" "0 \<le> tv_sec (mk_time 1030 0)" "tv_sec (mk_time 1030 0) < 2 ^ 31 - 60"
    by (simp_all add: mk_time_def time_normalize_def norm_up.simps norm_down.simps time_invariant_def)
  obtain st' where r: "run_timers True (\<lambda>i j. True) (mk_time 1030 0) (\<lambda>i. sample_portmapper) 7509
      (2 * pq_size (timer_queue sample_registered) + 1) sample_registered = Some st'"
      "going_down st' \<or> (\<forall>d. view st' d = Option.bind (view sample_registered d) (settle (mk_time 1030 0)))"
    using timers_settle [OF sample_runs c, of "2 * pq_size (timer_queue sample_registered) + 1" "\<lambda>i j. True" "\<lambda>i. sample_portmapper"]
    by auto
  have "Option.bind (view sample_registered (reg_server sample_registration)) (settle (mk_time 1030 0)) =
      Some \<lparr>en_port = 7509, en_expires_at = mk_time 1020 0, en_ttl = 20, en_living = False, en_timer = mk_time 1050 0\<rparr>"
    by (simp add: v settle_def tick_def t l)
  then show ?thesis using r by (intro exI [of _ st']) auto
qed

text \<open>
  C31. Two failing allocations break the manager. When a further version of a known server cannot be added to its domain, the
  registration is deleted and then used: the operation has no result. When the domain for a new server cannot be made, it reports an
  error but leaves the registration in the table without an event, so that the next registration or removal of that server follows
  a null pointer.
\<close>

theorem failed_allocation_breaks:
  assumes "manager_run sg port st" "admissible (reg_server r)" "view st (reg_server r) = None"
    and "avail 0" "avail 1" "avail 2" "avail 3" "avail 4" "roomy (server_table st)"
  shows "(ht_map (servers_domain st) (sd_name (reg_server r)) \<noteq> None \<and> avail 10 \<and> \<not> avail 11 \<longrightarrow> registerServer sg avail now r st = None) \<and>
    (ht_map (servers_domain st) (sd_name (reg_server r)) = None \<and> \<not> avail 5 \<longrightarrow>
      (\<exists>st'. registerServer sg avail now r st = Some (KS_ERR_GENERIC, st') \<and>
        (\<forall>avail' now'. avail' 0 \<and> avail' 1 \<longrightarrow> registerServer sg avail' now' r st' = None) \<and>
        (\<forall>avail'. unregisterServer sg avail' (reg_server r) st' = None)))"
proof -
  note inv = manager_run_inv [OF assms(1)] and adm = assms(2)
  note I = manager_invD [OF inv] and H = heap_fresh [OF manager_invD(1) [OF manager_run_inv [OF assms(1)]]]
  have new: "ht_map (server_table st) (reg_server r) = None"
  proof (rule ccontr)
    assume "ht_map (server_table st) (reg_server r) \<noteq> None"
    then obtain p where "ht_map (server_table st) (reg_server r) = Some p" by blast
    then obtain sv where sv: "servers st p = Some sv" "sv_desc sv = reg_server r" using table_okD(2) [OF I(4)] by (auto simp: descs_def)
    obtain t where "events st (sv_pevent sv) = Some (ExpireServer t p)" by (rule linksD1 [OF I(3) sv(1)])
    then show False using view_at [OF inv sv(1)] assms(3) sv(2) by simp
  qed
  let ?p = "next_addr st + 1"
  obtain q T ST sv where R: "queue_ok {} (events ST) q" "ht_inv (desc_hash sg) T" "ht_map T (reg_server r) = Some ?p"
    "ST = st\<lparr>events := (events st)(next_addr st \<mapsto> ExpireServer (time_now now (reg_time_to_live r)) 0), timer_queue := q,
       servers := (servers st)(?p \<mapsto> sv), next_addr := next_addr st + 2, server_table := T\<rparr>"
    "sv_desc sv = reg_server r" "sv_pevent sv = 0"
    "registerServer sg avail now r st = do { (ok, st') \<leftarrow> enter_tree sg avail ?p ST;
       if ok then do { st' \<leftarrow> connect ?p (next_addr st) st'; Some (KS_ERR_OK, st') } else Some (KS_ERR_GENERIC, st') }"
    by (rule register_new [OF inv adm new assms(4-9)])
  have sv: "servers ST ?p = Some sv" and dom: "servers_domain ST = servers_domain st" "domains ST = domains st" by (simp_all add: R(4))
  have query: "ht_query (string_hash sg) n (servers_domain st) = Some (ht_map (servers_domain st) n)" for n
    using I(5) by (intro ht_query_ok) (simp add: tree_ok_def)
  have "registerServer sg avail now r st = None"
    if known: "ht_map (servers_domain st) (sd_name (reg_server r)) = Some ps" and "avail 10" "\<not> avail 11" for ps
  proof -
    obtain d where d: "domains st ps = Some d" by (rule treeD [OF I(5) known])
    have same: "ST\<lparr>domains := (domains ST)(ps \<mapsto> d)\<rparr> = ST" using d dom(2) by (simp add: fun_upd_idem)
    have "enter_tree sg avail ?p ST = Some (True, ST\<lparr>servers := (servers ST)(?p := None)\<rparr>)"
      using that sv d dom R(5) same
      by (simp add: enter_tree_def name_domain_def query version_entry_def version_addChild_def domain_addChild_def ht_add_def delete_server_def)
    then show ?thesis by (simp add: R(7) connect_def)
  qed
  moreover have "\<exists>st'. registerServer sg avail now r st = Some (KS_ERR_GENERIC, st') \<and>
        (\<forall>avail' now'. avail' 0 \<and> avail' 1 \<longrightarrow> registerServer sg avail' now' r st' = None) \<and>
        (\<forall>avail'. unregisterServer sg avail' (reg_server r) st' = None)"
    if "ht_map (servers_domain st) (sd_name (reg_server r)) = None" "\<not> avail 5"
  proof (intro exI [of _ ST] conjI allI impI)
    have "enter_tree sg avail ?p ST = Some (False, ST)"
      using that sv dom R(5) by (simp add: enter_tree_def name_domain_def query)
    then show "registerServer sg avail now r st = Some (KS_ERR_GENERIC, ST)" by (simp add: R(7))
    have table: "server_table ST = T" "events ST 0 = None" using H R(4) by (simp_all)
    have q: "ht_query (desc_hash sg) (desc_key (reg_server r)) T = Some (Some ?p)"
      using ht_query_ok [OF R(2)] R(3) admissible_name(2) [OF adm] by simp
    show "unregisterServer sg avail' (reg_server r) ST = None" for avail'
      using q adm table sv R(3,5,6) ht_remove_ok [OF R(2), of "avail' 0" "reg_server r"] admissible_name(2) [OF adm]
      by (auto simp: unregisterServer_def admissible_iff removeServer_def set_pserver_def)
    show "registerServer sg avail' now' r ST = None" if "avail' 0 \<and> avail' 1" for avail' now'
    proof -
      let ?b = "next_addr ST" and ?t = "time_now now' (reg_time_to_live r)"
      let ?ST1 = "ST\<lparr>events := (events ST)(?b \<mapsto> ExpireServer ?t 0), next_addr := ?b + 1\<rparr>"
      have "events ST ?b = None" using H R(4) heap_live(2) [OF I(1)] by fastforce
      then have Q: "queue_ok (insert ?b {}) ((events ST)(?b \<mapsto> ExpireServer ?t 0)) (timer_queue ST)"
        using R(1,4) by (intro queue_ok_upd) (simp_all add: time_now_def)
      obtain q' where "addTimerEvent True ?b ?ST1 = Some (True, ?ST1\<lparr>timer_queue := q'\<rparr>)"
        by (rule add_timer_room [of "{?b}" ?ST1 ?b True]) (use Q in simp_all)
      moreover have "?b \<noteq> 0" by (simp add: R(4))
      ultimately show ?thesis
        using that adm q table sv R(6)
        by (simp add: registerServer_def admissible_iff new_event_def Let_def refresh_def set_pserver_def)
    qed
  qed
  ultimately show ?thesis by blast
qed

theorem failed_allocation_breaks_witness:
  "\<exists>st'. registerServer True (\<lambda>i. i \<noteq> 5) (mk_time 1000 0) sample_registration sample_manager = Some (KS_ERR_GENERIC, st') \<and>
    registerServer True (\<lambda>i. True) (mk_time 1001 0) sample_registration st' = None \<and>
    unregisterServer True (\<lambda>i. True) (reg_server sample_registration) st' = None"
proof -
  have run: "manager_run True 7509 sample_manager" by (rule manager_run.start [OF sample_started])
  have none: "view sample_manager (reg_server sample_registration) = None" by (simp add: sample_manager_ok(3))
  have "ht_map (servers_domain sample_manager) (sd_name (reg_server sample_registration)) = None"
  proof (rule ccontr)
    let ?n = "sd_name (reg_server sample_registration)"
    note I = manager_invD [OF sample_manager_ok(2)]
    assume "ht_map (servers_domain sample_manager) ?n \<noteq> None"
    then obtain ps where ps: "ht_map (servers_domain sample_manager) ?n = Some ps" by blast
    obtain d where "versions_of (descs sample_manager) ?n d"
      by (rule treeD [OF I(5) ps]) (use admissible_sample in \<open>simp add: admissible_def\<close>)
    then obtain p v where "descs sample_manager p = Some \<lparr>sd_name = ?n, protocol_version = v\<rparr>"
      unfolding versions_of_def by (meson not_None_eq ext)
    then obtain sv where sv: "servers sample_manager p = Some sv" by (auto simp: descs_def)
    obtain t where t: "events sample_manager (sv_pevent sv) = Some (ExpireServer t p)" by (rule linksD1 [OF I(3) sv])
    show False using view_at [OF sample_manager_ok(2) sv t] by (simp add: sample_manager_ok(3))
  qed
  then have pre: "ht_map (servers_domain sample_manager) (sd_name (reg_server sample_registration)) = None \<and> \<not> (5 :: nat) \<noteq> 5" by simp
  have "\<exists>st'. registerServer True (\<lambda>i. i \<noteq> 5) (mk_time 1000 0) sample_registration sample_manager = Some (KS_ERR_GENERIC, st') \<and>
        (\<forall>avail' now'. avail' 0 \<and> avail' 1 \<longrightarrow> registerServer True avail' now' sample_registration st' = None) \<and>
        (\<forall>avail'. unregisterServer True avail' (reg_server sample_registration) st' = None)"
    by (rule mp [OF conjunct2 [OF failed_allocation_breaks [OF run admissible_sample none _ _ _ _ _ sample_manager_ok(5),
        where avail = "\<lambda>i. i \<noteq> 5" and now = "mk_time 1000 0"]] pre]) simp_all
  then show ?thesis
  proof (elim exE conjE)
    fix st' assume st': "registerServer True (\<lambda>i. i \<noteq> 5) (mk_time 1000 0) sample_registration sample_manager = Some (KS_ERR_GENERIC, st')"
      "\<forall>avail' now'. avail' 0 \<and> avail' 1 \<longrightarrow> registerServer True avail' now' sample_registration st' = None"
      "\<forall>avail'. unregisterServer True avail' (reg_server sample_registration) st' = None"
    show ?thesis
      using st'(1) mp [OF spec [OF spec [OF st'(2), of "\<lambda>i. True"], of "mk_time 1001 0"]] spec [OF st'(3), of "\<lambda>i. True"]
      by (intro exI [of _ st'] conjI) simp_all
  qed
qed

end
