(* ===== verification/KsProps.thy ===== *)
theory KsProps
  imports KsValue
begin

text \<open>
  The properties of communication objects as they are sent: engineered properties (name, type, comment, access) of the current
  protocol and of version 1, and current properties (the value of a variable). ks/include/ks/props.h, propsv1.h, ks/src/props.cpp, propsv1.cpp,
  with the unions of ks/src/xdr.cpp, handles (ks/include/ks/handle_impl.h) and lists (ks/include/ks/list_impl.h). The classes derived
  from a class of properties are constructors.
\<close>

subsection \<open>Unions, handles and lists\<close>

text \<open>\<open>KsXdrUnion::xdrEncode\<close>, and \<open>xdrNew\<close> of a union: the variant part comes before the common one.\<close>

definition union_encode :: "'s xdr_ops \<Rightarrow> u32 \<Rightarrow> 's coder \<Rightarrow> 's coder \<Rightarrow> 's coder" where
  "union_encode ops code variant common = and_then (and_then (ks_xdre (xdr_enum ops) code) variant) common"

definition union_xdrNew :: "'s xdr_ops \<Rightarrow> (u32 \<Rightarrow> ('s, 'v) decoder) \<Rightarrow> ('v \<Rightarrow> ('s, 'a) decoder) \<Rightarrow> ('s, 'a) decoder" where
  "union_xdrNew ops variant common = then_with (ks_xdrd (xdr_enum ops) 0) (\<lambda>c. then_with (variant c) common)"

text \<open>A handle is the object it is bound to, or nothing. Binding needs storage, as a node of a list does.\<close>

record msg_env =
  env_alloc :: alloc_env
  env_bind :: bool
  env_node :: bool

definition handle_encode :: "('a \<Rightarrow> 's coder) \<Rightarrow> 'a option \<Rightarrow> 's coder" where
  "handle_encode e h s = (case h of None \<Rightarrow> Some (False, s) | Some p \<Rightarrow> e p s)"

definition handle_decode :: "msg_env \<Rightarrow> ('s, 'a) decoder \<Rightarrow> ('s, 'a option) decoder" where
  "handle_decode env new = then_with new (\<lambda>p s. Some (if env_bind env then Some (Some p) else None, s))"

definition list_encode :: "'s xdr_ops \<Rightarrow> ('a \<Rightarrow> 's coder) \<Rightarrow> 'a list \<Rightarrow> 's coder" where
  "list_encode ops e xs = and_then (ks_xdre (xdr_u_long ops) (of_nat (length xs))) (encode_elems e xs)"

fun decode_nodes :: "msg_env \<Rightarrow> ('s, 'a) decoder \<Rightarrow> nat \<Rightarrow> ('s, 'a list) decoder" where
  "decode_nodes env d 0 s = Some (Some [], s)"
| "decode_nodes env d (Suc n) s =
     do { (r, s) \<leftarrow> d s;
          case r of None \<Rightarrow> Some (None, s)
          | Some x \<Rightarrow> if \<not> env_node env then Some (None, s)
                      else do { (q, s) \<leftarrow> decode_nodes env d n s; Some (map_option ((#) x) q, s) } }"

definition list_decode :: "msg_env \<Rightarrow> 's xdr_ops \<Rightarrow> ('s, 'a) decoder \<Rightarrow> ('s, 'a list) decoder" where
  "list_decode env ops d = then_with (ks_xdrd (xdr_u_long ops) 0) (\<lambda>n. decode_nodes env d (unat n))"

subsection \<open>Engineered properties\<close>

definition KS_OT_DOMAIN :: u32 where "KS_OT_DOMAIN = 0x0001"
definition KS_OT_VARIABLE :: u32 where "KS_OT_VARIABLE = 0x0002"
definition KS_OT_HISTORY :: u32 where "KS_OT_HISTORY = 0x0004"
definition KS_OT_LINK :: u32 where "KS_OT_LINK = 0x0008"
definition KS_OT_STRUCTURE :: u32 where "KS_OT_STRUCTURE = 0x0010"

lemmas ks_ot_defs = KS_OT_DOMAIN_def KS_OT_VARIABLE_def KS_OT_HISTORY_def KS_OT_LINK_def KS_OT_STRUCTURE_def

datatype eng_variant =
    VarEngProps (tech_unit: "byte list") (var_type: u32)
  | DomainEngProps (class_identifier: "byte list")
  | LinkEngProps (link_type: u32) (opposite_role_identifier: "byte list") (association_identifier: "byte list")
  | HistoryEngProps (hist_type: u32) (default_interpolation: u32) (supported_interpolations: u32) (type_identifier: "byte list")
  | StructureEngProps (structure_flags: u32)

record eng_props =
  ep_identifier :: "byte list"
  ep_creation_time :: timeval
  ep_comment :: "byte list"
  ep_access_mode :: u32
  ep_semantic_flags :: u32
  ep_variant :: eng_variant

fun eng_type_code :: "eng_variant \<Rightarrow> u32" where
  "eng_type_code (VarEngProps _ _) = KS_OT_VARIABLE"
| "eng_type_code (DomainEngProps _) = KS_OT_DOMAIN"
| "eng_type_code (LinkEngProps _ _ _) = KS_OT_LINK"
| "eng_type_code (HistoryEngProps _ _ _ _) = KS_OT_HISTORY"
| "eng_type_code (StructureEngProps _) = KS_OT_STRUCTURE"

definition eng_encode_common :: "'s xdr_ops \<Rightarrow> eng_props \<Rightarrow> 's coder" where
  "eng_encode_common ops p =
     and_then (string_encode ops (ep_identifier p))
    (and_then (time_encode ops (ep_creation_time p))
    (and_then (string_encode ops (ep_comment p))
    (and_then (ks_xdre (xdr_enum ops) (ep_access_mode p)) (ks_xdre (xdr_u_long ops) (ep_semantic_flags p)))))"

definition eng_decode_common :: "alloc_env \<Rightarrow> 's xdr_ops \<Rightarrow> eng_variant \<Rightarrow> ('s, eng_props) decoder" where
  "eng_decode_common env ops v =
     then_with (string_decode env ops) (\<lambda>i. then_with (time_decode ops) (\<lambda>t. then_with (string_decode env ops) (\<lambda>c.
       then_with (ks_xdrd (xdr_enum ops) 0) (\<lambda>a. then_with (ks_xdrd (xdr_u_long ops) 0) (\<lambda>f.
         deliver \<lparr>ep_identifier = i, ep_creation_time = t, ep_comment = c, ep_access_mode = a, ep_semantic_flags = f, ep_variant = v\<rparr>)))))"

text \<open>The classes of engineered properties: what each sends, and its constructor from a stream, which reads what \<open>xdrDecodeVariant\<close> reads.\<close>

definition var_ep_encode :: "'s xdr_ops \<Rightarrow> byte list \<Rightarrow> u32 \<Rightarrow> 's coder" where
  "var_ep_encode ops u t = and_then (string_encode ops u) (ks_xdre (xdr_enum ops) t)"

definition var_ep_decode :: "alloc_env \<Rightarrow> 's xdr_ops \<Rightarrow> ('s, eng_variant) decoder" where
  "var_ep_decode env ops =
     then_with (string_decode env ops) (\<lambda>u. then_with (ks_xdrd (xdr_enum ops) 0) (\<lambda>t. deliver (VarEngProps u t)))"

definition domain_ep_encode :: "'s xdr_ops \<Rightarrow> byte list \<Rightarrow> 's coder" where
  "domain_ep_encode ops c = string_encode ops c"

definition domain_ep_decode :: "alloc_env \<Rightarrow> 's xdr_ops \<Rightarrow> ('s, eng_variant) decoder" where
  "domain_ep_decode env ops = then_with (string_decode env ops) (\<lambda>i. deliver (DomainEngProps i))"

definition link_ep_encode :: "'s xdr_ops \<Rightarrow> u32 \<Rightarrow> byte list \<Rightarrow> byte list \<Rightarrow> 's coder" where
  "link_ep_encode ops t r a = and_then (ks_xdre (xdr_enum ops) t) (and_then (string_encode ops r) (string_encode ops a))"

definition link_ep_decode :: "alloc_env \<Rightarrow> 's xdr_ops \<Rightarrow> ('s, eng_variant) decoder" where
  "link_ep_decode env ops =
     then_with (ks_xdrd (xdr_enum ops) 0) (\<lambda>t. then_with (string_decode env ops) (\<lambda>r.
       then_with (string_decode env ops) (\<lambda>a. deliver (LinkEngProps t r a))))"

definition history_ep_encode :: "'s xdr_ops \<Rightarrow> u32 \<Rightarrow> u32 \<Rightarrow> u32 \<Rightarrow> byte list \<Rightarrow> 's coder" where
  "history_ep_encode ops t d s i =
     and_then (ks_xdre (xdr_enum ops) t) (and_then (ks_xdre (xdr_enum ops) d) (and_then (ks_xdre (xdr_enum ops) s) (string_encode ops i)))"

definition history_ep_decode :: "alloc_env \<Rightarrow> 's xdr_ops \<Rightarrow> ('s, eng_variant) decoder" where
  "history_ep_decode env ops =
     then_with (ks_xdrd (xdr_enum ops) 0) (\<lambda>t. then_with (ks_xdrd (xdr_enum ops) 0) (\<lambda>d.
       then_with (ks_xdrd (xdr_enum ops) 0) (\<lambda>s. then_with (string_decode env ops) (\<lambda>i. deliver (HistoryEngProps t d s i)))))"

definition structure_ep_encode :: "'s xdr_ops \<Rightarrow> u32 \<Rightarrow> 's coder" where
  "structure_ep_encode ops f = ks_xdre (xdr_enum ops) f"

definition structure_ep_decode :: "'s xdr_ops \<Rightarrow> ('s, eng_variant) decoder" where
  "structure_ep_decode ops = then_with (ks_xdrd (xdr_enum ops) 0) (\<lambda>f. deliver (StructureEngProps f))"

lemmas ep_class_defs = var_ep_encode_def var_ep_decode_def domain_ep_encode_def domain_ep_decode_def link_ep_encode_def
  link_ep_decode_def history_ep_encode_def history_ep_decode_def structure_ep_encode_def structure_ep_decode_def

fun eng_encode_variant :: "'s xdr_ops \<Rightarrow> eng_variant \<Rightarrow> 's coder" where
  "eng_encode_variant ops (VarEngProps u t) = var_ep_encode ops u t"
| "eng_encode_variant ops (DomainEngProps c) = domain_ep_encode ops c"
| "eng_encode_variant ops (LinkEngProps t r a) = link_ep_encode ops t r a"
| "eng_encode_variant ops (HistoryEngProps t d s i) = history_ep_encode ops t d s i"
| "eng_encode_variant ops (StructureEngProps f) = structure_ep_encode ops f"

definition eng_decode_variant :: "alloc_env \<Rightarrow> 's xdr_ops \<Rightarrow> u32 \<Rightarrow> ('s, eng_variant) decoder" where
  "eng_decode_variant env ops c =
     (if c = KS_OT_VARIABLE then var_ep_decode env ops
      else if c = KS_OT_DOMAIN then domain_ep_decode env ops
      else if c = KS_OT_LINK then link_ep_decode env ops
      else if c = KS_OT_HISTORY then history_ep_decode env ops
      else if c = KS_OT_STRUCTURE then structure_ep_decode ops
      else (\<lambda>s. Some (None, s)))"

definition eng_encode :: "'s xdr_ops \<Rightarrow> eng_props \<Rightarrow> 's coder" where
  "eng_encode ops p = union_encode ops (eng_type_code (ep_variant p)) (eng_encode_variant ops (ep_variant p)) (eng_encode_common ops p)"

definition eng_xdrNew :: "alloc_env \<Rightarrow> 's xdr_ops \<Rightarrow> ('s, eng_props) decoder" where
  "eng_xdrNew env ops = union_xdrNew ops (eng_decode_variant env ops) (eng_decode_common env ops)"

subsection \<open>Engineered properties of version 1\<close>

text \<open>Links and histories are sent too (\<open>PLT_SOURCE_V1PLUS_BC\<close> is set); there are no structures and no semantic flags.\<close>

datatype eng_variant_v1 =
    VarEngPropsV1 "byte list" u32
  | DomainEngPropsV1
  | LinkEngPropsV1 u32 "byte list" "byte list"
  | HistoryEngPropsV1 u32 u32 u32 "byte list"

record eng_props_v1 =
  v1_identifier :: "byte list"
  v1_creation_time :: timeval
  v1_comment :: "byte list"
  v1_access_mode :: u32
  v1_variant :: eng_variant_v1

fun v1_type_code :: "eng_variant_v1 \<Rightarrow> u32" where
  "v1_type_code (VarEngPropsV1 _ _) = KS_OT_VARIABLE"
| "v1_type_code DomainEngPropsV1 = KS_OT_DOMAIN"
| "v1_type_code (LinkEngPropsV1 _ _ _) = KS_OT_LINK"
| "v1_type_code (HistoryEngPropsV1 _ _ _ _) = KS_OT_HISTORY"

definition v1_encode_common :: "'s xdr_ops \<Rightarrow> eng_props_v1 \<Rightarrow> 's coder" where
  "v1_encode_common ops p =
     and_then (string_encode ops (v1_identifier p))
    (and_then (time_encode ops (v1_creation_time p))
    (and_then (string_encode ops (v1_comment p)) (ks_xdre (xdr_enum ops) (v1_access_mode p))))"

definition v1_decode_common :: "alloc_env \<Rightarrow> 's xdr_ops \<Rightarrow> eng_variant_v1 \<Rightarrow> ('s, eng_props_v1) decoder" where
  "v1_decode_common env ops v =
     then_with (string_decode env ops) (\<lambda>i. then_with (time_decode ops) (\<lambda>t. then_with (string_decode env ops) (\<lambda>c.
       then_with (ks_xdrd (xdr_enum ops) 0) (\<lambda>a.
         deliver \<lparr>v1_identifier = i, v1_creation_time = t, v1_comment = c, v1_access_mode = a, v1_variant = v\<rparr>))))"

definition var_v1_encode :: "'s xdr_ops \<Rightarrow> byte list \<Rightarrow> u32 \<Rightarrow> 's coder" where
  "var_v1_encode ops u t = and_then (string_encode ops u) (ks_xdre (xdr_enum ops) t)"

definition var_v1_decode :: "alloc_env \<Rightarrow> 's xdr_ops \<Rightarrow> ('s, eng_variant_v1) decoder" where
  "var_v1_decode env ops =
     then_with (string_decode env ops) (\<lambda>u. then_with (ks_xdrd (xdr_enum ops) 0) (\<lambda>t. deliver (VarEngPropsV1 u t)))"

definition link_v1_encode :: "'s xdr_ops \<Rightarrow> u32 \<Rightarrow> byte list \<Rightarrow> byte list \<Rightarrow> 's coder" where
  "link_v1_encode ops t r c = and_then (ks_xdre (xdr_enum ops) t) (and_then (string_encode ops r) (string_encode ops c))"

definition link_v1_decode :: "alloc_env \<Rightarrow> 's xdr_ops \<Rightarrow> ('s, eng_variant_v1) decoder" where
  "link_v1_decode env ops =
     then_with (ks_xdrd (xdr_enum ops) 0) (\<lambda>t. then_with (string_decode env ops) (\<lambda>r.
       then_with (string_decode env ops) (\<lambda>i. deliver (LinkEngPropsV1 t r i))))"

definition history_v1_encode :: "'s xdr_ops \<Rightarrow> u32 \<Rightarrow> u32 \<Rightarrow> u32 \<Rightarrow> byte list \<Rightarrow> 's coder" where
  "history_v1_encode ops t d s i =
     and_then (ks_xdre (xdr_enum ops) t) (and_then (ks_xdre (xdr_enum ops) d) (and_then (ks_xdre (xdr_enum ops) s) (string_encode ops i)))"

definition history_v1_decode :: "alloc_env \<Rightarrow> 's xdr_ops \<Rightarrow> ('s, eng_variant_v1) decoder" where
  "history_v1_decode env ops =
     then_with (ks_xdrd (xdr_enum ops) 0) (\<lambda>t. then_with (ks_xdrd (xdr_enum ops) 0) (\<lambda>d.
       then_with (ks_xdrd (xdr_enum ops) 0) (\<lambda>s. then_with (string_decode env ops) (\<lambda>i. deliver (HistoryEngPropsV1 t d s i)))))"

lemmas v1_class_defs = var_v1_encode_def var_v1_decode_def link_v1_encode_def link_v1_decode_def history_v1_encode_def
  history_v1_decode_def

fun v1_encode_variant :: "'s xdr_ops \<Rightarrow> eng_variant_v1 \<Rightarrow> 's coder" where
  "v1_encode_variant ops (VarEngPropsV1 u t) = var_v1_encode ops u t"
| "v1_encode_variant ops DomainEngPropsV1 = (\<lambda>s. Some (True, s))"
| "v1_encode_variant ops (LinkEngPropsV1 t r c) = link_v1_encode ops t r c"
| "v1_encode_variant ops (HistoryEngPropsV1 t d s i) = history_v1_encode ops t d s i"

definition v1_decode_variant :: "alloc_env \<Rightarrow> 's xdr_ops \<Rightarrow> u32 \<Rightarrow> ('s, eng_variant_v1) decoder" where
  "v1_decode_variant env ops c =
     (if c = KS_OT_VARIABLE then var_v1_decode env ops
      else if c = KS_OT_DOMAIN then deliver DomainEngPropsV1
      else if c = KS_OT_LINK then link_v1_decode env ops
      else if c = KS_OT_HISTORY then history_v1_decode env ops
      else (\<lambda>s. Some (None, s)))"

definition v1_encode :: "'s xdr_ops \<Rightarrow> eng_props_v1 \<Rightarrow> 's coder" where
  "v1_encode ops p = union_encode ops (v1_type_code (v1_variant p)) (v1_encode_variant ops (v1_variant p)) (v1_encode_common ops p)"

definition v1_xdrNew :: "alloc_env \<Rightarrow> 's xdr_ops \<Rightarrow> ('s, eng_props_v1) decoder" where
  "v1_xdrNew env ops = union_xdrNew ops (v1_decode_variant env ops) (v1_decode_common env ops)"

subsection \<open>Current properties\<close>

datatype curr_props =
    VarCurrProps (cp_value: "ks_value option") (cp_time: timeval) (cp_state: u32)
  | DomainCurrProps

fun curr_type_code :: "curr_props \<Rightarrow> u32" where
  "curr_type_code (VarCurrProps _ _ _) = KS_OT_VARIABLE"
| "curr_type_code DomainCurrProps = KS_OT_DOMAIN"

fun curr_encode_variant :: "arch \<Rightarrow> 's xdr_ops \<Rightarrow> curr_props \<Rightarrow> 's coder" where
  "curr_encode_variant arch ops (VarCurrProps v t st) =
     and_then (handle_encode (value_encode arch ops) v) (and_then (time_encode ops t) (ks_xdre (xdr_enum ops) st))"
| "curr_encode_variant arch ops DomainCurrProps = (\<lambda>s. Some (True, s))"

definition curr_decode_variant :: "msg_env \<Rightarrow> arch \<Rightarrow> 's xdr_ops \<Rightarrow> u32 \<Rightarrow> ('s, curr_props) decoder" where
  "curr_decode_variant env arch ops c =
     (if c = KS_OT_VARIABLE then
        then_with (handle_decode env (value_xdrNew (env_alloc env) arch ops)) (\<lambda>v. then_with (time_decode ops) (\<lambda>t.
          then_with (ks_xdrd (xdr_enum ops) 0) (\<lambda>st. deliver (VarCurrProps v t st))))
      else if c = KS_OT_DOMAIN then deliver DomainCurrProps
      else (\<lambda>s. Some (None, s)))"

definition curr_encode :: "arch \<Rightarrow> 's xdr_ops \<Rightarrow> curr_props \<Rightarrow> 's coder" where
  "curr_encode arch ops p = union_encode ops (curr_type_code p) (curr_encode_variant arch ops p) (\<lambda>s. Some (True, s))"

definition curr_xdrNew :: "msg_env \<Rightarrow> arch \<Rightarrow> 's xdr_ops \<Rightarrow> ('s, curr_props) decoder" where
  "curr_xdrNew env arch ops = union_xdrNew ops (curr_decode_variant env arch ops) deliver"

subsection \<open>Round trips\<close>

text \<open>Representations, and the objects that have one: strings and times that fit, handles that are bound.\<close>

fun bytes_eng_variant :: "eng_variant \<Rightarrow> byte list" where
  "bytes_eng_variant (VarEngProps u t) = bytes_string u @ be32 t"
| "bytes_eng_variant (DomainEngProps c) = bytes_string c"
| "bytes_eng_variant (LinkEngProps t r a) = be32 t @ bytes_string r @ bytes_string a"
| "bytes_eng_variant (HistoryEngProps t d s i) = be32 t @ be32 d @ be32 s @ bytes_string i"
| "bytes_eng_variant (StructureEngProps f) = be32 f"

definition bytes_eng :: "eng_props \<Rightarrow> byte list" where
  "bytes_eng p = (be32 (eng_type_code (ep_variant p)) @ bytes_eng_variant (ep_variant p)) @
     bytes_string (ep_identifier p) @ bytes_time (ep_creation_time p) @ bytes_string (ep_comment p) @ be32 (ep_access_mode p) @
     be32 (ep_semantic_flags p)"

fun bytes_v1_variant :: "eng_variant_v1 \<Rightarrow> byte list" where
  "bytes_v1_variant (VarEngPropsV1 u t) = bytes_string u @ be32 t"
| "bytes_v1_variant DomainEngPropsV1 = []"
| "bytes_v1_variant (LinkEngPropsV1 t r a) = be32 t @ bytes_string r @ bytes_string a"
| "bytes_v1_variant (HistoryEngPropsV1 t d s i) = be32 t @ be32 d @ be32 s @ bytes_string i"

definition bytes_v1 :: "eng_props_v1 \<Rightarrow> byte list" where
  "bytes_v1 p = (be32 (v1_type_code (v1_variant p)) @ bytes_v1_variant (v1_variant p)) @
     bytes_string (v1_identifier p) @ bytes_time (v1_creation_time p) @ bytes_string (v1_comment p) @ be32 (v1_access_mode p)"

fun bytes_curr :: "arch \<Rightarrow> curr_props \<Rightarrow> byte list" where
  "bytes_curr arch (VarCurrProps v t s) = (be32 KS_OT_VARIABLE @ (case v of None \<Rightarrow> [] | Some v \<Rightarrow> bytes_value arch v) @ bytes_time t @ be32 s) @ []"
| "bytes_curr arch DomainCurrProps = (be32 KS_OT_DOMAIN @ []) @ []"

definition fits_string :: "byte list \<Rightarrow> bool" where
  "fits_string str \<longleftrightarrow> length str < 2 ^ 32 - 1"

fun eng_variant_sendable :: "eng_variant \<Rightarrow> bool" where
  "eng_variant_sendable (VarEngProps u t) \<longleftrightarrow> fits_string u"
| "eng_variant_sendable (DomainEngProps c) \<longleftrightarrow> fits_string c"
| "eng_variant_sendable (LinkEngProps t r a) \<longleftrightarrow> fits_string r \<and> fits_string a"
| "eng_variant_sendable (HistoryEngProps t d s i) \<longleftrightarrow> fits_string i"
| "eng_variant_sendable (StructureEngProps f) \<longleftrightarrow> True"

definition eng_sendable :: "eng_props \<Rightarrow> bool" where
  "eng_sendable p \<longleftrightarrow> fits_string (ep_identifier p) \<and> time_sendable (ep_creation_time p) \<and> fits_string (ep_comment p) \<and>
     eng_variant_sendable (ep_variant p)"

fun v1_variant_sendable :: "eng_variant_v1 \<Rightarrow> bool" where
  "v1_variant_sendable (VarEngPropsV1 u t) \<longleftrightarrow> fits_string u"
| "v1_variant_sendable DomainEngPropsV1 \<longleftrightarrow> True"
| "v1_variant_sendable (LinkEngPropsV1 t r a) \<longleftrightarrow> fits_string r \<and> fits_string a"
| "v1_variant_sendable (HistoryEngPropsV1 t d s i) \<longleftrightarrow> fits_string i"

definition v1_sendable :: "eng_props_v1 \<Rightarrow> bool" where
  "v1_sendable p \<longleftrightarrow> fits_string (v1_identifier p) \<and> time_sendable (v1_creation_time p) \<and> fits_string (v1_comment p) \<and>
     v1_variant_sendable (v1_variant p)"

text \<open>Current properties can be sent if their value is one the same processor reads as it was.\<close>

fun curr_sendable :: "arch \<Rightarrow> curr_props \<Rightarrow> bool" where
  "curr_sendable arch (VarCurrProps v t s) \<longleftrightarrow> (\<exists>w. v = Some w \<and> sendable w \<and> heard arch w = w) \<and> time_sendable t"
| "curr_sendable arch DomainCurrProps \<longleftrightarrow> True"

definition env_ok :: "msg_env \<Rightarrow> bool" where
  "env_ok env \<longleftrightarrow> alloc_ok (env_alloc env) \<and> env_bind env \<and> env_node env"

lemma decode_nodes_elems: "env_node env \<Longrightarrow> decode_nodes env d n = decode_elems d n"
proof (induction n)
  case (Suc n)
  have "decode_nodes env d (Suc n) s = decode_elems d (Suc n) s" for s
    using Suc by (cases "d s") (auto split: option.split)
  then show ?case by (rule ext)
qed (auto simp: fun_eq_iff)

context byte_sink
begin

lemma writes_fits [xdr_simps]: "fits_string str \<Longrightarrow> writes good room written (string_encode ops str) (bytes_string str)"
  by (rule writes_string) (simp add: fits_string_def)

lemma writes_union:
  "writes good room written v vs \<Longrightarrow> writes good room written c cs \<Longrightarrow>
   writes good room written (union_encode ops code v c) ((be32 code @ vs) @ cs)"
  unfolding union_encode_def by (intro writes_and writes_enum)

lemma writes_handle: "writes good room written (e p) bs \<Longrightarrow> writes good room written (handle_encode e (Some p)) bs"
  by (simp add: handle_encode_def [abs_def])

lemma writes_list:
  "\<forall>x\<in>set xs. writes good room written (e x) (enc x) \<Longrightarrow> writes good room written (list_encode ops e xs) (bytes_array enc xs)"
  unfolding list_encode_def bytes_array_def by (rule writes_and [OF writes_u_long writes_elems])

lemma writes_eng_variant: "eng_variant_sendable v \<Longrightarrow> writes good room written (eng_encode_variant ops v) (bytes_eng_variant v)"
  by (cases v) (auto simp: ep_class_defs intro!: writes_and writes_fits writes_enum)

lemma writes_eng: "eng_sendable p \<Longrightarrow> writes good room written (eng_encode ops p) (bytes_eng p)"
  unfolding eng_encode_def bytes_eng_def eng_encode_common_def eng_sendable_def
  by (intro writes_union writes_and writes_eng_variant writes_fits writes_time writes_enum writes_u_long) simp_all

lemma writes_v1_variant: "v1_variant_sendable v \<Longrightarrow> writes good room written (v1_encode_variant ops v) (bytes_v1_variant v)"
  by (cases v) (auto simp: v1_class_defs intro!: writes_and writes_fits writes_enum writes_nothing)

lemma writes_v1: "v1_sendable p \<Longrightarrow> writes good room written (v1_encode ops p) (bytes_v1 p)"
  unfolding v1_encode_def bytes_v1_def v1_encode_common_def v1_sendable_def
  by (intro writes_union writes_and writes_v1_variant writes_fits writes_time writes_enum) simp_all

lemma writes_curr: "curr_sendable arch p \<Longrightarrow> writes good room written (curr_encode arch ops p) (bytes_curr arch p)"
  unfolding curr_encode_def
  by (cases p)
     (auto simp del: append_assoc append_Nil2 append_Nil
       intro!: writes_union writes_nothing writes_and writes_handle writes_value writes_time writes_enum)

end

context byte_source
begin

lemma reads_fits [xdr_simps]:
  "fits_string str \<Longrightarrow> alloc_ok env \<Longrightarrow> reads good rest (string_decode env ops) str (bytes_string str)"
  by (rule reads_string) (simp_all add: fits_string_def)

lemma reads_union:
  "reads good rest (variant c) v vs \<Longrightarrow> reads good rest (common v) w cs \<Longrightarrow>
   reads good rest (union_xdrNew ops variant common) w ((be32 c @ vs) @ cs)"
  unfolding union_xdrNew_def append_assoc by (intro reads_then [OF reads_enum] reads_then)

lemma reads_handle: "env_bind env \<Longrightarrow> reads good rest new p bs \<Longrightarrow> reads good rest (handle_decode env new) (Some p) bs"
  unfolding handle_decode_def by (erule reads_map) (simp add: deliver_def fun_eq_iff)

lemma reads_list:
  assumes "\<forall>x\<in>set xs. reads good rest d x (enc x)" "length xs < 2 ^ 32" "env_node env"
  shows "reads good rest (list_decode env ops d) xs (bytes_array enc xs)"
  unfolding list_decode_def bytes_array_def
  by (rule reads_then [OF reads_u_long])
     (use reads_elems [OF assms(1)] assms(2) in \<open>simp add: unat_of_nat_u32 decode_nodes_elems [OF assms(3)]\<close>)

lemma reads_eng_variant:
  assumes "eng_variant_sendable v" and env: "alloc_ok env"
  shows "reads good rest (eng_decode_variant env ops (eng_type_code v)) v (bytes_eng_variant v)"
  using assms(1)
  by (cases v)
     (auto simp: eng_decode_variant_def ks_ot_defs ep_class_defs
       intro!: reads_then [OF reads_fits] reads_then [OF reads_enum] reads_map [OF reads_fits] reads_map [OF reads_enum] env)

lemma reads_eng:
  assumes "eng_sendable p" and env: "alloc_ok env"
  shows "reads good rest (eng_xdrNew env ops) p (bytes_eng p)"
  using assms(1) unfolding eng_xdrNew_def bytes_eng_def eng_decode_common_def eng_sendable_def
  by (intro reads_union [where variant = "eng_decode_variant env ops" and v = "ep_variant p"] reads_eng_variant reads_then [OF reads_fits]
      reads_then [OF reads_time] reads_then [OF reads_enum] reads_map [OF reads_u_long] env) (cases p; simp)+

lemma reads_v1_variant:
  assumes "v1_variant_sendable v" and env: "alloc_ok env"
  shows "reads good rest (v1_decode_variant env ops (v1_type_code v)) v (bytes_v1_variant v)"
  using assms(1)
  by (cases v)
     (auto simp: v1_decode_variant_def ks_ot_defs v1_class_defs reads_deliver
       intro!: reads_then [OF reads_fits] reads_then [OF reads_enum] reads_map [OF reads_fits] reads_map [OF reads_enum] env)

lemma reads_v1:
  assumes "v1_sendable p" and env: "alloc_ok env"
  shows "reads good rest (v1_xdrNew env ops) p (bytes_v1 p)"
  using assms(1) unfolding v1_xdrNew_def bytes_v1_def v1_decode_common_def v1_sendable_def
  by (intro reads_union [where variant = "v1_decode_variant env ops" and v = "v1_variant p"] reads_v1_variant reads_then [OF reads_fits]
      reads_then [OF reads_time] reads_map [OF reads_enum] env) (cases p; simp)+

lemma reads_curr:
  assumes "curr_sendable arch p" and env: "env_ok env"
  shows "reads good rest (curr_xdrNew env arch ops) p (bytes_curr arch p)"
proof (cases p)
  case (VarCurrProps v t s)
  then obtain w where w: "v = Some w" "sendable w" "time_sendable t" and hw: "heard arch w = w" using assms(1) by auto
  have "reads good rest (curr_decode_variant env arch ops KS_OT_VARIABLE) p (bytes_value arch w @ bytes_time t @ be32 s)"
    using env w unfolding VarCurrProps curr_decode_variant_def env_ok_def
    by (simp, intro reads_then [OF reads_handle [OF _ reads_value [where v = w and arch = arch, unfolded hw]]] reads_then [OF reads_time] reads_map [OF reads_enum]) auto
  then show ?thesis unfolding curr_xdrNew_def VarCurrProps w(1) bytes_curr.simps option.case
    by (rule reads_union [OF _ reads_deliver])
next
  case DomainCurrProps
  then show ?thesis unfolding curr_xdrNew_def DomainCurrProps bytes_curr.simps
    by (intro reads_union [OF _ reads_deliver]) (simp add: curr_decode_variant_def ks_ot_defs reads_deliver)
qed

end

end
