(* ===== verification/KsServiceParams.thy ===== *)
theory KsServiceParams
  imports KsProps KsResult
begin

text \<open>
  The parameters and results of the base services: ks/include/ks/serviceparams.h, ks/src/serviceparams.cpp, and the result classes that
  all services share (ks/src/result.cpp). A class with one array or list is that list; a result class is the result code with
  what else it holds.
\<close>

subsection \<open>Results\<close>

record 'a reply =
  rp_result :: ks_result
  rp_data :: 'a

definition result_encode :: "'s xdr_ops \<Rightarrow> ks_result \<Rightarrow> 's coder" where
  "result_encode ops r = ks_xdre (xdr_enum ops) r"

definition result_decode :: "'s xdr_ops \<Rightarrow> ('s, ks_result) decoder" where
  "result_decode ops = ks_xdrd (xdr_enum ops) 0"

text \<open>Results with data send them only when the code is \<open>res\<close>; \<open>old\<close> is what a new result object holds.\<close>

definition reply_encode :: "'s xdr_ops \<Rightarrow> ks_result \<Rightarrow> ('a \<Rightarrow> 's coder) \<Rightarrow> 'a reply \<Rightarrow> 's coder" where
  "reply_encode ops res e r = and_then (result_encode ops (rp_result r)) (if rp_result r = res then e (rp_data r) else (\<lambda>s. Some (True, s)))"

definition reply_decode :: "'s xdr_ops \<Rightarrow> ks_result \<Rightarrow> 'a \<Rightarrow> ('s, 'a) decoder \<Rightarrow> ('s, 'a reply) decoder" where
  "reply_decode ops res old d =
     then_with (result_decode ops) (\<lambda>r.
       if r = res then then_with d (\<lambda>x. deliver \<lparr>rp_result = r, rp_data = x\<rparr>) else deliver \<lparr>rp_result = r, rp_data = old\<rparr>)"

subsection \<open>GetPP and GetEP\<close>

record get_pp_params =
  pp_path :: "byte list"
  pp_type_mask :: u32
  pp_name_mask :: "byte list"

record get_ep_params =
  ge_path :: "byte list"
  ge_type_mask :: u32
  ge_name_mask :: "byte list"
  ge_scope_flags :: u32

definition getpp_params_encode :: "'s xdr_ops \<Rightarrow> get_pp_params \<Rightarrow> 's coder" where
  "getpp_params_encode ops p =
     and_then (string_encode ops (pp_path p)) (and_then (ks_xdre (xdr_enum ops) (pp_type_mask p)) (string_encode ops (pp_name_mask p)))"

definition getpp_params_decode :: "alloc_env \<Rightarrow> 's xdr_ops \<Rightarrow> ('s, get_pp_params) decoder" where
  "getpp_params_decode env ops =
     then_with (string_decode env ops) (\<lambda>p. then_with (ks_xdrd (xdr_enum ops) 0) (\<lambda>t. then_with (string_decode env ops) (\<lambda>n.
       deliver \<lparr>pp_path = p, pp_type_mask = t, pp_name_mask = n\<rparr>)))"

definition getpp_result_encode :: "'s xdr_ops \<Rightarrow> eng_props_v1 option list reply \<Rightarrow> 's coder" where
  "getpp_result_encode ops = reply_encode ops KS_ERR_OK (list_encode ops (handle_encode (v1_encode ops)))"

definition getpp_result_decode :: "msg_env \<Rightarrow> 's xdr_ops \<Rightarrow> ('s, eng_props_v1 option list reply) decoder" where
  "getpp_result_decode env ops =
     reply_decode ops KS_ERR_OK [] (list_decode env ops (handle_decode env (v1_xdrNew (env_alloc env) ops)))"

definition getep_params_encode :: "'s xdr_ops \<Rightarrow> get_ep_params \<Rightarrow> 's coder" where
  "getep_params_encode ops p =
     and_then (string_encode ops (ge_path p)) (and_then (ks_xdre (xdr_enum ops) (ge_type_mask p))
    (and_then (string_encode ops (ge_name_mask p)) (ks_xdre (xdr_enum ops) (ge_scope_flags p))))"

definition getep_params_decode :: "alloc_env \<Rightarrow> 's xdr_ops \<Rightarrow> ('s, get_ep_params) decoder" where
  "getep_params_decode env ops =
     then_with (string_decode env ops) (\<lambda>p. then_with (ks_xdrd (xdr_enum ops) 0) (\<lambda>t. then_with (string_decode env ops) (\<lambda>n.
       then_with (ks_xdrd (xdr_enum ops) 0) (\<lambda>f.
         deliver \<lparr>ge_path = p, ge_type_mask = t, ge_name_mask = n, ge_scope_flags = f\<rparr>))))"

definition getep_result_encode :: "'s xdr_ops \<Rightarrow> eng_props option list reply \<Rightarrow> 's coder" where
  "getep_result_encode ops = reply_encode ops KS_ERR_OK (list_encode ops (handle_encode (eng_encode ops)))"

definition getep_result_decode :: "msg_env \<Rightarrow> 's xdr_ops \<Rightarrow> ('s, eng_props option list reply) decoder" where
  "getep_result_decode env ops =
     reply_decode ops KS_ERR_OK [] (list_decode env ops (handle_decode env (eng_xdrNew (env_alloc env) ops)))"

subsection \<open>GetVar\<close>

type_synonym var_item = "curr_props option reply"

definition getvar_params_encode :: "'s xdr_ops \<Rightarrow> byte list list \<Rightarrow> 's coder" where
  "getvar_params_encode ops ids = array_encode ops (string_encode ops) ids"

definition getvar_params_decode :: "alloc_env \<Rightarrow> 's xdr_ops \<Rightarrow> ('s, byte list list) decoder" where
  "getvar_params_decode env ops = array_decode env ops (string_decode env ops) 0"

definition var_item_encode :: "arch \<Rightarrow> 's xdr_ops \<Rightarrow> var_item \<Rightarrow> 's coder" where
  "var_item_encode arch ops = reply_encode ops KS_ERR_OK (handle_encode (curr_encode arch ops))"

definition var_item_decode :: "msg_env \<Rightarrow> arch \<Rightarrow> 's xdr_ops \<Rightarrow> ('s, var_item) decoder" where
  "var_item_decode env arch ops = reply_decode ops KS_ERR_OK None (handle_decode env (curr_xdrNew env arch ops))"

definition getvar_result_encode :: "arch \<Rightarrow> 's xdr_ops \<Rightarrow> var_item list reply \<Rightarrow> 's coder" where
  "getvar_result_encode arch ops = reply_encode ops KS_ERR_OK (array_encode ops (var_item_encode arch ops))"

definition getvar_result_decode :: "msg_env \<Rightarrow> arch \<Rightarrow> 's xdr_ops \<Rightarrow> ('s, var_item list reply) decoder" where
  "getvar_result_decode env arch ops =
     reply_decode ops KS_ERR_OK [] (array_decode (env_alloc env) ops (var_item_decode env arch ops) 0)"

subsection \<open>SetVar\<close>

record set_var_item =
  si_path :: "byte list"
  si_props :: "curr_props option"

definition setvar_item_encode :: "arch \<Rightarrow> 's xdr_ops \<Rightarrow> set_var_item \<Rightarrow> 's coder" where
  "setvar_item_encode arch ops i = and_then (string_encode ops (si_path i)) (handle_encode (curr_encode arch ops) (si_props i))"

definition setvar_item_decode :: "msg_env \<Rightarrow> arch \<Rightarrow> 's xdr_ops \<Rightarrow> ('s, set_var_item) decoder" where
  "setvar_item_decode env arch ops =
     then_with (string_decode (env_alloc env) ops) (\<lambda>p. then_with (handle_decode env (curr_xdrNew env arch ops)) (\<lambda>h.
       deliver \<lparr>si_path = p, si_props = h\<rparr>))"

definition setvar_params_encode :: "arch \<Rightarrow> 's xdr_ops \<Rightarrow> set_var_item list \<Rightarrow> 's coder" where
  "setvar_params_encode arch ops items = array_encode ops (setvar_item_encode arch ops) items"

definition setvar_params_decode :: "msg_env \<Rightarrow> arch \<Rightarrow> 's xdr_ops \<Rightarrow> ('s, set_var_item list) decoder" where
  "setvar_params_decode env arch ops = array_decode (env_alloc env) ops (setvar_item_decode env arch ops) 0"

definition setvar_result_encode :: "'s xdr_ops \<Rightarrow> ks_result list reply \<Rightarrow> 's coder" where
  "setvar_result_encode ops = reply_encode ops KS_ERR_OK (array_encode ops (result_encode ops))"

definition setvar_result_decode :: "msg_env \<Rightarrow> 's xdr_ops \<Rightarrow> ('s, ks_result list reply) decoder" where
  "setvar_result_decode env ops = reply_decode ops KS_ERR_OK [] (array_decode (env_alloc env) ops (result_decode ops) 0)"

subsection \<open>ExgData\<close>

record exg_data_params =
  ed_set_vars :: "set_var_item list"
  ed_get_vars :: "byte list list"

type_synonym exg_data_result = "(ks_result list \<times> var_item list) reply"

definition exgdata_params_encode :: "arch \<Rightarrow> 's xdr_ops \<Rightarrow> exg_data_params \<Rightarrow> 's coder" where
  "exgdata_params_encode arch ops p =
     and_then (array_encode ops (setvar_item_encode arch ops) (ed_set_vars p)) (array_encode ops (string_encode ops) (ed_get_vars p))"

definition exgdata_params_decode :: "msg_env \<Rightarrow> arch \<Rightarrow> 's xdr_ops \<Rightarrow> ('s, exg_data_params) decoder" where
  "exgdata_params_decode env arch ops =
     then_with (array_decode (env_alloc env) ops (setvar_item_decode env arch ops) 0) (\<lambda>s.
       then_with (array_decode (env_alloc env) ops (string_decode (env_alloc env) ops) 0) (\<lambda>g.
         deliver \<lparr>ed_set_vars = s, ed_get_vars = g\<rparr>))"

definition exgdata_result_encode :: "arch \<Rightarrow> 's xdr_ops \<Rightarrow> exg_data_result \<Rightarrow> 's coder" where
  "exgdata_result_encode arch ops =
     reply_encode ops KS_ERR_OK (\<lambda>(rs, is). and_then (array_encode ops (result_encode ops) rs) (array_encode ops (var_item_encode arch ops) is))"

definition exgdata_result_decode :: "msg_env \<Rightarrow> arch \<Rightarrow> 's xdr_ops \<Rightarrow> ('s, exg_data_result) decoder" where
  "exgdata_result_decode env arch ops =
     reply_decode ops KS_ERR_OK ([], [])
       (then_with (array_decode (env_alloc env) ops (result_decode ops) 0) (\<lambda>rs.
          then_with (array_decode (env_alloc env) ops (var_item_decode env arch ops) 0) (\<lambda>is. deliver (rs, is))))"

subsection \<open>Representations\<close>

definition bytes_reply :: "ks_result \<Rightarrow> ('a \<Rightarrow> byte list) \<Rightarrow> 'a reply \<Rightarrow> byte list" where
  "bytes_reply res b r = be32 (rp_result r) @ (if rp_result r = res then b (rp_data r) else [])"

definition bytes_handle :: "('a \<Rightarrow> byte list) \<Rightarrow> 'a option \<Rightarrow> byte list" where
  "bytes_handle b h = (case h of None \<Rightarrow> [] | Some p \<Rightarrow> b p)"

definition bytes_getpp_params :: "get_pp_params \<Rightarrow> byte list" where
  "bytes_getpp_params p = bytes_string (pp_path p) @ be32 (pp_type_mask p) @ bytes_string (pp_name_mask p)"

definition bytes_getep_params :: "get_ep_params \<Rightarrow> byte list" where
  "bytes_getep_params p = bytes_string (ge_path p) @ be32 (ge_type_mask p) @ bytes_string (ge_name_mask p) @ be32 (ge_scope_flags p)"

definition bytes_strings :: "byte list list \<Rightarrow> byte list" where
  "bytes_strings = bytes_array bytes_string"

definition bytes_var_item :: "arch \<Rightarrow> var_item \<Rightarrow> byte list" where
  "bytes_var_item arch = bytes_reply KS_ERR_OK (bytes_handle (bytes_curr arch))"

definition bytes_setvar_item :: "arch \<Rightarrow> set_var_item \<Rightarrow> byte list" where
  "bytes_setvar_item arch i = bytes_string (si_path i) @ bytes_handle (bytes_curr arch) (si_props i)"

definition bytes_exgdata_params :: "arch \<Rightarrow> exg_data_params \<Rightarrow> byte list" where
  "bytes_exgdata_params arch p = bytes_array (bytes_setvar_item arch) (ed_set_vars p) @ bytes_strings (ed_get_vars p)"

definition bytes_exgdata :: "arch \<Rightarrow> ks_result list \<times> var_item list \<Rightarrow> byte list" where
  "bytes_exgdata arch d = bytes_array be32 (fst d) @ bytes_array (bytes_var_item arch) (snd d)"

text \<open>A reply with another code than \<open>res\<close> has the data of a new object.\<close>

definition reply_sendable :: "ks_result \<Rightarrow> 'a \<Rightarrow> ('a \<Rightarrow> bool) \<Rightarrow> 'a reply \<Rightarrow> bool" where
  "reply_sendable res old ok r \<longleftrightarrow> (if rp_result r = res then ok (rp_data r) else rp_data r = old)"

definition handle_sendable :: "('a \<Rightarrow> bool) \<Rightarrow> 'a option \<Rightarrow> bool" where
  "handle_sendable ok h \<longleftrightarrow> (\<exists>p. h = Some p \<and> ok p)"

definition array_sendable :: "('a \<Rightarrow> bool) \<Rightarrow> 'a list \<Rightarrow> bool" where
  "array_sendable ok xs \<longleftrightarrow> length xs < 2 ^ 32 \<and> (\<forall>x\<in>set xs. ok x)"

definition getpp_params_sendable :: "get_pp_params \<Rightarrow> bool" where
  "getpp_params_sendable p \<longleftrightarrow> fits_string (pp_path p) \<and> fits_string (pp_name_mask p)"

definition getep_params_sendable :: "get_ep_params \<Rightarrow> bool" where
  "getep_params_sendable p \<longleftrightarrow> fits_string (ge_path p) \<and> fits_string (ge_name_mask p)"

definition var_item_sendable :: "arch \<Rightarrow> var_item \<Rightarrow> bool" where
  "var_item_sendable arch = reply_sendable KS_ERR_OK None (handle_sendable (curr_sendable arch))"

definition setvar_item_sendable :: "arch \<Rightarrow> set_var_item \<Rightarrow> bool" where
  "setvar_item_sendable arch i \<longleftrightarrow> fits_string (si_path i) \<and> handle_sendable (curr_sendable arch) (si_props i)"

definition exgdata_params_sendable :: "arch \<Rightarrow> exg_data_params \<Rightarrow> bool" where
  "exgdata_params_sendable arch p \<longleftrightarrow> array_sendable (setvar_item_sendable arch) (ed_set_vars p) \<and> array_sendable fits_string (ed_get_vars p)"

definition exgdata_sendable :: "arch \<Rightarrow> ks_result list \<times> var_item list \<Rightarrow> bool" where
  "exgdata_sendable arch d \<longleftrightarrow> array_sendable (\<lambda>r. True) (fst d) \<and> array_sendable (var_item_sendable arch) (snd d)"

named_theorems sends

context byte_sink
begin

lemmas writes_basics [sends] = writes_and writes_fits writes_enum writes_u_long writes_time writes_nothing writes_eng writes_v1 writes_curr

lemma writes_result [sends]: "writes good room written (result_encode ops r) (be32 r)"
  unfolding result_encode_def by (rule writes_enum)

lemma writes_reply [sends]:
  assumes "reply_sendable res old ok r" "\<And>x. ok x \<Longrightarrow> writes good room written (e x) (b x)"
  shows "writes good room written (reply_encode ops res e r) (bytes_reply res b r)"
  using assms writes_and [OF writes_result writes_nothing, of "rp_result r"] writes_and [OF writes_result assms(2), of "rp_data r"]
  unfolding reply_encode_def bytes_reply_def reply_sendable_def by (cases "rp_result r = res") simp_all

lemma writes_bound [sends]:
  assumes "handle_sendable ok h" "\<And>x. ok x \<Longrightarrow> writes good room written (e x) (b x)"
  shows "writes good room written (handle_encode e h) (bytes_handle b h)"
  using assms unfolding handle_sendable_def bytes_handle_def by (auto intro!: writes_handle)

lemma writes_sendable_array [sends]:
  assumes "array_sendable ok xs" "\<And>x. ok x \<Longrightarrow> writes good room written (e x) (b x)"
  shows "writes good room written (array_encode ops e xs) (bytes_array b xs)"
  using assms unfolding array_sendable_def by (intro writes_array) blast

lemma writes_sendable_list [sends]:
  assumes "array_sendable ok xs" "\<And>x. ok x \<Longrightarrow> writes good room written (e x) (b x)"
  shows "writes good room written (list_encode ops e xs) (bytes_array b xs)"
  using assms unfolding array_sendable_def by (intro writes_list) blast

lemma writes_getpp_params: "getpp_params_sendable p \<Longrightarrow> writes good room written (getpp_params_encode ops p) (bytes_getpp_params p)"
  unfolding getpp_params_encode_def bytes_getpp_params_def getpp_params_sendable_def by (intro sends) simp_all

lemma writes_getep_params: "getep_params_sendable p \<Longrightarrow> writes good room written (getep_params_encode ops p) (bytes_getep_params p)"
  unfolding getep_params_encode_def bytes_getep_params_def getep_params_sendable_def by (intro sends) simp_all

lemma writes_getpp_result:
  "reply_sendable KS_ERR_OK [] (array_sendable (handle_sendable v1_sendable)) r \<Longrightarrow>
   writes good room written (getpp_result_encode ops r) (bytes_reply KS_ERR_OK (bytes_array (bytes_handle bytes_v1)) r)"
  unfolding getpp_result_encode_def by (erule writes_reply, erule writes_sendable_list, erule writes_bound, erule writes_v1)

lemma writes_getep_result:
  "reply_sendable KS_ERR_OK [] (array_sendable (handle_sendable eng_sendable)) r \<Longrightarrow>
   writes good room written (getep_result_encode ops r) (bytes_reply KS_ERR_OK (bytes_array (bytes_handle bytes_eng)) r)"
  unfolding getep_result_encode_def by (erule writes_reply, erule writes_sendable_list, erule writes_bound, erule writes_eng)

lemma writes_strings [sends]: "array_sendable fits_string ids \<Longrightarrow> writes good room written (array_encode ops (string_encode ops) ids) (bytes_strings ids)"
  unfolding bytes_strings_def by (erule writes_sendable_array, erule writes_fits)

lemma writes_var_item [sends]: "var_item_sendable arch i \<Longrightarrow> writes good room written (var_item_encode arch ops i) (bytes_var_item arch i)"
  unfolding var_item_encode_def bytes_var_item_def var_item_sendable_def by (erule writes_reply, erule writes_bound, erule writes_curr)

lemma writes_setvar_item [sends]: "setvar_item_sendable arch i \<Longrightarrow> writes good room written (setvar_item_encode arch ops i) (bytes_setvar_item arch i)"
  unfolding setvar_item_encode_def bytes_setvar_item_def setvar_item_sendable_def
  by (intro writes_and writes_fits writes_bound [of "curr_sendable arch"] writes_curr) simp_all

lemma writes_getvar_result:
  "reply_sendable KS_ERR_OK [] (array_sendable (var_item_sendable arch)) r \<Longrightarrow>
   writes good room written (getvar_result_encode arch ops r) (bytes_reply KS_ERR_OK (bytes_array (bytes_var_item arch)) r)"
  unfolding getvar_result_encode_def by (erule writes_reply, erule writes_sendable_array, erule writes_var_item)

lemma writes_results [sends]:
  "array_sendable (\<lambda>r. True) rs \<Longrightarrow> writes good room written (array_encode ops (result_encode ops) rs) (bytes_array be32 rs)"
  by (erule writes_sendable_array) (rule writes_result)

lemma writes_setvar_result:
  "reply_sendable KS_ERR_OK [] (array_sendable (\<lambda>r. True)) r \<Longrightarrow>
   writes good room written (setvar_result_encode ops r) (bytes_reply KS_ERR_OK (bytes_array be32) r)"
  unfolding setvar_result_encode_def by (erule writes_reply, erule writes_results)

lemma writes_exgdata_params:
  "exgdata_params_sendable arch p \<Longrightarrow> writes good room written (exgdata_params_encode arch ops p) (bytes_exgdata_params arch p)"
  unfolding exgdata_params_encode_def bytes_exgdata_params_def exgdata_params_sendable_def
  by (intro writes_and writes_sendable_array [of "setvar_item_sendable arch"] writes_strings writes_setvar_item) simp_all

lemma writes_exgdata_result:
  "reply_sendable KS_ERR_OK ([], []) (exgdata_sendable arch) r \<Longrightarrow>
   writes good room written (exgdata_result_encode arch ops r) (bytes_reply KS_ERR_OK (bytes_exgdata arch) r)"
  unfolding exgdata_result_encode_def
  by (erule writes_reply)
     (auto simp: exgdata_sendable_def bytes_exgdata_def intro!: writes_and writes_results writes_sendable_array [of "var_item_sendable arch"] writes_var_item)

end

context byte_source
begin

lemma reads_result: "reads good rest (result_decode ops) r (be32 r)"
  unfolding result_decode_def by (rule reads_enum)

lemma reads_reply:
  assumes "reply_sendable res old ok r" "\<And>x. ok x \<Longrightarrow> reads good rest d x (b x)"
  shows "reads good rest (reply_decode ops res old d) r (bytes_reply res b r)"
proof (cases "rp_result r = res")
  case True
  then have "reads good rest d (rp_data r) (b (rp_data r))" using assms by (simp add: reply_sendable_def)
  then have "reads good rest (then_with d (\<lambda>x. deliver \<lparr>rp_result = res, rp_data = x\<rparr>)) r (b (rp_data r))"
    using True by (elim reads_map) (cases r; simp)
  then show ?thesis using True unfolding reply_decode_def bytes_reply_def by (intro reads_then [OF reads_result]) simp
next
  case False
  then show ?thesis using assms(1)
    unfolding reply_decode_def bytes_reply_def reply_sendable_def by (intro reads_then [OF reads_result]) (cases r; simp add: reads_deliver)
qed

lemma reads_bound:
  assumes "handle_sendable ok h" "env_bind env" "\<And>x. ok x \<Longrightarrow> reads good rest new x (b x)"
  shows "reads good rest (handle_decode env new) h (bytes_handle b h)"
  using assms unfolding handle_sendable_def bytes_handle_def by (auto intro!: reads_handle)

lemma reads_sendable_array:
  assumes "array_sendable ok xs" "alloc_ok env" "\<And>x. ok x \<Longrightarrow> reads good rest d x (b x)"
  shows "reads good rest (array_decode env ops d n) xs (bytes_array b xs)"
  using assms unfolding array_sendable_def by (intro reads_array) blast+

lemma reads_sendable_list:
  assumes "array_sendable ok xs" "env_node env" "\<And>x. ok x \<Longrightarrow> reads good rest d x (b x)"
  shows "reads good rest (list_decode env ops d) xs (bytes_array b xs)"
  using assms unfolding array_sendable_def by (intro reads_list) blast+

lemma reads_getpp_params:
  "getpp_params_sendable p \<Longrightarrow> alloc_ok env \<Longrightarrow> reads good rest (getpp_params_decode env ops) p (bytes_getpp_params p)"
  unfolding getpp_params_decode_def bytes_getpp_params_def getpp_params_sendable_def
  by (cases p; intro reads_then [OF reads_fits] reads_then [OF reads_enum] reads_map [OF reads_fits]) simp_all

lemma reads_getep_params:
  "getep_params_sendable p \<Longrightarrow> alloc_ok env \<Longrightarrow> reads good rest (getep_params_decode env ops) p (bytes_getep_params p)"
  unfolding getep_params_decode_def bytes_getep_params_def getep_params_sendable_def
  by (cases p; intro reads_then [OF reads_fits] reads_then [OF reads_enum] reads_map [OF reads_enum]) simp_all

lemma env_okD: "env_ok env \<Longrightarrow> alloc_ok (env_alloc env)" "env_ok env \<Longrightarrow> env_bind env" "env_ok env \<Longrightarrow> env_node env"
  by (simp_all add: env_ok_def)

lemma reads_getpp_result:
  assumes "reply_sendable KS_ERR_OK [] (array_sendable (handle_sendable v1_sendable)) r" "env_ok env"
  shows "reads good rest (getpp_result_decode env ops) r (bytes_reply KS_ERR_OK (bytes_array (bytes_handle bytes_v1)) r)"
  unfolding getpp_result_decode_def
  by (rule reads_reply [OF assms(1)], erule reads_sendable_list, rule env_okD [OF assms(2)], erule reads_bound, rule env_okD [OF assms(2)],
      erule reads_v1, rule env_okD [OF assms(2)])

lemma reads_getep_result:
  assumes "reply_sendable KS_ERR_OK [] (array_sendable (handle_sendable eng_sendable)) r" "env_ok env"
  shows "reads good rest (getep_result_decode env ops) r (bytes_reply KS_ERR_OK (bytes_array (bytes_handle bytes_eng)) r)"
  unfolding getep_result_decode_def
  by (rule reads_reply [OF assms(1)], erule reads_sendable_list, rule env_okD [OF assms(2)], erule reads_bound, rule env_okD [OF assms(2)],
      erule reads_eng, rule env_okD [OF assms(2)])

lemma reads_strings:
  "array_sendable fits_string ids \<Longrightarrow> alloc_ok env \<Longrightarrow> reads good rest (array_decode env ops (string_decode env ops) n) ids (bytes_strings ids)"
  unfolding bytes_strings_def by (erule reads_sendable_array) (simp_all add: reads_fits)

lemma reads_var_item:
  assumes "var_item_sendable arch i" "env_ok env"
  shows "reads good rest (var_item_decode env arch ops) i (bytes_var_item arch i)"
  unfolding var_item_decode_def bytes_var_item_def
  by (rule reads_reply [OF assms(1) [unfolded var_item_sendable_def]], erule reads_bound [OF _ env_okD(2) [OF assms(2)]],
      erule reads_curr [OF _ assms(2)])

lemma reads_setvar_item:
  assumes "setvar_item_sendable arch i" "env_ok env"
  shows "reads good rest (setvar_item_decode env arch ops) i (bytes_setvar_item arch i)"
  using assms unfolding setvar_item_decode_def bytes_setvar_item_def setvar_item_sendable_def
  by (cases i; intro reads_then [OF reads_fits] reads_map [OF reads_bound [of "curr_sendable arch"]]) (simp_all add: env_okD reads_curr)

lemma reads_getvar_result:
  assumes "reply_sendable KS_ERR_OK [] (array_sendable (var_item_sendable arch)) r" "env_ok env"
  shows "reads good rest (getvar_result_decode env arch ops) r (bytes_reply KS_ERR_OK (bytes_array (bytes_var_item arch)) r)"
  unfolding getvar_result_decode_def
  by (rule reads_reply [OF assms(1)], erule reads_sendable_array, rule env_okD [OF assms(2)], erule reads_var_item [OF _ assms(2)])

lemma reads_results:
  "array_sendable (\<lambda>r. True) rs \<Longrightarrow> alloc_ok env \<Longrightarrow> reads good rest (array_decode env ops (result_decode ops) n) rs (bytes_array be32 rs)"
  by (erule reads_sendable_array) (simp_all add: reads_result)

lemma reads_setvar_result:
  assumes "reply_sendable KS_ERR_OK [] (array_sendable (\<lambda>r. True)) r" "env_ok env"
  shows "reads good rest (setvar_result_decode env ops) r (bytes_reply KS_ERR_OK (bytes_array be32) r)"
  unfolding setvar_result_decode_def by (rule reads_reply [OF assms(1)], erule reads_results, rule env_okD [OF assms(2)])

lemma reads_exgdata_params:
  assumes "exgdata_params_sendable arch p" "env_ok env"
  shows "reads good rest (exgdata_params_decode env arch ops) p (bytes_exgdata_params arch p)"
  using assms unfolding exgdata_params_decode_def bytes_exgdata_params_def exgdata_params_sendable_def
  by (cases p; intro reads_then [OF reads_sendable_array [of "setvar_item_sendable arch"]] reads_map [OF reads_strings])
     (simp_all add: env_okD reads_setvar_item)

lemma reads_exgdata_result:
  assumes "reply_sendable KS_ERR_OK ([], []) (exgdata_sendable arch) r" and env: "env_ok env"
  shows "reads good rest (exgdata_result_decode env arch ops) r (bytes_reply KS_ERR_OK (bytes_exgdata arch) r)"
  unfolding exgdata_result_decode_def
proof (rule reads_reply [OF assms(1)])
  fix d assume d: "exgdata_sendable arch d"
  then show "reads good rest (then_with (array_decode (env_alloc env) ops (result_decode ops) 0) (\<lambda>rs.
          then_with (array_decode (env_alloc env) ops (var_item_decode env arch ops) 0) (\<lambda>is. deliver (rs, is)))) d (bytes_exgdata arch d)"
    unfolding bytes_exgdata_def exgdata_sendable_def
    by (intro reads_then [OF reads_results] reads_map [OF reads_sendable_array [of "var_item_sendable arch"]])
       (simp_all add: env_okD [OF env] reads_var_item env)
qed

end

end
