(* ===== verification/KsObjMgrParams.thy ===== *)
theory KsObjMgrParams
  imports KsServiceParams
begin

text \<open>
  The parameters and results of the services that manage objects: ks/include/ks/objmgrparams.h, ks/src/objmgrparams.cpp. That every
  message of the base services and of these reaches the other side unchanged.
\<close>

definition KS_PMH_BEFORE :: u32 where "KS_PMH_BEFORE = 3"
definition KS_PMH_AFTER :: u32 where "KS_PMH_AFTER = 4"

text \<open>A place next to another object has a path.\<close>

record placement_hint =
  ph_hint :: u32
  ph_path :: "byte list"

definition placed :: "u32 \<Rightarrow> bool" where
  "placed h \<longleftrightarrow> h = KS_PMH_BEFORE \<or> h = KS_PMH_AFTER"

definition placement_encode :: "'s xdr_ops \<Rightarrow> placement_hint \<Rightarrow> 's coder" where
  "placement_encode ops p =
     and_then (ks_xdre (xdr_enum ops) (ph_hint p)) (if placed (ph_hint p) then string_encode ops (ph_path p) else (\<lambda>s. Some (True, s)))"

definition placement_decode :: "alloc_env \<Rightarrow> 's xdr_ops \<Rightarrow> ('s, placement_hint) decoder" where
  "placement_decode env ops =
     then_with (ks_xdrd (xdr_enum ops) 0) (\<lambda>h.
       if placed h then then_with (string_decode env ops) (\<lambda>p. deliver \<lparr>ph_hint = h, ph_path = p\<rparr>)
       else deliver \<lparr>ph_hint = h, ph_path = []\<rparr>)"

record link_item =
  li_link :: "byte list"
  li_element :: "byte list"
  li_place :: placement_hint
  li_opposite_place :: placement_hint

record unlink_item =
  ui_link :: "byte list"
  ui_element :: "byte list"

record create_item =
  co_factory :: "byte list"
  co_new_path :: "byte list"
  co_place :: placement_hint
  co_parameters :: "set_var_item list"
  co_links :: "link_item list"

record rename_item =
  rn_old_path :: "byte list"
  rn_new_path :: "byte list"
  rn_new_place :: placement_hint

type_synonym create_result = "(ks_result list \<times> ks_result list) reply"

definition link_item_encode :: "'s xdr_ops \<Rightarrow> link_item \<Rightarrow> 's coder" where
  "link_item_encode ops i =
     and_then (string_encode ops (li_link i)) (and_then (string_encode ops (li_element i))
    (and_then (placement_encode ops (li_place i)) (placement_encode ops (li_opposite_place i))))"

definition link_item_decode :: "alloc_env \<Rightarrow> 's xdr_ops \<Rightarrow> ('s, link_item) decoder" where
  "link_item_decode env ops =
     then_with (string_decode env ops) (\<lambda>l. then_with (string_decode env ops) (\<lambda>e.
       then_with (placement_decode env ops) (\<lambda>p. then_with (placement_decode env ops) (\<lambda>o'.
         deliver \<lparr>li_link = l, li_element = e, li_place = p, li_opposite_place = o'\<rparr>))))"

definition unlink_item_encode :: "'s xdr_ops \<Rightarrow> unlink_item \<Rightarrow> 's coder" where
  "unlink_item_encode ops i = and_then (string_encode ops (ui_link i)) (string_encode ops (ui_element i))"

definition unlink_item_decode :: "alloc_env \<Rightarrow> 's xdr_ops \<Rightarrow> ('s, unlink_item) decoder" where
  "unlink_item_decode env ops =
     then_with (string_decode env ops) (\<lambda>l. then_with (string_decode env ops) (\<lambda>e. deliver \<lparr>ui_link = l, ui_element = e\<rparr>))"

definition create_item_encode :: "arch \<Rightarrow> 's xdr_ops \<Rightarrow> create_item \<Rightarrow> 's coder" where
  "create_item_encode arch ops i =
     and_then (string_encode ops (co_factory i)) (and_then (string_encode ops (co_new_path i))
    (and_then (placement_encode ops (co_place i))
    (and_then (array_encode ops (setvar_item_encode arch ops) (co_parameters i)) (array_encode ops (link_item_encode ops) (co_links i)))))"

definition create_item_decode :: "msg_env \<Rightarrow> arch \<Rightarrow> 's xdr_ops \<Rightarrow> ('s, create_item) decoder" where
  "create_item_decode env arch ops =
     then_with (string_decode (env_alloc env) ops) (\<lambda>f. then_with (string_decode (env_alloc env) ops) (\<lambda>n.
       then_with (placement_decode (env_alloc env) ops) (\<lambda>p.
         then_with (array_decode (env_alloc env) ops (setvar_item_decode env arch ops) 0) (\<lambda>ps.
           then_with (array_decode (env_alloc env) ops (link_item_decode (env_alloc env) ops) 0) (\<lambda>ls.
             deliver \<lparr>co_factory = f, co_new_path = n, co_place = p, co_parameters = ps, co_links = ls\<rparr>)))))"

definition create_params_encode :: "arch \<Rightarrow> 's xdr_ops \<Rightarrow> create_item list \<Rightarrow> 's coder" where
  "create_params_encode arch ops items = array_encode ops (create_item_encode arch ops) items"

definition create_params_decode :: "msg_env \<Rightarrow> arch \<Rightarrow> 's xdr_ops \<Rightarrow> ('s, create_item list) decoder" where
  "create_params_decode env arch ops = array_decode (env_alloc env) ops (create_item_decode env arch ops) 0"

text \<open>The results for the parameters and links of an object are only sent with \<open>KS_ERR_BADINITPARAM\<close>.\<close>

definition create_result_item_encode :: "'s xdr_ops \<Rightarrow> create_result \<Rightarrow> 's coder" where
  "create_result_item_encode ops =
     reply_encode ops KS_ERR_BADINITPARAM
       (\<lambda>(ps, ls). and_then (array_encode ops (ks_xdre (xdr_int ops)) ps) (array_encode ops (ks_xdre (xdr_int ops)) ls))"

definition create_result_item_decode :: "msg_env \<Rightarrow> 's xdr_ops \<Rightarrow> ('s, create_result) decoder" where
  "create_result_item_decode env ops =
     reply_decode ops KS_ERR_BADINITPARAM ([], [])
       (then_with (array_decode (env_alloc env) ops (ks_xdrd (xdr_int ops) 0) 0) (\<lambda>ps.
          then_with (array_decode (env_alloc env) ops (ks_xdrd (xdr_int ops) 0) 0) (\<lambda>ls. deliver (ps, ls))))"

definition create_result_encode :: "'s xdr_ops \<Rightarrow> create_result list reply \<Rightarrow> 's coder" where
  "create_result_encode ops = reply_encode ops KS_ERR_OK (array_encode ops (create_result_item_encode ops))"

definition create_result_decode :: "msg_env \<Rightarrow> 's xdr_ops \<Rightarrow> ('s, create_result list reply) decoder" where
  "create_result_decode env ops = reply_decode ops KS_ERR_OK [] (array_decode (env_alloc env) ops (create_result_item_decode env ops) 0)"

definition delete_params_encode :: "'s xdr_ops \<Rightarrow> byte list list \<Rightarrow> 's coder" where
  "delete_params_encode ops paths = array_encode ops (string_encode ops) paths"

definition delete_params_decode :: "alloc_env \<Rightarrow> 's xdr_ops \<Rightarrow> ('s, byte list list) decoder" where
  "delete_params_decode env ops = array_decode env ops (string_decode env ops) 0"

definition delete_result_encode :: "'s xdr_ops \<Rightarrow> ks_result list reply \<Rightarrow> 's coder" where
  "delete_result_encode ops = reply_encode ops KS_ERR_OK (array_encode ops (ks_xdre (xdr_int ops)))"

definition delete_result_decode :: "msg_env \<Rightarrow> 's xdr_ops \<Rightarrow> ('s, ks_result list reply) decoder" where
  "delete_result_decode env ops = reply_decode ops KS_ERR_OK [] (array_decode (env_alloc env) ops (ks_xdrd (xdr_int ops) 0) 0)"

definition link_params_encode :: "'s xdr_ops \<Rightarrow> link_item list \<Rightarrow> 's coder" where
  "link_params_encode ops items = array_encode ops (link_item_encode ops) items"

definition link_params_decode :: "alloc_env \<Rightarrow> 's xdr_ops \<Rightarrow> ('s, link_item list) decoder" where
  "link_params_decode env ops = array_decode env ops (link_item_decode env ops) 0"

definition link_result_encode :: "'s xdr_ops \<Rightarrow> ks_result list reply \<Rightarrow> 's coder" where
  "link_result_encode ops = reply_encode ops KS_ERR_OK (array_encode ops (ks_xdre (xdr_int ops)))"

definition link_result_decode :: "msg_env \<Rightarrow> 's xdr_ops \<Rightarrow> ('s, ks_result list reply) decoder" where
  "link_result_decode env ops = reply_decode ops KS_ERR_OK [] (array_decode (env_alloc env) ops (ks_xdrd (xdr_int ops) 0) 0)"

definition unlink_params_encode :: "'s xdr_ops \<Rightarrow> unlink_item list \<Rightarrow> 's coder" where
  "unlink_params_encode ops items = array_encode ops (unlink_item_encode ops) items"

definition unlink_params_decode :: "alloc_env \<Rightarrow> 's xdr_ops \<Rightarrow> ('s, unlink_item list) decoder" where
  "unlink_params_decode env ops = array_decode env ops (unlink_item_decode env ops) 0"

definition unlink_result_encode :: "'s xdr_ops \<Rightarrow> ks_result list reply \<Rightarrow> 's coder" where
  "unlink_result_encode ops = reply_encode ops KS_ERR_OK (array_encode ops (ks_xdre (xdr_int ops)))"

definition unlink_result_decode :: "msg_env \<Rightarrow> 's xdr_ops \<Rightarrow> ('s, ks_result list reply) decoder" where
  "unlink_result_decode env ops = reply_decode ops KS_ERR_OK [] (array_decode (env_alloc env) ops (ks_xdrd (xdr_int ops) 0) 0)"

definition canonical_item_encode :: "'s xdr_ops \<Rightarrow> byte list reply \<Rightarrow> 's coder" where
  "canonical_item_encode ops = reply_encode ops KS_ERR_OK (string_encode ops)"

definition canonical_item_decode :: "alloc_env \<Rightarrow> 's xdr_ops \<Rightarrow> ('s, byte list reply) decoder" where
  "canonical_item_decode env ops = reply_decode ops KS_ERR_OK [] (string_decode env ops)"

definition canonical_params_encode :: "'s xdr_ops \<Rightarrow> byte list list \<Rightarrow> 's coder" where
  "canonical_params_encode ops paths = array_encode ops (string_encode ops) paths"

definition canonical_params_decode :: "alloc_env \<Rightarrow> 's xdr_ops \<Rightarrow> ('s, byte list list) decoder" where
  "canonical_params_decode env ops = array_decode env ops (string_decode env ops) 0"

definition canonical_result_encode :: "'s xdr_ops \<Rightarrow> byte list reply list reply \<Rightarrow> 's coder" where
  "canonical_result_encode ops = reply_encode ops KS_ERR_OK (array_encode ops (canonical_item_encode ops))"

definition canonical_result_decode :: "alloc_env \<Rightarrow> 's xdr_ops \<Rightarrow> ('s, byte list reply list reply) decoder" where
  "canonical_result_decode env ops = reply_decode ops KS_ERR_OK [] (array_decode env ops (canonical_item_decode env ops) 0)"

definition rename_item_encode :: "'s xdr_ops \<Rightarrow> rename_item \<Rightarrow> 's coder" where
  "rename_item_encode ops i =
     and_then (string_encode ops (rn_old_path i)) (and_then (string_encode ops (rn_new_path i)) (placement_encode ops (rn_new_place i)))"

definition rename_item_decode :: "alloc_env \<Rightarrow> 's xdr_ops \<Rightarrow> ('s, rename_item) decoder" where
  "rename_item_decode env ops =
     then_with (string_decode env ops) (\<lambda>a. then_with (string_decode env ops) (\<lambda>b. then_with (placement_decode env ops) (\<lambda>p.
       deliver \<lparr>rn_old_path = a, rn_new_path = b, rn_new_place = p\<rparr>)))"

definition rename_params_encode :: "'s xdr_ops \<Rightarrow> rename_item list \<Rightarrow> 's coder" where
  "rename_params_encode ops items = array_encode ops (rename_item_encode ops) items"

definition rename_params_decode :: "alloc_env \<Rightarrow> 's xdr_ops \<Rightarrow> ('s, rename_item list) decoder" where
  "rename_params_decode env ops = array_decode env ops (rename_item_decode env ops) 0"

definition rename_result_encode :: "'s xdr_ops \<Rightarrow> ks_result list reply \<Rightarrow> 's coder" where
  "rename_result_encode ops = reply_encode ops KS_ERR_OK (array_encode ops (ks_xdre (xdr_int ops)))"

definition rename_result_decode :: "msg_env \<Rightarrow> 's xdr_ops \<Rightarrow> ('s, ks_result list reply) decoder" where
  "rename_result_decode env ops = reply_decode ops KS_ERR_OK [] (array_decode (env_alloc env) ops (ks_xdrd (xdr_int ops) 0) 0)"

subsection \<open>Round trips\<close>

definition bytes_placement :: "placement_hint \<Rightarrow> byte list" where
  "bytes_placement p = be32 (ph_hint p) @ (if placed (ph_hint p) then bytes_string (ph_path p) else [])"

definition bytes_link_item :: "link_item \<Rightarrow> byte list" where
  "bytes_link_item i = bytes_string (li_link i) @ bytes_string (li_element i) @ bytes_placement (li_place i) @ bytes_placement (li_opposite_place i)"

definition bytes_unlink_item :: "unlink_item \<Rightarrow> byte list" where
  "bytes_unlink_item i = bytes_string (ui_link i) @ bytes_string (ui_element i)"

definition bytes_create_item :: "arch \<Rightarrow> create_item \<Rightarrow> byte list" where
  "bytes_create_item arch i = bytes_string (co_factory i) @ bytes_string (co_new_path i) @ bytes_placement (co_place i) @
     bytes_array (bytes_setvar_item arch) (co_parameters i) @ bytes_array bytes_link_item (co_links i)"

definition bytes_create_result :: "create_result \<Rightarrow> byte list" where
  "bytes_create_result = bytes_reply KS_ERR_BADINITPARAM (\<lambda>d. bytes_array be32 (fst d) @ bytes_array be32 (snd d))"

definition bytes_rename_item :: "rename_item \<Rightarrow> byte list" where
  "bytes_rename_item i = bytes_string (rn_old_path i) @ bytes_string (rn_new_path i) @ bytes_placement (rn_new_place i)"

definition placement_sendable :: "placement_hint \<Rightarrow> bool" where
  "placement_sendable p \<longleftrightarrow> (if placed (ph_hint p) then fits_string (ph_path p) else ph_path p = [])"

definition link_item_sendable :: "link_item \<Rightarrow> bool" where
  "link_item_sendable i \<longleftrightarrow> fits_string (li_link i) \<and> fits_string (li_element i) \<and> placement_sendable (li_place i) \<and>
     placement_sendable (li_opposite_place i)"

definition unlink_item_sendable :: "unlink_item \<Rightarrow> bool" where
  "unlink_item_sendable i \<longleftrightarrow> fits_string (ui_link i) \<and> fits_string (ui_element i)"

definition create_item_sendable :: "arch \<Rightarrow> create_item \<Rightarrow> bool" where
  "create_item_sendable arch i \<longleftrightarrow> fits_string (co_factory i) \<and> fits_string (co_new_path i) \<and> placement_sendable (co_place i) \<and>
     array_sendable (setvar_item_sendable arch) (co_parameters i) \<and> array_sendable link_item_sendable (co_links i)"

definition create_result_sendable :: "create_result \<Rightarrow> bool" where
  "create_result_sendable = reply_sendable KS_ERR_BADINITPARAM ([], [])
     (\<lambda>d. array_sendable (\<lambda>r. True) (fst d) \<and> array_sendable (\<lambda>r. True) (snd d))"

definition rename_item_sendable :: "rename_item \<Rightarrow> bool" where
  "rename_item_sendable i \<longleftrightarrow> fits_string (rn_old_path i) \<and> fits_string (rn_new_path i) \<and> placement_sendable (rn_new_place i)"

context byte_sink
begin

lemma writes_placement: "placement_sendable p \<Longrightarrow> writes good room written (placement_encode ops p) (bytes_placement p)"
  unfolding placement_encode_def bytes_placement_def placement_sendable_def
  by (intro writes_and writes_enum) (simp add: writes_fits writes_nothing split: if_splits)

lemma writes_link_item: "link_item_sendable i \<Longrightarrow> writes good room written (link_item_encode ops i) (bytes_link_item i)"
  unfolding link_item_encode_def bytes_link_item_def link_item_sendable_def by (intro writes_and writes_fits writes_placement) simp_all

lemma writes_unlink_item: "unlink_item_sendable i \<Longrightarrow> writes good room written (unlink_item_encode ops i) (bytes_unlink_item i)"
  unfolding unlink_item_encode_def bytes_unlink_item_def unlink_item_sendable_def by (intro writes_and writes_fits) simp_all

lemma writes_create_item: "create_item_sendable arch i \<Longrightarrow> writes good room written (create_item_encode arch ops i) (bytes_create_item arch i)"
  unfolding create_item_encode_def bytes_create_item_def create_item_sendable_def
  by (intro writes_and writes_fits writes_placement writes_sendable_array [of "setvar_item_sendable arch"] writes_sendable_array [of link_item_sendable]
      writes_setvar_item writes_link_item) simp_all

lemma writes_codes: "array_sendable (\<lambda>r. True) rs \<Longrightarrow> writes good room written (array_encode ops (ks_xdre (xdr_int ops)) rs) (bytes_array be32 rs)"
  by (erule writes_sendable_array) (rule writes_xdre [OF encodes_int])

lemma writes_create_result_item:
  "create_result_sendable r \<Longrightarrow> writes good room written (create_result_item_encode ops r) (bytes_create_result r)"
  unfolding create_result_item_encode_def bytes_create_result_def create_result_sendable_def
  by (erule writes_reply) (auto intro!: writes_and writes_codes)

lemma writes_rename_item: "rename_item_sendable i \<Longrightarrow> writes good room written (rename_item_encode ops i) (bytes_rename_item i)"
  unfolding rename_item_encode_def bytes_rename_item_def rename_item_sendable_def by (intro writes_and writes_fits writes_placement) simp_all

lemma writes_canonical_item:
  "reply_sendable KS_ERR_OK [] fits_string i \<Longrightarrow> writes good room written (canonical_item_encode ops i) (bytes_reply KS_ERR_OK bytes_string i)"
  unfolding canonical_item_encode_def by (erule writes_reply) (rule writes_fits)

end

context byte_source
begin

lemma reads_placement:
  assumes "placement_sendable p" "alloc_ok env"
  shows "reads good rest (placement_decode env ops) p (bytes_placement p)"
  unfolding placement_decode_def bytes_placement_def
proof (rule reads_then [OF reads_enum])
  show "reads good rest (if placed (ph_hint p) then then_with (string_decode env ops) (\<lambda>q. deliver \<lparr>ph_hint = ph_hint p, ph_path = q\<rparr>)
      else deliver \<lparr>ph_hint = ph_hint p, ph_path = []\<rparr>) p (if placed (ph_hint p) then bytes_string (ph_path p) else [])"
    using assms reads_map [OF reads_fits, of "ph_path p" env "\<lambda>q. deliver \<lparr>ph_hint = ph_hint p, ph_path = q\<rparr>" p]
    by (cases p; cases "placed (ph_hint p)") (simp_all add: placement_sendable_def reads_deliver)
qed

lemma reads_link_item:
  "link_item_sendable i \<Longrightarrow> alloc_ok env \<Longrightarrow> reads good rest (link_item_decode env ops) i (bytes_link_item i)"
  unfolding link_item_decode_def bytes_link_item_def link_item_sendable_def
  by (cases i; intro reads_then [OF reads_fits] reads_then [OF reads_placement] reads_map [OF reads_placement]) simp_all

lemma reads_unlink_item:
  "unlink_item_sendable i \<Longrightarrow> alloc_ok env \<Longrightarrow> reads good rest (unlink_item_decode env ops) i (bytes_unlink_item i)"
  unfolding unlink_item_decode_def bytes_unlink_item_def unlink_item_sendable_def
  by (cases i; intro reads_then [OF reads_fits] reads_map [OF reads_fits]) simp_all

lemma reads_create_item:
  assumes "create_item_sendable arch i" "env_ok env"
  shows "reads good rest (create_item_decode env arch ops) i (bytes_create_item arch i)"
  using assms unfolding create_item_decode_def bytes_create_item_def create_item_sendable_def
  by (cases i; intro reads_then [OF reads_fits] reads_then [OF reads_placement]
      reads_then [OF reads_sendable_array [of "setvar_item_sendable arch"]] reads_map [OF reads_sendable_array [of link_item_sendable]])
     (simp_all add: env_okD reads_setvar_item reads_link_item)

lemma reads_codes:
  "array_sendable (\<lambda>r. True) rs \<Longrightarrow> alloc_ok env \<Longrightarrow> reads good rest (array_decode env ops (ks_xdrd (xdr_int ops) 0) n) rs (bytes_array be32 rs)"
  by (erule reads_sendable_array) (simp_all add: reads_xdrd [OF decodes_int])

lemma reads_create_result_item:
  assumes "create_result_sendable r" and env: "env_ok env"
  shows "reads good rest (create_result_item_decode env ops) r (bytes_create_result r)"
  unfolding create_result_item_decode_def bytes_create_result_def
proof (rule reads_reply [OF assms(1) [unfolded create_result_sendable_def]])
  fix d :: "ks_result list \<times> ks_result list" assume "array_sendable (\<lambda>r. True) (fst d) \<and> array_sendable (\<lambda>r. True) (snd d)"
  then show "reads good rest (then_with (array_decode (env_alloc env) ops (ks_xdrd (xdr_int ops) 0) 0) (\<lambda>ps.
          then_with (array_decode (env_alloc env) ops (ks_xdrd (xdr_int ops) 0) 0) (\<lambda>ls. deliver (ps, ls)))) d
      (bytes_array be32 (fst d) @ bytes_array be32 (snd d))"
    by (intro reads_then [OF reads_codes] reads_map [OF reads_codes]) (simp_all add: env_okD [OF env])
qed

lemma reads_rename_item:
  "rename_item_sendable i \<Longrightarrow> alloc_ok env \<Longrightarrow> reads good rest (rename_item_decode env ops) i (bytes_rename_item i)"
  unfolding rename_item_decode_def bytes_rename_item_def rename_item_sendable_def
  by (cases i; intro reads_then [OF reads_fits] reads_map [OF reads_placement]) simp_all

lemma reads_canonical_item:
  "reply_sendable KS_ERR_OK [] fits_string i \<Longrightarrow> alloc_ok env \<Longrightarrow>
   reads good rest (canonical_item_decode env ops) i (bytes_reply KS_ERR_OK bytes_string i)"
  unfolding canonical_item_decode_def by (erule reads_reply) (rule reads_fits)

end

text \<open>
  Every object \<open>v\<close> with \<open>ok v\<close> whose representation fits in the memory for fragments is sent through a new buffered stream, which then holds
  just this representation, and received from it.
\<close>

definition transfers ::
  "mallocf \<Rightarrow> msglob \<Rightarrow> ('a \<Rightarrow> bool) \<Rightarrow> (mss xdr_ops \<Rightarrow> 'a \<Rightarrow> mss coder) \<Rightarrow> (mss xdr_ops \<Rightarrow> (mss, 'a) decoder) \<Rightarrow> ('a \<Rightarrow> byte list) \<Rightarrow> bool" where
  "transfers mal g ok e d b \<longleftrightarrow> (\<forall>v x junk. ok v \<longrightarrow> length (b v) \<le> unat (buf_size g) * pool_room g \<longrightarrow>
     (\<exists>s t u w. ms_create mal True junk (g, x) = Some (True, s) \<and> e (ms_ops mal) v s = Some (True, t) \<and> ms_written t = b v \<and>
        ms_rewind XDR_DECODE t = Some u \<and> d (ms_ops mal) u = Some (Some v, w)))"

lemma transfersI:
  assumes "pool_ok g fl" "mal_ok mal" "0 < pool_room g" "\<And>v. ok v \<Longrightarrow> writes ms_good ms_room ms_written (e (ms_ops mal) v) (b v)"
    and "\<And>v. ok v \<Longrightarrow> reads ms_rgood ms_rest (d (ms_ops mal)) v (b v)"
  shows "transfers mal g ok e d b"
  unfolding transfers_def using ms_value_roundtrip [OF assms(1,2) assms(4) assms(5) _ assms(3)] by blast

context byte_sink
begin

text \<open>The messages that are an array.\<close>

lemmas writes_arrays = writes_strings writes_sendable_array [OF _ writes_setvar_item] writes_sendable_array [OF _ writes_link_item]
  writes_sendable_array [OF _ writes_unlink_item] writes_sendable_array [OF _ writes_create_item] writes_sendable_array [OF _ writes_rename_item]

lemma writes_code_reply:
  "reply_sendable KS_ERR_OK [] (array_sendable (\<lambda>r. True)) r \<Longrightarrow>
   writes good room written (reply_encode ops KS_ERR_OK (array_encode ops (ks_xdre (xdr_int ops))) r) (bytes_reply KS_ERR_OK (bytes_array be32) r)"
  by (erule writes_reply) (rule writes_codes)

lemma writes_create_result:
  "reply_sendable KS_ERR_OK [] (array_sendable create_result_sendable) r \<Longrightarrow>
   writes good room written (create_result_encode ops r) (bytes_reply KS_ERR_OK (bytes_array bytes_create_result) r)"
  unfolding create_result_encode_def by (erule writes_reply, erule writes_sendable_array, erule writes_create_result_item)

lemma writes_canonical_result:
  "reply_sendable KS_ERR_OK [] (array_sendable (reply_sendable KS_ERR_OK [] fits_string)) r \<Longrightarrow>
   writes good room written (canonical_result_encode ops r) (bytes_reply KS_ERR_OK (bytes_array (bytes_reply KS_ERR_OK bytes_string)) r)"
  unfolding canonical_result_encode_def by (erule writes_reply, erule writes_sendable_array, erule writes_canonical_item)

end

context byte_source
begin

lemma reads_code_reply:
  assumes "reply_sendable KS_ERR_OK [] (array_sendable (\<lambda>r. True)) r" "env_ok env"
  shows "reads good rest (reply_decode ops KS_ERR_OK [] (array_decode (env_alloc env) ops (ks_xdrd (xdr_int ops) 0) 0)) r
    (bytes_reply KS_ERR_OK (bytes_array be32) r)"
  by (rule reads_reply [OF assms(1)], erule reads_codes, rule env_okD [OF assms(2)])

lemma reads_create_result:
  assumes "reply_sendable KS_ERR_OK [] (array_sendable create_result_sendable) r" "env_ok env"
  shows "reads good rest (create_result_decode env ops) r (bytes_reply KS_ERR_OK (bytes_array bytes_create_result) r)"
  unfolding create_result_decode_def
  by (rule reads_reply [OF assms(1)], erule reads_sendable_array, rule env_okD [OF assms(2)], erule reads_create_result_item [OF _ assms(2)])

lemma reads_canonical_result:
  assumes "reply_sendable KS_ERR_OK [] (array_sendable (reply_sendable KS_ERR_OK [] fits_string)) r" "alloc_ok env"
  shows "reads good rest (canonical_result_decode env ops) r (bytes_reply KS_ERR_OK (bytes_array (bytes_reply KS_ERR_OK bytes_string)) r)"
  unfolding canonical_result_decode_def
  by (rule reads_reply [OF assms(1)], erule reads_sendable_array [OF _ assms(2)], erule reads_canonical_item [OF _ assms(2)])

end

lemmas plain_messages =
    getvar_params_encode_def getvar_params_decode_def setvar_params_encode_def setvar_params_decode_def create_params_encode_def
    create_params_decode_def delete_params_encode_def delete_params_decode_def link_params_encode_def link_params_decode_def
    unlink_params_encode_def unlink_params_decode_def canonical_params_encode_def canonical_params_decode_def rename_params_encode_def
    rename_params_decode_def delete_result_encode_def delete_result_decode_def link_result_encode_def link_result_decode_def
    unlink_result_encode_def unlink_result_decode_def rename_result_encode_def rename_result_decode_def

lemmas message_writes =
  byte_sink.writes_getpp_params byte_sink.writes_getpp_result byte_sink.writes_getep_params byte_sink.writes_getep_result
  byte_sink.writes_getvar_result byte_sink.writes_setvar_result byte_sink.writes_exgdata_params byte_sink.writes_exgdata_result
  byte_sink.writes_arrays byte_sink.writes_code_reply byte_sink.writes_create_result byte_sink.writes_canonical_result

lemmas message_reads =
  msr.reads_getpp_result msr.reads_getep_result msr.reads_getvar_result msr.reads_setvar_result msr.reads_exgdata_params
  msr.reads_exgdata_result msr.reads_code_reply msr.reads_create_result

lemmas message_reads_plain = msr.reads_getpp_params msr.reads_getep_params msr.reads_strings msr.reads_canonical_result

lemma array_reads:
  assumes "env_ok env"
  shows "array_sendable (setvar_item_sendable arch) a \<Longrightarrow>
      reads ms_rgood ms_rest (array_decode (env_alloc env) (ms_ops mal) (setvar_item_decode env arch (ms_ops mal)) 0) a (bytes_array (bytes_setvar_item arch) a)"
    and "array_sendable (create_item_sendable arch) b \<Longrightarrow>
      reads ms_rgood ms_rest (array_decode (env_alloc env) (ms_ops mal) (create_item_decode env arch (ms_ops mal)) 0) b (bytes_array (bytes_create_item arch) b)"
    and "array_sendable link_item_sendable c \<Longrightarrow>
      reads ms_rgood ms_rest (array_decode (env_alloc env) (ms_ops mal) (link_item_decode (env_alloc env) (ms_ops mal)) 0) c (bytes_array bytes_link_item c)"
    and "array_sendable unlink_item_sendable d \<Longrightarrow>
      reads ms_rgood ms_rest (array_decode (env_alloc env) (ms_ops mal) (unlink_item_decode (env_alloc env) (ms_ops mal)) 0) d (bytes_array bytes_unlink_item d)"
    and "array_sendable rename_item_sendable e \<Longrightarrow>
      reads ms_rgood ms_rest (array_decode (env_alloc env) (ms_ops mal) (rename_item_decode (env_alloc env) (ms_ops mal)) 0) e (bytes_array bytes_rename_item e)"
  by (erule msr.reads_sendable_array,
      simp_all add: msr.env_okD [OF assms] msr.reads_setvar_item msr.reads_create_item msr.reads_link_item msr.reads_unlink_item msr.reads_rename_item assms)+

text \<open>
  C37. The parameters and results of the base services (browsing the objects, reading and writing variables, exchange of data) reach
  another program of the same platform unchanged through a buffered stream, with the properties and values inside them; a result that
  reports an error arrives as that error and nothing else. The values are of any type, but on \<open>X64\<close> a number of type \<open>double\<close> only if its
  halves are equal (\<open>curr_sendable\<close>, C10).
\<close>

theorem service_messages_roundtrip:
  assumes "pool_ok g fl" "mal_ok mal" "0 < pool_room g" "env_ok env"
  shows "transfers mal g getpp_params_sendable getpp_params_encode (getpp_params_decode (env_alloc env)) bytes_getpp_params \<and>
    transfers mal g (reply_sendable KS_ERR_OK [] (array_sendable (handle_sendable v1_sendable))) getpp_result_encode (getpp_result_decode env)
      (bytes_reply KS_ERR_OK (bytes_array (bytes_handle bytes_v1))) \<and>
    transfers mal g getep_params_sendable getep_params_encode (getep_params_decode (env_alloc env)) bytes_getep_params \<and>
    transfers mal g (reply_sendable KS_ERR_OK [] (array_sendable (handle_sendable eng_sendable))) getep_result_encode (getep_result_decode env)
      (bytes_reply KS_ERR_OK (bytes_array (bytes_handle bytes_eng))) \<and>
    transfers mal g (array_sendable fits_string) getvar_params_encode (getvar_params_decode (env_alloc env))
      bytes_strings \<and>
    transfers mal g (reply_sendable KS_ERR_OK [] (array_sendable (var_item_sendable arch))) (getvar_result_encode arch) (getvar_result_decode env arch)
      (bytes_reply KS_ERR_OK (bytes_array (bytes_var_item arch))) \<and>
    transfers mal g (array_sendable (setvar_item_sendable arch)) (setvar_params_encode arch) (setvar_params_decode env arch)
      (bytes_array (bytes_setvar_item arch)) \<and>
    transfers mal g (reply_sendable KS_ERR_OK [] (array_sendable (\<lambda>r. True))) setvar_result_encode (setvar_result_decode env)
      (bytes_reply KS_ERR_OK (bytes_array be32)) \<and>
    transfers mal g (exgdata_params_sendable arch) (exgdata_params_encode arch) (exgdata_params_decode env arch)
      (bytes_exgdata_params arch) \<and>
    transfers mal g (reply_sendable KS_ERR_OK ([], []) (exgdata_sendable arch)) (exgdata_result_encode arch) (exgdata_result_decode env arch)
      (bytes_reply KS_ERR_OK (bytes_exgdata arch))"
proof -
  note wr = message_writes [OF ms_sink [OF assms(2)]] and env = msr.env_okD(1) [OF assms(4)]
  note rd = message_reads [OF _ assms(4)] message_reads_plain [OF _ env] array_reads [OF assms(4)]
  show ?thesis
    by (intro conjI; rule transfersI [OF assms(1-3)]; (unfold plain_messages)?; (erule wr | erule rd))
qed

definition unlimited_env :: msg_env where
  "unlimited_env = \<lparr>env_alloc = unlimited, env_bind = True, env_node = True\<rparr>"

lemma unlimited_env_ok: "env_ok unlimited_env"
  by (simp add: unlimited_env_def env_ok_def unlimited_ok)

lemma two_free_pool: "pool_ok two_free [1, 2]" "0 < pool_room two_free"
  by (simp_all add: two_free_def two_frags_def pool_ok_def blocks_def pool_room_def)

definition roomy_pool :: msglob where
  "roomy_pool = two_free\<lparr>fragment_quota := 99\<rparr>"

lemma roomy_pool_ok: "pool_ok roomy_pool [1, 2]" "0 < pool_room roomy_pool" "unat (buf_size roomy_pool) * pool_room roomy_pool = 792"
  by (simp_all add: roomy_pool_def two_free_def two_frags_def pool_ok_def blocks_def pool_room_def)

text \<open>The answer to a request for two variables, of which the second does not exist; on \<open>X64\<close>.\<close>

definition some_props :: curr_props where
  "some_props = VarCurrProps (Some (StringVecValue [[75, 83], []])) \<lparr>tv_sec = 1000, tv_usec = 5\<rparr> 1"

lemma some_props_ok: "curr_sendable arch some_props" "length (bytes_curr arch some_props) = 36"
  by (simp_all add: some_props_def time_sendable_def time_invariant_def bytes_value_def bytes_array_def bytes_string_def padded_def pad_len_def
      bytes_time_def)

definition getvar_answer :: "var_item list reply" where
  "getvar_answer = \<lparr>rp_result = KS_ERR_OK,
     rp_data = [\<lparr>rp_result = KS_ERR_OK, rp_data = Some some_props\<rparr>, \<lparr>rp_result = KS_ERR_BADPATH, rp_data = None\<rparr>]\<rparr>"

theorem service_messages_roundtrip_witness:
  "\<exists>s t u w. ms_create mal_lowest True 0 (roomy_pool, on_frag 1 0) = Some (True, s) \<and>
     getvar_result_encode X64 (ms_ops mal_lowest) getvar_answer s = Some (True, t) \<and>
     ms_written t = be32 0 @ be32 2 @ be32 0 @ bytes_curr X64 some_props @ be32 0x11 \<and> ms_rewind XDR_DECODE t = Some u \<and>
     getvar_result_decode unlimited_env X64 (ms_ops mal_lowest) u = Some (Some getvar_answer, w)"
proof -
  let ?b = "bytes_reply KS_ERR_OK (bytes_array (bytes_var_item X64))"
  have "transfers mal_lowest roomy_pool (reply_sendable KS_ERR_OK [] (array_sendable (var_item_sendable X64))) (getvar_result_encode X64)
      (getvar_result_decode unlimited_env X64) ?b"
    using service_messages_roundtrip [OF roomy_pool_ok(1) mal_lowest_ok roomy_pool_ok(2) unlimited_env_ok, of X64] by (elim conjE)
  moreover have "reply_sendable KS_ERR_OK [] (array_sendable (var_item_sendable X64)) getvar_answer"
    by (simp add: getvar_answer_def reply_sendable_def array_sendable_def var_item_sendable_def handle_sendable_def some_props_ok ks_result_defs)
  moreover have b: "?b getvar_answer = be32 0 @ be32 2 @ be32 0 @ bytes_curr X64 some_props @ be32 0x11"
    by (simp add: getvar_answer_def bytes_reply_def bytes_array_def bytes_var_item_def bytes_handle_def ks_result_defs)
  moreover have "length (?b getvar_answer) \<le> unat (buf_size roomy_pool) * pool_room roomy_pool"
    unfolding b roomy_pool_ok(3) by (simp add: some_props_ok)
  ultimately show ?thesis unfolding transfers_def by metis
qed

text \<open>
  C39. The same holds, on each platform, for the services that create, delete, link, unlink and rename objects and ask for canonical paths;
  an error in the initialisation of an object carries the results for its parameters and links. The values among the initial parameters
  of an object are restricted on \<open>X64\<close> as in C37.
\<close>

theorem object_messages_roundtrip:
  assumes "pool_ok g fl" "mal_ok mal" "0 < pool_room g" "env_ok env"
  shows "transfers mal g (array_sendable (create_item_sendable arch)) (create_params_encode arch) (create_params_decode env arch)
      (bytes_array (bytes_create_item arch)) \<and>
    transfers mal g (reply_sendable KS_ERR_OK [] (array_sendable create_result_sendable)) create_result_encode (create_result_decode env)
      (bytes_reply KS_ERR_OK (bytes_array bytes_create_result)) \<and>
    transfers mal g (array_sendable fits_string) delete_params_encode (delete_params_decode (env_alloc env))
      bytes_strings \<and>
    transfers mal g (reply_sendable KS_ERR_OK [] (array_sendable (\<lambda>r. True))) delete_result_encode (delete_result_decode env)
      (bytes_reply KS_ERR_OK (bytes_array be32)) \<and>
    transfers mal g (array_sendable link_item_sendable) link_params_encode (link_params_decode (env_alloc env))
      (bytes_array bytes_link_item) \<and>
    transfers mal g (reply_sendable KS_ERR_OK [] (array_sendable (\<lambda>r. True))) link_result_encode (link_result_decode env)
      (bytes_reply KS_ERR_OK (bytes_array be32)) \<and>
    transfers mal g (array_sendable unlink_item_sendable) unlink_params_encode (unlink_params_decode (env_alloc env))
      (bytes_array bytes_unlink_item) \<and>
    transfers mal g (reply_sendable KS_ERR_OK [] (array_sendable (\<lambda>r. True))) unlink_result_encode (unlink_result_decode env)
      (bytes_reply KS_ERR_OK (bytes_array be32)) \<and>
    transfers mal g (array_sendable fits_string) canonical_params_encode (canonical_params_decode (env_alloc env))
      bytes_strings \<and>
    transfers mal g (reply_sendable KS_ERR_OK [] (array_sendable (reply_sendable KS_ERR_OK [] fits_string))) canonical_result_encode (canonical_result_decode (env_alloc env))
      (bytes_reply KS_ERR_OK (bytes_array (bytes_reply KS_ERR_OK bytes_string))) \<and>
    transfers mal g (array_sendable rename_item_sendable) rename_params_encode (rename_params_decode (env_alloc env))
      (bytes_array bytes_rename_item) \<and>
    transfers mal g (reply_sendable KS_ERR_OK [] (array_sendable (\<lambda>r. True))) rename_result_encode (rename_result_decode env)
      (bytes_reply KS_ERR_OK (bytes_array be32))"
proof -
  note wr = message_writes [OF ms_sink [OF assms(2)]] and env = msr.env_okD(1) [OF assms(4)]
  note rd = message_reads [OF _ assms(4)] message_reads_plain [OF _ env] array_reads [OF assms(4)]
  show ?thesis
    by (intro conjI; rule transfersI [OF assms(1-3)]; (unfold plain_messages)?; (erule wr | erule rd))
qed

text \<open>The creation of an object behind a sister, with an initial value and a link; on \<open>X64\<close>.\<close>

definition some_creation :: create_item where
  "some_creation = \<lparr>co_factory = [70], co_new_path = [47, 97], co_place = \<lparr>ph_hint = KS_PMH_AFTER, ph_path = [47, 98]\<rparr>,
     co_parameters = [\<lparr>si_path = [46, 118], si_props = Some some_props\<rparr>],
     co_links = [\<lparr>li_link = [46, 108], li_element = [47, 101], li_place = \<lparr>ph_hint = 1, ph_path = []\<rparr>,
       li_opposite_place = \<lparr>ph_hint = KS_PMH_AFTER, ph_path = [47, 99]\<rparr>\<rparr>]\<rparr>"

theorem object_messages_roundtrip_witness:
  "\<exists>s t u w. ms_create mal_lowest True 0 (roomy_pool, on_frag 1 0) = Some (True, s) \<and>
     create_params_encode X64 (ms_ops mal_lowest) [some_creation] s = Some (True, t) \<and>
     ms_written t = be32 1 @ bytes_create_item X64 some_creation \<and> ms_rewind XDR_DECODE t = Some u \<and>
     create_params_decode unlimited_env X64 (ms_ops mal_lowest) u = Some (Some [some_creation], w)"
proof -
  have "transfers mal_lowest roomy_pool (array_sendable (create_item_sendable X64)) (create_params_encode X64) (create_params_decode unlimited_env X64)
      (bytes_array (bytes_create_item X64))"
    using object_messages_roundtrip [OF roomy_pool_ok(1) mal_lowest_ok roomy_pool_ok(2) unlimited_env_ok, of X64] by (elim conjE)
  moreover have "create_item_sendable X64 some_creation"
    by (simp add: some_creation_def create_item_sendable_def placement_sendable_def placed_def setvar_item_sendable_def link_item_sendable_def
        array_sendable_def handle_sendable_def fits_string_def some_props_ok KS_PMH_BEFORE_def KS_PMH_AFTER_def)
  then have "array_sendable (create_item_sendable X64) [some_creation]" by (simp add: array_sendable_def)
  moreover have b: "bytes_array (bytes_create_item X64) [some_creation] = be32 1 @ bytes_create_item X64 some_creation"
    by (simp add: bytes_array_def)
  moreover have "length (bytes_array (bytes_create_item X64) [some_creation]) \<le> unat (buf_size roomy_pool) * pool_room roomy_pool"
    unfolding b roomy_pool_ok(3)
    by (simp add: some_creation_def bytes_create_item_def bytes_placement_def bytes_setvar_item_def bytes_link_item_def placed_def bytes_array_def
        bytes_handle_def bytes_string_def padded_def pad_len_def some_props_ok KS_PMH_BEFORE_def KS_PMH_AFTER_def)
  ultimately show ?thesis unfolding transfers_def by metis
qed

end
