(* ===== verification/KsObjects.thy ===== *)
theory KsObjects
  imports KsPath KsMask KsManager KsProps
begin

text \<open>
  The communication objects of a server (ks/include/ks/svrobjects.h, ks/src/svrobjects.cpp) and the simple classes that keep their
  data in memory (ks/include/ks/svrsimpleobjects.h, ks/src/svrsimpleobjects.cpp): domains, variables, the variable that tells the time, and links
  that are an alias of a domain. Histories have no simple class.

  Objects live at addresses, 0 is the unbound handle. The virtual functions of a class are functions by cases of the class. Objects
  no handle refers to any more stay in the store, nothing can see them. A chain of sister domains that is a cycle makes the functions
  that follow it run forever: they are partial. \<open>avail\<close> tells which allocations succeed, \<open>now\<close> is the time.
\<close>

subsection \<open>The objects\<close>

record comm_object =
  co_identifier :: "byte list"
  co_creation_time :: timeval
  co_comment :: "byte list"
  co_semantic_flags :: u32

record simple_domain =
  dom_object :: comm_object
  dom_children :: "(byte list, nat) htab"
  dom_next_sister :: nat
  dom_class_identifier :: "byte list"

record simple_variable =
  var_object :: comm_object
  var_access_mode :: u32
  var_tech_unit :: "byte list"
  var_value :: "ks_value option"
  var_time :: timeval
  var_state :: u32

record link_alias =
  alias_object :: comm_object
  alias_domain :: nat
  alias_path :: "byte list"

datatype kss_object =
    SimpleDomain simple_domain
  | SimpleVariable simple_variable
  | TimeNowVariable comm_object
  | SimpleLinkAlias link_alias

type_synonym store = "nat \<rightharpoonup> kss_object"

definition KS_AC_NONE :: u32 where "KS_AC_NONE = 0"
definition KS_AC_READ :: u32 where "KS_AC_READ = 1"
definition KS_AC_WRITE :: u32 where "KS_AC_WRITE = 2"
definition KS_AC_READWRITE :: u32 where "KS_AC_READWRITE = KS_AC_READ OR KS_AC_WRITE"
definition KS_ST_UNKNOWN :: u32 where "KS_ST_UNKNOWN = 1"
definition KS_ST_GOOD :: u32 where "KS_ST_GOOD = 4"
definition KS_VT_VOID :: u32 where "KS_VT_VOID = 0"
definition KS_LT_LOCAL_1_MANY :: u32 where "KS_LT_LOCAL_1_MANY = 2"

lemmas ks_object_consts = KS_AC_NONE_def KS_AC_READ_def KS_AC_WRITE_def KS_AC_READWRITE_def KS_ST_UNKNOWN_def KS_ST_GOOD_def
  KS_VT_VOID_def KS_LT_LOCAL_1_MANY_def

fun typeCode :: "kss_object \<Rightarrow> u32" where
  "typeCode (SimpleDomain _) = KS_OT_DOMAIN"
| "typeCode (SimpleVariable _) = KS_OT_VARIABLE"
| "typeCode (TimeNowVariable _) = KS_OT_VARIABLE"
| "typeCode (SimpleLinkAlias _) = KS_OT_LINK"

text \<open>The part every simple object has.\<close>

fun common_part :: "kss_object \<Rightarrow> comm_object" where
  "common_part (SimpleDomain d) = dom_object d"
| "common_part (SimpleVariable v) = var_object v"
| "common_part (TimeNowVariable t) = t"
| "common_part (SimpleLinkAlias l) = alias_object l"

abbreviation identifier_of :: "kss_object \<Rightarrow> byte list" where
  "identifier_of o' \<equiv> co_identifier (common_part o')"

fun getComment :: "kss_object \<Rightarrow> byte list" where
  "getComment (TimeNowVariable _) = [0x63, 0x75, 0x72, 0x72, 0x65, 0x6E, 0x74, 0x20, 0x74, 0x69, 0x6D, 0x65]"
| "getComment ob = co_comment (common_part ob)"

fun getAccessMode :: "kss_object \<Rightarrow> u32" where
  "getAccessMode (SimpleVariable v) = var_access_mode v"
| "getAccessMode _ = KS_AC_READ"

subsection \<open>Children\<close>

text \<open>Names are compared with \<open>strcmp\<close>, so the keys of a table are the strings up to the first null character.\<close>

partial_function (option) getChildById :: "bool \<Rightarrow> store \<Rightarrow> nat \<Rightarrow> byte list \<Rightarrow> nat option" where
  "getChildById sg H a i =
     (case H a of
        Some (SimpleDomain d) \<Rightarrow>
          do { r \<leftarrow> ht_query (string_hash sg) (cstr i) (dom_children d);
               case r of Some h \<Rightarrow> Some h
               | None \<Rightarrow> if dom_next_sister d \<noteq> 0 then getChildById sg H (dom_next_sister d) i else Some 0 }
      | Some (SimpleLinkAlias l) \<Rightarrow> getChildById sg H (alias_domain l) i
      | _ \<Rightarrow> None)"

lemma getTail_size: "valid p \<Longrightarrow> path_size p \<noteq> 1 \<Longrightarrow> path_size (getTail p) = path_size p - 1"
  by (auto simp: getTail_def sub_path_def path_size_def)

lemma path_size_pos: "valid p \<Longrightarrow> 0 < path_size p"
  by (simp add: path_size_def)

function getChildByPath :: "bool \<Rightarrow> store \<Rightarrow> nat \<Rightarrow> kspath \<Rightarrow> nat option" where
  "getChildByPath sg H a p =
     (if \<not> valid p then None
      else do {
        hc \<leftarrow> getChildById sg H a (getHead p);
        if hc = 0 then Some 0
        else if path_size p = 1 then Some hc
        else case H hc of
            Some (SimpleDomain _) \<Rightarrow> getChildByPath sg H hc (getTail p)
          | Some (SimpleLinkAlias l) \<Rightarrow> getChildByPath sg H (alias_domain l) (getTail p)
          | Some _ \<Rightarrow> Some 0
          | None \<Rightarrow> None })"
  by auto
termination
  by (relation "measure (\<lambda>(sg, H, a, p). path_size p)")
     (auto simp: getTail_size dest: path_size_pos)

declare getChildByPath.simps [simp del]

text \<open>The iterator of a simple domain: the children left in its own table, the iterator of the sister, and whether that one is in use.\<close>

datatype dom_iter = DomIter "nat list" "dom_iter option" bool

definition own_children :: "(byte list, nat) htab \<Rightarrow> nat list" where
  "own_children t = map snd (assocs (ht_iterate t (ht_toStart t)))"

partial_function (option) newIterator :: "store \<Rightarrow> nat \<Rightarrow> dom_iter option" where
  "newIterator H a =
     (case H a of
        Some (SimpleDomain d) \<Rightarrow>
          if dom_next_sister d \<noteq> 0
          then do { s \<leftarrow> newIterator H (dom_next_sister d); Some (DomIter (own_children (dom_children d)) (Some s) False) }
          else Some (DomIter (own_children (dom_children d)) None False)
      | Some (SimpleLinkAlias l) \<Rightarrow> newIterator H (alias_domain l)
      | _ \<Rightarrow> None)"

fun iter_valid :: "dom_iter \<Rightarrow> bool" where
  "iter_valid (DomIter own (Some s) True) = iter_valid s"
| "iter_valid (DomIter own s q) = (own \<noteq> [])"

fun iter_deref :: "dom_iter \<Rightarrow> nat" where
  "iter_deref (DomIter own (Some s) True) = iter_deref s"
| "iter_deref (DomIter own s q) = hd own"

fun iter_next :: "dom_iter \<Rightarrow> dom_iter" where
  "iter_next (DomIter own (Some s) True) = DomIter own (Some (iter_next s)) True"
| "iter_next (DomIter own s q) = DomIter (tl own) s (if tl own = [] then True else q)"

fun iter_left :: "dom_iter \<Rightarrow> nat" where
  "iter_left (DomIter own s q) = length own + (case s of None \<Rightarrow> 0 | Some s \<Rightarrow> iter_left s)"

lemma iter_next_left: "iter_valid it \<Longrightarrow> iter_left (iter_next it) < iter_left it"
  by (induction it rule: iter_valid.induct) auto

text \<open>The handles a whole iteration delivers.\<close>

function iter_children :: "dom_iter \<Rightarrow> nat list" where
  "iter_children it = (if iter_valid it then iter_deref it # iter_children (iter_next it) else [])"
  by auto
termination by (relation "measure iter_left") (auto simp: iter_next_left)

declare iter_children.simps [simp del]

text \<open>The masked iterator over the handles of another one; a null handle is no match.\<close>

fun skip_children :: "store \<Rightarrow> byte list \<Rightarrow> u32 \<Rightarrow> nat list \<Rightarrow> nat list option" where
  "skip_children H pat types [] = Some []"
| "skip_children H pat types (h # hs) =
     (if h = 0 then skip_children H pat types hs
      else do {
        ob \<leftarrow> H h;
        if typeCode ob AND types \<noteq> 0
        then do { r \<leftarrow> matches pat (identifier_of ob); if r = 1 then Some (h # hs) else skip_children H pat types hs }
        else skip_children H pat types hs })"

lemma skip_children_shorter: "skip_children H pat types hs = Some hs' \<Longrightarrow> length hs' \<le> length hs"
  by (induction hs) (auto simp: bind_eq_Some_conv le_SucI split: if_splits)

function masked_iteration :: "store \<Rightarrow> byte list \<Rightarrow> u32 \<Rightarrow> nat list \<Rightarrow> nat list option" where
  "masked_iteration H pat types hs =
     do { hs \<leftarrow> skip_children H pat types hs;
          case hs of [] \<Rightarrow> Some [] | h # hs \<Rightarrow> do { r \<leftarrow> masked_iteration H pat types hs; Some (h # r) } }"
  by auto
termination by (relation "measure (\<lambda>(H, pat, types, hs). length hs)") (auto dest: skip_children_shorter)

declare masked_iteration.simps [simp del]

text \<open>\<open>newMaskedIterator\<close> and the iteration with it; without memory for the iterators there is none.\<close>

definition masked_children_of :: "bool \<Rightarrow> store \<Rightarrow> nat \<Rightarrow> byte list \<Rightarrow> u32 \<Rightarrow> nat list option option" where
  "masked_children_of avail H a pat types =
     (if \<not> avail then Some None
      else do { it \<leftarrow> newIterator H a; hs \<leftarrow> masked_iteration H pat types (iter_children it); Some (Some hs) })"

subsection \<open>Changing the children\<close>

text \<open>The handles of the arguments are bound. An object already known by the name stays.\<close>

definition addChild :: "bool \<Rightarrow> bool \<Rightarrow> bool \<Rightarrow> nat \<Rightarrow> nat \<Rightarrow> store \<Rightarrow> (bool \<times> store) option" where
  "addChild sg avail0 avail1 a h H =
     (if h = 0 then Some (False, H)
      else case (H a, H h) of
        (Some (SimpleDomain d), Some ob) \<Rightarrow>
          do { (ok, t) \<leftarrow> ht_add (string_hash sg) avail0 avail1 (cstr (identifier_of ob)) h (dom_children d);
               Some (ok, H(a \<mapsto> SimpleDomain (d\<lparr>dom_children := t\<rparr>))) }
      | _ \<Rightarrow> None)"

definition removeChild :: "bool \<Rightarrow> bool \<Rightarrow> nat \<Rightarrow> byte list \<Rightarrow> store \<Rightarrow> (nat \<times> store) option" where
  "removeChild sg avail a i H =
     (case H a of
        Some (SimpleDomain d) \<Rightarrow>
          do { (r, t) \<leftarrow> ht_remove (string_hash sg) avail (cstr i) (dom_children d);
               Some (case r of None \<Rightarrow> 0 | Some h \<Rightarrow> h, H(a \<mapsto> SimpleDomain (d\<lparr>dom_children := t\<rparr>))) }
      | _ \<Rightarrow> None)"

definition setNextSister :: "nat \<Rightarrow> nat \<Rightarrow> store \<Rightarrow> store option" where
  "setNextSister a s H =
     (case H a of Some (SimpleDomain d) \<Rightarrow> Some (H(a \<mapsto> SimpleDomain (d\<lparr>dom_next_sister := s\<rparr>))) | _ \<Rightarrow> None)"

subsection \<open>Engineered properties\<close>

fun getType :: "kss_object \<Rightarrow> u32" where
  "getType (SimpleVariable v) = (case var_value v of None \<Rightarrow> KS_VT_VOID | Some x \<Rightarrow> xdrTypeCode x)"
| "getType (TimeNowVariable _) = xdrTypeCode (TimeValue \<lparr>tv_sec = 0, tv_usec = 0\<rparr>)"
| "getType _ = KS_LT_LOCAL_1_MANY"

fun variant_part :: "kss_object \<Rightarrow> eng_variant" where
  "variant_part (SimpleDomain d) = DomainEngProps (dom_class_identifier d)"
| "variant_part (SimpleVariable v) = VarEngProps (var_tech_unit v) (getType (SimpleVariable v))"
| "variant_part (TimeNowVariable t) = VarEngProps [0x55, 0x54, 0x43] (getType (TimeNowVariable t))"
| "variant_part (SimpleLinkAlias l) = LinkEngProps (getType (SimpleLinkAlias l)) [] []"

text \<open>The handle is unbound when there is no memory for the properties.\<close>

definition object_getEP :: "bool \<Rightarrow> kss_object \<Rightarrow> eng_props option" where
  "object_getEP avail ob =
     (if avail
      then Some \<lparr>ep_identifier = identifier_of ob, ep_creation_time = co_creation_time (common_part ob), ep_comment = getComment ob,
                 ep_access_mode = getAccessMode ob, ep_semantic_flags = co_semantic_flags (common_part ob), ep_variant = variant_part ob\<rparr>
      else None)"

subsection \<open>Current properties\<close>

definition isWriteable :: "simple_variable \<Rightarrow> bool" where
  "isWriteable v \<longleftrightarrow> var_access_mode v AND KS_AC_WRITE \<noteq> 0"

definition lock :: "simple_variable \<Rightarrow> simple_variable" where
  "lock v = v\<lparr>var_access_mode := var_access_mode v AND NOT KS_AC_WRITE\<rparr>"

definition unlock :: "simple_variable \<Rightarrow> simple_variable" where
  "unlock v = v\<lparr>var_access_mode := var_access_mode v OR KS_AC_WRITE\<rparr>"

definition setValue :: "ks_value option \<Rightarrow> simple_variable \<Rightarrow> ks_result \<times> simple_variable" where
  "setValue x v = (if isWriteable v then (KS_ERR_OK, v\<lparr>var_value := x\<rparr>) else (KS_ERR_NOACCESS, v))"

definition setTime :: "timeval \<Rightarrow> simple_variable \<Rightarrow> ks_result \<times> simple_variable" where
  "setTime t v = (if isWriteable v then (KS_ERR_OK, v\<lparr>var_time := t\<rparr>) else (KS_ERR_NOACCESS, v))"

definition setState :: "u32 \<Rightarrow> simple_variable \<Rightarrow> ks_result \<times> simple_variable" where
  "setState st v = (if isWriteable v then (KS_ERR_OK, v\<lparr>var_state := st\<rparr>) else (KS_ERR_NOACCESS, v))"

definition new_variable :: "timeval \<Rightarrow> byte list \<Rightarrow> timeval \<Rightarrow> byte list \<Rightarrow> simple_variable" where
  "new_variable now i ctime comment =
     \<lparr>var_object = \<lparr>co_identifier = i, co_creation_time = ctime, co_comment = comment, co_semantic_flags = 0\<rparr>,
      var_access_mode = KS_AC_READ OR KS_AC_WRITE, var_tech_unit = [], var_value = None, var_time = now, var_state = KS_ST_UNKNOWN\<rparr>"

text \<open>\<open>KssVariable::setCurrProps\<close>; the time and the variables of a link alias cannot be set.\<close>

fun setCurrProps :: "curr_props option \<Rightarrow> kss_object \<Rightarrow> ks_result \<times> kss_object" where
  "setCurrProps (Some (VarCurrProps x t st)) (SimpleVariable v) =
     (let (res, w) = setValue x v
      in (res, SimpleVariable (if res = KS_ERR_OK then snd (setState st (snd (setTime t w))) else w)))"
| "setCurrProps (Some (VarCurrProps x t st)) (TimeNowVariable c) = (KS_ERR_NOACCESS, TimeNowVariable c)"
| "setCurrProps hprops (SimpleLinkAlias l) = (KS_ERR_NOACCESS, SimpleLinkAlias l)"
| "setCurrProps hprops ob = (KS_ERR_BADTYPE, ob)"

text \<open>The names of the children, in a list whose nodes need memory.\<close>

fun collect_names :: "(nat \<Rightarrow> bool) \<Rightarrow> store \<Rightarrow> nat \<Rightarrow> nat list \<Rightarrow> byte list list option option" where
  "collect_names avail H k [] = Some (Some [])"
| "collect_names avail H k (h # hs) =
     (if \<not> avail k then Some None
      else do { ob \<leftarrow> H h; r \<leftarrow> collect_names avail H (k + 1) hs; Some (map_option ((#) (identifier_of ob)) r) })"

definition alias_name :: "link_alias \<Rightarrow> byte list \<Rightarrow> byte list" where
  "alias_name l i = (if length (alias_path l) \<noteq> 0 then concat2 (concat2 (alias_path l) [0x2F]) i else i)"

text \<open>\<open>getCurrProps\<close> stores the properties in the handle it is given, \<open>hprops\<close> before the call; a link alias leaves it when it fails.\<close>

definition alias_getCurrProps ::
  "(nat \<Rightarrow> bool) \<Rightarrow> timeval \<Rightarrow> store \<Rightarrow> link_alias \<Rightarrow> curr_props option \<Rightarrow> (ks_result \<times> curr_props option) option" where
  "alias_getCurrProps avail now H l hprops =
     (if \<not> avail 0 then Some (KS_ERR_GENERIC, hprops)
      else do {
        it \<leftarrow> newIterator H (alias_domain l);
        names \<leftarrow> collect_names avail H 4 (iter_children it);
        Some (case names of
            None \<Rightarrow> (KS_ERR_GENERIC, hprops)
          | Some ns \<Rightarrow>
              if ns \<noteq> [] \<and> \<not> avail 1 \<or> \<not> avail 2 then (KS_ERR_GENERIC, hprops)
              else if \<not> avail 3 then (KS_ERR_GENERIC, hprops)
              else (KS_ERR_OK, Some (VarCurrProps (Some (StringVecValue (map (alias_name l) ns))) now KS_ST_GOOD))) })"

text \<open>\<open>KssVariable::getCurrProps\<close> through the default of \<open>KssCurrPropsService\<close>.\<close>

definition var_getCurrProps :: "bool \<Rightarrow> ks_value option \<Rightarrow> timeval \<Rightarrow> u32 \<Rightarrow> ks_result \<times> curr_props option" where
  "var_getCurrProps avail x t st =
     (case x of
        None \<Rightarrow> (KS_ERR_GENERIC, None)
      | Some v \<Rightarrow> if avail then (KS_ERR_OK, Some (VarCurrProps (Some v) t st)) else (KS_ERR_GENERIC, None))"

fun getCurrProps :: "(nat \<Rightarrow> bool) \<Rightarrow> timeval \<Rightarrow> store \<Rightarrow> kss_object \<Rightarrow> curr_props option \<Rightarrow> (ks_result \<times> curr_props option) option" where
  "getCurrProps avail now H (SimpleVariable v) hprops = Some (var_getCurrProps (avail 0) (var_value v) (var_time v) (var_state v))"
| "getCurrProps avail now H (TimeNowVariable t) hprops = Some (var_getCurrProps (avail 0) (Some (TimeValue now)) now KS_ST_GOOD)"
| "getCurrProps avail now H (SimpleLinkAlias l) hprops = alias_getCurrProps avail now H l hprops"
| "getCurrProps avail now H (SimpleDomain d) hprops = None"

end
