(* ===== verification/KsObjectTree.thy ===== *)
theory KsObjectTree
  imports KsObjects
begin

text \<open>
  What the functions of \<open>KsObjects\<close> compute on a well-formed tree: the child with a name and the object with a path, as inductive relations,
  the children an iteration delivers, and that both are found in finitely many steps.
\<close>

subsection \<open>Well-formed trees\<close>

text \<open>A domain delegates to its sister, a link alias to its domain.\<close>

definition delegates :: "store \<Rightarrow> (nat \<times> nat) set" where
  "delegates H =
     {(s, a). (\<exists>d. H a = Some (SimpleDomain d) \<and> dom_next_sister d = s \<and> s \<noteq> 0) \<or> (\<exists>l. H a = Some (SimpleLinkAlias l) \<and> alias_domain l = s)}"

definition has_children :: "store \<Rightarrow> nat \<Rightarrow> bool" where
  "has_children H a \<longleftrightarrow> (\<exists>d. H a = Some (SimpleDomain d)) \<or> (\<exists>l. H a = Some (SimpleLinkAlias l))"

definition children_ok :: "bool \<Rightarrow> store \<Rightarrow> (byte list, nat) htab \<Rightarrow> bool" where
  "children_ok sg H t \<longleftrightarrow>
     ht_inv (string_hash sg) t \<and> (\<forall>k h. ht_map t k = Some h \<longrightarrow> (\<exists>ob. H h = Some ob \<and> k = cstr (identifier_of ob)))"

definition tree_ok :: "bool \<Rightarrow> store \<Rightarrow> bool" where
  "tree_ok sg H \<longleftrightarrow>
     H 0 = None \<and> (\<forall>a d. H a = Some (SimpleDomain d) \<longrightarrow> children_ok sg H (dom_children d)) \<and>
     (\<forall>(s, a) \<in> delegates H. has_children H s) \<and> wf (delegates H)"

lemma delegates_simps [simp]:
  "H a = Some (SimpleDomain d) \<Longrightarrow> (s, a) \<in> delegates H \<longleftrightarrow> dom_next_sister d = s \<and> s \<noteq> 0"
  "H a = Some (SimpleLinkAlias l) \<Longrightarrow> (s, a) \<in> delegates H \<longleftrightarrow> alias_domain l = s"
  by (auto simp: delegates_def)

lemma tree_okD:
  assumes "tree_ok sg H"
  shows "H 0 = None" "wf (delegates H)"
    and "H a = Some (SimpleDomain d) \<Longrightarrow> children_ok sg H (dom_children d)"
    and "(s, a) \<in> delegates H \<Longrightarrow> has_children H s"
  using assms by (auto simp: tree_ok_def)

lemma children_okD:
  assumes "children_ok sg H t" "ht_map t k = Some h"
  obtains ob where "H h = Some ob" "k = cstr (identifier_of ob)"
  using assms by (auto simp: children_ok_def)

lemma child_exists:
  assumes "tree_ok sg H" "H a = Some (SimpleDomain d)" "ht_map (dom_children d) k = Some h"
  obtains ob where "H h = Some ob" "k = cstr (identifier_of ob)" "h \<noteq> 0"
  using children_okD [OF tree_okD(3) [OF assms(1,2)] assms(3)] tree_okD(1) [OF assms(1)] by (metis option.distinct(1))

lemma children_induct [consumes 2, case_names Domain Alias]:
  assumes "tree_ok sg H" "has_children H a"
    and "\<And>a d. H a = Some (SimpleDomain d) \<Longrightarrow>
      (dom_next_sister d \<noteq> 0 \<Longrightarrow> has_children H (dom_next_sister d) \<and> P (dom_next_sister d)) \<Longrightarrow> P a"
    and "\<And>a l. H a = Some (SimpleLinkAlias l) \<Longrightarrow> has_children H (alias_domain l) \<Longrightarrow> P (alias_domain l) \<Longrightarrow> P a"
  shows "P a"
  using tree_okD(2) [OF assms(1)] assms(2)
proof (induction a rule: wf_induct_rule)
  case (less a)
  show ?case
  proof (cases "\<exists>d. H a = Some (SimpleDomain d)")
    case True
    then obtain d where d: "H a = Some (SimpleDomain d)" by blast
    have "(dom_next_sister d, a) \<in> delegates H" if "dom_next_sister d \<noteq> 0" using d that by simp
    then show ?thesis using less.IH tree_okD(4) [OF assms(1)] by (intro assms(3) [OF d]) blast
  next
    case False
    then obtain l where l: "H a = Some (SimpleLinkAlias l)" using less.prems by (auto simp: has_children_def)
    then have s: "(alias_domain l, a) \<in> delegates H" by simp
    note h = tree_okD(4) [OF assms(1) s]
    show ?thesis by (rule assms(4) [OF l h less.IH [OF s h]])
  qed
qed

subsection \<open>Lookup\<close>

text \<open>The child of an object with a name: the own child, else that of the sister. A link alias has the children of its domain.\<close>

inductive child_at :: "store \<Rightarrow> nat \<Rightarrow> byte list \<Rightarrow> nat \<Rightarrow> bool" for H where
  own_child: "H a = Some (SimpleDomain d) \<Longrightarrow> ht_map (dom_children d) k = Some h \<Longrightarrow> child_at H a k h"
| sister_child: "H a = Some (SimpleDomain d) \<Longrightarrow> ht_map (dom_children d) k = None \<Longrightarrow> dom_next_sister d \<noteq> 0 \<Longrightarrow>
    child_at H (dom_next_sister d) k h \<Longrightarrow> child_at H a k h"
| alias_child: "H a = Some (SimpleLinkAlias l) \<Longrightarrow> child_at H (alias_domain l) k h \<Longrightarrow> child_at H a k h"

inductive_cases child_atE: "child_at H a k h"

inductive path_at :: "store \<Rightarrow> nat \<Rightarrow> byte list list \<Rightarrow> nat \<Rightarrow> bool" for H where
  path_end: "child_at H a k h \<Longrightarrow> path_at H a [k] h"
| path_step: "child_at H a k b \<Longrightarrow> has_children H b \<Longrightarrow> path_at H b (l # ks) h \<Longrightarrow> path_at H a (k # l # ks) h"

inductive_simps path_at_simps: "path_at H a [] h" "path_at H a [k] h" "path_at H a (k # l # ks) h"

lemma child_at_domain:
  "H a = Some (SimpleDomain d) \<Longrightarrow> child_at H a k h \<longleftrightarrow>
   (case ht_map (dom_children d) k of Some g \<Rightarrow> h = g | None \<Rightarrow> dom_next_sister d \<noteq> 0 \<and> child_at H (dom_next_sister d) k h)"
  by (auto split: option.splits intro: child_at.intros elim: child_atE)

lemma child_at_alias: "H a = Some (SimpleLinkAlias l) \<Longrightarrow> child_at H a k h \<longleftrightarrow> child_at H (alias_domain l) k h"
  by (auto intro: child_at.intros elim: child_atE)

lemma child_at_exists:
  assumes "child_at H a k h" "tree_ok sg H"
  shows "\<exists>ob. H h = Some ob \<and> k = cstr (identifier_of ob) \<and> h \<noteq> 0"
  using assms by induction (blast elim: child_exists)+

lemma getChildById_spec:
  assumes "tree_ok sg H" "has_children H a"
  shows "\<exists>h. getChildById sg H a i = Some h \<and> (\<forall>g. child_at H a (cstr i) g \<longleftrightarrow> h = g \<and> g \<noteq> 0)"
  using assms
proof (induction rule: children_induct)
  case (Domain a d)
  note inv = tree_okD(3) [OF assms(1) Domain(1), unfolded children_ok_def, THEN conjunct1]
  show ?case
  proof (cases "ht_map (dom_children d) (cstr i)")
    case None
    then show ?thesis using Domain inv
      by (subst getChildById.simps) (auto simp: child_at_domain ht_query_correct)
  next
    case (Some h)
    then show ?thesis using Domain inv child_exists [OF assms(1) Domain(1) Some]
      by (subst getChildById.simps) (auto simp: child_at_domain ht_query_correct)
  qed
next
  case (Alias a l)
  then show ?case by (subst getChildById.simps) (simp add: child_at_alias)
qed

lemma child_at_unique:
  assumes "tree_ok sg H" "child_at H a k g" "child_at H a k h" shows "g = h"
  using assms(2,3)
proof (induction rule: child_at.induct)
  case (own_child a d k h)
  then show ?case by (simp add: child_at_domain)
next
  case (sister_child a d k h)
  then show ?case by (simp add: child_at_domain)
next
  case (alias_child a l k h)
  then show ?case by (simp add: child_at_alias)
qed

lemma path_nth_tail: "path_nth (getTail p) i = path_nth p (Suc i)"
  by (simp add: path_nth_def getTail_def sub_path_def)

lemma components_Cons:
  assumes "valid p" "path_size p \<noteq> 1"
  shows "components p = getHead p # components (getTail p)"
proof -
  have "[0..<path_size p] = 0 # map Suc [0..<path_size (getTail p)]"
    using getTail_size [OF assms] path_size_pos [OF assms(1)]
    by (metis Suc_pred' diff_Suc_1 map_Suc_upt upt_conv_Cons)
  then show ?thesis by (simp add: components_def getHead_def path_nth_tail o_def)
qed

lemma components_single: "path_size p = 1 \<Longrightarrow> components p = [getHead p]"
  by (simp add: components_def getHead_def)

lemma components_head: "valid p \<Longrightarrow> \<exists>ks. components p = getHead p # ks"
  using components_single components_Cons by blast

lemma path_at_first: "path_at H a ks h \<Longrightarrow> \<exists>b. child_at H a (hd ks) b"
  by (induction rule: path_at.induct) auto

lemma valid_tail [simp]: "valid (getTail p) = valid p"
  by (simp add: getTail_def sub_path_def)

lemma path_at_alias: "H a = Some (SimpleLinkAlias l) \<Longrightarrow> path_at H a ks h \<longleftrightarrow> path_at H (alias_domain l) ks h"
  by (cases ks; cases "tl ks") (simp_all add: path_at_simps child_at_alias)

lemma getChildByPath_spec:
  assumes "tree_ok sg H" "has_children H a" "valid p"
  shows "\<exists>h. getChildByPath sg H a p = Some h \<and> (\<forall>g. path_at H a (map cstr (components p)) g \<longleftrightarrow> h = g \<and> g \<noteq> 0)"
  using assms(2,3)
proof (induction "path_size p" arbitrary: a p rule: less_induct)
  case less
  obtain hc where hc: "getChildById sg H a (getHead p) = Some hc"
      "\<forall>g. child_at H a (cstr (getHead p)) g \<longleftrightarrow> hc = g \<and> g \<noteq> 0"
    using getChildById_spec [OF assms(1) less.prems(1)] by blast
  show ?case
  proof (cases "hc = 0")
    case True
    have "\<not> path_at H a (map cstr (components p)) g" for g
      using hc(2) True components_head [OF less.prems(2)] path_at_first by (metis list.sel(1) list.simps(9))
    then show ?thesis using True hc(1) less.prems(2) by (subst getChildByPath.simps) auto
  next
    case nz: False
    show ?thesis
    proof (cases "path_size p = 1")
      case True
      then show ?thesis using hc nz less.prems(2) components_single [OF True]
        by (subst getChildByPath.simps) (simp add: path_at_simps)
    next
      case False
      obtain ob where ob: "H hc = Some ob" using child_at_exists [OF _ assms(1)] hc(2) nz by blast
      have small: "path_size (getTail p) < path_size p" using getTail_size [OF less.prems(2) False] path_size_pos [OF less.prems(2)] by simp
      obtain c ks where cs: "components (getTail p) = c # ks"
        using path_size_pos [of "getTail p"] less.prems(2) by (cases "components (getTail p)") (auto simp: components_def)
      have step: "path_at H a (map cstr (components p)) g \<longleftrightarrow> has_children H hc \<and> path_at H hc (map cstr (components (getTail p))) g" for g
        using components_Cons [OF less.prems(2) False] hc(2) nz by (auto simp: cs path_at_simps)
      have IH: "\<exists>h. getChildByPath sg H b (getTail p) = Some h \<and> (\<forall>g. path_at H b (map cstr (components (getTail p))) g \<longleftrightarrow> h = g \<and> g \<noteq> 0)"
        if "has_children H b" for b
        using less.hyps [OF small that] less.prems(2) by simp
      show ?thesis
      proof (cases ob)
        case (SimpleDomain d)
        then have "has_children H hc" using ob by (auto simp: has_children_def)
        then show ?thesis using IH hc(1) nz False less.prems(2) ob SimpleDomain unfolding step
          by (subst getChildByPath.simps) auto
      next
        case (SimpleLinkAlias l)
        then have "has_children H hc" "has_children H (alias_domain l)"
          using ob tree_okD(4) [OF assms(1), of "alias_domain l" hc] by (auto simp: has_children_def)
        then show ?thesis using IH [of "alias_domain l"] hc(1) nz False less.prems(2) ob SimpleLinkAlias unfolding step
          by (subst getChildByPath.simps) (auto simp: path_at_alias)
      next
        case (SimpleVariable v)
        then have "\<not> has_children H hc" using ob by (auto simp: has_children_def)
        then show ?thesis using hc(1) nz False less.prems(2) ob SimpleVariable unfolding step
          by (subst getChildByPath.simps) auto
      next
        case (TimeNowVariable v)
        then have "\<not> has_children H hc" using ob by (auto simp: has_children_def)
        then show ?thesis using hc(1) nz False less.prems(2) ob TimeNowVariable unfolding step
          by (subst getChildByPath.simps) auto
      qed
    qed
  qed
qed

lemma path_at_exists:
  assumes "path_at H a ks h" "tree_ok sg H"
  shows "\<exists>ob. H h = Some ob \<and> last ks = cstr (identifier_of ob) \<and> h \<noteq> 0"
  using assms by induction (auto dest: child_at_exists)

subsection \<open>Iteration\<close>

lemma iter_children_sister: "iter_children (DomIter own (Some s) True) = iter_children s"
proof (induction "iter_left s" arbitrary: s rule: less_induct)
  case less
  show ?case
  proof (cases "iter_valid s")
    case True
    have "iter_children (DomIter own (Some (iter_next s)) True) = iter_children (iter_next s)"
      by (rule less.hyps [OF iter_next_left [OF True]])
    then show ?thesis using True by (subst (1 2) iter_children.simps) simp
  next
    case False
    then show ?thesis by (subst (1 2) iter_children.simps) simp
  qed
qed

lemma iter_children_own: "iter_children (DomIter own None q) = own"
  by (induction own arbitrary: q) (subst iter_children.simps, auto)+

lemma iter_children_new:
  "iter_children (DomIter own s False) = own @ (if own = [] then [] else case s of None \<Rightarrow> [] | Some s \<Rightarrow> iter_children s)"
proof (cases s)
  case None
  then show ?thesis by (simp add: iter_children_own)
next
  case (Some t)
  show ?thesis
  proof (induction own)
    case Nil
    then show ?case by (subst iter_children.simps) (simp add: Some)
  next
    case (Cons h own)
    then show ?case by (subst iter_children.simps) (cases own; simp add: Some iter_children_sister)
  qed
qed

lemma assocs_used: "assocs (filter usedSlot ss) = assocs ss"
  by (induction ss) (auto simp: usedSlot_def split: slot.splits)

lemma own_children_table: "ht_inv hash t \<Longrightarrow> own_children t = map snd (assocs (ht_table t))"
  by (simp add: own_children_def ht_iterate_start assocs_used ht_inv_def ht_wf_def)

lemma own_children_map:
  assumes "ht_inv hash t"
  shows "set (own_children t) = {h. \<exists>k. ht_map t k = Some h}" "own_children t = [] \<longleftrightarrow> ht_map t = Map.empty"
proof -
  have "distinct (map fst (assocs (ht_table t)))" using assms by (simp add: ht_inv_def ht_wf_def)
  then show "set (own_children t) = {h. \<exists>k. ht_map t k = Some h}"
    using own_children_table [OF assms] by (force simp: ht_map_def map_of_eq_Some_iff)
  show "own_children t = [] \<longleftrightarrow> ht_map t = Map.empty"
    using own_children_table [OF assms] by (simp add: ht_map_def)
qed

text \<open>
  The children an iteration delivers: the own ones and those of the sister, but the sister is reached only from an own child.
\<close>

inductive listed :: "store \<Rightarrow> nat \<Rightarrow> nat \<Rightarrow> bool" for H where
  own_listed: "H a = Some (SimpleDomain d) \<Longrightarrow> ht_map (dom_children d) k = Some h \<Longrightarrow> listed H a h"
| sister_listed: "H a = Some (SimpleDomain d) \<Longrightarrow> ht_map (dom_children d) \<noteq> Map.empty \<Longrightarrow> dom_next_sister d \<noteq> 0 \<Longrightarrow>
    listed H (dom_next_sister d) h \<Longrightarrow> listed H a h"
| alias_listed: "H a = Some (SimpleLinkAlias l) \<Longrightarrow> listed H (alias_domain l) h \<Longrightarrow> listed H a h"

inductive_cases listedE: "listed H a h"

lemma listed_domain:
  "H a = Some (SimpleDomain d) \<Longrightarrow> listed H a h \<longleftrightarrow>
   (\<exists>k. ht_map (dom_children d) k = Some h) \<or>
   ht_map (dom_children d) \<noteq> Map.empty \<and> dom_next_sister d \<noteq> 0 \<and> listed H (dom_next_sister d) h"
  by (auto intro: listed.intros elim: listedE)

lemma listed_alias: "H a = Some (SimpleLinkAlias l) \<Longrightarrow> listed H a h \<longleftrightarrow> listed H (alias_domain l) h"
  by (auto intro: listed.intros elim: listedE)

lemma listed_exists:
  assumes "listed H a h" "tree_ok sg H"
  shows "\<exists>ob. H h = Some ob \<and> h \<noteq> 0"
  using assms by induction (blast elim: child_exists)+

lemma newIterator_spec:
  assumes "tree_ok sg H" "has_children H a"
  shows "\<exists>it. newIterator H a = Some it \<and> set (iter_children it) = {h. listed H a h}"
  using assms
proof (induction rule: children_induct)
  case (Domain a d)
  note inv = tree_okD(3) [OF assms(1) Domain(1), unfolded children_ok_def, THEN conjunct1]
  note own = own_children_map [OF inv]
  have here: "Collect (listed H a) = {h. \<exists>k. ht_map (dom_children d) k = Some h} \<union>
      (if ht_map (dom_children d) \<noteq> Map.empty \<and> dom_next_sister d \<noteq> 0 then {h. listed H (dom_next_sister d) h} else {})"
    using Domain(1) by (auto simp: listed_domain)
  show ?case
  proof (cases "dom_next_sister d = 0")
    case True
    then show ?thesis using Domain(1) own by (subst newIterator.simps) (simp add: iter_children_new here)
  next
    case False
    then obtain s where s: "newIterator H (dom_next_sister d) = Some s" "set (iter_children s) = {h. listed H (dom_next_sister d) h}"
      using Domain(2) by blast
    have "newIterator H a = Some (DomIter (own_children (dom_children d)) (Some s) False)"
      using Domain(1) s(1) False by (subst newIterator.simps) simp
    moreover have "set (iter_children (DomIter (own_children (dom_children d)) (Some s) False)) = {h. listed H a h}"
      using own s(2) False by (simp add: iter_children_new here)
    ultimately show ?thesis by blast
  qed
next
  case (Alias a l)
  then have "listed H a = listed H (alias_domain l)" by (simp add: listed_alias fun_eq_iff)
  then show ?case using Alias by (subst newIterator.simps) simp
qed

subsection \<open>Selection by a mask\<close>

definition picked :: "store \<Rightarrow> tok list \<Rightarrow> u32 \<Rightarrow> nat \<Rightarrow> bool" where
  "picked H ts types h \<longleftrightarrow> (\<exists>ob. H h = Some ob \<and> typeCode ob AND types \<noteq> 0 \<and> glob ts (identifier_of ob))"

lemma skip_children_glob:
  assumes "\<forall>t\<in>set ts. tok_ok t" "\<forall>h\<in>set hs. h \<noteq> 0 \<and> H h \<noteq> None"
  shows "skip_children H (render_all ts) types hs = Some (dropWhile (\<lambda>h. \<not> picked H ts types h) hs)"
  using assms(2) by (induction hs) (auto simp: matches_glob [OF assms(1)] picked_def)

lemma masked_iteration_glob:
  assumes "\<forall>t\<in>set ts. tok_ok t" "\<forall>h\<in>set hs. h \<noteq> 0 \<and> H h \<noteq> None"
  shows "masked_iteration H (render_all ts) types hs = Some (filter (picked H ts types) hs)"
  using assms(2)
proof (induction "length hs" arbitrary: hs rule: less_induct)
  case less
  have f: "filter (picked H ts types) hs = filter (picked H ts types) (dropWhile (\<lambda>h. \<not> picked H ts types h) hs)" by (induction hs) auto
  show ?case
  proof (cases "dropWhile (\<lambda>h. \<not> picked H ts types h) hs")
    case Nil
    then show ?thesis
      by (subst f, subst masked_iteration.simps) (simp only: skip_children_glob [OF assms(1) less.prems] bind.bind_lunit list.case filter.simps)
  next
    case (Cons d ds)
    have "length (d # ds) \<le> length hs" unfolding Cons [symmetric] by (rule length_dropWhile_le)
    moreover have "set (d # ds) \<subseteq> set hs" unfolding Cons [symmetric] using set_dropWhileD by fast
    ultimately have "masked_iteration H (render_all ts) types ds = Some (filter (picked H ts types) ds)"
      by (intro less.hyps) (use less.prems in auto)
    moreover have "picked H ts types d" using hd_dropWhile [of "\<lambda>h. \<not> picked H ts types h" hs] Cons by simp
    ultimately show ?thesis
      by (subst f, subst masked_iteration.simps) (simp only: skip_children_glob [OF assms(1) less.prems] bind.bind_lunit Cons list.case filter.simps if_True)
  qed
qed

lemma masked_children_spec:
  assumes "tree_ok sg H" "has_children H a" "\<forall>t\<in>set ts. tok_ok t"
  shows "\<exists>hs. masked_children_of True H a (render_all ts) types = Some (Some hs) \<and> set hs = {h. listed H a h \<and> picked H ts types h}"
proof -
  obtain it where it: "newIterator H a = Some it" "set (iter_children it) = {h. listed H a h}"
    using newIterator_spec [OF assms(1,2)] by blast
  then have "\<forall>h\<in>set (iter_children it). h \<noteq> 0 \<and> H h \<noteq> None" using listed_exists [OF _ assms(1)] by auto
  from masked_iteration_glob [OF assms(3) this] show ?thesis by (simp add: masked_children_of_def it)
qed

end
