(* ===== verification/KsSimpleServer.thy ===== *)
theory KsSimpleServer
  imports KsObjects KsServiceParams
begin

text \<open>
  The services of a simple server (ks/src/simpleserver.cpp) on its tree of objects, and the permissions of A/V tickets
  (ks/include/ks/avticket.h, ks/src/avticket.cpp) they ask. \<open>pmem\<close> and \<open>new_char\<close> are the allocations of paths and strings,
  \<open>avail\<close> those of the service itself.
\<close>

subsection \<open>Tickets\<close>

text \<open>What the virtual functions of a ticket answer: its result, its type code, and the permission to read and write a name.\<close>

record av_ticket =
  tk_result :: ks_result
  tk_type_code :: u32
  tk_canReadVar :: "byte list \<Rightarrow> bool"
  tk_canWriteVar :: "byte list \<Rightarrow> bool"

definition getAccess :: "av_ticket \<Rightarrow> byte list \<Rightarrow> u32" where
  "getAccess t name =
     (let res = KS_AC_NONE;
          res = (if tk_canReadVar t name then res OR KS_AC_READ else res)
      in if tk_canWriteVar t name then res OR KS_AC_WRITE else res)"

definition isVisible :: "av_ticket \<Rightarrow> byte list \<Rightarrow> bool" where
  "isVisible t name \<longleftrightarrow> getAccess t name AND (KS_AC_READ OR KS_AC_WRITE) \<noteq> KS_AC_NONE"

definition KS_AUTH_NONE :: u32 where "KS_AUTH_NONE = 0"
definition KS_AUTH_SIMPLE :: u32 where "KS_AUTH_SIMPLE = 1"

definition none_ticket :: "u32 \<Rightarrow> ks_result \<Rightarrow> u32 \<Rightarrow> av_ticket" where
  "none_ticket code r access =
     \<lparr>tk_result = r, tk_type_code = code, tk_canReadVar = (\<lambda>_. access AND KS_AC_READ \<noteq> 0), tk_canWriteVar = (\<lambda>_. access AND KS_AC_WRITE \<noteq> 0)\<rparr>"

subsection \<open>Reading and writing variables\<close>

record kss_server =
  srv_objects :: store
  srv_root_domain :: nat
  srv_next :: nat

text \<open>A variable or link that is found gives its current properties, or takes them.\<close>

definition getVarItem ::
  "bool \<Rightarrow> (nat \<Rightarrow> bool) \<Rightarrow> timeval \<Rightarrow> av_ticket \<Rightarrow> kss_server \<Rightarrow> kspath \<Rightarrow> var_item \<Rightarrow> var_item option" where
  "getVarItem sg avail now ticket srv path result =
     (if \<not> (valid path \<and> isAbsolute path) then None
      else if tk_canReadVar ticket (to_string path)
      then do {
        hobj \<leftarrow> getChildByPath sg (srv_objects srv) (srv_root_domain srv) path;
        if hobj \<noteq> 0
        then do {
          ob \<leftarrow> srv_objects srv hobj;
          if typeCode ob = KS_OT_VARIABLE \<or> typeCode ob = KS_OT_LINK
          then do { (res, props) \<leftarrow> getCurrProps avail now (srv_objects srv) ob (rp_data result); Some (result\<lparr>rp_result := res, rp_data := props\<rparr>) }
          else Some (result\<lparr>rp_result := KS_ERR_BADTYPE\<rparr>) }
        else Some (result\<lparr>rp_result := KS_ERR_BADPATH\<rparr>) }
      else Some (result\<lparr>rp_result := KS_ERR_NOACCESS\<rparr>))"

text \<open>The loops over the items; the arrays of the result have been made by the caller.\<close>

fun getVar_items ::
  "bool \<Rightarrow> (nat \<Rightarrow> nat \<Rightarrow> bool) \<Rightarrow> timeval \<Rightarrow> av_ticket \<Rightarrow> kss_server \<Rightarrow> nat \<Rightarrow> (kspath \<times> ks_result) list \<Rightarrow> var_item list \<Rightarrow> var_item list option" where
  "getVar_items sg avail now ticket srv i [] items = Some items"
| "getVar_items sg avail now ticket srv i ((path, pathres) # ps) [] = None"
| "getVar_items sg avail now ticket srv i ((path, pathres) # ps) (item # items) =
     do { item \<leftarrow> (if pathres = KS_ERR_OK then getVarItem sg (avail i) now ticket srv path item else Some (item\<lparr>rp_result := pathres\<rparr>));
          items \<leftarrow> getVar_items sg avail now ticket srv (i + 1) ps items;
          Some (item # items) }"

definition getVar ::
  "bool \<Rightarrow> (nat \<Rightarrow> bool) \<Rightarrow> (nat \<Rightarrow> byte list option) \<Rightarrow> bool \<Rightarrow> (nat \<Rightarrow> nat \<Rightarrow> bool) \<Rightarrow> timeval \<Rightarrow> av_ticket \<Rightarrow> kss_server \<Rightarrow>
   byte list list \<Rightarrow> var_item list reply \<Rightarrow> var_item list reply option" where
  "getVar sg pmem new_char arrays avail now ticket srv identifiers result =
     (if length identifiers = 0 \<or> arrays
      then do {
        ps \<leftarrow> resolvePaths pmem new_char identifiers;
        items \<leftarrow> getVar_items sg avail now ticket srv 0 ps (rp_data result);
        Some (result\<lparr>rp_result := KS_ERR_OK, rp_data := items\<rparr>) }
      else Some (result\<lparr>rp_result := KS_ERR_GENERIC\<rparr>))"

definition setVarItem ::
  "bool \<Rightarrow> av_ticket \<Rightarrow> kss_server \<Rightarrow> kspath \<Rightarrow> curr_props option \<Rightarrow> (ks_result \<times> kss_server) option" where
  "setVarItem sg ticket srv path props =
     (if \<not> (valid path \<and> isAbsolute path) then None
      else if tk_canWriteVar ticket (to_string path)
      then do {
        hobj \<leftarrow> getChildByPath sg (srv_objects srv) (srv_root_domain srv) path;
        if hobj \<noteq> 0
        then do {
          ob \<leftarrow> srv_objects srv hobj;
          if typeCode ob = KS_OT_VARIABLE \<or> typeCode ob = KS_OT_LINK
          then let (res, ob) = setCurrProps props ob in Some (res, srv\<lparr>srv_objects := (srv_objects srv)(hobj \<mapsto> ob)\<rparr>)
          else Some (KS_ERR_BADTYPE, srv) }
        else Some (KS_ERR_BADPATH, srv) }
      else Some (KS_ERR_NOACCESS, srv))"

fun setVar_items ::
  "bool \<Rightarrow> av_ticket \<Rightarrow> (kspath \<times> ks_result) list \<Rightarrow> set_var_item list \<Rightarrow> ks_result list \<Rightarrow> kss_server \<Rightarrow> (ks_result list \<times> kss_server) option" where
  "setVar_items sg ticket [] items results srv = Some (results, srv)"
| "setVar_items sg ticket ((path, pathres) # ps) (item # items) (r # results) srv =
     do { (r, srv) \<leftarrow> (if pathres = KS_ERR_OK then setVarItem sg ticket srv path (si_props item) else Some (pathres, srv));
          (results, srv) \<leftarrow> setVar_items sg ticket ps items results srv;
          Some (r # results, srv) }"
| "setVar_items sg ticket (p # ps) _ _ srv = None"

definition setVar ::
  "bool \<Rightarrow> (nat \<Rightarrow> bool) \<Rightarrow> (nat \<Rightarrow> byte list option) \<Rightarrow> bool \<Rightarrow> av_ticket \<Rightarrow> set_var_item list \<Rightarrow>
   ks_result list reply \<Rightarrow> kss_server \<Rightarrow> (ks_result list reply \<times> kss_server) option" where
  "setVar sg pmem new_char arrays ticket items result srv =
     (if length items = 0 \<or> arrays
      then do {
        ps \<leftarrow> resolvePaths pmem new_char (map si_path items);
        (results, srv) \<leftarrow> setVar_items sg ticket ps items (rp_data result) srv;
        Some (result\<lparr>rp_result := KS_ERR_OK, rp_data := results\<rparr>, srv) }
      else Some (result\<lparr>rp_result := KS_ERR_GENERIC\<rparr>, srv))"

subsection \<open>Engineered properties\<close>

text \<open>
  The children the masked iterator delivers, with what the ticket allows. A child without properties, for want of memory, is left out,
  and so is one without a node for the list.
\<close>

fun child_eps ::
  "bool \<Rightarrow> (nat \<Rightarrow> byte list option) \<Rightarrow> (nat \<Rightarrow> bool) \<Rightarrow> av_ticket \<Rightarrow> store \<Rightarrow> byte list \<Rightarrow> nat \<Rightarrow> nat list \<Rightarrow> eng_props option list option" where
  "child_eps sg new_char avail ticket H prefix k [] = Some []"
| "child_eps sg new_char avail ticket H prefix k (h # hs) =
     (if h = 0 then child_eps sg new_char avail ticket H prefix (k + 2) hs
      else do {
        ob \<leftarrow> H h;
        let childname = concat2 prefix (identifier_of ob);
        e \<leftarrow> (if isVisible ticket childname
              then case object_getEP (avail k) ob of
                  None \<Rightarrow> Some []
                | Some ep \<Rightarrow>
                    do { i \<leftarrow> ksStringToPercent new_char sg (ep_identifier ep);
                         let ep = ep\<lparr>ep_access_mode := ep_access_mode ep AND (getAccess ticket childname OR NOT KS_AC_READWRITE),
                                    ep_identifier := i\<rparr>;
                         Some (if avail (k + 1) then [Some ep] else []) }
              else Some []);
        r \<leftarrow> child_eps sg new_char avail ticket H prefix (k + 2) hs;
        Some (e @ r) })"

definition getEPOfObject ::
  "bool \<Rightarrow> (nat \<Rightarrow> byte list option) \<Rightarrow> (nat \<Rightarrow> bool) \<Rightarrow> av_ticket \<Rightarrow> store \<Rightarrow> nat \<Rightarrow> byte list \<Rightarrow> get_ep_params \<Rightarrow>
   eng_props option list reply \<Rightarrow> eng_props option list reply option" where
  "getEPOfObject sg new_char avail ticket H a prefix params result =
     do { ob \<leftarrow> H a;
          if str_eq (ge_name_mask params) []
          then Some (case object_getEP (avail 0) ob of
                 Some ep \<Rightarrow> if avail 1 then result\<lparr>rp_result := KS_ERR_OK, rp_data := rp_data result @ [Some ep]\<rparr>
                            else result\<lparr>rp_result := KS_ERR_GENERIC\<rparr>
               | None \<Rightarrow> result\<lparr>rp_result := KS_ERR_GENERIC\<rparr>)
          else if typeCode ob \<noteq> KS_OT_DOMAIN \<and> typeCode ob \<noteq> KS_OT_LINK then Some (result\<lparr>rp_result := KS_ERR_BADPATH\<rparr>)
          else do {
            r \<leftarrow> ksStringFromPercent new_char (ge_name_mask params);
            case r of
              Inl e \<Rightarrow> Some (result\<lparr>rp_result := e\<rparr>)
            | Inr m \<Rightarrow>
                do { r \<leftarrow> masked_children_of (avail 0) H a m (ge_type_mask params);
                     case r of
                       None \<Rightarrow> Some (result\<lparr>rp_result := KS_ERR_OK\<rparr>)
                     | Some hs \<Rightarrow>
                         do { es \<leftarrow> child_eps sg new_char avail ticket H prefix 1 hs;
                              Some (result\<lparr>rp_result := KS_ERR_OK, rp_data := rp_data result @ es\<rparr>) } } } }"

definition getEP ::
  "bool \<Rightarrow> (nat \<Rightarrow> bool) \<Rightarrow> (nat \<Rightarrow> byte list option) \<Rightarrow> (nat \<Rightarrow> bool) \<Rightarrow> av_ticket \<Rightarrow> kss_server \<Rightarrow> get_ep_params \<Rightarrow>
   eng_props option list reply \<Rightarrow> eng_props option list reply option" where
  "getEP sg pmem new_char avail ticket srv params result =
     do { path \<leftarrow> path_of pmem (ge_path params);
          if valid path \<and> isAbsolute path
          then do {
            (convres, path) \<leftarrow> decodePercents new_char path;
            if convres = KS_ERR_OK
            then if isVisible ticket (to_string path)
              then if str_eq (ge_path params) [0x2F]
                then getEPOfObject sg new_char avail ticket (srv_objects srv) (srv_root_domain srv) (ge_path params) params result
                else do {
                  let prefix = concat2 (to_string path) [0x2F];
                  hc \<leftarrow> getChildByPath sg (srv_objects srv) (srv_root_domain srv) path;
                  if hc \<noteq> 0 then getEPOfObject sg new_char avail ticket (srv_objects srv) hc prefix params result
                  else Some (result\<lparr>rp_result := KS_ERR_BADPATH\<rparr>) }
              else Some (result\<lparr>rp_result := KS_ERR_NOACCESS\<rparr>)
            else Some (result\<lparr>rp_result := convres\<rparr>) }
          else Some (result\<lparr>rp_result := KS_ERR_BADNAME\<rparr>) }"

subsection \<open>Building the tree\<close>

definition find_domain :: "bool \<Rightarrow> kss_server \<Rightarrow> kspath \<Rightarrow> nat option" where
  "find_domain sg srv dompath =
     (if \<not> (valid dompath \<and> isAbsolute dompath) then None
      else if path_size dompath = 1 \<and> str_eq (path_nth dompath 0) [] then Some (srv_root_domain srv)
      else getChildByPath sg (srv_objects srv) (srv_root_domain srv) dompath)"

definition addCommObject :: "bool \<Rightarrow> (nat \<Rightarrow> bool) \<Rightarrow> kspath \<Rightarrow> nat \<Rightarrow> kss_server \<Rightarrow> (bool \<times> kss_server) option" where
  "addCommObject sg avail dompath ho srv =
     do { hd \<leftarrow> find_domain sg srv dompath;
          if hd \<noteq> 0
          then do {
            ob \<leftarrow> srv_objects srv hd;
            new \<leftarrow> srv_objects srv ho;
            case ob of
              SimpleDomain _ \<Rightarrow>
                do { h \<leftarrow> getChildById sg (srv_objects srv) hd (identifier_of new);
                     if h = 0
                     then do { (ok, H) \<leftarrow> addChild sg (avail 0) (avail 1) hd ho (srv_objects srv); Some (ok, srv\<lparr>srv_objects := H\<rparr>) }
                     else Some (False, srv) }
            | _ \<Rightarrow> Some (False, srv) }
          else Some (False, srv) }"

definition removeCommObject :: "bool \<Rightarrow> (nat \<Rightarrow> bool) \<Rightarrow> kspath \<Rightarrow> byte list \<Rightarrow> kss_server \<Rightarrow> (bool \<times> kss_server) option" where
  "removeCommObject sg avail dompath i srv =
     do { hd \<leftarrow> find_domain sg srv dompath;
          if hd \<noteq> 0
          then do {
            ob \<leftarrow> srv_objects srv hd;
            case ob of
              SimpleDomain _ \<Rightarrow>
                do { (h, H) \<leftarrow> removeChild sg (avail 0) hd i (srv_objects srv); Some (h \<noteq> 0, srv\<lparr>srv_objects := H\<rparr>) }
            | _ \<Rightarrow> Some (False, srv) }
          else Some (False, srv) }"

definition new_object :: "kss_object \<Rightarrow> kss_server \<Rightarrow> nat \<times> kss_server" where
  "new_object ob srv = (srv_next srv, srv\<lparr>srv_objects := (srv_objects srv)(srv_next srv \<mapsto> ob), srv_next := srv_next srv + 1\<rparr>)"

definition addDomain ::
  "bool \<Rightarrow> (nat \<Rightarrow> bool) \<Rightarrow> timeval \<Rightarrow> kspath \<Rightarrow> byte list \<Rightarrow> byte list \<Rightarrow> kss_server \<Rightarrow> (bool \<times> kss_server) option" where
  "addDomain sg avail now dompath i comment srv =
     (if \<not> (valid dompath \<and> isAbsolute dompath) then None
      else if \<not> avail 2 then Some (False, srv)
      else do {
        t \<leftarrow> ht_new (string_hash sg) (avail 3) 11 (f32 (4/5)) (f32 (2/5));
        let ob = SimpleDomain \<lparr>dom_object = \<lparr>co_identifier = i, co_creation_time = now, co_comment = comment, co_semantic_flags = 0\<rparr>,
                               dom_children = t, dom_next_sister = 0, dom_class_identifier = []\<rparr>;
        if \<not> avail 4 then Some (False, srv)
        else let (ho, srv) = new_object ob srv in addCommObject sg avail dompath ho srv })"

definition addStringVar ::
  "bool \<Rightarrow> (nat \<Rightarrow> bool) \<Rightarrow> timeval \<Rightarrow> kspath \<Rightarrow> byte list \<Rightarrow> byte list \<Rightarrow> byte list \<Rightarrow> bool \<Rightarrow> kss_server \<Rightarrow> (bool \<times> kss_server) option" where
  "addStringVar sg avail now dompath i str comment do_lock srv =
     (if \<not> (valid dompath \<and> isAbsolute dompath) then None
      else if \<not> avail 2 then Some (False, srv)
      else if \<not> avail 3 then Some (False, srv)
      else let v = new_variable now i now [];
               v = snd (setState KS_ST_GOOD (snd (setValue (Some (StringValue str)) v)));
               v = v\<lparr>var_object := (var_object v)\<lparr>co_comment := comment\<rparr>\<rparr>;
               v = (if do_lock then lock v else v)
           in if \<not> avail 4 then Some (False, srv)
              else let (ho, srv) = new_object (SimpleVariable v) srv in addCommObject sg avail dompath ho srv)"

end
