(* ===== verification/KsServerSpec.thy ===== *)
theory KsServerSpec
  imports KsObjectTree KsSimpleServer
begin

text \<open>
  What the services of a simple server promise on a well-formed tree of objects, for all paths and tickets: finding objects, writing and
  reading variables. \<open>same_tree\<close> relates stores that differ in the contents of variables only. The witnesses use a small server.
\<close>

definition server_ok :: "bool \<Rightarrow> kss_server \<Rightarrow> bool" where
  "server_ok sg srv \<longleftrightarrow>
     tree_ok sg (srv_objects srv) \<and> (\<exists>d. srv_objects srv (srv_root_domain srv) = Some (SimpleDomain d)) \<and>
     (\<forall>a\<ge>srv_next srv. srv_objects srv a = None) \<and> 0 < srv_next srv"

lemma server_okD:
  assumes "server_ok sg srv"
  shows "tree_ok sg (srv_objects srv)" "has_children (srv_objects srv) (srv_root_domain srv)"
    and "srv_next srv \<le> a \<Longrightarrow> srv_objects srv a = None" "0 < srv_next srv"
  using assms by (auto simp: server_ok_def has_children_def)

subsection \<open>A server\<close>

text \<open>A root domain with one variable, and a domain without own children whose sister is the root.\<close>

definition sample_domain :: "byte list \<Rightarrow> (byte list, nat) htab \<Rightarrow> nat \<Rightarrow> simple_domain" where
  "sample_domain i t s = \<lparr>dom_object = \<lparr>co_identifier = i, co_creation_time = \<lparr>tv_sec = 0, tv_usec = 0\<rparr>, co_comment = [], co_semantic_flags = 0\<rparr>,
     dom_children = t, dom_next_sister = s, dom_class_identifier = []\<rparr>"

definition sample_variable :: simple_variable where
  "sample_variable = new_variable \<lparr>tv_sec = 1, tv_usec = 0\<rparr> [0x61] \<lparr>tv_sec = 0, tv_usec = 0\<rparr> []"

definition sample_server :: "(byte list, nat) htab \<Rightarrow> (byte list, nat) htab \<Rightarrow> kss_server" where
  "sample_server t e =
     \<lparr>srv_objects = [1 \<mapsto> SimpleDomain (sample_domain [0x2F] t 0), 2 \<mapsto> SimpleVariable sample_variable, 3 \<mapsto> SimpleDomain (sample_domain [0x62] e 1)],
      srv_root_domain = 1, srv_next = 4\<rparr>"

lemma sample_simps [simp]:
  "srv_root_domain (sample_server t e) = 1"
  "srv_objects (sample_server t e) 1 = Some (SimpleDomain (sample_domain [0x2F] t 0))"
  "srv_objects (sample_server t e) (Suc 0) = Some (SimpleDomain (sample_domain [0x2F] t 0))"
  "srv_objects (sample_server t e) 2 = Some (SimpleVariable sample_variable)"
  "srv_objects (sample_server t e) 3 = Some (SimpleDomain (sample_domain [0x62] e 1))"
  "dom_children (sample_domain i t s) = t" "dom_next_sister (sample_domain i t s) = s"
  by (simp_all add: sample_server_def sample_domain_def)

lemma sample_ok:
  obtains t e where "server_ok sg (sample_server t e)" "ht_map t = [[0x61] \<mapsto> 2]" "ht_map e = Map.empty"
proof -
  obtain e :: "(byte list, nat) htab" where e: "ht_inv (string_hash sg) e" "ht_map e = Map.empty" "ht_used e = 0" "ht_minCapacity e = 11"
    using ht_new_default [of "string_hash sg"] by blast
  have "medium_capacity e = 0"
    using e(3) by (simp add: medium_capacity_def ht_size_def f32_of_nat_def f32_div_def f32_trunc_def)
  then have fits: "fits (max (ht_used e + 2) (medium_capacity e)) e 11" using e by (simp add: fits_def primes_def)
  obtain r and t :: "(byte list, nat) htab" where r: "ht_inv (string_hash sg) t"
      "r \<longrightarrow> ht_map e [0x61] = None \<and> ht_map t = (ht_map e)([0x61] \<mapsto> 2)"
      "ht_map e [0x61] = None \<and> True \<and> True \<and> (\<exists>c. fits (max (ht_used e + 2) (medium_capacity e)) e c) \<longrightarrow> r"
    using ht_add_ok [OF e(1), of True True "[0x61]" 2] by blast
  then have t: "ht_inv (string_hash sg) t" "ht_map t = [[0x61] \<mapsto> 2]" using e(2) fits by auto
  let ?H = "srv_objects (sample_server t e)"
  have objects: "?H a = Some ob \<longleftrightarrow> a = 1 \<and> ob = SimpleDomain (sample_domain [0x2F] t 0) \<or> a = 2 \<and> ob = SimpleVariable sample_variable \<or>
      a = 3 \<and> ob = SimpleDomain (sample_domain [0x62] e 1)" for a ob
    by (auto simp: sample_server_def)
  have "delegates ?H = {(1, 3)}" by (auto simp: delegates_def objects sample_domain_def)
  moreover have "wf {(1 :: nat, 3 :: nat)}" by (rule wf_subset [OF wf_less]) auto
  moreover have "has_children ?H 1" by (simp add: has_children_def sample_domain_def)
  moreover have "children_ok sg ?H t" "children_ok sg ?H e"
    using t e by (auto simp: children_ok_def sample_variable_def new_variable_def cstr_def)
  moreover have "?H 0 = None" by (simp add: sample_server_def)
  ultimately have "tree_ok sg ?H" by (auto simp: tree_ok_def objects sample_domain_def)
  then have "server_ok sg (sample_server t e)"
    by (auto simp: server_ok_def sample_domain_def) (auto simp: sample_server_def)
  then show ?thesis using that t(2) e(2) by blast
qed

lemma sample_child: "ht_map t = [[0x61] \<mapsto> 2] \<Longrightarrow> child_at (srv_objects (sample_server t e)) 1 k h \<longleftrightarrow> k = [0x61] \<and> h = 2"
  by (auto simp: child_at_domain sample_domain_def split: if_splits)

lemma sample_path: "ht_map t = [[0x61] \<mapsto> 2] \<Longrightarrow> path_at (srv_objects (sample_server t e)) 1 [k] h \<longleftrightarrow> k = [0x61] \<and> h = 2"
  by (simp only: path_at_simps sample_child)

lemma layout_path:
  assumes "layout p [0x2F] ds" "go_up p = 0"
  shows "valid p" "isAbsolute p" "components p = ds" "map cstr (components p) = ds" "to_string p = 0x2F # join ds"
proof -
  show "components p = ds" using layout_components [OF assms(1)] .
  have "\<forall>c\<in>set ds. cstr c = c" using assms(1) by (auto simp: layout_def cstr_def takeWhile_eq_all_conv)
  then show "map cstr (components p) = ds" using \<open>components p = ds\<close> by (simp add: map_idI)
qed (use assms to_string_layout [OF assms] in \<open>simp_all add: layout_def isAbsolute_def\<close>)

lemma sample_text:
  obtains p where "path_of (\<lambda>_. True) [0x2F, 0x61] = Some p" "valid p" "isAbsolute p" "components p = [[0x61]]"
proof -
  have "comps_ok [[0x61]]" by (simp add: comps_ok_def)
  then obtain p where p: "path_of (\<lambda>_. True) [0x2F, 0x61] = Some p" "represents p 0 [[0x61]]"
    using parse_absolute [of "\<lambda>_. True" "[[0x61]]"] by auto
  then have "layout p [0x2F] [[0x61]]" "go_up p = 0" by (auto simp: represents_def)
  from layout_path(1-3) [OF this] show ?thesis by (rule that [OF p(1)])
qed

lemma cstr_one [simp]: "c \<noteq> 0 \<Longrightarrow> cstr [c] = [c]"
  by (simp add: cstr_def)

lemma sample_leaf: "ht_map t = [[0x61] \<mapsto> 2] \<Longrightarrow> components p = [[0x61]] \<Longrightarrow>
  path_at (srv_objects (sample_server t e)) 1 (map cstr (components p)) h \<longleftrightarrow> h = 2"
  using sample_path [of t e "[0x61]" h] by simp

subsection \<open>Stores with the same tree\<close>

text \<open>The same domains and links, and the same names: all that lookup and iteration depend on.\<close>

definition same_tree :: "store \<Rightarrow> store \<Rightarrow> bool" where
  "same_tree H H' \<longleftrightarrow>
     (\<forall>a. (\<forall>d. H a = Some (SimpleDomain d) \<longleftrightarrow> H' a = Some (SimpleDomain d)) \<and>
          (\<forall>l. H a = Some (SimpleLinkAlias l) \<longleftrightarrow> H' a = Some (SimpleLinkAlias l)) \<and>
          map_option identifier_of (H a) = map_option identifier_of (H' a))"

lemma same_treeD:
  assumes "same_tree H H'"
  shows "H a = Some (SimpleDomain d) \<longleftrightarrow> H' a = Some (SimpleDomain d)"
    and "H a = Some (SimpleLinkAlias l) \<longleftrightarrow> H' a = Some (SimpleLinkAlias l)"
    and "map_option identifier_of (H a) = map_option identifier_of (H' a)"
  using assms by (auto simp: same_tree_def)

lemma same_tree_sym: "same_tree H H' \<Longrightarrow> same_tree H' H"
  by (auto simp: same_tree_def)

lemma same_tree_refl: "same_tree H H"
  by (simp add: same_tree_def)

lemma same_tree_trans: "same_tree H H' \<Longrightarrow> same_tree H' H'' \<Longrightarrow> same_tree H H''"
  by (simp add: same_tree_def)

lemma same_tree_variable:
  assumes "H h = Some (SimpleVariable v)" "var_object w = var_object v"
  shows "same_tree H (H(h \<mapsto> SimpleVariable w))"
  using assms by (simp add: same_tree_def)

lemma same_has_children: "same_tree H H' \<Longrightarrow> has_children H' a = has_children H a"
  by (simp add: has_children_def same_treeD)

lemma same_child_at_imp:
  assumes "child_at H a k h" "same_tree H H'" shows "child_at H' a k h"
  using assms by induction (auto simp: same_treeD intro: child_at.intros)

lemma same_child_at: "same_tree H H' \<Longrightarrow> child_at H' = child_at H"
  using same_child_at_imp same_tree_sym by (intro ext) blast

lemma same_path_at_imp:
  assumes "path_at H a ks h" "same_tree H H'" shows "path_at H' a ks h"
  using assms by induction (simp_all add: path_at_simps same_child_at same_has_children, blast)

lemma same_path_at: "same_tree H H' \<Longrightarrow> path_at H' = path_at H"
  using same_path_at_imp same_tree_sym by (intro ext) blast

lemma same_delegates: "same_tree H H' \<Longrightarrow> delegates H' = delegates H"
  by (simp add: delegates_def same_treeD)

lemma same_tree_ok:
  assumes "same_tree H H'" "tree_ok sg H" shows "tree_ok sg H'"
proof -
  have ident: "(\<exists>ob. H' h = Some ob \<and> k = cstr (identifier_of ob)) \<longleftrightarrow> (\<exists>ob. H h = Some ob \<and> k = cstr (identifier_of ob))" for h k
    using same_treeD(3) [OF assms(1), of h] by (cases "H h"; cases "H' h") auto
  have "children_ok sg H' = children_ok sg H" by (simp add: children_ok_def ident fun_eq_iff)
  moreover have "H' 0 = None" using same_treeD(3) [OF assms(1), of 0] tree_okD(1) [OF assms(2)] by simp
  ultimately show ?thesis
    using assms(2) by (simp add: tree_ok_def same_delegates [OF assms(1)] same_has_children [OF assms(1)] same_treeD [OF assms(1), symmetric])
qed

lemma same_newIterator:
  assumes "tree_ok sg H" "has_children H a" "same_tree H H'"
  shows "newIterator H' a = newIterator H a"
  using assms(1,2)
proof (induction rule: children_induct)
  case (Domain a d)
  moreover have "H' a = Some (SimpleDomain d)" using Domain(1) same_treeD(1) [OF assms(3)] by simp
  ultimately show ?case by (subst (1 2) newIterator.simps) simp
next
  case (Alias a l)
  moreover have "H' a = Some (SimpleLinkAlias l)" using Alias(1) same_treeD(2) [OF assms(3)] by simp
  ultimately show ?case by (subst (1 2) newIterator.simps) simp
qed

lemma same_collect_names:
  assumes "same_tree H H'" shows "collect_names avail H' k hs = collect_names avail H k hs"
proof (induction hs arbitrary: k)
  case (Cons h hs)
  show ?case using Cons same_treeD(3) [OF assms, of h] by (cases "H h"; cases "H' h") auto
qed simp

lemma same_server:
  assumes "server_ok sg srv" "same_tree (srv_objects srv) H" "\<forall>a\<ge>srv_next srv. H a = None"
  shows "server_ok sg (srv\<lparr>srv_objects := H\<rparr>)"
proof -
  obtain d where "srv_objects srv (srv_root_domain srv) = Some (SimpleDomain d)" using assms(1) by (auto simp: server_ok_def)
  then have "H (srv_root_domain srv) = Some (SimpleDomain d)" by (rule same_treeD(1) [OF assms(2), THEN iffD1])
  then show ?thesis using assms(1,3) same_tree_ok [OF assms(2)] by (simp add: server_ok_def)
qed

subsection \<open>Finding objects\<close>

text \<open>
  C14. The lookup of a path in the tree of a server always returns, and finds the object the names on the path lead to from the root, through
  own children, children of sisters and domains behind links, or the unbound handle where there is none.
\<close>

theorem objects_found:
  assumes "server_ok sg srv" and "valid p"
  shows "\<exists>h. getChildByPath sg (srv_objects srv) (srv_root_domain srv) p = Some h \<and>
    (\<forall>g. path_at (srv_objects srv) (srv_root_domain srv) (map cstr (components p)) g \<longleftrightarrow> h = g \<and> g \<noteq> 0) \<and>
    (h \<noteq> 0 \<longrightarrow> (\<exists>ob. srv_objects srv h = Some ob \<and> last (map cstr (components p)) = cstr (identifier_of ob)))"
proof -
  obtain h where h: "getChildByPath sg (srv_objects srv) (srv_root_domain srv) p = Some h"
      "\<forall>g. path_at (srv_objects srv) (srv_root_domain srv) (map cstr (components p)) g \<longleftrightarrow> h = g \<and> g \<noteq> 0"
    using getChildByPath_spec [OF server_okD(1,2) [OF assms(1)] assms(2)] by blast
  moreover have "\<exists>ob. srv_objects srv h = Some ob \<and> last (map cstr (components p)) = cstr (identifier_of ob)" if "h \<noteq> 0"
    using path_at_exists [OF _ server_okD(1) [OF assms(1)]] h(2) that by blast
  ultimately show ?thesis by blast
qed

theorem objects_found_witness:
  "\<exists>(srv :: kss_server) p. path_of (\<lambda>_. True) [0x2F, 0x61] = Some p \<and> getChildByPath True (srv_objects srv) (srv_root_domain srv) p = Some 2 \<and>
     srv_objects srv 2 \<noteq> None"
proof -
  obtain t e where ok: "server_ok True (sample_server t e)" "ht_map t = [[0x61] \<mapsto> 2]" by (rule sample_ok)
  obtain p where p: "path_of (\<lambda>_. True) [0x2F, 0x61] = Some p" "valid p" "isAbsolute p" "components p = [[0x61]]" by (rule sample_text)
  have "path_at (srv_objects (sample_server t e)) (srv_root_domain (sample_server t e)) (map cstr (components p)) 2"
    using sample_leaf [OF ok(2) p(4), of e] by simp
  moreover obtain h where "getChildByPath True (srv_objects (sample_server t e)) (srv_root_domain (sample_server t e)) p = Some h"
      "\<forall>g. path_at (srv_objects (sample_server t e)) (srv_root_domain (sample_server t e)) (map cstr (components p)) g \<longleftrightarrow> h = g \<and> g \<noteq> 0"
    using objects_found [OF ok(1) p(2)] by blast
  ultimately have "getChildByPath True (srv_objects (sample_server t e)) (srv_root_domain (sample_server t e)) p = Some 2" by metis
  then show ?thesis using p(1) by (intro exI [of _ "sample_server t e"] exI [of _ p]) simp
qed

subsection \<open>Writing a variable\<close>

lemma lookup_path:
  assumes "server_ok sg srv" "valid p" "path_at (srv_objects srv) (srv_root_domain srv) (map cstr (components p)) h"
  shows "getChildByPath sg (srv_objects srv) (srv_root_domain srv) p = Some h" "h \<noteq> 0"
proof -
  obtain g where "getChildByPath sg (srv_objects srv) (srv_root_domain srv) p = Some g" "g = h \<and> h \<noteq> 0"
    using getChildByPath_spec [OF server_okD(1,2) [OF assms(1)] assms(2)] assms(3) by blast
  then show "getChildByPath sg (srv_objects srv) (srv_root_domain srv) p = Some h" "h \<noteq> 0" by simp_all
qed

lemma lookup_no_path:
  assumes "server_ok sg srv" "valid p" "\<forall>h. \<not> path_at (srv_objects srv) (srv_root_domain srv) (map cstr (components p)) h"
  shows "getChildByPath sg (srv_objects srv) (srv_root_domain srv) p = Some 0"
proof -
  obtain g where "getChildByPath sg (srv_objects srv) (srv_root_domain srv) p = Some g" "\<forall>h. \<not> (g = h \<and> h \<noteq> 0)"
    using getChildByPath_spec [OF server_okD(1,2) [OF assms(1)] assms(2)] assms(3) by blast
  then show ?thesis by simp
qed

lemma path_at_unique:
  assumes "server_ok sg srv" "valid p" "path_at (srv_objects srv) (srv_root_domain srv) (map cstr (components p)) g"
    and "path_at (srv_objects srv) (srv_root_domain srv) (map cstr (components p)) h"
  shows "g = h"
  using lookup_path(1) [OF assms(1-3)] lookup_path(1) [OF assms(1,2,4)] by simp

lemma same_lookup:
  assumes "server_ok sg srv" "same_tree (srv_objects srv) H" "\<forall>a\<ge>srv_next srv. H a = None" "valid p"
  shows "getChildByPath sg H (srv_root_domain srv) p = getChildByPath sg (srv_objects srv) (srv_root_domain srv) p"
proof -
  note ok = same_server [OF assms(1-3)]
  show ?thesis
  proof (cases "\<exists>h. path_at (srv_objects srv) (srv_root_domain srv) (map cstr (components p)) h")
    case True
    then obtain h where h: "path_at (srv_objects srv) (srv_root_domain srv) (map cstr (components p)) h" by blast
    then show ?thesis using lookup_path(1) [OF assms(1,4) h] lookup_path(1) [OF ok assms(4), of h] by (simp add: same_path_at [OF assms(2)])
  next
    case False
    then show ?thesis using lookup_no_path [OF assms(1,4)] lookup_no_path [OF ok assms(4)] by (simp add: same_path_at [OF assms(2)])
  qed
qed

text \<open>The effect of setting the current properties of an object on the tree: none.\<close>

lemma setCurrProps_same:
  assumes "H h = Some ob" "setCurrProps props ob = (r, ob')"
  shows "same_tree H (H(h \<mapsto> ob'))" "r \<noteq> KS_ERR_OK \<Longrightarrow> ob' = ob"
proof -
  have "ob' = ob \<or> (\<exists>v w. ob = SimpleVariable v \<and> ob' = SimpleVariable w \<and> var_object w = var_object v \<and> r = KS_ERR_OK)"
    using assms(2)
    by (cases "(props, ob)" rule: setCurrProps.cases)
       (auto simp: setValue_def setTime_def setState_def isWriteable_def split: if_splits)
  then show "same_tree H (H(h \<mapsto> ob'))" "r \<noteq> KS_ERR_OK \<Longrightarrow> ob' = ob"
    using assms(1) by (auto simp: fun_upd_idem same_tree_refl intro: same_tree_variable)
qed

lemma set_writeable:
  assumes "isWriteable v"
  shows "setCurrProps (Some (VarCurrProps x t st)) (SimpleVariable v) =
    (KS_ERR_OK, SimpleVariable (v\<lparr>var_value := x, var_time := t, var_state := st\<rparr>))"
  using assms by (simp add: setValue_def setTime_def setState_def isWriteable_def)

lemma setVarItem_cases:
  assumes "valid p" "isAbsolute p"
  shows "\<not> tk_canWriteVar ticket (to_string p) \<Longrightarrow> setVarItem sg ticket srv p props = Some (KS_ERR_NOACCESS, srv)"
    and "tk_canWriteVar ticket (to_string p) \<Longrightarrow> getChildByPath sg (srv_objects srv) (srv_root_domain srv) p = Some 0 \<Longrightarrow>
      setVarItem sg ticket srv p props = Some (KS_ERR_BADPATH, srv)"
    and "tk_canWriteVar ticket (to_string p) \<Longrightarrow> getChildByPath sg (srv_objects srv) (srv_root_domain srv) p = Some h \<Longrightarrow>
      srv_objects srv h = Some ob \<Longrightarrow> h \<noteq> 0 \<Longrightarrow> setVarItem sg ticket srv p props =
        (if typeCode ob = KS_OT_VARIABLE \<or> typeCode ob = KS_OT_LINK
         then Some (fst (setCurrProps props ob), srv\<lparr>srv_objects := (srv_objects srv)(h \<mapsto> snd (setCurrProps props ob))\<rparr>)
         else Some (KS_ERR_BADTYPE, srv))"
  using assms by (simp_all add: setVarItem_def case_prod_beta)

lemma setVarItem_total:
  assumes "server_ok sg srv" "valid p" "isAbsolute p"
  shows "\<exists>r H. setVarItem sg ticket srv p props = Some (r, srv\<lparr>srv_objects := H\<rparr>) \<and> same_tree (srv_objects srv) H \<and>
    (\<forall>a\<ge>srv_next srv. H a = None) \<and> (r \<noteq> KS_ERR_OK \<longrightarrow> H = srv_objects srv)"
proof -
  note none = server_okD(3) [OF assms(1)]
  have same: ?thesis if "setVarItem sg ticket srv p props = Some (r, srv)" for r
    using that none by (intro exI [of _ r] exI [of _ "srv_objects srv"]) (simp add: same_tree_refl)
  consider (no) "\<not> tk_canWriteVar ticket (to_string p)"
    | (bad) "tk_canWriteVar ticket (to_string p)" "getChildByPath sg (srv_objects srv) (srv_root_domain srv) p = Some 0"
    | (found) h where "tk_canWriteVar ticket (to_string p)" "path_at (srv_objects srv) (srv_root_domain srv) (map cstr (components p)) h"
    using lookup_no_path [OF assms(1,2)] by blast
  then show ?thesis
  proof cases
    case no
    then show ?thesis by (rule same [OF setVarItem_cases(1) [OF assms(2,3)]])
  next
    case bad
    then show ?thesis by (rule same [OF setVarItem_cases(2) [OF assms(2,3)]])
  next
    case found
    obtain ob where ob: "srv_objects srv h = Some ob" using path_at_exists [OF found(2) server_okD(1) [OF assms(1)]] by blast
    obtain r ob' where set: "setCurrProps props ob = (r, ob')" by fastforce
    note eq = setVarItem_cases(3) [OF assms(2,3) found(1) lookup_path(1) [OF assms(1,2) found(2)] ob lookup_path(2) [OF assms(1,2) found(2)],
        of props, unfolded set fst_conv snd_conv]
    note keep = setCurrProps_same [where H = "srv_objects srv", OF ob set]
    have "\<forall>a\<ge>srv_next srv. ((srv_objects srv)(h \<mapsto> ob')) a = None" using none ob by auto
    moreover have "r \<noteq> KS_ERR_OK \<Longrightarrow> (srv_objects srv)(h \<mapsto> ob') = srv_objects srv" using keep(2) ob by (simp add: fun_upd_idem)
    ultimately show ?thesis using eq keep(1) same by (cases "typeCode ob = KS_OT_VARIABLE \<or> typeCode ob = KS_OT_LINK") auto
  qed
qed

text \<open>Reading in a store with the same tree and the same object at the end of the path.\<close>

lemma same_getCurrProps:
  assumes "tree_ok sg H" "same_tree H H'" "H a = Some ob" "H' a = Some ob"
  shows "getCurrProps avail now H' ob hprops = getCurrProps avail now H ob hprops"
proof (cases ob)
  case (SimpleLinkAlias l)
  have "has_children H (alias_domain l)" using tree_okD(4) [OF assms(1), of "alias_domain l" a] assms(3) SimpleLinkAlias by simp
  then have "newIterator H' (alias_domain l) = newIterator H (alias_domain l)" by (rule same_newIterator [OF assms(1) _ assms(2)])
  then show ?thesis by (simp add: SimpleLinkAlias alias_getCurrProps_def same_collect_names [OF assms(2)])
qed simp_all

lemma getVarItem_cases:
  assumes "valid p" "isAbsolute p"
  shows "\<not> tk_canReadVar ticket (to_string p) \<Longrightarrow> getVarItem sg avail now ticket srv p item = Some (item\<lparr>rp_result := KS_ERR_NOACCESS\<rparr>)"
    and "tk_canReadVar ticket (to_string p) \<Longrightarrow> getChildByPath sg (srv_objects srv) (srv_root_domain srv) p = Some 0 \<Longrightarrow>
      getVarItem sg avail now ticket srv p item = Some (item\<lparr>rp_result := KS_ERR_BADPATH\<rparr>)"
    and "tk_canReadVar ticket (to_string p) \<Longrightarrow> getChildByPath sg (srv_objects srv) (srv_root_domain srv) p = Some h \<Longrightarrow>
      srv_objects srv h = Some ob \<Longrightarrow> h \<noteq> 0 \<Longrightarrow> getVarItem sg avail now ticket srv p item =
        (if typeCode ob = KS_OT_VARIABLE \<or> typeCode ob = KS_OT_LINK
         then map_option (\<lambda>(r, props). item\<lparr>rp_result := r, rp_data := props\<rparr>) (getCurrProps avail now (srv_objects srv) ob (rp_data item))
         else Some (item\<lparr>rp_result := KS_ERR_BADTYPE\<rparr>))"
  using assms by (simp_all add: getVarItem_def map_conv_bind_option case_prod_unfold comp_def)

lemma same_getVarItem:
  assumes "server_ok sg srv" "same_tree (srv_objects srv) H" "\<forall>a\<ge>srv_next srv. H a = None" "valid p" "isAbsolute p"
    and "\<And>h. path_at (srv_objects srv) (srv_root_domain srv) (map cstr (components p)) h \<Longrightarrow> H h = srv_objects srv h"
  shows "getVarItem sg avail now ticket (srv\<lparr>srv_objects := H\<rparr>) p item = getVarItem sg avail now ticket srv p item"
proof -
  note look = same_lookup [OF assms(1-4)]
  show ?thesis
  proof (cases "tk_canReadVar ticket (to_string p) \<and> (\<exists>h. path_at (srv_objects srv) (srv_root_domain srv) (map cstr (components p)) h)")
    case True
    then obtain h where h: "path_at (srv_objects srv) (srv_root_domain srv) (map cstr (components p)) h" by blast
    obtain ob where ob: "srv_objects srv h = Some ob" using path_at_exists [OF h server_okD(1) [OF assms(1)]] by blast
    then have ob': "H h = Some ob" using assms(6) [OF h] by simp
    show ?thesis
      using True getVarItem_cases(3) [OF assms(4,5), of ticket sg srv h ob avail now item]
        getVarItem_cases(3) [OF assms(4,5), of ticket sg "srv\<lparr>srv_objects := H\<rparr>" h ob avail now item]
        lookup_path [OF assms(1,4) h] ob ob' look same_getCurrProps [OF server_okD(1) [OF assms(1)] assms(2) ob ob'] by simp
  next
    case False
    then show ?thesis
      using lookup_no_path [OF assms(1,4)] look
        getVarItem_cases(1,2) [OF assms(4,5), of ticket sg] by fastforce
  qed
qed

text \<open>
  C8. Writing a variable through a path to it, with a ticket that allows it: the write succeeds and the tree stays well formed; every path
  to the same variable reads the value, time and state just written, with any ticket that may read it; reading any other path gives what
  it gave before. A write that is refused changes nothing.
\<close>

theorem variable_written:
  assumes "server_ok sg srv" and "valid p" and "isAbsolute p"
    and "path_at (srv_objects srv) (srv_root_domain srv) (map cstr (components p)) h"
    and "srv_objects srv h = Some (SimpleVariable v)" and "isWriteable v" and "tk_canWriteVar ticket (to_string p)"
  shows "(\<exists>srv'. setVarItem sg ticket srv p (Some (VarCurrProps (Some x) t st)) = Some (KS_ERR_OK, srv') \<and> server_ok sg srv' \<and>
      (\<forall>q reader avail now item. valid q \<and> isAbsolute q \<longrightarrow>
         (path_at (srv_objects srv) (srv_root_domain srv) (map cstr (components q)) h \<and> tk_canReadVar reader (to_string q) \<and> avail 0 \<longrightarrow>
            getVarItem sg avail now reader srv' q item = Some \<lparr>rp_result = KS_ERR_OK, rp_data = Some (VarCurrProps (Some x) t st)\<rparr>) \<and>
         (\<not> path_at (srv_objects srv) (srv_root_domain srv) (map cstr (components q)) h \<longrightarrow>
            getVarItem sg avail now reader srv' q item = getVarItem sg avail now reader srv q item))) \<and>
    (\<forall>q writer props r srv'. valid q \<and> isAbsolute q \<and> setVarItem sg writer srv q props = Some (r, srv') \<and> r \<noteq> KS_ERR_OK \<longrightarrow> srv' = srv)"
proof (intro conjI allI impI)
  let ?H = "srv_objects srv"
  define w where "w = v\<lparr>var_value := Some x, var_time := t, var_state := st\<rparr>"
  define H where "H = ?H(h \<mapsto> SimpleVariable w)"
  have same: "same_tree ?H H" unfolding H_def by (rule same_tree_variable [where H = ?H, OF assms(5)]) (simp add: w_def)
  have free: "\<forall>a\<ge>srv_next srv. H a = None" using server_okD(3) [OF assms(1)] assms(5) by (auto simp: H_def)
  have set: "setVarItem sg ticket srv p (Some (VarCurrProps (Some x) t st)) = Some (KS_ERR_OK, srv\<lparr>srv_objects := H\<rparr>)"
    using setVarItem_cases(3) [OF assms(2,3,7) lookup_path(1) [OF assms(1,2,4)] assms(5) lookup_path(2) [OF assms(1,2,4)]]
    by (simp add: set_writeable [OF assms(6)] H_def w_def del: setCurrProps.simps)
  have read: "getVarItem sg avail now reader (srv\<lparr>srv_objects := H\<rparr>) q item =
      Some \<lparr>rp_result = KS_ERR_OK, rp_data = Some (VarCurrProps (Some x) t st)\<rparr>"
    if q: "valid q" "isAbsolute q" "path_at ?H (srv_root_domain srv) (map cstr (components q)) h" "tk_canReadVar reader (to_string q)" "avail 0"
    for q reader avail now and item :: var_item
  proof -
    have "getChildByPath sg H (srv_root_domain srv) q = Some h"
      using same_lookup [OF assms(1) same free q(1)] lookup_path(1) [OF assms(1) q(1,3)] by simp
    then show ?thesis
      using getVarItem_cases(3) [OF q(1,2,4), of sg "srv\<lparr>srv_objects := H\<rparr>" h "SimpleVariable w" avail now item] lookup_path(2) [OF assms(1) q(1,3)] q(5)
      by (cases item) (simp add: H_def w_def var_getCurrProps_def)
  qed
  have other: "getVarItem sg avail now reader (srv\<lparr>srv_objects := H\<rparr>) q item = getVarItem sg avail now reader srv q item"
    if q: "valid q" "isAbsolute q" "\<not> path_at ?H (srv_root_domain srv) (map cstr (components q)) h"
    for q reader avail now and item :: var_item
    by (rule same_getVarItem [OF assms(1) same free q(1,2)]) (use q(3) in \<open>auto simp: H_def\<close>)
  show "\<exists>srv'. setVarItem sg ticket srv p (Some (VarCurrProps (Some x) t st)) = Some (KS_ERR_OK, srv') \<and> server_ok sg srv' \<and>
      (\<forall>q reader avail now item. valid q \<and> isAbsolute q \<longrightarrow>
         (path_at ?H (srv_root_domain srv) (map cstr (components q)) h \<and> tk_canReadVar reader (to_string q) \<and> avail 0 \<longrightarrow>
            getVarItem sg avail now reader srv' q item = Some \<lparr>rp_result = KS_ERR_OK, rp_data = Some (VarCurrProps (Some x) t st)\<rparr>) \<and>
         (\<not> path_at ?H (srv_root_domain srv) (map cstr (components q)) h \<longrightarrow>
            getVarItem sg avail now reader srv' q item = getVarItem sg avail now reader srv q item))"
    using set same_server [OF assms(1) same free] read other by (intro exI [of _ "srv\<lparr>srv_objects := H\<rparr>"]) simp
next
  fix q writer props r srv'
  assume q: "valid q \<and> isAbsolute q \<and> setVarItem sg writer srv q props = Some (r, srv') \<and> r \<noteq> KS_ERR_OK"
  then show "srv' = srv" using setVarItem_total [OF assms(1), of q writer props] by auto
qed

theorem variable_written_witness:
  "\<exists>srv srv' p. path_of (\<lambda>_. True) [0x2F, 0x61] = Some p \<and>
     setVarItem True (none_ticket 0 0 3) srv p (Some (VarCurrProps (Some (IntValue 5)) \<lparr>tv_sec = 7, tv_usec = 0\<rparr> KS_ST_GOOD)) = Some (KS_ERR_OK, srv') \<and>
     getVarItem True (\<lambda>_. True) \<lparr>tv_sec = 9, tv_usec = 0\<rparr> (none_ticket 0 0 1) srv' p \<lparr>rp_result = 0, rp_data = None\<rparr> =
       Some \<lparr>rp_result = KS_ERR_OK, rp_data = Some (VarCurrProps (Some (IntValue 5)) \<lparr>tv_sec = 7, tv_usec = 0\<rparr> KS_ST_GOOD)\<rparr>"
proof -
  obtain t e where ok: "server_ok True (sample_server t e)" "ht_map t = [[0x61] \<mapsto> 2]" by (rule sample_ok)
  obtain p where p: "path_of (\<lambda>_. True) [0x2F, 0x61] = Some p" "valid p" "isAbsolute p" "components p = [[0x61]]" by (rule sample_text)
  have at: "path_at (srv_objects (sample_server t e)) (srv_root_domain (sample_server t e)) (map cstr (components p)) 2"
    using sample_leaf [OF ok(2) p(4), of e] by simp
  have w: "isWriteable sample_variable" by (simp add: sample_variable_def new_variable_def isWriteable_def ks_object_consts)
  have tk: "tk_canWriteVar (none_ticket 0 0 3) (to_string p)" "tk_canReadVar (none_ticket 0 0 1) (to_string p)"
    by (simp_all add: none_ticket_def ks_object_consts)
  obtain srv' where
    "setVarItem True (none_ticket 0 0 3) (sample_server t e) p (Some (VarCurrProps (Some (IntValue 5)) \<lparr>tv_sec = 7, tv_usec = 0\<rparr> KS_ST_GOOD)) = Some (KS_ERR_OK, srv')"
    "\<forall>q reader avail now item. valid q \<and> isAbsolute q \<longrightarrow>
       path_at (srv_objects (sample_server t e)) (srv_root_domain (sample_server t e)) (map cstr (components q)) 2 \<and> tk_canReadVar reader (to_string q) \<and> avail 0 \<longrightarrow>
       getVarItem True avail now reader srv' q item = Some \<lparr>rp_result = KS_ERR_OK, rp_data = Some (VarCurrProps (Some (IntValue 5)) \<lparr>tv_sec = 7, tv_usec = 0\<rparr> KS_ST_GOOD)\<rparr>"
    using variable_written [OF ok(1) p(2,3) at _ w tk(1), of "IntValue 5" "\<lparr>tv_sec = 7, tv_usec = 0\<rparr>" KS_ST_GOOD] by auto
  then show ?thesis using p(1-3) at tk(2) by (intro exI [of _ "sample_server t e"] exI [of _ srv'] exI [of _ p]) simp
qed

subsection \<open>Reading variables\<close>

text \<open>What an object answers: its class tells what its current properties are.\<close>

definition object_answers :: "timeval \<Rightarrow> store \<Rightarrow> kss_object \<Rightarrow> var_item \<Rightarrow> var_item \<Rightarrow> bool" where
  "object_answers now H ob old item \<longleftrightarrow>
     (case ob of
        SimpleDomain _ \<Rightarrow> item = old\<lparr>rp_result := KS_ERR_BADTYPE\<rparr>
      | SimpleVariable v \<Rightarrow>
          item = (case var_value v of
                    None \<Rightarrow> \<lparr>rp_result = KS_ERR_GENERIC, rp_data = None\<rparr>
                  | Some x \<Rightarrow> \<lparr>rp_result = KS_ERR_OK, rp_data = Some (VarCurrProps (Some x) (var_time v) (var_state v))\<rparr>)
      | TimeNowVariable _ \<Rightarrow> item = \<lparr>rp_result = KS_ERR_OK, rp_data = Some (VarCurrProps (Some (TimeValue now)) now KS_ST_GOOD)\<rparr>
      | SimpleLinkAlias l \<Rightarrow>
          \<exists>ns. item = \<lparr>rp_result = KS_ERR_OK, rp_data = Some (VarCurrProps (Some (StringVecValue (map (alias_name l) ns))) now KS_ST_GOOD)\<rparr> \<and>
               set ns = {identifier_of c |g c. listed H (alias_domain l) g \<and> H g = Some c})"

text \<open>What reading a path gives, by the names on it, none where it goes up too far.\<close>

definition item_answers :: "timeval \<Rightarrow> av_ticket \<Rightarrow> kss_server \<Rightarrow> byte list list option \<Rightarrow> var_item \<Rightarrow> var_item \<Rightarrow> bool" where
  "item_answers now ticket srv w old item \<longleftrightarrow>
     (case w of
        None \<Rightarrow> item = old\<lparr>rp_result := KS_ERR_BADPATH\<rparr>
      | Some cs \<Rightarrow> \<exists>ds. decoded cs ds \<and>
          (if \<not> tk_canReadVar ticket (0x2F # join ds) then item = old\<lparr>rp_result := KS_ERR_NOACCESS\<rparr>
           else if \<forall>h. \<not> path_at (srv_objects srv) (srv_root_domain srv) ds h then item = old\<lparr>rp_result := KS_ERR_BADPATH\<rparr>
           else \<exists>h ob. path_at (srv_objects srv) (srv_root_domain srv) ds h \<and> srv_objects srv h = Some ob \<and>
                       object_answers now (srv_objects srv) ob old item))"

lemma collect_names_all:
  assumes "\<forall>h\<in>set hs. H h \<noteq> None" "\<forall>k. avail k"
  shows "collect_names avail H k hs = Some (Some (map (\<lambda>h. identifier_of (the (H h))) hs))"
  using assms(1) by (induction hs arbitrary: k) (auto simp: assms(2))

lemma getCurrProps_answers:
  assumes "tree_ok sg H" "H a = Some ob" "\<forall>k. avail k" "typeCode ob = KS_OT_VARIABLE \<or> typeCode ob = KS_OT_LINK"
  shows "\<exists>r props. getCurrProps avail now H ob hprops = Some (r, props) \<and> object_answers now H ob old \<lparr>rp_result = r, rp_data = props\<rparr>"
proof (cases ob)
  case (SimpleLinkAlias l)
  have "has_children H (alias_domain l)" using tree_okD(4) [OF assms(1), of "alias_domain l" a] assms(2) SimpleLinkAlias by simp
  then obtain it where it: "newIterator H (alias_domain l) = Some it" "set (iter_children it) = {h. listed H (alias_domain l) h}"
    using newIterator_spec [OF assms(1)] by blast
  have some: "\<forall>h\<in>set (iter_children it). H h \<noteq> None" using it(2) listed_exists [OF _ assms(1)] by auto
  have "{identifier_of (the (H h)) |h. listed H (alias_domain l) h} = {identifier_of c |g c. listed H (alias_domain l) g \<and> H g = Some c}"
    using listed_exists [OF _ assms(1)] by (force simp: set_eq_iff)
  then have "set (map (\<lambda>h. identifier_of (the (H h))) (iter_children it)) = {identifier_of c |g c. listed H (alias_domain l) g \<and> H g = Some c}"
    by (simp only: setcompr_eq_image set_map it(2))
  then show ?thesis
    by (simp add: SimpleLinkAlias alias_getCurrProps_def object_answers_def collect_names_all [OF some assms(3)] it(1) assms(3) del: set_map list.map_comp map_map) (rule exI, rule conjI, rule refl, assumption)
qed (use assms in \<open>auto simp: var_getCurrProps_def object_answers_def ks_ot_defs split: option.splits\<close>)

lemma getVarItem_answers:
  assumes "server_ok sg srv" "layout p [0x2F] ds" "go_up p = 0" "decoded cs ds" "\<forall>k. avail k"
  shows "\<exists>item. getVarItem sg avail now ticket srv p old = Some item \<and> item_answers now ticket srv (Some cs) old item"
proof -
  note p = layout_path [OF assms(2,3)]
  consider (no) "\<not> tk_canReadVar ticket (0x2F # join ds)"
    | (bad) "tk_canReadVar ticket (0x2F # join ds)" "\<forall>h. \<not> path_at (srv_objects srv) (srv_root_domain srv) ds h"
    | (found) h where "tk_canReadVar ticket (0x2F # join ds)" "path_at (srv_objects srv) (srv_root_domain srv) ds h"
    by blast
  then show ?thesis
  proof cases
    case no
    then show ?thesis using assms(4) getVarItem_cases(1) [OF p(1,2), of ticket] p(5) by (auto simp: item_answers_def)
  next
    case bad
    then have "getChildByPath sg (srv_objects srv) (srv_root_domain srv) p = Some 0"
      using lookup_no_path [OF assms(1) p(1)] p(4) by simp
    then show ?thesis using bad assms(4) getVarItem_cases(2) [OF p(1,2), of ticket sg srv] p(5) by (auto simp: item_answers_def)
  next
    case found
    obtain ob where ob: "srv_objects srv h = Some ob" using path_at_exists [OF found(2) server_okD(1) [OF assms(1)]] by blast
    have look: "getChildByPath sg (srv_objects srv) (srv_root_domain srv) p = Some h" "h \<noteq> 0"
      using lookup_path [OF assms(1) p(1), of h] found(2) p(4) by simp_all
    note eq = getVarItem_cases(3) [OF p(1,2) _ look(1) ob look(2), of ticket avail now old]
    have "\<exists>item. getVarItem sg avail now ticket srv p old = Some item \<and> object_answers now (srv_objects srv) ob old item"
    proof (cases "typeCode ob = KS_OT_VARIABLE \<or> typeCode ob = KS_OT_LINK")
      case True
      then obtain r props where "getCurrProps avail now (srv_objects srv) ob (rp_data old) = Some (r, props)"
          "object_answers now (srv_objects srv) ob old \<lparr>rp_result = r, rp_data = props\<rparr>"
        using getCurrProps_answers [OF server_okD(1) [OF assms(1)] ob assms(5)] by blast
      then show ?thesis using eq found(1) p(5) True by (cases old) simp
    next
      case False
      then obtain d where "ob = SimpleDomain d" by (cases ob) auto
      then show ?thesis using eq found(1) p(5) False by (simp add: object_answers_def)
    qed
    then show ?thesis using found ob assms(4) by (auto simp: item_answers_def)
  qed
qed

lemma getVar_items_answers:
  assumes "server_ok sg srv" "list_all2 lands ps ws" "length olds = length ps" "\<forall>i k. avail i k"
  shows "\<exists>items. getVar_items sg avail now ticket srv i ps olds = Some items \<and> length items = length ps \<and>
    (\<forall>j<length ps. item_answers now ticket srv (ws ! j) (olds ! j) (items ! j))"
  using assms(2,3)
proof (induction ps arbitrary: ws olds i)
  case (Cons r ps)
  obtain p res where r: "r = (p, res)" by (cases r)
  obtain w vs where ws: "ws = w # vs" "lands r w" "list_all2 lands ps vs" using Cons.prems(1) by (auto simp: list_all2_Cons1)
  obtain old rest where olds: "olds = old # rest" "length rest = length ps" using Cons.prems(2) by (cases olds) auto
  obtain items where items: "getVar_items sg avail now ticket srv (i + 1) ps rest = Some items" "length items = length ps"
      "\<forall>j<length ps. item_answers now ticket srv (vs ! j) (rest ! j) (items ! j)"
    using Cons.IH [OF ws(3) olds(2)] by blast
  have "\<exists>item. (if res = KS_ERR_OK then getVarItem sg (avail i) now ticket srv p old else Some (old\<lparr>rp_result := res\<rparr>)) = Some item \<and>
      item_answers now ticket srv w old item"
  proof (cases w)
    case None
    then show ?thesis using ws(2) not_OK_BADPATH by (simp add: r item_answers_def)
  next
    case (Some cs)
    then obtain ds where "res = KS_ERR_OK" "go_up p = 0" "decoded cs ds" "layout p [0x2F] ds" using ws(2) r by auto
    then show ?thesis using getVarItem_answers [OF assms(1), of p ds cs "avail i"] assms(4) Some by simp
  qed
  then obtain item where "(if res = KS_ERR_OK then getVarItem sg (avail i) now ticket srv p old else Some (old\<lparr>rp_result := res\<rparr>)) = Some item"
      "item_answers now ticket srv w old item" by blast
  then show ?case using items by (auto simp: r olds ws(1) nth_Cons split: nat.splits)
qed simp

text \<open>
  C7. Reading a list of variables whose paths are well formed and the first of which is absolute: \<open>getVar\<close> returns, with one item for every
  path, and each item is what the object at the end of the resolved path answers, or the error that says why there is none: no
  permission, a path to nothing, an object without a value, a domain.
\<close>

theorem getVar_answers:
  assumes "server_ok sg srv" and "\<forall>n. pmem n" and "new_ok new_char" and "list_all2 denotes (s # ids) ((0, cs) # ds)"
    and "length (resolve_spec cs ds) = length ds" and "length (concat (s # ids)) < 2 ^ 61"
    and "\<forall>d\<in>set ((0, cs) # ds). \<exists>es. decoded (snd d) es" and "length (rp_data old) = length (s # ids)" and "\<forall>i k. avail i k"
  shows "\<exists>items. getVar sg pmem new_char True avail now ticket srv (s # ids) old = Some \<lparr>rp_result = KS_ERR_OK, rp_data = items\<rparr> \<and>
    length items = length (s # ids) \<and>
    (\<forall>j<length (s # ids). item_answers now ticket srv ((Some cs # resolve_spec cs ds) ! j) (rp_data old ! j) (items ! j))"
proof -
  obtain rs where rs: "resolvePaths pmem new_char (s # ids) = Some rs" "list_all2 lands rs (Some cs # resolve_spec cs ds)"
    using resolvePaths_lands [OF assms(2-7)] by blast
  have len: "length rs = length (s # ids)"
    using list_all2_lengthD [OF rs(2)] list_all2_lengthD [OF assms(4)] assms(5) by simp
  show ?thesis
    using getVar_items_answers [OF assms(1) rs(2), of "rp_data old" avail now ticket 0] assms(8,9) len rs(1)
    by (cases old) (auto simp: getVar_def)
qed

theorem getVar_answers_witness:
  "\<exists>srv. getVar True (\<lambda>_. True) (\<lambda>n. Some (replicate n 0)) True (\<lambda>_ _. True) \<lparr>tv_sec = 9, tv_usec = 0\<rparr> (none_ticket 0 0 1) srv
     [[0x2F, 0x61], [0x2F, 0x63]] \<lparr>rp_result = 0, rp_data = [\<lparr>rp_result = 0, rp_data = None\<rparr>, \<lparr>rp_result = 0, rp_data = None\<rparr>]\<rparr> =
     Some \<lparr>rp_result = KS_ERR_OK, rp_data =
       [\<lparr>rp_result = KS_ERR_OK, rp_data = Some (VarCurrProps (Some (IntValue 5)) \<lparr>tv_sec = 1, tv_usec = 0\<rparr> KS_ST_UNKNOWN)\<rparr>,
        \<lparr>rp_result = KS_ERR_BADPATH, rp_data = None\<rparr>]\<rparr>"
proof -
  obtain t e where ok: "server_ok True (sample_server t e)" "ht_map t = [[0x61] \<mapsto> 2]" by (rule sample_ok)
  let ?empty = "\<lparr>rp_result = 0, rp_data = None\<rparr> :: var_item"
  let ?old = "\<lparr>rp_result = 0, rp_data = [?empty, ?empty]\<rparr>" and ?now = "\<lparr>tv_sec = 9, tv_usec = 0\<rparr>" and ?tk = "none_ticket 0 0 1"
  let ?H = "srv_objects (sample_server t e)" and ?v = "sample_variable\<lparr>var_value := Some (IntValue 5)\<rparr>"
  define srv where "srv = sample_server t e\<lparr>srv_objects := ?H(2 \<mapsto> SimpleVariable ?v)\<rparr>"
  have same: "same_tree ?H (?H(2 \<mapsto> SimpleVariable ?v))" by (rule same_tree_variable [where v = sample_variable]) simp_all
  have srv: "server_ok True srv"
    unfolding srv_def using server_okD(3) [OF ok(1)] by (intro same_server [OF ok(1) same]) (simp add: sample_server_def)
  have at: "path_at (srv_objects srv) (srv_root_domain srv) [k] h \<longleftrightarrow> k = [0x61] \<and> h = 2" for k h
    using sample_path [OF ok(2), of e k h] by (simp add: srv_def same_path_at [OF same])
  have two: "srv_objects srv 2 = Some (SimpleVariable ?v)" by (simp add: srv_def)
  let ?ids = "[[0x2F, 0x61], [0x2F, 0x63]]"
  have d: "list_all2 denotes ?ids [(0, [[0x61]]), (0, [[0x63]])]" by (simp add: denotes_def comps_ok_def)
  have u: "unpercent [0x61] = Some [0x61]" "unpercent [0x63] = Some [0x63]" by simp_all
  have c: "decoded [[0x61]] [[0x61]]" "decoded [[0x63]] [[0x63]]" by simp_all
  then have ex: "Ex (decoded [[0x61]])" "Ex (decoded [[0x63]])" by blast+
  obtain items where items: "getVar True (\<lambda>_. True) (\<lambda>n. Some (replicate n 0)) True (\<lambda>_ _. True) ?now ?tk srv ?ids ?old =
        Some \<lparr>rp_result = KS_ERR_OK, rp_data = items\<rparr>" "length items = 2"
      "item_answers ?now ?tk srv (Some [[0x61]]) ?empty (items ! 0)" "item_answers ?now ?tk srv (Some [[0x63]]) ?empty (items ! 1)"
    using getVar_answers [OF srv _ _ d, of "\<lambda>_. True" "\<lambda>n. Some (replicate n 0)" ?old "\<lambda>_ _. True" ?now ?tk] ex
    by (auto simp: new_ok_def All_less_Suc)
  have read: "tk_canReadVar ?tk n" for n by (simp add: none_ticket_def ks_object_consts)
  have "items ! 0 = \<lparr>rp_result = KS_ERR_OK, rp_data = Some (VarCurrProps (Some (IntValue 5)) \<lparr>tv_sec = 1, tv_usec = 0\<rparr> KS_ST_UNKNOWN)\<rparr>"
    using items(3) by (simp add: item_answers_def read u at two object_answers_def) (simp add: sample_variable_def new_variable_def)
  moreover have "items ! 1 = \<lparr>rp_result = KS_ERR_BADPATH, rp_data = None\<rparr>"
    using items(4) by (simp add: item_answers_def read u at)
  moreover have "items = [items ! 0, items ! 1]" using items(2) by (auto simp: numeral_2_eq_2 length_Suc_conv)
  ultimately show ?thesis using items(1) by metis
qed

end
