(* ===== verification/KsServerBrowse.thy ===== *)
theory KsServerBrowse
  imports KsServerSpec
begin

text \<open>
  What browsing a simple server with a mask shows to a ticket, and what adding and removing objects does to the tree.
\<close>

subsection \<open>Browsing\<close>

text \<open>The properties of a child as a client sees them: the access is limited by the ticket, the name is escaped.\<close>

definition limited_ep :: "bool \<Rightarrow> av_ticket \<Rightarrow> byte list \<Rightarrow> kss_object \<Rightarrow> eng_props" where
  "limited_ep sg ticket name ob =
     (the (object_getEP True ob))\<lparr>ep_access_mode := getAccessMode ob AND (getAccess ticket name OR NOT KS_AC_READWRITE),
                                 ep_identifier := escaped sg ksIsValidChar (identifier_of ob)\<rparr>"

lemma getAccess_bits: "getAccess ticket name AND KS_AC_WRITE \<noteq> 0 \<longleftrightarrow> tk_canWriteVar ticket name"
    "getAccess ticket name AND KS_AC_READ \<noteq> 0 \<longleftrightarrow> tk_canReadVar ticket name"
  by (simp_all add: getAccess_def ks_object_consts Let_def)

lemma isVisible_iff: "isVisible ticket name \<longleftrightarrow> tk_canReadVar ticket name \<or> tk_canWriteVar ticket name"
  by (simp add: isVisible_def getAccess_def ks_object_consts Let_def)

lemma limited_bits:
  "ep_access_mode (limited_ep sg ticket name ob) AND KS_AC_WRITE \<noteq> 0 \<longleftrightarrow> getAccessMode ob AND KS_AC_WRITE \<noteq> 0 \<and> tk_canWriteVar ticket name"
  "ep_access_mode (limited_ep sg ticket name ob) AND KS_AC_READ \<noteq> 0 \<longleftrightarrow> getAccessMode ob AND KS_AC_READ \<noteq> 0 \<and> tk_canReadVar ticket name"
proof -
  have two: "(m AND (r OR NOT 3)) AND 2 = (m AND 2) AND (r AND 2)" for m r :: u32 by (intro bit_word_eqI) (auto simp: bit_simps)
  have one: "(m AND (r OR NOT 3)) AND 1 = (m AND 1) AND (r AND 1)" for m r :: u32 by (intro bit_word_eqI) (auto simp: bit_simps)
  show "ep_access_mode (limited_ep sg ticket name ob) AND KS_AC_WRITE \<noteq> 0 \<longleftrightarrow> getAccessMode ob AND KS_AC_WRITE \<noteq> 0 \<and> tk_canWriteVar ticket name"
    using two by (simp add: limited_ep_def getAccess_def ks_object_consts Let_def)
  show "ep_access_mode (limited_ep sg ticket name ob) AND KS_AC_READ \<noteq> 0 \<longleftrightarrow> getAccessMode ob AND KS_AC_READ \<noteq> 0 \<and> tk_canReadVar ticket name"
    using one by (simp add: limited_ep_def getAccess_def ks_object_consts Let_def)
qed

lemma child_eps_all:
  assumes "new_ok new_char" "\<forall>k. avail k" "\<forall>h\<in>set hs. h \<noteq> 0 \<and> H h \<noteq> None"
  shows "child_eps sg new_char avail ticket H prefix k hs =
    Some (map (\<lambda>h. Some (limited_ep sg ticket (concat2 prefix (identifier_of (the (H h)))) (the (H h))))
      (filter (\<lambda>h. isVisible ticket (concat2 prefix (identifier_of (the (H h))))) hs))"
  using assms(3)
  by (induction hs arbitrary: k)
     (auto simp: assms(2) ksStringToPercent_def escape_spec [OF assms(1)] object_getEP_def limited_ep_def)

text \<open>The object a path leads to, with what stands in front of the names of its children. The path of the root is a slash.\<close>

definition leads_to :: "kss_server \<Rightarrow> byte list list \<Rightarrow> byte list list \<Rightarrow> nat \<Rightarrow> byte list \<Rightarrow> bool" where
  "leads_to srv cs ds a prefix \<longleftrightarrow>
     (if cs = [[]] then a = srv_root_domain srv \<and> prefix = [0x2F]
      else path_at (srv_objects srv) (srv_root_domain srv) ds a \<and> prefix = 0x2F # join ds @ [0x2F])"

lemma root_text: "denotes s (0, cs) \<Longrightarrow> str_eq s [0x2F] \<longleftrightarrow> cs = [[]]"
proof -
  assume d: "denotes s (0, cs)"
  then have s: "s = 0x2F # join cs" and c: "comps_ok cs" by (auto simp: denotes_def)
  have "0 \<notin> set (join cs)" using c by (intro join_plain) (auto simp: comps_ok_def)
  then have "cstr s = s" unfolding s by (auto simp: cstr_def takeWhile_eq_all_conv)
  moreover have "join cs = [] \<longleftrightarrow> cs = [[]]" using c by (cases cs rule: join.cases) (auto simp: comps_ok_def)
  moreover have "cstr [0x2F] = [0x2F]" by (simp add: cstr_def)
  ultimately show ?thesis by (simp add: str_eq_def) (simp add: s)
qed

lemma getEP_reaches:
  assumes "server_ok sg srv" "\<forall>n. pmem n" "new_ok new_char" "denotes (ge_path params) (0, cs)" "decoded cs ds" "length (ge_path params) < 2 ^ 61"
    and "leads_to srv cs ds a prefix" "isVisible ticket (0x2F # join ds)"
  shows "getEP sg pmem new_char avail ticket srv params old = getEPOfObject sg new_char avail ticket (srv_objects srv) a prefix params old"
proof -
  obtain p where p: "path_of pmem (ge_path params) = Some p" "represents p 0 cs"
    using parse_denotes [OF assms(2,4)] assms(6) by auto
  then have l: "layout p [0x2F] cs" "go_up p = 0" by (auto simp: represents_def)
  have no: "(0x25 :: byte) \<notin> set [0x2F]" by simp
  obtain q where q: "decodePercents new_char p = Some (KS_ERR_OK, q)" "layout q [0x2F] ds" "go_up q = 0"
    using decodePercents_layout [OF assms(3) l(1) no assms(5)] l(2) by auto
  note lq = layout_path [OF q(2,3)]
  have start: "getEP sg pmem new_char avail ticket srv params old =
      (if str_eq (ge_path params) [0x2F]
       then getEPOfObject sg new_char avail ticket (srv_objects srv) (srv_root_domain srv) (ge_path params) params old
       else do { hc \<leftarrow> getChildByPath sg (srv_objects srv) (srv_root_domain srv) q;
                 if hc \<noteq> 0 then getEPOfObject sg new_char avail ticket (srv_objects srv) hc (concat2 (0x2F # join ds) [0x2F]) params old
                 else Some (old\<lparr>rp_result := KS_ERR_BADPATH\<rparr>) })"
    using layout_path(1,2) [OF l] assms(8) lq(5) by (simp add: getEP_def p(1) q(1))
  show ?thesis
  proof (cases "cs = [[]]")
    case True
    then have "ge_path params = [0x2F]" using assms(4) by (simp add: denotes_def)
    then show ?thesis using start True assms(7) by (simp add: leads_to_def str_eq_def)
  next
    case False
    then have a: "path_at (srv_objects srv) (srv_root_domain srv) ds a" "prefix = 0x2F # join ds @ [0x2F]" using assms(7) by (auto simp: leads_to_def)
    have "0 \<notin> set (join ds)" using q(2) by (intro join_plain) (simp add: layout_def)
    then have "concat2 (0x2F # join ds) [0x2F] = prefix" using a(2) by (simp add: concat2_plain)
    then show ?thesis using start root_text [OF assms(4)] False lookup_path [OF assms(1) lq(1), of a] a(1) lq(4) by simp
  qed
qed

text \<open>
  C9. Browsing the children of an object with a mask: the reply has the properties of exactly those children the iteration delivers that the
  mask and the type mask select and the ticket may see, with their names escaped; a child is shown as readable or writable exactly
  when it is and the ticket allows it under its name.
\<close>

theorem getEP_lists:
  assumes "server_ok sg srv" and "\<forall>n. pmem n" and "new_ok new_char" and "denotes (ge_path params) (0, cs)" and "decoded cs ds"
    and "length (ge_path params) < 2 ^ 61" and "leads_to srv cs ds a prefix" and "isVisible ticket (0x2F # join ds)" and "\<forall>k. avail k"
    and "has_children (srv_objects srv) a" and "\<not> str_eq (ge_name_mask params) []"
    and "ksStringFromPercent new_char (ge_name_mask params) = Some (Inr (render_all ts))" and "\<forall>t\<in>set ts. tok_ok t"
  shows "\<exists>es. getEP sg pmem new_char avail ticket srv params old = Some (old\<lparr>rp_result := KS_ERR_OK, rp_data := rp_data old @ map Some es\<rparr>) \<and>
    set es = {limited_ep sg ticket (concat2 prefix (identifier_of ob)) ob |h ob. listed (srv_objects srv) a h \<and> srv_objects srv h = Some ob \<and>
      typeCode ob AND ge_type_mask params \<noteq> 0 \<and> glob ts (identifier_of ob) \<and> isVisible ticket (concat2 prefix (identifier_of ob))} \<and>
    (\<forall>name ob. (ep_access_mode (limited_ep sg ticket name ob) AND KS_AC_WRITE \<noteq> 0 \<longleftrightarrow>
        getAccessMode ob AND KS_AC_WRITE \<noteq> 0 \<and> tk_canWriteVar ticket name) \<and>
      (ep_access_mode (limited_ep sg ticket name ob) AND KS_AC_READ \<noteq> 0 \<longleftrightarrow>
        getAccessMode ob AND KS_AC_READ \<noteq> 0 \<and> tk_canReadVar ticket name))"
proof -
  let ?H = "srv_objects srv"
  let ?name = "\<lambda>ob. concat2 prefix (identifier_of ob)"
  let ?see = "\<lambda>h. isVisible ticket (?name (the (?H h)))"
  note tree = server_okD(1) [OF assms(1)]
  obtain hs where hs: "masked_children_of True ?H a (render_all ts) (ge_type_mask params) = Some (Some hs)"
      "set hs = {h. listed ?H a h \<and> picked ?H ts (ge_type_mask params) h}"
    using masked_children_spec [OF tree assms(10,13)] by blast
  define es where "es = map (\<lambda>h. limited_ep sg ticket (?name (the (?H h))) (the (?H h))) (filter ?see hs)"
  have "\<forall>h\<in>set hs. h \<noteq> 0 \<and> ?H h \<noteq> None" using hs(2) listed_exists [OF _ tree] by auto
  then have "child_eps sg new_char avail ticket ?H prefix 1 hs = Some (map Some es)"
    using child_eps_all [OF assms(3,9)] by (simp add: es_def comp_def)
  moreover obtain ob where ob: "?H a = Some ob" "typeCode ob = KS_OT_DOMAIN \<or> typeCode ob = KS_OT_LINK"
    using assms(10) by (auto simp: has_children_def)
  ultimately have "getEPOfObject sg new_char avail ticket ?H a prefix params old = Some (old\<lparr>rp_result := KS_ERR_OK, rp_data := rp_data old @ map Some es\<rparr>)"
    using hs(1) assms(9,11,12) by (auto simp: getEPOfObject_def)
  then have "getEP sg pmem new_char avail ticket srv params old = Some (old\<lparr>rp_result := KS_ERR_OK, rp_data := rp_data old @ map Some es\<rparr>)"
    using getEP_reaches [OF assms(1-8)] by simp
  moreover have "set es = {limited_ep sg ticket (?name ob) ob |h ob. listed ?H a h \<and> ?H h = Some ob \<and>
      typeCode ob AND ge_type_mask params \<noteq> 0 \<and> glob ts (identifier_of ob) \<and> isVisible ticket (?name ob)}"
    unfolding es_def set_map set_filter hs(2) picked_def by force
  moreover have "\<forall>name ob. (ep_access_mode (limited_ep sg ticket name ob) AND KS_AC_WRITE \<noteq> 0 \<longleftrightarrow>
        getAccessMode ob AND KS_AC_WRITE \<noteq> 0 \<and> tk_canWriteVar ticket name) \<and>
      (ep_access_mode (limited_ep sg ticket name ob) AND KS_AC_READ \<noteq> 0 \<longleftrightarrow>
        getAccessMode ob AND KS_AC_READ \<noteq> 0 \<and> tk_canReadVar ticket name)"
    by (intro allI conjI) (rule limited_bits)+
  ultimately show ?thesis by (intro exI [of _ es] conjI)
qed

lemma sample_browse: "denotes [0x2F] (0, [[]])" "decoded [[]] [[]]" "leads_to (sample_server t e) [[]] [[]] 1 [0x2F]"
  by (simp_all add: denotes_def comps_ok_def leads_to_def)

theorem getEP_lists_witness:
  "\<exists>srv ep. getEP True (\<lambda>_. True) (\<lambda>n. Some (replicate n 0)) (\<lambda>_. True) (none_ticket 0 0 1) srv
     \<lparr>ge_path = [0x2F], ge_type_mask = KS_OT_VARIABLE, ge_name_mask = [0x2A], ge_scope_flags = 0\<rparr> \<lparr>rp_result = 0, rp_data = []\<rparr> =
       Some \<lparr>rp_result = KS_ERR_OK, rp_data = ep\<rparr> \<and> ep \<noteq> [] \<and> (\<forall>p\<in>set ep. ep_access_mode (the p) AND KS_AC_WRITE = 0)"
proof -
  obtain t e where ok: "server_ok True (sample_server t e)" "ht_map t = [[0x61] \<mapsto> 2]" by (rule sample_ok)
  let ?srv = "sample_server t e"
  let ?params = "\<lparr>ge_path = [0x2F], ge_type_mask = KS_OT_VARIABLE, ge_name_mask = [0x2A], ge_scope_flags = 0\<rparr> :: get_ep_params"
  have vis: "isVisible (none_ticket 0 0 1) n" for n by (simp add: isVisible_iff none_ticket_def ks_object_consts)
  have ch: "has_children (srv_objects ?srv) 1" by (simp add: has_children_def sample_domain_def)
  have mask: "ksStringFromPercent (\<lambda>n. Some (replicate n 0)) (ge_name_mask ?params) = Some (Inr (render_all [Star]))"
    by (simp add: ksStringFromPercent_def)
  obtain es where es: "getEP True (\<lambda>_. True) (\<lambda>n. Some (replicate n 0)) (\<lambda>_. True) (none_ticket 0 0 1) ?srv ?params \<lparr>rp_result = 0, rp_data = []\<rparr> =
        Some \<lparr>rp_result = KS_ERR_OK, rp_data = map Some es\<rparr>"
      "set es = {limited_ep True (none_ticket 0 0 1) (concat2 [0x2F] (identifier_of ob)) ob |h ob. listed (srv_objects ?srv) 1 h \<and>
        srv_objects ?srv h = Some ob \<and> typeCode ob AND KS_OT_VARIABLE \<noteq> 0 \<and> glob [Star] (identifier_of ob) \<and>
        isVisible (none_ticket 0 0 1) (concat2 [0x2F] (identifier_of ob))}"
      "\<forall>name ob. (ep_access_mode (limited_ep True (none_ticket 0 0 1) name ob) AND KS_AC_WRITE \<noteq> 0 \<longleftrightarrow>
        getAccessMode ob AND KS_AC_WRITE \<noteq> 0 \<and> tk_canWriteVar (none_ticket 0 0 1) name)"
    using getEP_lists [where pmem = "\<lambda>_. True" and new_char = "\<lambda>n. Some (replicate n 0)" and params = ?params and avail = "\<lambda>_. True"
        and old = "\<lparr>rp_result = 0, rp_data = []\<rparr>", OF ok(1) _ _ _ sample_browse(2) _ sample_browse(3) vis _ ch _ mask] sample_browse(1)
    by (auto simp: new_ok_def str_eq_def cstr_def)
  have "listed (srv_objects ?srv) 1 2" using ok(2) by (intro own_listed [where k = "[0x61]" and d = "sample_domain [0x2F] t 0"]) simp_all
  moreover have "glob [Star] [0x61]" by simp
  ultimately have "limited_ep True (none_ticket 0 0 1) [0x2F, 0x61] (SimpleVariable sample_variable) \<in> set es"
    unfolding es(2) using vis
    by (intro CollectI exI [of _ 2] exI [of _ "SimpleVariable sample_variable"])
       (simp add: sample_variable_def new_variable_def concat2_plain ks_ot_defs)
  then have "es \<noteq> []" by auto
  moreover have "\<forall>ep\<in>set es. ep_access_mode ep AND KS_AC_WRITE = 0"
    using es(3) unfolding es(2) by (auto simp: none_ticket_def ks_object_consts)
  ultimately show ?thesis using es(1) by (intro exI [of _ ?srv] exI [of _ "map Some es"]) auto
qed

text \<open>
  C28. The properties of an object itself, asked for with an empty mask, are not limited in this way: a ticket without any permission
  to write is told that a variable is writable. The name is not escaped either.
\<close>

theorem own_properties_unlimited:
  assumes "server_ok sg srv" and "\<forall>n. pmem n" and "new_ok new_char" and "denotes (ge_path params) (0, cs)" and "decoded cs ds"
    and "length (ge_path params) < 2 ^ 61" and "leads_to srv cs ds a prefix" and "tk_canReadVar ticket (0x2F # join ds)" and "\<forall>k. avail k"
    and "str_eq (ge_name_mask params) []" and "srv_objects srv a = Some (SimpleVariable v)" and "isWriteable v"
  shows "\<exists>ep. getEP sg pmem new_char avail ticket srv params old = Some (old\<lparr>rp_result := KS_ERR_OK, rp_data := rp_data old @ [Some ep]\<rparr>) \<and>
    ep_access_mode ep AND KS_AC_WRITE \<noteq> 0 \<and> ep_identifier ep = co_identifier (var_object v)"
proof -
  have "isVisible ticket (0x2F # join ds)" using assms(8) by (simp add: isVisible_iff)
  note eq = getEP_reaches [OF assms(1-7) this, of avail old]
  define ep where "ep = the (object_getEP True (SimpleVariable v))"
  have "object_getEP True (SimpleVariable v) = Some ep" by (simp add: ep_def object_getEP_def)
  then have "getEP sg pmem new_char avail ticket srv params old = Some (old\<lparr>rp_result := KS_ERR_OK, rp_data := rp_data old @ [Some ep]\<rparr>)"
    using assms(9-11) by (simp add: eq getEPOfObject_def)
  moreover have "ep_access_mode ep AND KS_AC_WRITE \<noteq> 0" "ep_identifier ep = co_identifier (var_object v)"
    using assms(12) by (simp_all add: ep_def object_getEP_def isWriteable_def)
  ultimately show ?thesis by blast
qed

theorem own_properties_unlimited_witness:
  "\<exists>srv ep. getEP True (\<lambda>_. True) (\<lambda>n. Some (replicate n 0)) (\<lambda>_. True) (none_ticket 0 0 1) srv
     \<lparr>ge_path = [0x2F, 0x61], ge_type_mask = KS_OT_VARIABLE, ge_name_mask = [], ge_scope_flags = 0\<rparr> \<lparr>rp_result = 0, rp_data = []\<rparr> =
       Some \<lparr>rp_result = KS_ERR_OK, rp_data = [Some ep]\<rparr> \<and> ep_access_mode ep AND KS_AC_WRITE \<noteq> 0"
proof -
  obtain t e where ok: "server_ok True (sample_server t e)" "ht_map t = [[0x61] \<mapsto> 2]" by (rule sample_ok)
  let ?srv = "sample_server t e"
  let ?params = "\<lparr>ge_path = [0x2F, 0x61], ge_type_mask = KS_OT_VARIABLE, ge_name_mask = [], ge_scope_flags = 0\<rparr> :: get_ep_params"
  have l: "leads_to ?srv [[0x61]] [[0x61]] 2 [0x2F, 0x61, 0x2F]" using sample_path [OF ok(2), of e "[0x61]" 2] by (simp add: leads_to_def)
  have w: "isWriteable sample_variable" by (simp add: sample_variable_def new_variable_def isWriteable_def ks_object_consts)
  have d: "denotes (ge_path ?params) (0, [[0x61]])" "decoded [[0x61]] [[0x61]]" by (simp_all add: denotes_def comps_ok_def)
  have r: "tk_canReadVar (none_ticket 0 0 1) n" for n by (simp add: none_ticket_def ks_object_consts)
  show ?thesis
    using own_properties_unlimited [where pmem = "\<lambda>_. True" and new_char = "\<lambda>n. Some (replicate n 0)" and params = ?params and avail = "\<lambda>_. True"
        and old = "\<lparr>rp_result = 0, rp_data = []\<rparr>", OF ok(1) _ _ d _ l r _ _ sample_simps(4) w]
    by (auto simp: new_ok_def str_eq_def cstr_def)
qed

subsection \<open>Sisters\<close>

text \<open>
  C29. A domain without own children hides the children of its sister from every iteration, although they are found by name: the iterator
  changes to the sister only when it steps off the last own child.
\<close>

theorem sister_hidden:
  assumes "tree_ok sg H" and "H a = Some (SimpleDomain d)" and "ht_map (dom_children d) = Map.empty" and "dom_next_sister d \<noteq> 0"
    and "child_at H (dom_next_sister d) (cstr i) h"
  shows "getChildById sg H a i = Some h \<and> h \<noteq> 0 \<and> masked_children_of True H a pat types = Some (Some [])"
proof -
  have a: "has_children H a" using assms(2) by (auto simp: has_children_def)
  have c: "child_at H a (cstr i) h" using assms(2-5) by (simp add: child_at_domain)
  obtain g where g: "getChildById sg H a i = Some g" "\<forall>k. child_at H a (cstr i) k \<longleftrightarrow> g = k \<and> k \<noteq> 0"
    using getChildById_spec [OF assms(1) a] by blast
  obtain it where it: "newIterator H a = Some it" "set (iter_children it) = {k. listed H a k}"
    using newIterator_spec [OF assms(1) a] by blast
  have "{k. listed H a k} = {}" using assms(2,3) by (auto simp: listed_domain)
  then have "iter_children it = []" using it(2) by simp
  moreover have "masked_iteration H pat types [] = Some []" by (subst masked_iteration.simps) simp
  ultimately show ?thesis using g c it(1) by (simp add: masked_children_of_def)
qed

theorem sister_hidden_witness:
  "\<exists>srv :: kss_server. getChildById True (srv_objects srv) 3 [0x61] = Some 2 \<and> masked_children_of True (srv_objects srv) 3 [0x2A] KS_OT_VARIABLE = Some (Some [])"
proof -
  obtain t e where ok: "server_ok True (sample_server t e)" "ht_map t = [[0x61] \<mapsto> 2]" "ht_map e = Map.empty" by (rule sample_ok)
  have "child_at (srv_objects (sample_server t e)) 1 (cstr [0x61]) 2" using sample_child [OF ok(2)] by simp
  then show ?thesis
    using sister_hidden [OF server_okD(1) [OF ok(1)] sample_simps(5), of "[0x61]" 2 "[0x2A]" KS_OT_VARIABLE] ok(3)
    by (intro exI [of _ "sample_server t e"]) simp
qed

subsection \<open>Building the tree\<close>

text \<open>The own children of the domains, by domain and name.\<close>

definition own :: "store \<Rightarrow> nat \<times> byte list \<Rightarrow> nat option" where
  "own H = (\<lambda>(a, k). case H a of Some (SimpleDomain d) \<Rightarrow> ht_map (dom_children d) k | _ \<Rightarrow> None)"

lemma tree_ok_table:
  assumes "tree_ok sg H" "H a = Some (SimpleDomain d)" "children_ok sg H t"
  shows "tree_ok sg (H(a \<mapsto> SimpleDomain (d\<lparr>dom_children := t\<rparr>)))"
proof -
  let ?H = "H(a \<mapsto> SimpleDomain (d\<lparr>dom_children := t\<rparr>))"
  have "delegates ?H = delegates H" using assms(2) by (auto simp: delegates_def)
  moreover have "has_children ?H b = has_children H b" for b using assms(2) by (auto simp: has_children_def)
  moreover have "children_ok sg ?H s = children_ok sg H s" for s
  proof -
    have "(\<exists>ob. ?H h = Some ob \<and> k = cstr (identifier_of ob)) \<longleftrightarrow> (\<exists>ob. H h = Some ob \<and> k = cstr (identifier_of ob))" for h k
      using assms(2) by auto
    then show ?thesis by (simp only: children_ok_def)
  qed
  moreover have "?H 0 = None" using assms(2) tree_okD(1) [OF assms(1)] by (cases "a = 0") simp_all
  moreover have "\<forall>b e. ?H b = Some (SimpleDomain e) \<longrightarrow> children_ok sg H (dom_children e)"
    using tree_okD(3) [OF assms(1)] assms(3) by auto
  ultimately show ?thesis using assms(1) by (simp add: tree_ok_def)
qed

lemma server_ok_table:
  assumes "server_ok sg srv" "srv_objects srv a = Some (SimpleDomain d)" "children_ok sg (srv_objects srv) t"
  shows "server_ok sg (srv\<lparr>srv_objects := (srv_objects srv)(a \<mapsto> SimpleDomain (d\<lparr>dom_children := t\<rparr>))\<rparr>)"
  using assms tree_ok_table [OF server_okD(1) [OF assms(1)] assms(2,3)] server_okD(3) [OF assms(1), of a] by (auto simp: server_ok_def)

lemma own_table:
  "H a = Some (SimpleDomain d) \<Longrightarrow> own (H(a \<mapsto> SimpleDomain (d\<lparr>dom_children := t\<rparr>))) = (\<lambda>(b, k). if b = a then ht_map t k else own H (b, k))"
  by (auto simp: own_def fun_eq_iff)

text \<open>
  C17. Adding an object to a domain, and removing one by name, are the insertion and the deletion of one own child: the tree stays well formed, all
  other children stay, a name that is already known, in the domain or its sisters, is refused, and without memory nothing changes.
\<close>

theorem tree_edited:
  assumes "server_ok sg srv" and "valid p" and "isAbsolute p" and "find_domain sg srv p = Some a" and "a \<noteq> 0"
    and "srv_objects srv a = Some (SimpleDomain d)" and "srv_objects srv ho = Some ob"
  shows "(\<exists>ok srv'. addCommObject sg avail p ho srv = Some (ok, srv') \<and> server_ok sg srv' \<and>
      own (srv_objects srv') = (if ok then (own (srv_objects srv))((a, cstr (identifier_of ob)) \<mapsto> ho) else own (srv_objects srv)) \<and>
      (ok \<longrightarrow> (\<forall>h. \<not> child_at (srv_objects srv) a (cstr (identifier_of ob)) h)) \<and>
      ((\<forall>h. \<not> child_at (srv_objects srv) a (cstr (identifier_of ob)) h) \<and> avail 0 \<and> avail 1 \<and>
         (\<exists>c. fits (max (ht_used (dom_children d) + 2) (medium_capacity (dom_children d))) (dom_children d) c) \<longrightarrow> ok)) \<and>
    (\<exists>srv'. removeCommObject sg avail p i srv = Some (own (srv_objects srv) (a, cstr i) \<noteq> None, srv') \<and> server_ok sg srv' \<and>
      own (srv_objects srv') = (own (srv_objects srv))((a, cstr i) := None))"
proof
  let ?H = "srv_objects srv" and ?k = "cstr (identifier_of ob)"
  note tree = server_okD(1) [OF assms(1)]
  have a: "has_children ?H a" using assms(6) by (auto simp: has_children_def)
  have table: "children_ok sg ?H (dom_children d)" by (rule tree_okD(3) [OF tree assms(6)])
  then have inv: "ht_inv (string_hash sg) (dom_children d)" by (simp add: children_ok_def)
  have ho: "ho \<noteq> 0" using assms(7) tree_okD(1) [OF tree] by (metis option.distinct(1))
  obtain h where h: "getChildById sg ?H a (identifier_of ob) = Some h" "\<forall>g. child_at ?H a ?k g \<longleftrightarrow> h = g \<and> g \<noteq> 0"
    using getChildById_spec [OF tree a] by blast
  show "\<exists>ok srv'. addCommObject sg avail p ho srv = Some (ok, srv') \<and> server_ok sg srv' \<and>
      own (srv_objects srv') = (if ok then (own ?H)((a, ?k) \<mapsto> ho) else own ?H) \<and> (ok \<longrightarrow> (\<forall>h. \<not> child_at ?H a ?k h)) \<and>
      ((\<forall>h. \<not> child_at ?H a ?k h) \<and> avail 0 \<and> avail 1 \<and>
         (\<exists>c. fits (max (ht_used (dom_children d) + 2) (medium_capacity (dom_children d))) (dom_children d) c) \<longrightarrow> ok)"
  proof (cases "h = 0")
    case False
    then have "addCommObject sg avail p ho srv = Some (False, srv)" using assms(4-7) h(1) by (simp add: addCommObject_def)
    then show ?thesis using assms(1) h(2) False by (intro exI [of _ False] exI [of _ srv]) auto
  next
    case True
    obtain ok t where t: "ht_add (string_hash sg) (avail 0) (avail 1) ?k ho (dom_children d) = Some (ok, t)" "ht_inv (string_hash sg) t"
        "ok \<Longrightarrow> ht_map t = (ht_map (dom_children d))(?k \<mapsto> ho)" "\<not> ok \<Longrightarrow> ht_map t = ht_map (dom_children d)"
        "ht_map (dom_children d) ?k = None \<and> avail 0 \<and> avail 1 \<and>
         (\<exists>c. fits (max (ht_used (dom_children d) + 2) (medium_capacity (dom_children d))) (dom_children d) c) \<Longrightarrow> ok"
      using ht_add_ok [OF inv, of "avail 0" "avail 1" ?k ho] by blast
    let ?S = "srv\<lparr>srv_objects := ?H(a \<mapsto> SimpleDomain (d\<lparr>dom_children := t\<rparr>))\<rparr>"
    have A: "addCommObject sg avail p ho srv = Some (ok, ?S)"
      using assms(4-7) h(1) True ho t(1) by (simp add: addCommObject_def addChild_def)
    have "children_ok sg ?H t" using table t(2-4) assms(7) by (cases ok) (auto simp: children_ok_def)
    then have B: "server_ok sg ?S" by (rule server_ok_table [OF assms(1,6)])
    have C: "own (srv_objects ?S) = (if ok then (own ?H)((a, ?k) \<mapsto> ho) else own ?H)"
      using own_table [where H = ?H, OF assms(6), of t] t(3,4) assms(6) by (auto simp: own_def fun_eq_iff)
    have free: "\<forall>h. \<not> child_at ?H a ?k h"
    proof
      fix g
      show "\<not> child_at ?H a ?k g" using h(2) [THEN spec, of g] True by (cases "g = 0") simp_all
    qed
    then have "ht_map (dom_children d) ?k = None" using own_child [of ?H a d ?k] assms(6) by (cases "ht_map (dom_children d) ?k") auto
    then show ?thesis using A B C free t(5) by (intro exI conjI impI) blast+
  qed
  obtain t where t: "ht_remove (string_hash sg) (avail 0) (cstr i) (dom_children d) = Some (ht_map (dom_children d) (cstr i), t)"
      "ht_inv (string_hash sg) t" "ht_map t = (ht_map (dom_children d))(cstr i := None)"
    using ht_remove_ok [OF inv] by blast
  let ?S = "srv\<lparr>srv_objects := ?H(a \<mapsto> SimpleDomain (d\<lparr>dom_children := t\<rparr>))\<rparr>"
  have "ht_map (dom_children d) (cstr i) = Some g \<Longrightarrow> g \<noteq> 0" for g using child_exists [OF tree assms(6)] by metis
  then have "removeCommObject sg avail p i srv = Some (own ?H (a, cstr i) \<noteq> None, ?S)"
    using assms(4-6) t(1) by (auto simp: removeCommObject_def removeChild_def own_def split: option.splits)
  moreover have "children_ok sg ?H t" using table t(2,3) by (auto simp: children_ok_def)
  then have "server_ok sg ?S" by (rule server_ok_table [OF assms(1,6)])
  moreover have "own (srv_objects ?S) = (own ?H)((a, cstr i) := None)"
    using own_table [where H = ?H, OF assms(6), of t] t(3) assms(6) by (auto simp: own_def fun_eq_iff)
  ultimately show "\<exists>srv'. removeCommObject sg avail p i srv = Some (own ?H (a, cstr i) \<noteq> None, srv') \<and> server_ok sg srv' \<and>
      own (srv_objects srv') = (own ?H)((a, cstr i) := None)" by blast
qed

theorem tree_edited_witness:
  "\<exists>srv srv' p. path_of (\<lambda>_. True) [0x2F] = Some p \<and> removeCommObject True (\<lambda>_. True) p [0x61] srv = Some (True, srv') \<and>
     own (srv_objects srv) (1, [0x61]) = Some 2 \<and> own (srv_objects srv') (1, [0x61]) = None"
proof -
  obtain t e where ok: "server_ok True (sample_server t e)" "ht_map t = [[0x61] \<mapsto> 2]" by (rule sample_ok)
  let ?srv = "sample_server t e"
  have "comps_ok [[]]" by (simp add: comps_ok_def)
  then obtain p where p: "path_of (\<lambda>_. True) [0x2F] = Some p" "represents p 0 [[]]"
    using parse_absolute [of "\<lambda>_. True" "[[]]"] by auto
  then have lay: "layout p [0x2F] [[]]" "go_up p = 0" by (auto simp: represents_def)
  note q = layout_path(1-3) [OF lay]
  have one: "path_size p = 1" using q(3) path_size_pos [OF q(1)] by (metis components_def length_map length_upt diff_zero list.size(3,4) One_nat_def add.commute plus_1_eq_Suc)
  then have "getHead p = []" using components_single [OF one] q(3) by simp
  then have find: "find_domain True ?srv p = Some 1" using q one by (simp add: find_domain_def getHead_def str_eq_def cstr_def)
  have own: "own (srv_objects ?srv) (1, [0x61]) = Some 2" using ok(2) by (simp add: own_def sample_domain_def)
  obtain srv' where "removeCommObject True (\<lambda>_. True) p [0x61] ?srv = Some (own (srv_objects ?srv) (1, cstr [0x61]) \<noteq> None, srv')"
      "own (srv_objects srv') = (own (srv_objects ?srv))((1, cstr [0x61]) := None)"
    using tree_edited [OF ok(1) q(1,2) find _ _ sample_simps(4), of _ "\<lambda>_. True" "[0x61]"] by (auto simp: sample_domain_def)
  then show ?thesis using p(1) own by (intro exI [of _ ?srv] exI [of _ srv'] exI [of _ p]) simp
qed

end
