(* ===== verification/Spec2Isabelle.thy ===== *)
theory Spec2Isabelle
  imports PltTime PltPriorityQueue Float32 PltHashTable XdrMem KsMemStream KsValue KsPath KsTcpSend KsMask KsManagerSpec KsObjMgrParams KsServerBrowse
begin

text \<open>
  ACPLT/KS is a client/server system for process control: servers offer a tree of communication objects (domains,
  variables, histories), clients read and write it with remote procedure calls over TCP, and on every host a manager, itself a
  server, keeps a table of the servers that run there. This development models the parts of the C++ and C code that carry
  this service and proves what they promise, or shows where they do not.

  \<^bold>\<open>The parts and how they interact.\<close> A request arrives in pieces on a socket. The connection (ks/xdrtcpcon) collects it in a
  buffered stream (ks/xdrmemstream) and decodes its header (ks/rpcproto) with the XDR routines (oncrpc/librpc). The server
  decodes the parameters, which are made of strings, times, arrays and values (ks/xdr, ks/value), resolves the
  paths in them (ks/path, ks/conversions), selects objects by name masks (ks/mask), answers, and the connection sends the
  reply from the same stream. Timers wait in a priority queue (plt/priorityqueue) ordered by time (plt/time); domains and the manager
  (ks/manager) keep their tables in hash tables (plt/hashtable).

  \<^bold>\<open>Theories and the code they model\<close>, each with its operations in the order of the code:

  \<^item> \<open>KsPrelude\<close>: machine types, hint collections, lemmas on lists.
  \<^item> \<open>PltTime\<close> (plt/include/plt/time.h): time stamps and spans. Every operation is the one expected on the number of
    microseconds, and its result is canonical.
  \<^item> \<open>PltPriorityQueue\<close> (plt/include/plt/priorityqueue_impl.h): a heap in a growing array, with the locales
    \<open>min_queue\<close> and \<open>drained_queue\<close>; the timer queue of a server is emptied in the order of times.
  \<^item> \<open>Float32\<close>, \<open>PltHashTable\<close> (plt/src/hashtable.cpp, plt/include/plt/hashtable_impl.h): the part of single precision arithmetic the water
    marks use, and open addressing with probing loops that may not end (\<open>partial_function\<close>). On a well-formed table they end, and
    the table refines a map: locale \<open>dictionary\<close>.
  \<^item> \<open>XdrStream\<close>, \<open>XdrFilters\<close>, \<open>XdrMem\<close> (oncrpc/rpc/xdr.h, oncrpc/librpc/xdr.c, xdr_arra.c, xdr_refe.c, xdr_floa.c, xdr_mem.c):
    the interface of a stream as the locales \<open>long_sink\<close>, \<open>byte_sink\<close>, \<open>long_source\<close>, \<open>byte_source\<close>, in which the round trips of the routines are
    proved once, and the stream over a buffer, which provides the first and the third.
  \<^item> \<open>KsMemStream\<close> (ks/src/xdrmemstream.cpp): streams over linked fragments in an explicit store, with a shared free
    list. It provides all four interfaces.
  \<^item> \<open>KsCodec\<close>, \<open>KsValue\<close> (ks/include/ks/xdr.h, ks/src/string.cpp, time.cpp, ks/include/ks/array_impl.h, ks/src/value.cpp): how objects serialize
    themselves, and the twenty classes of values.
  \<^item> \<open>KsConversions\<close>, \<open>KsPath\<close> (ks/src/conversions.cpp, ks/src/path.cpp): percent encoding, path names and their resolution.
  \<^item> \<open>KsMask\<close> (ks/src/mask.cpp, ks/src/svrobjects.cpp): name masks against a reference definition of matching, and the masked iterator.
  \<^item> \<open>KsRpcHeader\<close>, \<open>KsResult\<close> (ks/src/rpcproto.cpp, ks/include/ks/ks.h): RPC headers, result codes.
  \<^item> \<open>KsTcpConnection\<close>, \<open>KsTcpInvariant\<close>, \<open>KsTcpReceive\<close>, \<open>KsTcpSend\<close> (ks/src/xdrtcpcon.cpp, ks/src/connection.cpp): the automaton of a connection
    over any socket, its invariant, and that it assembles any request and sends any reply, however the socket splits them.
  \<^item> \<open>KsProps\<close>, \<open>KsServiceParams\<close>, \<open>KsObjMgrParams\<close> (ks/src/props.cpp, propsv1.cpp, serviceparams.cpp, objmgrparams.cpp, result.cpp,
    ks/include/ks/handle_impl.h, list_impl.h): the properties of objects and the parameters and results of all services but the history
    service, with their round trips over a buffered stream.
  \<^item> \<open>KsObjects\<close>, \<open>KsObjectTree\<close> (ks/src/svrobjects.cpp, svrsimpleobjects.cpp): communication objects in a store, lookup by name and path
    through sisters and links, iteration, properties; the relations \<open>child_at\<close>, \<open>path_at\<close> and \<open>listed\<close> these functions compute.
  \<^item> \<open>KsSimpleServer\<close>, \<open>KsServerSpec\<close>, \<open>KsServerBrowse\<close> (ks/src/simpleserver.cpp, parts of ks/src/avticket.cpp): the services of a server on its tree
    of objects, from the texts of a request to the items of the reply; what writing changes for later reads, what browsing shows to a ticket, and
    that the tree stays well formed.
  \<^item> \<open>KsRegister\<close> (ks/src/register.cpp, parts of plt/src/string.cpp): the messages to the manager.
  \<^item> \<open>KsManager\<close>, \<open>KsManagerInv\<close>, \<open>KsManagerTimers\<close>, \<open>KsManagerSpec\<close> (ks/src/manager.cpp, parts of ks/src/svrbase.cpp, event.cpp,
    svrsimpleobjects.cpp): the manager over heaps of registrations, timer events and domains, its invariant, the registry it refines,
    its timers, and the states it can reach.

  \<^bold>\<open>Conventions.\<close> Objects that are shared or linked live in a store, a map from addresses; 0 is the null pointer. An operation
  that uses a null or dangling pointer, leaves an array, fails an assertion or does not return has the result \<open>None\<close>, so a
  theorem that gives a result also excludes all of these. Errors the code handles are values: booleans, result codes, options
  inside the result. What the code cannot know is a parameter: the outcome of an allocation (\<open>avail\<close>, \<open>mem\<close>, \<open>mal\<close>, \<open>env\<close>), reads and writes
  of a socket (\<open>rd\<close>, \<open>wr\<close>), the time (\<open>now\<close>), the answers of the portmapper (\<open>pm\<close>), the hash function of the keys. \<open>sg\<close> tells whether plain
  \<open>char\<close> is signed. \<open>long\<close> has 32 bits, which the XDR routines require, addresses and \<open>size_t\<close> have 64; strings are lists of bytes.
  \<open>arch\<close> tells which macro the compiler predefines for its processor; the code for \<open>double\<close> asks for it, and on \<open>X64\<close> a double comes back with
  its halves swapped (\<open>heard\<close>), so the round trips of values and messages hold for every \<open>arch\<close> and say what arrives.

  \<^bold>\<open>Widths and memory.\<close> The lengths of fragments are words. Where the streams convert one to \<open>int\<close> to count a transfer (\<open>transfer_count\<close>), one of
  \<open>2 ^ 31\<close> or more becomes negative and the transfer fails; the theorems on transfers assume smaller ones. \<open>time_now\<close> wraps around at 32
  bits. The manager starts with the timer that collects garbage in the pool of fragments (\<open>stream_pool\<close>); what the streams
  do to the pool between its steps is any change to a pool that can be collected (\<open>traffic\<close>). The states the manager reaches (\<open>manager_run\<close>) are those without a
  registration that runs out of memory for the tree below \<open>/servers\<close> (\<open>enough\<close>); \<open>failed_allocation_breaks\<close> shows what such a one does.

  \<^bold>\<open>Fuel and termination.\<close> Loops that the code bounds are structural or \<open>function\<close>s with a measure. Loops it does not bound (probing,
  matching with masks, the loops over a socket) are partial functions, where a value means that they end. \<open>drive\<close> and
  \<open>run_timers\<close> have fuel: as many calls of \<open>receive\<close> as the message has bytes on the wire, and two timers for every entry of the
  queue, suffice.

  \<^bold>\<open>Not modelled.\<close> The client side (ks/src/client.cpp, clntpath.cpp, commobject.cpp, package.cpp, server.cpp), which hands requests to the RPC
  library and keeps results; the dispatch of the services (svrbase.cpp), proxies (interserver.cpp), the vendor information of a simple server; the connection manager's choice of ready sockets and UDP (connectionmgr.cpp, xdrudpcon.cpp), the opening of sockets when a server starts;
  histories; access control beyond the permissions of tickets; the services of Windows; the RPC library beyond its XDR part, its compiler and its
  service programs; logging, debugging and the containers of plt these parts do not use. Multi-threading does not occur
  in the code. PROJECT.json lists these parts with reasons.
\<close>

end
